(* ===== verification/Prelude.thy ===== *)
theory Prelude
  imports Main "HOL-Library.AList" "HOL-Library.Sublist"
begin

text \<open>
  The shared base of the development: how the constructs of the TypeScript frontend are read in HOL.

  \<^item> A JavaScript \<open>Map\<close> is an association list in insertion order: \<open>map_of\<close> is \<open>get\<close>,
    \<open>AList.update\<close> is \<open>set\<close> (an existing key keeps its place, a new one goes to the end) and
    \<open>AList.delete\<close> is \<open>delete\<close>. \<open>map_ok\<close> says that no key occurs twice.
  \<^item> A JavaScript \<open>Set\<close> is a list without repetition, \<open>set_add\<close> is \<open>add\<close>.
  \<^item> Strings are char lists, one char per code unit; the code's own strings are ASCII but for the
    ellipsis, which is written as the char 0x85 that the Windows code page 1252 gives it.
  \<^item> Timestamps are \<open>int\<close>: every wire timestamp becomes \<open>Number(seconds) * 1000 + floor(nanos / 1e6)\<close>
    and \<open>Date.now()\<close> is integral; \<open>etime\<close> adds positive infinity.
  \<^item> \<open>Array.sort\<close> with a numeric comparator on a key is the stable \<open>sort_key\<close>.
\<close>

section \<open>Collections of facts\<close>

named_theorems js_simps \<open>unfolding rules for the JavaScript helpers\<close>
named_theorems wf_intros \<open>operations keep the well-formedness of their component\<close>

section \<open>Maps and sets in insertion order\<close>

type_synonym ('k, 'v) jsmap = "('k \<times> 'v) list"

definition map_ok :: "('k, 'v) jsmap \<Rightarrow> bool" where
  "map_ok m = distinct (map fst m)"

definition map_has :: "('k, 'v) jsmap \<Rightarrow> 'k \<Rightarrow> bool" where
  "map_has m k = (map_of m k \<noteq> None)"

definition set_add :: "'a \<Rightarrow> 'a list \<Rightarrow> 'a list" where
  "set_add x xs = (if x \<in> set xs then xs else xs @ [x])"

lemma map_ok_Nil [simp, wf_intros]: "map_ok []"
  by (simp add: map_ok_def)

lemma map_ok_update [simp, wf_intros]: "map_ok m \<Longrightarrow> map_ok (AList.update k v m)"
  by (simp add: map_ok_def distinct_update)

lemma map_ok_delete [simp, wf_intros]: "map_ok m \<Longrightarrow> map_ok (AList.delete k m)"
  by (simp add: map_ok_def distinct_delete)

lemma map_of_update [simp]: "map_of (AList.update k v m) k' = (if k' = k then Some v else map_of m k')"
  by (simp add: update_conv')

lemma map_of_delete [simp]: "map_of (AList.delete k m) k' = (if k' = k then None else map_of m k')"
  by (simp add: delete_conv')

lemma map_has_iff: "map_has m k \<longleftrightarrow> k \<in> fst ` set m"
  by (simp add: map_has_def map_of_eq_None_iff)

lemma map_has_update [simp]: "map_has (AList.update k v m) k' \<longleftrightarrow> k' = k \<or> map_has m k'"
  by (auto simp: map_has_def)

lemma map_has_delete [simp]: "map_has (AList.delete k m) k' \<longleftrightarrow> k' \<noteq> k \<and> map_has m k'"
  by (auto simp: map_has_def)

lemma map_has_Nil [simp]: "\<not> map_has [] k"
  by (simp add: map_has_def)

lemma fst_set_update: "fst ` set (AList.update k v m) = insert k (fst ` set m)"
  by (induction m) auto

lemma map_of_key: "map_of m k = Some v \<Longrightarrow> k \<in> fst ` set m"
  by (force dest: map_of_SomeD)

lemma fst_set_update_old: "map_of m k = Some v \<Longrightarrow> fst ` set (AList.update k w m) = fst ` set m"
  by (simp add: fst_set_update insert_absorb map_of_key)

lemma keys_update_old: "map_has m k \<Longrightarrow> map fst (AList.update k v m) = map fst m"
  by (induction m) (auto simp: map_has_iff)

lemma update_new: "\<not> map_has m k \<Longrightarrow> AList.update k v m = m @ [(k, v)]"
  by (induction m) (auto simp: map_has_iff)

lemma length_update_old: "map_has m k \<Longrightarrow> length (AList.update k v m) = length m"
  using keys_update_old [of m k v] by (metis length_map)

lemma set_delete: "set (AList.delete k m) = {p \<in> set m. fst p \<noteq> k}"
  by (induction m) auto

lemma set_update_ok: "map_ok m \<Longrightarrow> set (AList.update k v m) = insert (k, v) {p \<in> set m. fst p \<noteq> k}"
  by (induction m) (auto simp: map_ok_def image_iff)

lemma set_update_subset: "set (AList.update k v m) \<subseteq> insert (k, v) (set m)"
  by (induction m) auto

lemma keys_delete: "map fst (AList.delete k m) = filter (\<lambda>k'. k' \<noteq> k) (map fst m)"
  by (induction m) auto

lemma set_set_add [simp]: "set (set_add x xs) = insert x (set xs)"
  by (auto simp: set_add_def)

lemma distinct_set_add [simp, wf_intros]: "distinct xs \<Longrightarrow> distinct (set_add x xs)"
  by (auto simp: set_add_def)

lemma map_filter_total:
  "set xs \<subseteq> fst ` set m \<Longrightarrow> List.map_filter (map_of m) xs = map (\<lambda>k. the (map_of m k)) xs"
  by (induction xs) (auto simp: List.map_filter_simps map_of_eq_None_iff split: option.splits)

lemma find_append: "find P (xs @ ys) = (case find P xs of None \<Rightarrow> find P ys | Some x \<Rightarrow> Some x)"
  by (induction xs) auto

lemma option_eq_all: "\<forall>z. (x = Some z) = (y = Some z) \<Longrightarrow> x = y"
  by (cases x; cases y) auto

lemma list_ex_image: "list_ex (\<lambda>x. f x = v) xs \<longleftrightarrow> v \<in> f ` set xs"
  by (auto simp: list_ex_iff)

section \<open>Strings\<close>

definition or_str :: "string \<Rightarrow> string \<Rightarrow> string" where
  \<comment> \<open>\<open>a || b\<close> on strings: the empty string is falsy\<close>
  "or_str a b = (if a = [] then b else a)"

definition ends_with :: "string \<Rightarrow> string \<Rightarrow> bool" where
  "ends_with s t = suffix t s"

definition starts_with :: "string \<Rightarrow> string \<Rightarrow> bool" where
  "starts_with s t = prefix t s"

fun digits10 :: "nat \<Rightarrow> string" where
  "digits10 n = (if n < 10 then [char_of (48 + n)] else digits10 (n div 10) @ [char_of (48 + n mod 10)])"

declare digits10.simps [simp del]

definition js_int :: "int \<Rightarrow> string" where
  \<comment> \<open>\<open>String(n)\<close> for an integral number below \<open>1e21\<close> in size\<close>
  "js_int i = (if i < 0 then CHR ''-'' # digits10 (nat (- i)) else digits10 (nat i))"

definition dec_char :: "char \<Rightarrow> nat" where
  "dec_char c = of_char c - 48"

definition dec_value :: "string \<Rightarrow> nat" where
  "dec_value s = foldl (\<lambda>a c. 10 * a + dec_char c) 0 s"

lemma dec_char_digit: "d < 10 \<Longrightarrow> dec_char (char_of (48 + d)) = d"
  by (simp add: dec_char_def take_bit_nat_eq_self)

lemma dec_value_digits10 [simp]: "dec_value (digits10 n) = n"
proof (induction n rule: digits10.induct)
  case (1 n)
  show ?case
  proof (cases "n < 10")
    case True
    then show ?thesis by (simp add: digits10.simps [of n] dec_value_def dec_char_digit)
  next
    case False
    then have "dec_value (digits10 n) = 10 * dec_value (digits10 (n div 10)) + n mod 10"
      by (subst digits10.simps) (simp add: dec_value_def dec_char_digit)
    with "1.IH" [OF False] show ?thesis by simp
  qed
qed

lemma digits10_inj: "digits10 m = digits10 n \<longleftrightarrow> m = n"
  by (metis dec_value_digits10)

lemma digits10_neq_Nil [simp]: "digits10 n \<noteq> []"
  by (subst digits10.simps) simp

lemma digits10_no_minus: "CHR ''-'' \<notin> set (digits10 n)"
proof (induction n rule: digits10.induct)
  case (1 n)
  have d: "CHR ''-'' \<noteq> char_of (48 + k)" if "k < 10" for k :: nat
  proof
    assume "CHR ''-'' = char_of (48 + k)"
    then have "of_char (CHR ''-'') = (of_char (char_of (48 + k)) :: nat)" by simp
    with that show False by (simp add: take_bit_nat_eq_self)
  qed
  show ?case
  proof (cases "n < 10")
    case True
    then show ?thesis by (simp add: digits10.simps [of n] d)
  next
    case False
    then show ?thesis using "1.IH" by (subst digits10.simps) (simp add: d)
  qed
qed

lemma js_int_inj [simp]: "js_int i = js_int j \<longleftrightarrow> i = j"
proof
  assume eq: "js_int i = js_int j"
  have not_neg: "digits10 n \<noteq> CHR ''-'' # s" for n s
    using digits10_no_minus [of n] by (metis list.set_intros(1))
  from eq not_neg not_neg [symmetric] show "i = j"
    by (cases "i < 0"; cases "j < 0") (auto simp: js_int_def digits10_inj)
qed simp

definition to_lower_char :: "char \<Rightarrow> char" where
  "to_lower_char c = (let n = (of_char c :: nat) in if 65 \<le> n \<and> n \<le> 90 then char_of (n + 32) else c)"

definition to_upper_char :: "char \<Rightarrow> char" where
  "to_upper_char c = (let n = (of_char c :: nat) in if 97 \<le> n \<and> n \<le> 122 then char_of (n - 32) else c)"

definition to_lower :: "string \<Rightarrow> string" where
  \<comment> \<open>\<open>toLowerCase\<close> on ASCII\<close>
  "to_lower s = map to_lower_char s"

definition to_upper :: "string \<Rightarrow> string" where
  "to_upper s = map to_upper_char s"

lemma length_to_lower [simp]: "length (to_lower s) = length s"
  by (simp add: to_lower_def)

lemma to_lower_Nil_iff [simp]: "to_lower s = [] \<longleftrightarrow> s = []" "to_lower [] = []"
  by (simp_all add: to_lower_def)

lemma or_str_simps [simp]: "or_str [] b = b" "or_str a [] = a" "a \<noteq> [] \<Longrightarrow> or_str a b = a"
  by (simp_all add: or_str_def)

section \<open>Times with positive infinity\<close>

datatype etime = Fin int | PInf

instantiation etime :: linorder
begin

fun less_eq_etime :: "etime \<Rightarrow> etime \<Rightarrow> bool" where
  "less_eq_etime (Fin a) (Fin b) = (a \<le> b)"
| "less_eq_etime _ PInf = True"
| "less_eq_etime PInf (Fin _) = False"

definition less_etime :: "etime \<Rightarrow> etime \<Rightarrow> bool" where
  "less_etime a b = (a \<le> b \<and> \<not> b \<le> a)"

instance
proof
  fix x y z :: etime
  show "(x < y) = (x \<le> y \<and> \<not> y \<le> x)" by (simp add: less_etime_def)
  show "x \<le> x" by (cases x) auto
  show "x \<le> y \<Longrightarrow> y \<le> z \<Longrightarrow> x \<le> z" by (cases x; cases y; cases z) auto
  show "x \<le> y \<Longrightarrow> y \<le> x \<Longrightarrow> x = y" by (cases x; cases y) auto
  show "x \<le> y \<or> y \<le> x" by (cases x; cases y) auto
qed

end

lemma etime_less_simps [simp]:
  "Fin a < Fin b \<longleftrightarrow> a < b" "Fin a < PInf" "\<not> PInf < x" "x \<le> PInf"
  by (cases x; auto simp: less_etime_def)+

section \<open>The loops of the code on arrays\<close>

text \<open>Insertion from the tail: \<open>let i = arr.length; while (i > 0 && p(arr[i - 1])) i--\<close>.\<close>

fun back_scan :: "('a \<Rightarrow> bool) \<Rightarrow> 'a list \<Rightarrow> nat \<Rightarrow> nat" where
  "back_scan p xs 0 = 0"
| "back_scan p xs (Suc i) = (if p (xs ! i) then back_scan p xs i else Suc i)"

definition splice_in :: "nat \<Rightarrow> 'a \<Rightarrow> 'a list \<Rightarrow> 'a list" where
  \<comment> \<open>\<open>arr.splice(i, 0, x)\<close>\<close>
  "splice_in i x xs = take i xs @ x # drop i xs"

text \<open>
  The binary search loop: \<open>while (lo < hi) { mid = (lo + hi) >>> 1; if (p(mid)) lo = mid + 1; else hi = mid; }\<close>.
\<close>

function bsearch :: "(nat \<Rightarrow> bool) \<Rightarrow> nat \<Rightarrow> nat \<Rightarrow> nat" where
  "bsearch p lo hi =
     (if lo < hi
      then (let mid = (lo + hi) div 2 in if p mid then bsearch p (mid + 1) hi else bsearch p lo mid)
      else lo)"
  by pat_completeness auto
termination
  by (relation "measure (\<lambda>(p, lo, hi). hi - lo)") auto

declare bsearch.simps [simp del]

lemma set_splice_in [simp]: "set (splice_in i x xs) = insert x (set xs)"
proof -
  have "set (take i xs) \<union> set (drop i xs) = set xs"
    by (metis append_take_drop_id set_append)
  then show ?thesis by (auto simp: splice_in_def)
qed

lemma length_splice_in [simp]: "length (splice_in i x xs) = Suc (length xs)"
  by (simp add: splice_in_def)

lemma distinct_splice_in: "distinct xs \<Longrightarrow> x \<notin> set xs \<Longrightarrow> distinct (splice_in i x xs)"
  by (auto simp: splice_in_def set_take_disj_set_drop_if_distinct dest: in_set_takeD in_set_dropD)

lemma splice_in_length: "splice_in (length xs) x xs = xs @ [x]"
  by (simp add: splice_in_def)

lemma map_splice_in: "map f (splice_in i x xs) = splice_in i (f x) (map f xs)"
  by (simp add: splice_in_def take_map drop_map)

lemma filter_splice_in: "\<not> P x \<Longrightarrow> filter P (splice_in i x xs) = filter P xs"
  by (simp add: splice_in_def) (metis append_take_drop_id filter_append)

lemma back_scan_le: "back_scan p xs n \<le> n"
  by (induction n) auto

lemma back_scan_after: "back_scan p xs n \<le> j \<Longrightarrow> j < n \<Longrightarrow> p (xs ! j)"
  by (induction n) (auto split: if_splits simp: less_Suc_eq)

lemma back_scan_before: "0 < back_scan p xs n \<Longrightarrow> \<not> p (xs ! (back_scan p xs n - 1))"
  by (induction n) auto

lemma sorted_splice_in:
  fixes f :: "'a \<Rightarrow> 'b::linorder"
  assumes s: "sorted (map f xs)" and i: "i \<le> length xs"
    and before: "\<forall>j<i. f (xs ! j) \<le> f x" and after: "\<forall>j. i \<le> j \<and> j < length xs \<longrightarrow> f x \<le> f (xs ! j)"
  shows "sorted (map f (splice_in i x xs))"
proof -
  have t: "\<forall>y\<in>set (take i xs). f y \<le> f x"
    using before i by (auto simp: in_set_conv_nth)
  have d: "\<forall>y\<in>set (drop i xs). f x \<le> f y"
  proof
    fix y assume "y \<in> set (drop i xs)"
    then obtain k where "k < length xs - i" "y = xs ! (i + k)"
      by (auto simp: in_set_conv_nth)
    with after show "f x \<le> f y" by auto
  qed
  have "sorted (map f (take i xs @ drop i xs))" using s by simp
  then have "sorted (map f (take i xs))" "sorted (map f (drop i xs))"
    by (auto simp: sorted_append simp del: append_take_drop_id)
  with t d show ?thesis
    by (fastforce simp: splice_in_def sorted_append)
qed

lemma sorted_back_scan_insert:
  fixes f :: "'a \<Rightarrow> 'b::linorder"
  assumes s: "sorted (map f xs)"
  shows "sorted (map f (splice_in (back_scan (\<lambda>y. f x < f y) xs (length xs)) x xs))"
proof -
  let ?i = "back_scan (\<lambda>y. f x < f y) xs (length xs)"
  have i: "?i \<le> length xs" by (rule back_scan_le)
  have before: "\<forall>j<?i. f (xs ! j) \<le> f x"
  proof (intro allI impI)
    fix j assume j: "j < ?i"
    then have "\<not> f x < f (xs ! (?i - 1))" by (intro back_scan_before) simp
    moreover have "map f xs ! j \<le> map f xs ! (?i - 1)"
      using j i by (intro sorted_nth_mono [OF s]) auto
    ultimately show "f (xs ! j) \<le> f x" using j i by auto
  qed
  have after: "\<forall>j. ?i \<le> j \<and> j < length xs \<longrightarrow> f x \<le> f (xs ! j)"
    using back_scan_after [of "\<lambda>y. f x < f y" xs "length xs"] by (meson less_imp_le)
  from s i before after show ?thesis by (rule sorted_splice_in)
qed

definition splits_at :: "(nat \<Rightarrow> bool) \<Rightarrow> nat \<Rightarrow> nat \<Rightarrow> bool" where
  "splits_at p n r = (r \<le> n \<and> (\<forall>j<r. p j) \<and> (\<forall>j. r \<le> j \<longrightarrow> j < n \<longrightarrow> \<not> p j))"

lemma splits_atD:
  assumes "splits_at p n r"
  shows "r \<le> n" and "j < r \<Longrightarrow> p j" and "r \<le> j \<Longrightarrow> j < n \<Longrightarrow> \<not> p j"
  using assms by (auto simp: splits_at_def)

lemma bsearch_split:
  assumes "\<forall>i j. i \<le> j \<longrightarrow> j < n \<longrightarrow> p j \<longrightarrow> p i"
    and "hi \<le> n" and "lo \<le> hi" and "\<forall>j<lo. p j" and "\<forall>j. hi \<le> j \<longrightarrow> j < n \<longrightarrow> \<not> p j"
  shows "splits_at p n (bsearch p lo hi)"
  using assms
proof (induction p lo hi rule: bsearch.induct)
  case (1 p lo hi)
  define mid where "mid = (lo + hi) div 2"
  show ?case
  proof (cases "lo < hi")
    case False
    then have "bsearch p lo hi = lo" by (subst bsearch.simps) simp
    with False "1.prems" show ?thesis by (simp add: splits_at_def)
  next
    case True
    then have m: "mid + 1 \<le> hi" "lo \<le> mid" "mid \<le> n" "mid < n"
      using "1.prems" by (auto simp: mid_def)
    show ?thesis
    proof (cases "p mid")
      case pm: True
      have eq: "bsearch p lo hi = bsearch p (mid + 1) hi"
        using True pm by (subst bsearch.simps) (simp add: mid_def)
      have lo: "\<forall>j<mid + 1. p j"
        using "1.prems"(1) m(4) pm by (metis Suc_eq_plus1 less_Suc_eq_le)
      show ?thesis
        unfolding eq by (rule "1.IH"(1) [OF True mid_def pm "1.prems"(1) "1.prems"(2) m(1) lo "1.prems"(5)])
    next
      case pm: False
      have eq: "bsearch p lo hi = bsearch p lo mid"
        using True pm by (subst bsearch.simps) (simp add: mid_def)
      have up: "\<forall>j. mid \<le> j \<longrightarrow> j < n \<longrightarrow> \<not> p j"
        using "1.prems"(1) pm by blast
      show ?thesis
        unfolding eq by (rule "1.IH"(2) [OF True mid_def pm "1.prems"(1) m(3) m(2) "1.prems"(4) up])
    qed
  qed
qed

lemma bsearch_sorted_le:
  fixes f :: "'a \<Rightarrow> 'b::linorder"
  assumes s: "sorted (map f xs)"
  shows "splits_at (\<lambda>j. f (xs ! j) \<le> v) (length xs) (bsearch (\<lambda>j. f (xs ! j) \<le> v) 0 (length xs))"
proof (rule bsearch_split)
  show "\<forall>i j. i \<le> j \<longrightarrow> j < length xs \<longrightarrow> f (xs ! j) \<le> v \<longrightarrow> f (xs ! i) \<le> v"
  proof (intro allI impI)
    fix i j assume ij: "i \<le> j" "j < length xs" and "f (xs ! j) \<le> v"
    moreover have "f (xs ! i) \<le> f (xs ! j)"
      using sorted_nth_mono [OF s, of i j] ij by simp
    ultimately show "f (xs ! i) \<le> v" by simp
  qed
qed simp_all

lemma bsearch_sorted_less:
  fixes f :: "'a \<Rightarrow> 'b::linorder"
  assumes s: "sorted (map f xs)"
  shows "splits_at (\<lambda>j. f (xs ! j) < v) (length xs) (bsearch (\<lambda>j. f (xs ! j) < v) 0 (length xs))"
proof (rule bsearch_split)
  show "\<forall>i j. i \<le> j \<longrightarrow> j < length xs \<longrightarrow> f (xs ! j) < v \<longrightarrow> f (xs ! i) < v"
  proof (intro allI impI)
    fix i j assume ij: "i \<le> j" "j < length xs" and "f (xs ! j) < v"
    moreover have "f (xs ! i) \<le> f (xs ! j)"
      using sorted_nth_mono [OF s, of i j] ij by simp
    ultimately show "f (xs ! i) < v" by simp
  qed
qed simp_all

lemma sorted_bsearch_insert:
  fixes f :: "'a \<Rightarrow> 'b::linorder"
  assumes s: "sorted (map f xs)"
  shows "sorted (map f (splice_in (bsearch (\<lambda>j. f (xs ! j) \<le> f x) 0 (length xs)) x xs))"
proof -
  note sp = bsearch_sorted_le [OF s, of "f x"]
  have "\<forall>j. bsearch (\<lambda>j. f (xs ! j) \<le> f x) 0 (length xs) \<le> j \<and> j < length xs \<longrightarrow> f x \<le> f (xs ! j)"
    using splits_atD(3) [OF sp] by (meson linear)
  then show ?thesis
    using splits_atD(1,2) [OF sp] by (intro sorted_splice_in [OF s]) blast+
qed

text \<open>The stable sort by a key permutes and sorts.\<close>

lemma set_sort_key [simp]: "set (sort_key f xs) = set xs"
  by (rule set_sort)

lemma sorted_sort_key_map [simp]: "sorted (map f (sort_key f xs))"
  by (rule sorted_sort_key)

text \<open>\<open>Array.sort\<close> with a comparator: stable insertion.\<close>

fun js_insert :: "('a \<Rightarrow> 'a \<Rightarrow> int) \<Rightarrow> 'a \<Rightarrow> 'a list \<Rightarrow> 'a list" where
  "js_insert cmp x [] = [x]"
| "js_insert cmp x (y # ys) = (if cmp x y \<le> 0 then x # y # ys else y # js_insert cmp x ys)"

definition js_sort :: "('a \<Rightarrow> 'a \<Rightarrow> int) \<Rightarrow> 'a list \<Rightarrow> 'a list" where
  "js_sort cmp xs = foldr (js_insert cmp) xs []"

lemma set_js_insert [simp]: "set (js_insert cmp x xs) = insert x (set xs)"
  by (induction xs) auto

lemma set_js_sort [simp]: "set (js_sort cmp xs) = set xs"
  by (induction xs) (simp_all add: js_sort_def)

lemma length_js_sort [simp]: "length (js_sort cmp xs) = length xs"
proof -
  have "length (js_insert cmp x ys) = Suc (length ys)" for x ys by (induction ys) auto
  then show ?thesis by (induction xs) (simp_all add: js_sort_def)
qed

lemma sorted_js_sort:
  fixes f :: "'a \<Rightarrow> 'b::linorder"
  assumes le: "\<And>x y. cmp x y \<le> 0 \<Longrightarrow> f x \<le> f y" and gt: "\<And>x y. \<not> cmp x y \<le> 0 \<Longrightarrow> f y \<le> f x"
  shows "sorted (map f (js_sort cmp xs))"
proof -
  have "sorted (map f (js_insert cmp x ys))" if "sorted (map f ys)" for x ys
    using that by (induction ys) (auto dest!: le gt intro: order_trans)
  then show ?thesis by (induction xs) (simp_all add: js_sort_def)
qed

lemma js_sort_wrt:
  assumes le: "\<And>x y. x \<in> S \<Longrightarrow> y \<in> S \<Longrightarrow> cmp x y \<le> 0 \<Longrightarrow> R x y"
    and gt: "\<And>x y. x \<in> S \<Longrightarrow> y \<in> S \<Longrightarrow> \<not> cmp x y \<le> 0 \<Longrightarrow> R y x"
    and trans: "transp R" and sub: "set xs \<subseteq> S"
  shows "sorted_wrt R (js_sort cmp xs)"
proof -
  have ins: "sorted_wrt R (js_insert cmp x ys)" if "sorted_wrt R ys" "x \<in> S" "set ys \<subseteq> S" for x ys
    using that
  proof (induction ys)
    case (Cons y ys)
    show ?case
    proof (cases "cmp x y \<le> 0")
      case True
      then have "R x y" using le Cons.prems by simp
      moreover have "R x z" if "z \<in> set ys" for z using \<open>R x y\<close> Cons.prems(1) that transpD [OF trans] by auto
      ultimately show ?thesis using True Cons.prems by simp
    next
      case False
      then have "R y x" using gt Cons.prems by simp
      with False Cons show ?thesis by auto
    qed
  qed simp
  show ?thesis using sub
  proof (induction xs)
    case (Cons x xs)
    have "set (foldr (js_insert cmp) xs []) = set xs" using set_js_sort [of cmp xs] by (simp add: js_sort_def)
    with Cons show ?case by (simp add: js_sort_def ins)
  qed (simp add: js_sort_def)
qed

end
