(* ===== verification/GanttTypes.thy ===== *)
theory GanttTypes
  imports Complex_Main Prelude "HOL-Library.Word"
begin

text \<open>
  The data model of \<open>frontend/src/gantt/types.ts\<close>: the wire-independent shapes that the stores hold
  and the renderer reads. String unions are datatypes with the source's constructors (prefixed where two
  unions share a name), interfaces are records, an optional or nullable field is an \<open>option\<close>.
\<close>

section \<open>Spans\<close>

datatype span_kind =
  INVOCATION | LLM_CALL | TOOL_CALL | USER_MESSAGE | AGENT_MESSAGE | TRANSFER | WAIT_FOR_HUMAN
  | PLANNED | CUSTOM

datatype span_status =
  SP_PENDING | SP_RUNNING | SP_COMPLETED | SP_FAILED | SP_CANCELLED | SP_AWAITING_HUMAN

datatype link_relation = INVOKED | WAITING_ON | TRIGGERED_BY | FOLLOWS | REPLACES

record span_link =
  ln_targetSpanId :: string
  ln_targetAgentId :: string
  ln_relation :: link_relation

datatype attribute_value =
  AString string
  | AInt int
  | ADouble rat
  | ABool bool
  | ABytes "8 word list"
  | AArray "attribute_value list"

record payload_ref =
  pr_digest :: string
  pr_size :: int
  pr_mime :: string
  pr_summary :: string
  pr_role :: string
  pr_evicted :: bool

record error_info =
  er_message :: string
  er_type :: string
  er_stack :: string

type_synonym attributes = "(string, attribute_value) jsmap"

record span =
  sp_id :: string
  sp_sessionId :: string
  sp_agentId :: string
  sp_parentSpanId :: "string option"
  sp_kind :: span_kind
  sp_status :: span_status
  sp_name :: string
  sp_startMs :: int
  sp_endMs :: "int option"
  sp_links :: "span_link list"
  sp_attributes :: attributes
  sp_payloadRefs :: "payload_ref list"
  sp_error :: "error_info option"
  sp_lane :: int
  sp_replaced :: bool

section \<open>Plans and tasks\<close>

datatype capability =
  PAUSE_RESUME | CANCEL | REWIND | STEERING | HUMAN_IN_LOOP | INTERCEPT_TRANSFER

datatype task_status =
  TS_UNSPECIFIED | TS_PENDING | TS_RUNNING | TS_COMPLETED | TS_FAILED | TS_CANCELLED | TS_BLOCKED

record task =
  tk_id :: string
  tk_title :: string
  tk_description :: string
  tk_assigneeAgentId :: string
  tk_status :: task_status
  tk_predictedStartMs :: int
  tk_predictedDurationMs :: int
  tk_boundSpanId :: string
  tk_cancelReason :: "string option"
  tk_supersedes :: string
  tk_discovered :: "bool option"

record task_edge =
  te_fromTaskId :: string
  te_toTaskId :: string

record task_plan =
  tp_id :: string
  tp_invocationSpanId :: string
  tp_plannerAgentId :: string
  tp_createdAtMs :: int
  tp_summary :: string
  tp_tasks :: "task list"
  tp_edges :: "task_edge list"
  tp_revisionReason :: string
  tp_revisionKind :: "string option"
  tp_revisionSeverity :: "string option"
  tp_revisionIndex :: "int option"
  tp_triggerEventId :: "string option"

text \<open>The template string \<open>`${e.fromTaskId}->${e.toTaskId}`\<close> that keys an edge.\<close>

definition edge_key :: "task_edge \<Rightarrow> string" where
  "edge_key e = te_fromTaskId e @ ''->'' @ te_toTaskId e"

section \<open>Context samples and agents\<close>

record context_window_sample =
  cw_tMs :: int
  cw_tokens :: int
  cw_limitTokens :: int

datatype agent_framework = ADK | FW_CUSTOM | FW_UNKNOWN
datatype agent_connection = CONNECTED | DISCONNECTED | CRASHED

record agent =
  ag_id :: string
  ag_name :: string
  ag_framework :: agent_framework
  ag_capabilities :: "capability option list"  \<comment> \<open>\<open>None\<close> is the \<open>undefined\<close> of an unknown wire value\<close>
  ag_status :: agent_connection
  ag_connectedAtMs :: int
  ag_currentActivity :: string
  ag_stuck :: bool
  ag_taskReport :: string
  ag_taskReportAt :: int
  ag_metadata :: "(string, string) jsmap"

datatype execution_mode = Sequential | Parallel | Delegated

definition EXECUTION_MODE_KEY :: string where
  "EXECUTION_MODE_KEY = ''harmonograf.execution_mode''"

definition readExecutionMode :: "agent option \<Rightarrow> execution_mode option" where
  "readExecutionMode a =
     (let raw = Option.bind a (\<lambda>x. map_of (ag_metadata x) EXECUTION_MODE_KEY) in
      if raw = Some ''sequential'' then Some Sequential
      else if raw = Some ''parallel'' then Some Parallel
      else if raw = Some ''delegated'' then Some Delegated
      else None)"

section \<open>Object spread\<close>

text \<open>\<open>{ ...a, ...b }\<close>: every property of \<open>b\<close> is set on a copy of \<open>a\<close>, in \<open>b\<close>'s order.\<close>

definition js_spread :: "('k, 'v) jsmap \<Rightarrow> ('k, 'v) jsmap \<Rightarrow> ('k, 'v) jsmap" where
  "js_spread a b = foldl (\<lambda>m (k, v). AList.update k v m) a b"

lemma js_spread_Nil [simp]: "js_spread a [] = a"
  by (simp add: js_spread_def)

lemma map_ok_spread [simp, wf_intros]: "map_ok a \<Longrightarrow> map_ok (js_spread a b)"
  unfolding js_spread_def by (induction b arbitrary: a) auto

lemma map_of_spread:
  "map_ok b \<Longrightarrow> map_of (js_spread a b) k = (case map_of b k of None \<Rightarrow> map_of a k | Some v \<Rightarrow> Some v)"
proof (induction b arbitrary: a)
  case Nil
  then show ?case by simp
next
  case (Cons p b)
  obtain k' v where p: "p = (k', v)" by (cases p)
  from Cons.prems have ok: "map_ok b" and new: "map_of b k' = None"
    by (auto simp: map_ok_def p map_of_eq_None_iff)
  have "map_of (js_spread a (p # b)) k = map_of (js_spread (AList.update k' v a) b) k"
    by (simp add: js_spread_def p)
  also have "\<dots> = (case map_of b k of None \<Rightarrow> map_of (AList.update k' v a) k | Some w \<Rightarrow> Some w)"
    by (rule Cons.IH [OF ok])
  finally show ?case using new by (auto simp: p split: option.splits)
qed

end
