(* ===== verification/Agents.thy ===== *)
theory Agents
  imports GanttTypes
begin

text \<open>
  \<open>AgentRegistry\<close> of \<open>frontend/src/gantt/index.ts\<close>. The class holds every agent object twice, in the
  array \<open>agents\<close> (row order) and in the map \<open>byId\<close>. An object is created once per id, so the model
  keeps the objects in \<open>ar_byId\<close> and the array holds their ids as references; \<open>Object.assign(existing, agent)\<close>
  then updates the object behind both. \<open>ar_emits\<close> counts the calls of \<open>emit()\<close>, the notifications the
  subscribers receive.
\<close>

section \<open>State\<close>

definition PLACEHOLDER_AGENT_FLAG :: string where
  "PLACEHOLDER_AGENT_FLAG = ''harmonograf.announced_only''"

definition bareAgentName :: "string \<Rightarrow> string" where
  \<comment> \<open>everything after the last colon, the whole id when there is none\<close>
  "bareAgentName agentId = rev (takeWhile (\<lambda>c. c \<noteq> CHR '':'') (rev agentId))"

record agent_registry =
  ar_agents :: "string list"
  ar_byId :: "(string, agent) jsmap"
  ar_emits :: nat

definition emptyAgents :: agent_registry where
  "emptyAgents = \<lparr>ar_agents = [], ar_byId = [], ar_emits = 0\<rparr>"

definition ar_emit :: "agent_registry \<Rightarrow> agent_registry" where
  "ar_emit r = r\<lparr>ar_emits := Suc (ar_emits r)\<rparr>"

definition ar_get :: "agent_registry \<Rightarrow> string \<Rightarrow> agent option" where
  "ar_get r aid = map_of (ar_byId r) aid"

definition ar_list :: "agent_registry \<Rightarrow> agent list" where
  "ar_list r = List.map_filter (map_of (ar_byId r)) (ar_agents r)"

definition ar_size :: "agent_registry \<Rightarrow> nat" where
  "ar_size r = length (ar_agents r)"

fun index_from :: "'a \<Rightarrow> 'a list \<Rightarrow> int \<Rightarrow> int" where
  "index_from x [] i = -1"
| "index_from x (y # ys) i = (if x = y then i else index_from x ys (i + 1))"

definition ar_indexOf :: "agent_registry \<Rightarrow> string \<Rightarrow> int" where
  "ar_indexOf r aid = (case map_of (ar_byId r) aid of None \<Rightarrow> -1 | Some a \<Rightarrow> index_from aid (ar_agents r) 0)"

definition connected_at :: "(string, agent) jsmap \<Rightarrow> string \<Rightarrow> int" where
  "connected_at m aid = (case map_of m aid of Some a \<Rightarrow> ag_connectedAtMs a | None \<Rightarrow> 0)"

section \<open>Operations\<close>

definition ar_insert :: "agent_registry \<Rightarrow> agent \<Rightarrow> agent_registry" where
  \<comment> \<open>\<open>byId.set; agents.push; agents.sort((a, b) => a.connectedAtMs - b.connectedAtMs)\<close>\<close>
  "ar_insert r a =
     (let m = AList.update (ag_id a) a (ar_byId r)
      in r\<lparr>ar_byId := m, ar_agents := sort_key (connected_at m) (ar_agents r @ [ag_id a])\<rparr>)"

definition ar_upsert :: "agent_registry \<Rightarrow> agent \<Rightarrow> agent_registry" where
  "ar_upsert r agent =
     ar_emit (case map_of (ar_byId r) (ag_id agent) of
       Some existing \<Rightarrow>
         (let nextMeta = AList.delete PLACEHOLDER_AGENT_FLAG
                           (js_spread (ag_metadata existing) (ag_metadata agent))
          in r\<lparr>ar_byId := AList.update (ag_id agent) (agent\<lparr>ag_metadata := nextMeta\<rparr>) (ar_byId r)\<rparr>)
     | None \<Rightarrow> ar_insert r agent)"

definition placeholderAgent :: "string \<Rightarrow> string \<Rightarrow> agent" where
  "placeholderAgent agentId bareName =
     \<lparr>ag_id = agentId, ag_name = or_str bareName agentId, ag_framework = FW_UNKNOWN,
      ag_capabilities = [], ag_status = DISCONNECTED, ag_connectedAtMs = 0,
      ag_currentActivity = '''', ag_stuck = False, ag_taskReport = '''', ag_taskReportAt = 0,
      ag_metadata = [(PLACEHOLDER_AGENT_FLAG, ''1'')]\<rparr>"

definition ar_ensureAgent :: "agent_registry \<Rightarrow> string \<Rightarrow> string \<Rightarrow> agent_registry \<times> bool" where
  "ar_ensureAgent r agentId bareName =
     (if agentId = '''' then (r, False)
      else case map_of (ar_byId r) agentId of
             Some existing \<Rightarrow> (r, False)
           | None \<Rightarrow> (ar_emit (ar_insert r (placeholderAgent agentId bareName)), True))"

definition ar_modify :: "agent_registry \<Rightarrow> string \<Rightarrow> (agent \<Rightarrow> agent) \<Rightarrow> agent_registry" where
  \<comment> \<open>an assignment to fields of the object behind \<open>id\<close>\<close>
  "ar_modify r aid f =
     (case map_of (ar_byId r) aid of None \<Rightarrow> r | Some a \<Rightarrow> r\<lparr>ar_byId := AList.update aid (f a) (ar_byId r)\<rparr>)"

definition ar_setStatus :: "agent_registry \<Rightarrow> string \<Rightarrow> agent_connection \<Rightarrow> agent_registry" where
  "ar_setStatus r aid status =
     (case map_of (ar_byId r) aid of
        None \<Rightarrow> r
      | Some a \<Rightarrow> if ag_status a = status then r
                  else ar_emit (ar_modify r aid (\<lambda>a. a\<lparr>ag_status := status\<rparr>)))"

definition ar_setActivityAndStuck :: "agent_registry \<Rightarrow> string \<Rightarrow> string \<Rightarrow> bool \<Rightarrow> agent_registry" where
  "ar_setActivityAndStuck r aid currentActivity stuck =
     (case map_of (ar_byId r) aid of
        None \<Rightarrow> r
      | Some a \<Rightarrow> ar_emit (ar_modify r aid (\<lambda>a. a\<lparr>ag_currentActivity := currentActivity, ag_stuck := stuck\<rparr>)))"

definition ar_setTaskReport :: "agent_registry \<Rightarrow> string \<Rightarrow> string \<Rightarrow> int \<Rightarrow> agent_registry" where
  "ar_setTaskReport r agentId report recordedAt =
     (case map_of (ar_byId r) agentId of
        None \<Rightarrow> r
      | Some a \<Rightarrow> ar_emit (ar_modify r agentId (\<lambda>a. a\<lparr>ag_taskReport := report, ag_taskReportAt := recordedAt\<rparr>)))"

definition ar_clearTaskReport :: "agent_registry \<Rightarrow> string \<Rightarrow> agent_registry" where
  "ar_clearTaskReport r agentId =
     (case map_of (ar_byId r) agentId of
        None \<Rightarrow> r
      | Some a \<Rightarrow> if ag_taskReport a = '''' then r
                  else ar_emit (ar_modify r agentId (\<lambda>a. a\<lparr>ag_taskReport := ''''\<rparr>)))"

definition ar_clear :: "agent_registry \<Rightarrow> agent_registry" where
  "ar_clear r = ar_emit (r\<lparr>ar_agents := [], ar_byId := []\<rparr>)"

definition ar_remove :: "agent_registry \<Rightarrow> string \<Rightarrow> agent_registry" where
  "ar_remove r agentId =
     (case map_of (ar_byId r) agentId of
        None \<Rightarrow> r
      | Some existing \<Rightarrow>
          ar_emit (r\<lparr>ar_byId := AList.delete agentId (ar_byId r), ar_agents := remove1 agentId (ar_agents r)\<rparr>))"

text \<open>The operations as one event type, for runs of the registry.\<close>

datatype agent_op =
  AUpsert agent | AEnsure string string | ASetStatus string agent_connection
  | ASetActivity string string bool | ASetReport string string int | AClearReport string
  | AClear | ARemove string

fun agent_step :: "agent_registry \<Rightarrow> agent_op \<Rightarrow> agent_registry" where
  "agent_step r (AUpsert a) = ar_upsert r a"
| "agent_step r (AEnsure i b) = fst (ar_ensureAgent r i b)"
| "agent_step r (ASetStatus i s) = ar_setStatus r i s"
| "agent_step r (ASetActivity i c s) = ar_setActivityAndStuck r i c s"
| "agent_step r (ASetReport i t n) = ar_setTaskReport r i t n"
| "agent_step r (AClearReport i) = ar_clearTaskReport r i"
| "agent_step r AClear = ar_clear r"
| "agent_step r (ARemove i) = ar_remove r i"

section \<open>Well-formedness\<close>

definition agents_ok :: "agent_registry \<Rightarrow> bool" where
  "agents_ok r \<longleftrightarrow>
     map_ok (ar_byId r) \<and> distinct (ar_agents r) \<and> set (ar_agents r) = fst ` set (ar_byId r) \<and>
     (\<forall>aid a. map_of (ar_byId r) aid = Some a \<longrightarrow> ag_id a = aid)"

lemmas ar_defs = ar_emit_def ar_insert_def ar_modify_def Let_def

lemma agents_ok_empty [simp, wf_intros]: "agents_ok emptyAgents"
  by (simp add: agents_ok_def emptyAgents_def)

lemma agents_ok_emit [simp]: "agents_ok (ar_emit r) = agents_ok r"
  by (simp add: agents_ok_def ar_emit_def)

lemma agents_ok_insert:
  assumes "agents_ok r" and "map_of (ar_byId r) (ag_id a) = None"
  shows "agents_ok (ar_insert r a)"
  using assms
  by (auto simp: agents_ok_def ar_insert_def Let_def fst_set_update distinct_sort map_of_eq_None_iff)

lemma agents_ok_modify [wf_intros]:
  assumes "agents_ok r" and "\<And>a. ag_id (f a) = ag_id a"
  shows "agents_ok (ar_modify r aid f)"
  using assms
  by (auto simp: agents_ok_def ar_modify_def fst_set_update_old split: option.splits)

lemma agents_ok_upsert [wf_intros]:
  assumes "agents_ok r"
  shows "agents_ok (ar_upsert r a)"
  using assms agents_ok_insert [of r a]
  by (auto simp: ar_upsert_def agents_ok_def ar_emit_def fst_set_update_old Let_def split: option.splits)

lemma agents_ok_remove [wf_intros]:
  assumes "agents_ok r"
  shows "agents_ok (ar_remove r aid)"
  using assms
  by (auto simp: ar_remove_def agents_ok_def ar_emit_def set_delete distinct_remove1 image_iff
      split: option.splits)

lemma agents_ok_clear [wf_intros]: "agents_ok (ar_clear r)"
  by (simp add: ar_clear_def agents_ok_def ar_emit_def)

lemma agents_ok_step: "agents_ok r \<Longrightarrow> agents_ok (agent_step r op)"
  by (cases op)
    (auto simp: ar_ensureAgent_def ar_setStatus_def ar_setActivityAndStuck_def ar_setTaskReport_def
      ar_clearTaskReport_def placeholderAgent_def
      intro!: agents_ok_clear agents_ok_upsert agents_ok_remove agents_ok_modify agents_ok_insert
      split: option.splits)

section \<open>The rows of a registry\<close>

lemma ar_get_eq: "ar_get r = map_of (ar_byId r)"
  by (simp add: ar_get_def fun_eq_iff)

lemma ar_list_eq: "agents_ok r \<Longrightarrow> ar_list r = map (\<lambda>k. the (map_of (ar_byId r) k)) (ar_agents r)"
  by (simp add: ar_list_def map_filter_total agents_ok_def)

lemma ar_list_ids: "agents_ok r \<Longrightarrow> map ag_id (ar_list r) = ar_agents r"
proof -
  assume ok: "agents_ok r"
  have "ag_id (the (map_of (ar_byId r) k)) = k" if "k \<in> set (ar_agents r)" for k
    using that ok by (auto simp: agents_ok_def dest: weak_map_of_SomeI)
  then show ?thesis by (auto simp: ar_list_eq [OF ok] intro: map_idI)
qed

lemma agents_ok_run: "agents_ok r \<Longrightarrow> agents_ok (foldl agent_step r ops)"
  by (induction ops arbitrary: r) (simp_all add: agents_ok_step)

section \<open>Properties\<close>

text \<open>After any sequence of registry operations the row array and the id map agree: every row's id is
  listed once, the ids of the rows are exactly the keys of the map, and looking up a row's id gives that row.
\<close>

theorem agent_rows_match_index:
  "let r = foldl agent_step emptyAgents ops
   in distinct (map ag_id (ar_list r)) \<and>
      set (map ag_id (ar_list r)) = dom (ar_get r) \<and>
      length (ar_list r) = ar_size r \<and>
      map (\<lambda>a. ar_get r (ag_id a)) (ar_list r) = map Some (ar_list r)"
proof -
  let ?r = "foldl agent_step emptyAgents ops"
  have ok: "agents_ok ?r" by (intro agents_ok_run agents_ok_empty)
  have ids: "map ag_id (ar_list ?r) = ar_agents ?r" by (rule ar_list_ids [OF ok])
  have dom: "set (ar_agents ?r) = dom (ar_get ?r)"
    using ok by (simp add: agents_ok_def ar_get_eq dom_map_of_conv_image_fst)
  have "ar_get ?r (ag_id a) = Some a" if "a \<in> set (ar_list ?r)" for a
    using that ok by (auto simp: ar_list_def ar_get_def agents_ok_def List.map_filter_def)
  moreover have "length (ar_list ?r) = ar_size ?r"
    by (metis ar_size_def ids length_map)
  moreover have "set (map ag_id (ar_list ?r)) = dom (ar_get ?r)" by (simp only: ids dom)
  moreover have "distinct (map ag_id (ar_list ?r))" using ok by (simp only: ids agents_ok_def)
  ultimately show ?thesis by (simp add: Let_def del: set_map)
qed

text \<open>
  Seeding a row from plan content never touches a row that exists: \<open>ensureAgent\<close> returns false and changes
  nothing when the id is empty or known, and otherwise returns true and adds exactly the placeholder row.
\<close>

theorem ensureAgent_only_adds:
  "ar_ensureAgent r i b =
     (if i \<noteq> '''' \<and> ar_get r i = None then (fst (ar_ensureAgent r i b), True) else (r, False)) \<and>
   ar_get (fst (ar_ensureAgent r i b)) k =
     (if k = i \<and> i \<noteq> '''' \<and> ar_get r i = None then Some (placeholderAgent i b) else ar_get r k)"
  by (auto simp: ar_ensureAgent_def ar_get_def ar_defs placeholderAgent_def split: option.splits)

text \<open>
  A real upsert over an existing row drops the placeholder mark, takes every field of the new agent,
  keeps the metadata keys the new agent does not bring, and leaves the row where it is.
\<close>

theorem upsert_upgrades_placeholder:
  assumes "ar_get r (ag_id a) = Some e" and "map_ok (ag_metadata a)"
  shows "\<exists>m. ar_get (ar_upsert r a) (ag_id a) = Some (a\<lparr>ag_metadata := m\<rparr>) \<and>
             map_of m PLACEHOLDER_AGENT_FLAG = None \<and>
             (\<forall>k. k = PLACEHOLDER_AGENT_FLAG \<or>
                map_of m k = (case map_of (ag_metadata a) k of None \<Rightarrow> map_of (ag_metadata e) k | Some v \<Rightarrow> Some v)) \<and>
             ar_agents (ar_upsert r a) = ar_agents r \<and> ar_emits (ar_upsert r a) = Suc (ar_emits r)"
  using assms
  by (intro exI [of _ "AList.delete PLACEHOLDER_AGENT_FLAG (js_spread (ag_metadata e) (ag_metadata a))"])
    (simp add: ar_upsert_def ar_get_def ar_emit_def Let_def map_of_spread)

definition demoAgent :: "string \<Rightarrow> int \<Rightarrow> agent" where
  "demoAgent i t = (placeholderAgent i '''')\<lparr>ag_connectedAtMs := t, ag_status := CONNECTED, ag_metadata := [(''k'', ''v'')]\<rparr>"

lemmas demo_agent_simps = demoAgent_def placeholderAgent_def emptyAgents_def ar_upsert_def ar_ensureAgent_def
  ar_get_def ar_defs PLACEHOLDER_AGENT_FLAG_def map_ok_def js_spread_def

theorem upsert_upgrades_placeholder_witness:
  "\<exists>m. ar_get (ar_upsert (fst (ar_ensureAgent emptyAgents ''a'' ''b'')) (demoAgent ''a'' 7)) ''a'' =
         Some ((demoAgent ''a'' 7)\<lparr>ag_metadata := m\<rparr>) \<and> map_of m PLACEHOLDER_AGENT_FLAG = None"
proof -
  have "ar_get (fst (ar_ensureAgent emptyAgents ''a'' ''b'')) (ag_id (demoAgent ''a'' 7)) = Some (placeholderAgent ''a'' ''b'')"
    and "map_ok (ag_metadata (demoAgent ''a'' 7))"
    by (simp_all add: demo_agent_simps)
  from upsert_upgrades_placeholder [OF this] show ?thesis by (auto simp: demoAgent_def placeholderAgent_def)
qed

text \<open>
  Adding a row puts the rows in order of their connection time, equal times in order of arrival; but an
  upsert of an existing row with another connection time does not move it, so the rows can end up out of order.
\<close>

theorem row_order_on_insert_and_upgrade:
  "(if ar_get r (ag_id a) = None
    then sorted (map (connected_at (ar_byId (ar_upsert r a))) (ar_agents (ar_upsert r a)))
    else ar_agents (ar_upsert r a) = ar_agents r) \<and>
   (let q = ar_upsert (ar_upsert (fst (ar_ensureAgent emptyAgents ''p'' '''')) (demoAgent ''x'' 5)) (demoAgent ''p'' 9)
    in map ag_id (ar_list q) = [''p'', ''x''] \<and> map ag_connectedAtMs (ar_list q) = [9, 5])"
proof
  show "if ar_get r (ag_id a) = None
    then sorted (map (connected_at (ar_byId (ar_upsert r a))) (ar_agents (ar_upsert r a)))
    else ar_agents (ar_upsert r a) = ar_agents r"
    by (cases "map_of (ar_byId r) (ag_id a)") (simp_all add: ar_upsert_def ar_get_def ar_defs)
qed (simp add: demo_agent_simps ar_list_def List.map_filter_simps connected_at_def)

end
