(* ===== verification/Tasks.thy ===== *)
theory Tasks
  imports GanttTypes
begin

text \<open>
  \<open>computePlanDiff\<close> and \<open>TaskRegistry\<close> of \<open>frontend/src/gantt/index.ts\<close>.

  The registry shares objects: a plan sits both in the array \<open>plans\<close> and in the map \<open>byId\<close>, status
  updates write into its task objects, and a recorded revision's diff points at task objects of the plan
  it was computed for. The model therefore has an explicit store: \<open>tr_heap\<close> holds every plan object
  that was upserted, in order of arrival, a reference is its position there, and a task object is a
  position in the plan's task array. Past snapshots are deep clones in the code, so they are values here.
\<close>

section \<open>Plan diffs\<close>

datatype plan_diff_field = F_title | F_description | F_assignee | F_status

record plan_diff =
  pd_added :: "nat list" \<comment> \<open>the pushed task objects, as positions in \<open>next.tasks\<close>\<close>
  pd_removed :: "(string \<times> string) list"
  pd_modified :: "(string \<times> string \<times> plan_diff_field list) list"
  pd_edgesChanged :: bool

definition task_map :: "task list \<Rightarrow> (string, task) jsmap" where
  "task_map ts = foldl (\<lambda>m t. AList.update (tk_id t) t m) [] ts"

definition task_changes :: "task \<Rightarrow> task \<Rightarrow> plan_diff_field list" where
  "task_changes p t =
     (if tk_title p \<noteq> tk_title t then [F_title] else []) @
     (if tk_description p \<noteq> tk_description t then [F_description] else []) @
     (if tk_assigneeAgentId p \<noteq> tk_assigneeAgentId t then [F_assignee] else []) @
     (if tk_status p \<noteq> tk_status t then [F_status] else [])"

fun diff_added :: "(string, task) jsmap \<Rightarrow> nat \<Rightarrow> task list \<Rightarrow> nat list" where
  "diff_added m i [] = []"
| "diff_added m i (t # ts) =
     (case map_of m (tk_id t) of None \<Rightarrow> i # diff_added m (Suc i) ts | Some p \<Rightarrow> diff_added m (Suc i) ts)"

fun diff_modified :: "(string, task) jsmap \<Rightarrow> task list \<Rightarrow> (string \<times> string \<times> plan_diff_field list) list" where
  "diff_modified m [] = []"
| "diff_modified m (t # ts) =
     (case map_of m (tk_id t) of
        None \<Rightarrow> diff_modified m ts
      | Some p \<Rightarrow> if task_changes p t \<noteq> []
                  then (tk_id t, or_str (tk_title t) (tk_title p), task_changes p t) # diff_modified m ts
                  else diff_modified m ts)"

definition edge_key_set :: "task_edge list \<Rightarrow> string list" where
  "edge_key_set es = foldl (\<lambda>s e. set_add (edge_key e) s) [] es"

definition edges_changed :: "string list \<Rightarrow> string list \<Rightarrow> bool" where
  "edges_changed prevEdges nextEdges =
     (length prevEdges \<noteq> length nextEdges \<or> list_ex (\<lambda>k. k \<notin> set prevEdges) nextEdges)"

definition computePlanDiff :: "task_plan option \<Rightarrow> task_plan \<Rightarrow> plan_diff" where
  "computePlanDiff prev nxt =
     (let prevTasks = task_map (case prev of None \<Rightarrow> [] | Some p \<Rightarrow> tp_tasks p);
          nextIds = map tk_id (tp_tasks nxt);
          prevEdges = edge_key_set (case prev of None \<Rightarrow> [] | Some p \<Rightarrow> tp_edges p);
          nextEdges = edge_key_set (tp_edges nxt)
      in \<lparr>pd_added = diff_added prevTasks 0 (tp_tasks nxt),
          pd_removed = map (\<lambda>(k, t). (k, tk_title t)) (filter (\<lambda>(k, t). k \<notin> set nextIds) prevTasks),
          pd_modified = diff_modified prevTasks (tp_tasks nxt),
          pd_edgesChanged = edges_changed prevEdges nextEdges\<rparr>)"

section \<open>The registry\<close>

record plan_revision =
  rv_revisedAtMs :: int
  rv_reason :: string
  rv_diff :: plan_diff
  rv_plan :: nat \<comment> \<open>the plan object whose task objects \<open>rv_diff\<close> points at\<close>

record task_registry =
  tr_heap :: "task_plan list"
  tr_plans :: "nat list"
  tr_byId :: "(string, nat) jsmap"
  tr_revisionsByPlan :: "(string, plan_revision list) jsmap"
  tr_lastReasonByPlan :: "(string, string) jsmap"
  tr_snapshotsByPlan :: "(string, task_plan list) jsmap"
  tr_emits :: nat

definition emptyTasks :: task_registry where
  "emptyTasks = \<lparr>tr_heap = [], tr_plans = [], tr_byId = [], tr_revisionsByPlan = [],
                 tr_lastReasonByPlan = [], tr_snapshotsByPlan = [], tr_emits = 0\<rparr>"

definition tr_emit :: "task_registry \<Rightarrow> task_registry" where
  "tr_emit r = r\<lparr>tr_emits := Suc (tr_emits r)\<rparr>"

definition tr_listPlans :: "task_registry \<Rightarrow> task_plan list" where
  "tr_listPlans r = map (\<lambda>a. tr_heap r ! a) (tr_plans r)"

definition tr_getPlan :: "task_registry \<Rightarrow> string \<Rightarrow> task_plan option" where
  "tr_getPlan r i = map_option (\<lambda>a. tr_heap r ! a) (map_of (tr_byId r) i)"

definition tr_size :: "task_registry \<Rightarrow> nat" where
  "tr_size r = length (tr_plans r)"

definition map_list_get :: "('k, 'v list) jsmap \<Rightarrow> 'k \<Rightarrow> 'v list" where
  \<comment> \<open>\<open>m.get(k) ?? []\<close>\<close>
  "map_list_get m k = (case map_of m k of None \<Rightarrow> [] | Some xs \<Rightarrow> xs)"

definition rev_index :: "task_plan \<Rightarrow> int" where
  "rev_index p = (case tp_revisionIndex p of None \<Rightarrow> 0 | Some i \<Rightarrow> i)"

definition find_sibling :: "task_registry \<Rightarrow> task_plan \<Rightarrow> nat option" where
  "find_sibling r plan =
     (if tp_invocationSpanId plan = '''' then None
      else find (\<lambda>a. tp_invocationSpanId (tr_heap r ! a) = tp_invocationSpanId plan \<and>
                      tp_id (tr_heap r ! a) \<noteq> tp_id plan) (tr_plans r))"

definition drop_sibling :: "task_registry \<Rightarrow> nat option \<Rightarrow> task_registry" where
  "drop_sibling r sib =
     (case sib of
        None \<Rightarrow> r
      | Some s \<Rightarrow> r\<lparr>tr_byId := AList.delete (tp_id (tr_heap r ! s)) (tr_byId r), tr_plans := remove1 s (tr_plans r)\<rparr>)"

definition push_plan :: "task_registry \<Rightarrow> nat \<Rightarrow> task_registry" where
  \<comment> \<open>\<open>plans.push(plan); plans.sort((a, b) => a.createdAtMs - b.createdAtMs)\<close>\<close>
  "push_plan r a = r\<lparr>tr_plans := sort_key (\<lambda>x. tp_createdAtMs (tr_heap r ! x)) (tr_plans r @ [a])\<rparr>"

fun replace_first :: "'a \<Rightarrow> 'a \<Rightarrow> 'a list \<Rightarrow> 'a list" where
  "replace_first x y [] = []"
| "replace_first x y (z # zs) = (if z = x then y # zs else z # replace_first x y zs)"

definition store_plan :: "task_registry \<Rightarrow> nat \<Rightarrow> task_registry" where
  "store_plan r a =
     (let plan = tr_heap r ! a; r1 = r\<lparr>tr_byId := AList.update (tp_id plan) a (tr_byId r)\<rparr> in
      case map_of (tr_byId r) (tp_id plan) of
        Some e \<Rightarrow>
          (let existing = tr_heap r ! e;
               r2 = (if rev_index existing \<noteq> rev_index plan
                     then r1\<lparr>tr_snapshotsByPlan :=
                            AList.update (tp_id plan)
                              (map_list_get (tr_snapshotsByPlan r) (tp_id plan) @ [existing])
                              (tr_snapshotsByPlan r)\<rparr>
                     else r1)
           in if e \<in> set (tr_plans r)
              then r2\<lparr>tr_plans := replace_first e a (tr_plans r)\<rparr>
              else push_plan r2 a)
      | None \<Rightarrow> push_plan r1 a)"

definition record_revision :: "task_registry \<Rightarrow> nat option \<Rightarrow> nat \<Rightarrow> int \<Rightarrow> task_registry" where
  "record_revision r prev a now =
     (let plan = tr_heap r ! a; pid = tp_id plan;
          nextReason = or_str (tp_revisionReason plan) '''';
          prevReason = (case map_of (tr_lastReasonByPlan r) pid of None \<Rightarrow> '''' | Some s \<Rightarrow> s)
      in if nextReason \<noteq> '''' \<and> nextReason \<noteq> prevReason
         then (let arr = map_list_get (tr_revisionsByPlan r) pid @
                     [\<lparr>rv_revisedAtMs = now, rv_reason = nextReason,
                       rv_diff = computePlanDiff (map_option (\<lambda>p. tr_heap r ! p) prev) plan,
                       rv_plan = a\<rparr>];
                   arr' = (if length arr > 20 then tl arr else arr)
               in r\<lparr>tr_revisionsByPlan := AList.update pid arr' (tr_revisionsByPlan r),
                    tr_lastReasonByPlan := AList.update pid nextReason (tr_lastReasonByPlan r)\<rparr>)
         else r)"

definition tr_upsertPlan :: "task_registry \<Rightarrow> task_plan \<Rightarrow> int \<Rightarrow> task_registry" where
  \<comment> \<open>\<open>now\<close> is the value of \<open>Date.now()\<close>\<close>
  "tr_upsertPlan r plan now =
     (let a = length (tr_heap r);
          sib = find_sibling r plan;
          r0 = drop_sibling (r\<lparr>tr_heap := tr_heap r @ [plan]\<rparr>) sib;
          existing = map_of (tr_byId r0) (tp_id plan);
          prevPlan = (case sib of Some s \<Rightarrow> Some s | None \<Rightarrow> existing)
      in tr_emit (record_revision (store_plan r0 a) prevPlan a now))"

definition tr_revisionsForPlan :: "task_registry \<Rightarrow> string \<Rightarrow> plan_revision list" where
  "tr_revisionsForPlan r pid = map_list_get (tr_revisionsByPlan r) pid"

definition tr_snapshotsForPlan :: "task_registry \<Rightarrow> string \<Rightarrow> task_plan list" where
  "tr_snapshotsForPlan r pid = map_list_get (tr_snapshotsByPlan r) pid"

definition tr_allRevsForPlan :: "task_registry \<Rightarrow> string \<Rightarrow> task_plan list" where
  "tr_allRevsForPlan r pid =
     (let snaps = map_list_get (tr_snapshotsByPlan r) pid in
      case tr_getPlan r pid of None \<Rightarrow> snaps | Some current \<Rightarrow> snaps @ [current])"

fun upd_first :: "('a \<Rightarrow> bool) \<Rightarrow> ('a \<Rightarrow> 'a) \<Rightarrow> 'a list \<Rightarrow> 'a list" where
  "upd_first P f [] = []"
| "upd_first P f (x # xs) = (if P x then f x # xs else x # upd_first P f xs)"

definition write_task :: "task_registry \<Rightarrow> nat \<Rightarrow> string \<Rightarrow> (task \<Rightarrow> task) \<Rightarrow> task_registry" where
  \<comment> \<open>write into the first task object with this id of the plan object \<open>a\<close>\<close>
  "write_task r a taskId f =
     r\<lparr>tr_heap := (tr_heap r)[a := (tr_heap r ! a)\<lparr>tp_tasks := upd_first (\<lambda>t. tk_id t = taskId) f (tp_tasks (tr_heap r ! a))\<rparr>]\<rparr>"

definition has_task :: "string \<Rightarrow> task_plan \<Rightarrow> bool" where
  "has_task taskId p = list_ex (\<lambda>t. tk_id t = taskId) (tp_tasks p)"

definition set_status :: "task_status \<Rightarrow> string \<Rightarrow> string \<Rightarrow> task \<Rightarrow> task" where
  "set_status status boundSpanId cancelReason t =
     (let t1 = t\<lparr>tk_status := status\<rparr>;
          t2 = (if boundSpanId \<noteq> '''' then t1\<lparr>tk_boundSpanId := boundSpanId\<rparr> else t1)
      in if cancelReason \<noteq> '''' then t2\<lparr>tk_cancelReason := Some cancelReason\<rparr> else t2)"

definition tr_updateTaskStatus :: "task_registry \<Rightarrow> string \<Rightarrow> string \<Rightarrow> task_status \<Rightarrow> string \<Rightarrow> task_registry" where
  "tr_updateTaskStatus r planId taskId status boundSpanId =
     (case map_of (tr_byId r) planId of
        None \<Rightarrow> r
      | Some a \<Rightarrow> if has_task taskId (tr_heap r ! a)
                  then tr_emit (write_task r a taskId (set_status status boundSpanId ''''))
                  else r)"

definition tr_updateTaskStatusByTaskId ::
    "task_registry \<Rightarrow> string \<Rightarrow> task_status \<Rightarrow> string \<Rightarrow> string \<Rightarrow> task_registry" where
  \<comment> \<open>an absent \<open>boundSpanId\<close> or \<open>cancelReason\<close> is the empty string: the code tests both for truth only\<close>
  "tr_updateTaskStatusByTaskId r taskId status boundSpanId cancelReason =
     (case find (\<lambda>a. has_task taskId (tr_heap r ! a)) (tr_plans r) of
        None \<Rightarrow> r
      | Some a \<Rightarrow> tr_emit (write_task r a taskId (set_status status boundSpanId cancelReason)))"

definition tr_tasksForAgent :: "task_registry \<Rightarrow> string \<Rightarrow> task list" where
  "tr_tasksForAgent r agentId =
     concat (map (\<lambda>p. filter (\<lambda>t. tk_assigneeAgentId t = agentId) (tp_tasks p)) (tr_listPlans r))"

definition tr_findPlanForTask :: "task_registry \<Rightarrow> string \<Rightarrow> (task_plan \<times> task) option" where
  "tr_findPlanForTask r taskId =
     (case find (has_task taskId) (tr_listPlans r) of
        None \<Rightarrow> None
      | Some p \<Rightarrow> map_option (\<lambda>t. (p, t)) (find (\<lambda>t. tk_id t = taskId) (tp_tasks p)))"

definition tr_clear :: "task_registry \<Rightarrow> task_registry" where
  "tr_clear r = tr_emit (r\<lparr>tr_plans := [], tr_byId := [], tr_revisionsByPlan := [],
                          tr_lastReasonByPlan := [], tr_snapshotsByPlan := []\<rparr>)"

text \<open>The added tasks of a recorded revision, read through the objects they point at.\<close>

definition added_tasks :: "task_registry \<Rightarrow> plan_revision \<Rightarrow> task list" where
  "added_tasks r v = map (\<lambda>i. tp_tasks (tr_heap r ! rv_plan v) ! i) (pd_added (rv_diff v))"

datatype task_op =
  TUpsert task_plan int | TStatus string string task_status string
  | TStatusById string task_status string string | TClear

fun task_step :: "task_registry \<Rightarrow> task_op \<Rightarrow> task_registry" where
  "task_step r (TUpsert p now) = tr_upsertPlan r p now"
| "task_step r (TStatus p t s b) = tr_updateTaskStatus r p t s b"
| "task_step r (TStatusById t s b c) = tr_updateTaskStatusByTaskId r t s b c"
| "task_step r TClear = tr_clear r"

section \<open>Well-formedness\<close>

definition plans_ok :: "task_registry \<Rightarrow> bool" where
  "plans_ok r \<longleftrightarrow>
     map_ok (tr_byId r) \<and> distinct (tr_plans r) \<and> set (tr_plans r) = snd ` set (tr_byId r) \<and>
     (\<forall>p \<in> set (tr_byId r). snd p < length (tr_heap r) \<and> tp_id (tr_heap r ! snd p) = fst p) \<and>
     (\<forall>a \<in> set (tr_plans r). \<forall>b \<in> set (tr_plans r).
        tp_invocationSpanId (tr_heap r ! a) = tp_invocationSpanId (tr_heap r ! b) \<longrightarrow>
        tp_invocationSpanId (tr_heap r ! a) \<noteq> '''' \<longrightarrow> a = b)"

definition rev_ok :: "task_plan list \<Rightarrow> plan_revision \<Rightarrow> bool" where
  "rev_ok h v \<longleftrightarrow> rv_plan v < length h \<and> (\<forall>i \<in> set (pd_added (rv_diff v)). i < length (tp_tasks (h ! rv_plan v)))"

definition revs_ok :: "task_registry \<Rightarrow> bool" where
  "revs_ok r \<longleftrightarrow>
     (\<forall>k. length (map_list_get (tr_revisionsByPlan r) k) \<le> 20 \<and>
          (\<forall>v \<in> set (map_list_get (tr_revisionsByPlan r) k). rev_ok (tr_heap r) v))"

definition tasks_ok :: "task_registry \<Rightarrow> bool" where
  "tasks_ok r \<longleftrightarrow> plans_ok r \<and> revs_ok r"

lemmas tr_defs = tr_emit_def push_plan_def drop_sibling_def Let_def

lemma plans_okD:
  assumes "plans_ok r"
  shows "map_ok (tr_byId r)" "distinct (tr_plans r)" "set (tr_plans r) = snd ` set (tr_byId r)"
    "map_of (tr_byId r) k = Some a \<Longrightarrow> a < length (tr_heap r) \<and> tp_id (tr_heap r ! a) = k \<and> a \<in> set (tr_plans r)"
    "a \<in> set (tr_plans r) \<Longrightarrow> a < length (tr_heap r) \<and> map_of (tr_byId r) (tp_id (tr_heap r ! a)) = Some a"
    "a \<in> set (tr_plans r) \<Longrightarrow> b \<in> set (tr_plans r) \<Longrightarrow>
       tp_invocationSpanId (tr_heap r ! a) = tp_invocationSpanId (tr_heap r ! b) \<Longrightarrow>
       tp_invocationSpanId (tr_heap r ! a) \<noteq> '''' \<Longrightarrow> a = b"
proof -
  show ok: "map_ok (tr_byId r)" and "distinct (tr_plans r)" and pl: "set (tr_plans r) = snd ` set (tr_byId r)"
    using assms by (simp_all add: plans_ok_def)
  show "a < length (tr_heap r) \<and> tp_id (tr_heap r ! a) = k \<and> a \<in> set (tr_plans r)"
    if "map_of (tr_byId r) k = Some a"
  proof -
    from that have m: "(k, a) \<in> set (tr_byId r)" by (rule map_of_SomeD)
    then have "a < length (tr_heap r)" "tp_id (tr_heap r ! a) = k"
      using assms by (auto simp: plans_ok_def)
    moreover have "a \<in> snd ` set (tr_byId r)" using m by (force intro: rev_image_eqI)
    ultimately show ?thesis using pl by simp
  qed
  show "a < length (tr_heap r) \<and> map_of (tr_byId r) (tp_id (tr_heap r ! a)) = Some a"
    if "a \<in> set (tr_plans r)"
  proof -
    from that pl obtain p where p: "p \<in> set (tr_byId r)" "a = snd p" by auto
    with assms have "a < length (tr_heap r)" "tp_id (tr_heap r ! a) = fst p" by (auto simp: plans_ok_def)
    moreover have "map_of (tr_byId r) (fst p) = Some (snd p)"
      using ok p(1) by (simp add: map_ok_def)
    ultimately show ?thesis using p by simp
  qed
  show "a = b" if "a \<in> set (tr_plans r)" "b \<in> set (tr_plans r)"
    "tp_invocationSpanId (tr_heap r ! a) = tp_invocationSpanId (tr_heap r ! b)"
    "tp_invocationSpanId (tr_heap r ! a) \<noteq> ''''"
    using assms that unfolding plans_ok_def by blast
qed

lemma plans_ok_emit [simp]: "plans_ok (tr_emit r) = plans_ok r"
  by (simp add: plans_ok_def tr_emit_def)

lemma plans_ok_cong:
  assumes ok: "plans_ok r" and b: "tr_byId r' = tr_byId r" and p: "tr_plans r' = tr_plans r"
    and len: "length (tr_heap r) \<le> length (tr_heap r')"
    and id: "\<And>a. a < length (tr_heap r) \<Longrightarrow> tp_id (tr_heap r' ! a) = tp_id (tr_heap r ! a)"
    and inv: "\<And>a. a < length (tr_heap r) \<Longrightarrow>
      tp_invocationSpanId (tr_heap r' ! a) = tp_invocationSpanId (tr_heap r ! a)"
  shows "plans_ok r'"
proof -
  note D = plans_okD [OF ok]
  have "\<forall>q \<in> set (tr_byId r). snd q < length (tr_heap r') \<and> tp_id (tr_heap r' ! snd q) = fst q"
    using ok len by (auto simp: plans_ok_def id dest: less_le_trans)
  moreover have inv': "tp_invocationSpanId (tr_heap r' ! a) = tp_invocationSpanId (tr_heap r ! a)"
    if "a \<in> set (tr_plans r)" for a
    using D(5) [OF that] inv by blast
  have "\<forall>x \<in> set (tr_plans r). \<forall>y \<in> set (tr_plans r).
      tp_invocationSpanId (tr_heap r' ! x) = tp_invocationSpanId (tr_heap r' ! y) \<longrightarrow>
      tp_invocationSpanId (tr_heap r' ! x) \<noteq> '''' \<longrightarrow> x = y"
    using D(6) by (simp add: inv')
  ultimately show ?thesis
    using D(1-3) by (simp add: plans_ok_def b p)
qed

text \<open>The object store only ever gains an object, or has one task array rewritten in place.\<close>

lemma write_task_heap:
  "length (tr_heap (write_task r a t f)) = length (tr_heap r)"
  "tp_id (tr_heap (write_task r a t f) ! b) = tp_id (tr_heap r ! b)"
  "tp_invocationSpanId (tr_heap (write_task r a t f) ! b) = tp_invocationSpanId (tr_heap r ! b)"
  by (cases "a < length (tr_heap r)"; cases "a = b"; simp add: write_task_def list_update_beyond)+

lemma length_upd_first [simp]: "length (upd_first P f xs) = length xs"
  by (induction xs) auto

lemma write_task_length:
  "length (tp_tasks (tr_heap (write_task r a t f) ! b)) = length (tp_tasks (tr_heap r ! b))"
  by (cases "a < length (tr_heap r)"; cases "a = b") (simp_all add: write_task_def list_update_beyond)

lemma plans_ok_write_task [wf_intros]: "plans_ok r \<Longrightarrow> plans_ok (write_task r a t f)"
  by (erule plans_ok_cong) (simp_all add: write_task_heap, simp_all add: write_task_def)

lemma revs_ok_write_task [wf_intros]: "revs_ok r \<Longrightarrow> revs_ok (write_task r a t f)"
  unfolding revs_ok_def rev_ok_def write_task_heap write_task_length by (simp add: write_task_def)

text \<open>Dropping the sibling leaves no other live plan with the new plan's invocation.\<close>

lemma other_plans:
  assumes ok: "plans_ok r"
  shows "snd ` {p \<in> set (tr_byId r). fst p \<noteq> k} = {b \<in> set (tr_plans r). tp_id (tr_heap r ! b) \<noteq> k}"
proof (rule set_eqI)
  fix b
  note D = plans_okD [OF ok]
  show "b \<in> snd ` {p \<in> set (tr_byId r). fst p \<noteq> k} \<longleftrightarrow> b \<in> {b \<in> set (tr_plans r). tp_id (tr_heap r ! b) \<noteq> k}"
  proof
    assume "b \<in> snd ` {p \<in> set (tr_byId r). fst p \<noteq> k}"
    then obtain k' where "(k', b) \<in> set (tr_byId r)" "k' \<noteq> k" by auto
    moreover from this D(1) have "map_of (tr_byId r) k' = Some b" by (simp add: map_ok_def)
    ultimately show "b \<in> {b \<in> set (tr_plans r). tp_id (tr_heap r ! b) \<noteq> k}" using D(4) by auto
  next
    assume b: "b \<in> {b \<in> set (tr_plans r). tp_id (tr_heap r ! b) \<noteq> k}"
    then have "(tp_id (tr_heap r ! b), b) \<in> set (tr_byId r)" using D(5) by (blast dest: map_of_SomeD)
    with b show "b \<in> snd ` {p \<in> set (tr_byId r). fst p \<noteq> k}" by force
  qed
qed

lemma other_plans_of:
  assumes ok: "plans_ok r" and k: "map_of (tr_byId r) k = Some s"
  shows "{b \<in> set (tr_plans r). tp_id (tr_heap r ! b) \<noteq> k} = set (tr_plans r) - {s}"
proof -
  have "tp_id (tr_heap r ! b) = k \<longleftrightarrow> b = s" if "b \<in> set (tr_plans r)" for b
    using plans_okD(4) [OF ok k] plans_okD(5) [OF ok that] k by (metis option.inject)
  then show ?thesis by blast
qed

lemma plans_ok_drop:
  assumes ok: "plans_ok r" and s: "s \<in> set (tr_plans r)"
  shows "plans_ok (drop_sibling r (Some s))"
proof -
  let ?k = "tp_id (tr_heap r ! s)"
  note D = plans_okD [OF ok]
  have k: "map_of (tr_byId r) ?k = Some s" using D(5) [OF s] by simp
  have "snd ` set (AList.delete ?k (tr_byId r)) = snd ` set (tr_byId r) - {s}"
    using other_plans [OF ok, of ?k] other_plans_of [OF ok k] D(3) by (simp add: set_delete)
  with ok show ?thesis
    unfolding plans_ok_def drop_sibling_def
    by (simp add: set_remove1_eq distinct_remove1) (auto simp: set_delete)
qed

lemma find_sibling_Some:
  "find_sibling r plan = Some s \<Longrightarrow>
     s \<in> set (tr_plans r) \<and> tp_invocationSpanId plan \<noteq> '''' \<and>
     tp_invocationSpanId (tr_heap r ! s) = tp_invocationSpanId plan \<and> tp_id (tr_heap r ! s) \<noteq> tp_id plan"
  by (auto simp: find_sibling_def find_Some_iff split: if_splits)

lemma find_sibling_None:
  "find_sibling r plan = None \<Longrightarrow> a \<in> set (tr_plans r) \<Longrightarrow> tp_invocationSpanId plan \<noteq> '''' \<Longrightarrow>
     tp_invocationSpanId (tr_heap r ! a) = tp_invocationSpanId plan \<Longrightarrow> tp_id (tr_heap r ! a) = tp_id plan"
  by (auto simp: find_sibling_def find_None_iff)

lemma set_replace_first: "distinct xs \<Longrightarrow> x \<in> set xs \<Longrightarrow> set (replace_first x y xs) = insert y (set xs - {x})"
  by (induction xs) auto

lemma distinct_replace_first: "distinct xs \<Longrightarrow> y \<notin> set xs \<Longrightarrow> distinct (replace_first x y xs)"
proof (induction xs)
  case (Cons z zs)
  have "set (replace_first x y zs) \<subseteq> insert y (set zs)"
    by (induction zs) auto
  with Cons show ?case by auto
qed simp

text \<open>Putting a fresh plan object under its id, in place of the live plan with that id.\<close>

lemma plans_ok_put:
  assumes ok: "plans_ok r" and a: "a < length (tr_heap r)" "a \<notin> set (tr_plans r)"
    and uniq: "\<And>b. b \<in> set (tr_plans r) \<Longrightarrow> tp_invocationSpanId (tr_heap r ! a) \<noteq> '''' \<Longrightarrow>
      tp_invocationSpanId (tr_heap r ! b) = tp_invocationSpanId (tr_heap r ! a) \<Longrightarrow>
      tp_id (tr_heap r ! b) = tp_id (tr_heap r ! a)"
    and heap: "tr_heap r' = tr_heap r"
    and byId: "tr_byId r' = AList.update (tp_id (tr_heap r ! a)) a (tr_byId r)"
    and plans: "set (tr_plans r') = insert a {b \<in> set (tr_plans r). tp_id (tr_heap r ! b) \<noteq> tp_id (tr_heap r ! a)}"
    and dist: "distinct (tr_plans r')"
  shows "plans_ok r'"
proof -
  note D = plans_okD [OF ok]
  have "set (tr_plans r') = snd ` set (tr_byId r')"
    using other_plans [OF ok, of "tp_id (tr_heap r ! a)"] by (simp add: plans byId set_update_ok [OF D(1)])
  moreover have "\<forall>p \<in> set (tr_byId r'). snd p < length (tr_heap r') \<and> tp_id (tr_heap r' ! snd p) = fst p"
    using ok a by (auto simp: byId heap set_update_ok [OF D(1)] plans_ok_def)
  moreover have "\<forall>x \<in> set (tr_plans r'). \<forall>y \<in> set (tr_plans r').
      tp_invocationSpanId (tr_heap r' ! x) = tp_invocationSpanId (tr_heap r' ! y) \<longrightarrow>
      tp_invocationSpanId (tr_heap r' ! x) \<noteq> '''' \<longrightarrow> x = y"
  proof (intro ballI impI)
    fix x y
    assume xy: "x \<in> set (tr_plans r')" "y \<in> set (tr_plans r')"
      and inv: "tp_invocationSpanId (tr_heap r' ! x) = tp_invocationSpanId (tr_heap r' ! y)"
        "tp_invocationSpanId (tr_heap r' ! x) \<noteq> ''''"
    from inv have inv': "tp_invocationSpanId (tr_heap r ! x) = tp_invocationSpanId (tr_heap r ! y)"
        "tp_invocationSpanId (tr_heap r ! x) \<noteq> ''''" "tp_invocationSpanId (tr_heap r ! y) \<noteq> ''''"
      by (simp_all add: heap)
    from xy consider "x = a" "y = a"
      | "x = a" "y \<in> set (tr_plans r)" "tp_id (tr_heap r ! y) \<noteq> tp_id (tr_heap r ! a)"
      | "y = a" "x \<in> set (tr_plans r)" "tp_id (tr_heap r ! x) \<noteq> tp_id (tr_heap r ! a)"
      | "x \<in> set (tr_plans r)" "y \<in> set (tr_plans r)"
      by (auto simp: plans)
    then show "x = y"
    proof cases
      case 2
      have "tp_id (tr_heap r ! y) = tp_id (tr_heap r ! a)"
        using inv' unfolding 2(1) by (intro uniq [OF 2(2)]) simp_all
      with 2(3) show ?thesis by simp
    next
      case 3
      have "tp_id (tr_heap r ! x) = tp_id (tr_heap r ! a)"
        using inv' unfolding 3(1) by (intro uniq [OF 3(2)]) simp_all
      with 3(3) show ?thesis by simp
    next
      case 4
      show ?thesis by (rule D(6) [OF 4 inv'(1,2)])
    qed simp
  qed
  moreover have "map_ok (tr_byId r')" using D(1) by (simp add: byId)
  ultimately show ?thesis using dist by (simp only: plans_ok_def simp_thms)
qed

lemma plans_ok_store_plan:
  assumes ok: "plans_ok r" and a: "a < length (tr_heap r)" "a \<notin> set (tr_plans r)"
    and uniq: "\<And>b. b \<in> set (tr_plans r) \<Longrightarrow> tp_invocationSpanId (tr_heap r ! a) \<noteq> '''' \<Longrightarrow>
      tp_invocationSpanId (tr_heap r ! b) = tp_invocationSpanId (tr_heap r ! a) \<Longrightarrow>
      tp_id (tr_heap r ! b) = tp_id (tr_heap r ! a)"
  shows "plans_ok (store_plan r a)"
proof (cases "map_of (tr_byId r) (tp_id (tr_heap r ! a))")
  case None
  have "tp_id (tr_heap r ! b) \<noteq> tp_id (tr_heap r ! a)" if "b \<in> set (tr_plans r)" for b
    using plans_okD(5) [OF ok that] None by auto
  then have "{b \<in> set (tr_plans r). tp_id (tr_heap r ! b) \<noteq> tp_id (tr_heap r ! a)} = set (tr_plans r)" by auto
  with None a plans_okD(2) [OF ok] show ?thesis
    by (intro plans_ok_put [OF ok a uniq]) (simp_all add: store_plan_def tr_defs distinct_sort)
next
  case (Some e)
  have e: "e \<in> set (tr_plans r)" using plans_okD(4) [OF ok Some] by simp
  note other_plans_of [OF ok Some]
  with Some e a plans_okD(2) [OF ok] show ?thesis
    by (intro plans_ok_put [OF ok a uniq])
      (simp_all add: store_plan_def tr_defs set_replace_first distinct_replace_first)
qed

lemma plans_ok_alloc:
  assumes "plans_ok r"
  shows "plans_ok (r\<lparr>tr_heap := tr_heap r @ [plan]\<rparr>)"
  by (rule plans_ok_cong [OF assms]) (simp_all add: nth_append)

lemma plans_ok_upsert [wf_intros]:
  assumes ok: "plans_ok r"
  shows "plans_ok (tr_upsertPlan r plan now)"
proof -
  let ?a = "length (tr_heap r)" and ?r1 = "r\<lparr>tr_heap := tr_heap r @ [plan]\<rparr>"
  let ?r0 = "drop_sibling ?r1 (find_sibling r plan)"
  have ok1: "plans_ok ?r1" by (rule plans_ok_alloc [OF ok])
  have old: "tr_heap ?r1 ! b = tr_heap r ! b \<and> b < ?a" if "b \<in> set (tr_plans r)" for b
    using plans_okD(5) [OF ok that] by (simp add: nth_append)
  have ok0: "plans_ok ?r0"
    using plans_ok_drop [OF ok1] find_sibling_Some [of r plan] ok1
    by (cases "find_sibling r plan") (simp_all add: drop_sibling_def)
  have h: "tr_heap ?r0 = tr_heap r @ [plan]" and sub: "set (tr_plans ?r0) \<subseteq> set (tr_plans r)"
    by (auto simp: drop_sibling_def split: option.splits dest: notin_set_remove1 intro: set_mp [OF set_remove1_subset])
  have fresh: "?a \<notin> set (tr_plans ?r0)" using old sub by blast
  have "tp_id (tr_heap ?r0 ! b) = tp_id plan"
    if b: "b \<in> set (tr_plans ?r0)" and ne: "tp_invocationSpanId plan \<noteq> ''''"
      and eq: "tp_invocationSpanId (tr_heap ?r0 ! b) = tp_invocationSpanId plan" for b
  proof (cases "find_sibling r plan")
    case None
    from b sub have b': "b \<in> set (tr_plans r)" by blast
    with eq old [OF b'] have "tp_invocationSpanId (tr_heap r ! b) = tp_invocationSpanId plan" by (simp add: h)
    from find_sibling_None [OF None b' ne this] old [OF b'] show ?thesis by (simp add: h)
  next
    case (Some s)
    note S = find_sibling_Some [OF Some]
    have "b \<in> set (tr_plans r)" using b sub by blast
    moreover have "b \<noteq> s"
      using b Some plans_okD(2) [OF ok] by (auto simp: drop_sibling_def)
    ultimately have False
      using plans_okD(6) [OF ok, of b s] S ne eq old by (auto simp: h)
    then show ?thesis ..
  qed
  then have "plans_ok (store_plan ?r0 ?a)"
    using fresh by (intro plans_ok_store_plan [OF ok0]) (simp_all add: h)
  moreover have "plans_ok (record_revision q p a now) = plans_ok q" for q p a
    by (simp add: record_revision_def plans_ok_def Let_def)
  ultimately show ?thesis by (simp add: tr_upsertPlan_def Let_def)
qed

lemma diff_added_bounds: "i \<in> set (diff_added m k ts) \<Longrightarrow> k \<le> i \<and> i < k + length ts"
  by (induction ts arbitrary: k) (fastforce split: option.splits)+

lemma revs_ok_update:
  assumes ok: "revs_ok r" and h: "tr_heap r' = tr_heap r @ hs"
    and rev: "tr_revisionsByPlan r' = tr_revisionsByPlan r"
  shows "revs_ok r'"
  using ok unfolding revs_ok_def rev_ok_def rev h by (fastforce simp: nth_append)

lemma map_list_get_update [simp]:
  "map_list_get (AList.update k vs m) k' = (if k' = k then vs else map_list_get m k')"
  by (simp add: map_list_get_def)

lemma rev_ok_new:
  assumes "a < length h"
  shows "rev_ok h \<lparr>rv_revisedAtMs = n, rv_reason = s, rv_diff = computePlanDiff p (h ! a), rv_plan = a\<rparr>"
  using assms by (auto simp: rev_ok_def computePlanDiff_def Let_def dest: diff_added_bounds)

lemma revs_ok_record:
  assumes ok: "revs_ok r" and a: "a < length (tr_heap r)"
  shows "revs_ok (record_revision r prev a now)"
proof -
  let ?old = "map_list_get (tr_revisionsByPlan r) (tp_id (tr_heap r ! a))"
  let ?v = "\<lparr>rv_revisedAtMs = now, rv_reason = tp_revisionReason (tr_heap r ! a),
    rv_diff = computePlanDiff (map_option (\<lambda>p. tr_heap r ! p) prev) (tr_heap r ! a), rv_plan = a\<rparr>"
  let ?new = "if length (?old @ [?v]) > 20 then tl (?old @ [?v]) else ?old @ [?v]"
  have old: "length ?old \<le> 20" "\<forall>v \<in> set ?old. rev_ok (tr_heap r) v"
    using ok by (simp_all add: revs_ok_def)
  have "set ?new \<subseteq> set (?old @ [?v])" using list.set_sel(2) [of "?old @ [?v]"] by auto
  moreover have "rev_ok (tr_heap r) ?v" by (rule rev_ok_new [OF a])
  ultimately have new: "\<forall>v \<in> set ?new. rev_ok (tr_heap r) v"
    using old(2) by fastforce
  have len: "length ?new \<le> 20" using old(1) by simp
  show ?thesis
  proof (cases "record_revision r prev a now = r")
    case False
    then have "tr_heap (record_revision r prev a now) = tr_heap r"
      "tr_revisionsByPlan (record_revision r prev a now) = AList.update (tp_id (tr_heap r ! a)) ?new (tr_revisionsByPlan r)"
      by (simp_all add: record_revision_def Let_def split: if_splits)
    with ok new len show ?thesis by (simp only: revs_ok_def map_list_get_update) presburger
  qed (use ok in simp)
qed

lemma revs_ok_emit [simp]: "revs_ok (tr_emit r) = revs_ok r"
  by (simp add: revs_ok_def tr_emit_def)

lemma store_plan_frame [simp]:
  "tr_heap (store_plan r a) = tr_heap r"
  "tr_revisionsByPlan (store_plan r a) = tr_revisionsByPlan r"
  "tr_emits (store_plan r a) = tr_emits r"
  by (simp_all add: store_plan_def push_plan_def Let_def split: option.splits)

lemma drop_sibling_frame [simp]:
  "tr_heap (drop_sibling r s) = tr_heap r"
  "tr_revisionsByPlan (drop_sibling r s) = tr_revisionsByPlan r"
  "tr_emits (drop_sibling r s) = tr_emits r"
  by (simp_all add: drop_sibling_def split: option.splits)

lemma revs_ok_upsert [wf_intros]:
  assumes ok: "revs_ok r"
  shows "revs_ok (tr_upsertPlan r plan now)"
proof -
  let ?r0 = "drop_sibling (r\<lparr>tr_heap := tr_heap r @ [plan]\<rparr>) (find_sibling r plan)"
  have "revs_ok (store_plan ?r0 (length (tr_heap r)))"
    by (rule revs_ok_update [OF ok, of _ "[plan]"]) simp_all
  then have "revs_ok (record_revision (store_plan ?r0 (length (tr_heap r))) q (length (tr_heap r)) now)" for q
    by (rule revs_ok_record) simp
  then show ?thesis by (simp add: tr_upsertPlan_def Let_def tr_emit_def revs_ok_def)
qed

lemma tasks_ok_empty [simp, wf_intros]: "tasks_ok emptyTasks"
  by (simp add: tasks_ok_def plans_ok_def revs_ok_def emptyTasks_def map_list_get_def)

lemma tasks_ok_write [wf_intros]: "tasks_ok r \<Longrightarrow> tasks_ok (tr_emit (write_task r a t f))"
  by (simp add: tasks_ok_def plans_ok_write_task revs_ok_write_task)

lemma tasks_ok_step: "tasks_ok r \<Longrightarrow> tasks_ok (task_step r op)"
proof (cases op)
  case (TUpsert p now)
  then show "tasks_ok r \<Longrightarrow> ?thesis" by (simp add: tasks_ok_def plans_ok_upsert revs_ok_upsert)
next
  case TClear
  then show "tasks_ok r \<Longrightarrow> ?thesis"
    by (simp add: tr_clear_def tasks_ok_def plans_ok_def revs_ok_def tr_emit_def map_list_get_def)
qed (simp_all add: tr_updateTaskStatus_def tr_updateTaskStatusByTaskId_def tasks_ok_write split: option.splits)

lemma tasks_ok_run: "tasks_ok r \<Longrightarrow> tasks_ok (foldl task_step r ops)"
  by (induction ops arbitrary: r) (simp_all add: tasks_ok_step)

section \<open>Reading a diff\<close>

definition last_with :: "string \<Rightarrow> task list \<Rightarrow> task option" where
  \<comment> \<open>the last task with an id: what the code's map of previous tasks holds\<close>
  "last_with k ts = find (\<lambda>t. tk_id t = k) (rev ts)"

lemma map_of_task_map: "map_of (task_map ts) k = last_with k ts"
  by (induction ts rule: rev_induct) (auto simp: task_map_def last_with_def)

lemma last_with_None: "last_with k ts = None \<longleftrightarrow> k \<notin> tk_id ` set ts"
  by (auto simp: last_with_def find_None_iff)

lemma keys_task_map: "fst ` set (task_map ts) = tk_id ` set ts"
  by (induction ts rule: rev_induct) (auto simp: task_map_def fst_set_update)

lemma diff_added_iff:
  "i \<in> set (diff_added m k ts) \<longleftrightarrow> k \<le> i \<and> i < k + length ts \<and> map_of m (tk_id (ts ! (i - k))) = None"
proof (induction ts arbitrary: k)
  case (Cons t ts)
  show ?case
  proof (cases "i = k")
    case True
    then show ?thesis using diff_added_bounds [of i m "Suc k" ts] by (auto split: option.splits)
  next
    case False
    then show ?thesis by (auto simp: Cons.IH Suc_diff_Suc nth_Cons' split: option.splits)
  qed
qed simp

lemma diff_modified_ids:
  "fst ` set (diff_modified m ts) =
     tk_id ` {t \<in> set ts. case map_of m (tk_id t) of None \<Rightarrow> False | Some p \<Rightarrow> task_changes p t \<noteq> []}"
  by (induction ts) (auto split: option.splits if_splits)

lemma task_changes_Nil:
  "task_changes p t = [] \<longleftrightarrow> tk_title p = tk_title t \<and> tk_description p = tk_description t \<and>
     tk_assigneeAgentId p = tk_assigneeAgentId t \<and> tk_status p = tk_status t"
  by (simp add: task_changes_def)

lemma edge_key_set_props: "set (edge_key_set es) = edge_key ` set es" "distinct (edge_key_set es)"
  by (induction es rule: rev_induct) (auto simp: edge_key_set_def)

lemma edges_changed_iff:
  assumes "distinct xs" and "distinct ys"
  shows "edges_changed xs ys \<longleftrightarrow> set xs \<noteq> set ys"
proof -
  have "set xs = set ys" if "length xs = length ys" "set ys \<subseteq> set xs"
    using that assms by (metis card_subset_eq distinct_card finite_set)
  moreover have "length xs = length ys" if "set xs = set ys"
    using that assms by (metis distinct_card)
  ultimately show ?thesis by (auto simp: edges_changed_def list_ex_iff)
qed

section \<open>Properties\<close>

text \<open>A plan diff says exactly what changed: a task of the new plan is added when its id was not there,
  a removed id was there and is gone, a task is modified when its title, description, assignee or status
  differs from the last previous task with its id, and the edges count as changed exactly when the two
  sets of edge keys differ, whatever their order or repetition.
\<close>

theorem computePlanDiff_spec:
  "let d = computePlanDiff prev nxt;
       ts = (case prev of None \<Rightarrow> [] | Some p \<Rightarrow> tp_tasks p);
       es = (case prev of None \<Rightarrow> [] | Some p \<Rightarrow> tp_edges p)
   in set (pd_added d) = {i. i < length (tp_tasks nxt) \<and> tk_id (tp_tasks nxt ! i) \<notin> tk_id ` set ts} \<and>
      fst ` set (pd_removed d) = tk_id ` set ts - tk_id ` set (tp_tasks nxt) \<and>
      fst ` set (pd_modified d) =
        tk_id ` {t \<in> set (tp_tasks nxt). case last_with (tk_id t) ts of None \<Rightarrow> False
                   | Some p \<Rightarrow> (tk_title p, tk_description p, tk_assigneeAgentId p, tk_status p) \<noteq>
                              (tk_title t, tk_description t, tk_assigneeAgentId t, tk_status t)} \<and>
      (pd_edgesChanged d \<longleftrightarrow> edge_key ` set es \<noteq> edge_key ` set (tp_edges nxt))"
proof -
  have removed: "fst ` set (map (\<lambda>(k, t). (k, tk_title t)) (filter (\<lambda>(k, t). k \<notin> ids) m)) = fst ` set m - ids"
    for ids and m :: "(string, task) jsmap" by force
  have cases_eq: "(case x of None \<Rightarrow> False | Some p \<Rightarrow> task_changes p t \<noteq> []) =
     (case x of None \<Rightarrow> False | Some p \<Rightarrow> (tk_title p, tk_description p, tk_assigneeAgentId p, tk_status p) \<noteq>
        (tk_title t, tk_description t, tk_assigneeAgentId t, tk_status t))" for x t
    by (auto simp: task_changes_Nil split: option.splits)
  define ts es where "ts = (case prev of None \<Rightarrow> [] | Some p \<Rightarrow> tp_tasks p)"
    and "es = (case prev of None \<Rightarrow> [] | Some p \<Rightarrow> tp_edges p)"
  have d: "pd_added (computePlanDiff prev nxt) = diff_added (task_map ts) 0 (tp_tasks nxt)"
    "pd_removed (computePlanDiff prev nxt) =
       map (\<lambda>(k, t). (k, tk_title t)) (filter (\<lambda>(k, t). k \<notin> tk_id ` set (tp_tasks nxt)) (task_map ts))"
    "pd_modified (computePlanDiff prev nxt) = diff_modified (task_map ts) (tp_tasks nxt)"
    "pd_edgesChanged (computePlanDiff prev nxt) = edges_changed (edge_key_set es) (edge_key_set (tp_edges nxt))"
    by (simp_all add: computePlanDiff_def ts_def es_def Let_def)
  have "set (pd_added (computePlanDiff prev nxt)) =
      {i. i < length (tp_tasks nxt) \<and> tk_id (tp_tasks nxt ! i) \<notin> tk_id ` set ts}"
    by (auto simp only: d diff_added_iff map_of_task_map last_with_None) simp_all
  moreover have "fst ` set (pd_removed (computePlanDiff prev nxt)) = tk_id ` set ts - tk_id ` set (tp_tasks nxt)"
    by (simp only: d removed keys_task_map)
  ultimately show ?thesis
    by (simp add: d(3,4) diff_modified_ids map_of_task_map cases_eq edges_changed_iff edge_key_set_props Let_def
        flip: ts_def es_def)
qed

section \<open>Status updates over the listed plans\<close>

text \<open>What a status update means for the plans a reader sees: the first task with the id, in the first plan that has it.\<close>

definition update_plans :: "string \<Rightarrow> (task \<Rightarrow> task) \<Rightarrow> task_plan list \<Rightarrow> task_plan list" where
  "update_plans taskId f =
     upd_first (has_task taskId) (\<lambda>p. p\<lparr>tp_tasks := upd_first (\<lambda>t. tk_id t = taskId) f (tp_tasks p)\<rparr>)"

lemma upd_first_none: "find P xs = None \<Longrightarrow> upd_first P f xs = xs"
  by (induction xs) (auto split: if_splits)

lemma upd_first_deref:
  assumes "distinct xs" and "find (\<lambda>a. P (h ! a)) xs = Some a" and "\<forall>x \<in> set xs. x < length h"
  shows "map ((!) (h[a := f (h ! a)])) xs = upd_first P f (map ((!) h) xs)"
  using assms
proof (induction xs)
  case (Cons x xs)
  show ?case
  proof (cases "P (h ! x)")
    case True
    then have "a = x" using Cons.prems(2) by simp
    moreover have "map ((!) (h[x := f (h ! x)])) xs = map ((!) h) xs"
      using Cons.prems(1) by (intro map_cong refl nth_list_update_neq) auto
    ultimately show ?thesis using True Cons.prems by simp
  next
    case False
    then have "find (\<lambda>a. P (h ! a)) xs = Some a" using Cons.prems(2) by simp
    moreover from this have "a \<noteq> x" using False by (auto simp: find_Some_iff)
    ultimately show ?thesis using False Cons by simp
  qed
qed simp

lemma tr_listPlans_write:
  assumes ok: "plans_ok r" and a: "find (\<lambda>a. has_task t (tr_heap r ! a)) (tr_plans r) = Some a"
  shows "tr_listPlans (write_task r a t f) = update_plans t f (tr_listPlans r)"
  using upd_first_deref [OF plans_okD(2) [OF ok] a, of "\<lambda>p. p\<lparr>tp_tasks := upd_first (\<lambda>x. tk_id x = t) f (tp_tasks p)\<rparr>"]
    plans_okD(5) [OF ok]
  by (simp add: tr_listPlans_def update_plans_def write_task_def)

text \<open>A status event that carries only a task id changes, in every state the registry can reach, exactly the
  first task with that id in the first plan that has one, keeps every other task, plan, snapshot and recorded
  revision, and notifies only when some plan has the task.
\<close>

theorem status_by_task_id_refines:
  "let r = foldl task_step emptyTasks ops;
       r' = tr_updateTaskStatusByTaskId r t s b c
   in tr_listPlans r' = update_plans t (set_status s b c) (tr_listPlans r) \<and>
      tr_snapshotsForPlan r' k = tr_snapshotsForPlan r k \<and>
      tr_revisionsForPlan r' k = tr_revisionsForPlan r k \<and>
      tr_emits r' = (if list_ex (has_task t) (tr_listPlans r) then Suc (tr_emits r) else tr_emits r)"
proof -
  let ?r = "foldl task_step emptyTasks ops"
  have "tasks_ok ?r" by (intro tasks_ok_run tasks_ok_empty)
  then have ok: "plans_ok ?r" by (simp add: tasks_ok_def)
  show ?thesis
  proof (cases "find (\<lambda>a. has_task t (tr_heap ?r ! a)) (tr_plans ?r)")
    case None
    then have "\<not> list_ex (has_task t) (tr_listPlans ?r)" and "find (has_task t) (tr_listPlans ?r) = None"
      by (auto simp: tr_listPlans_def list_ex_iff find_None_iff)
    with None show ?thesis
      by (simp add: Let_def tr_updateTaskStatusByTaskId_def update_plans_def upd_first_none)
  next
    case (Some a)
    have ex: "list_ex (has_task t) (tr_listPlans ?r)"
      using Some by (auto simp: tr_listPlans_def list_ex_iff find_Some_iff)
    have emit: "tr_listPlans (tr_emit q) = tr_listPlans q" for q by (simp add: tr_listPlans_def tr_emit_def)
    have upd: "tr_updateTaskStatusByTaskId ?r t s b c = tr_emit (write_task ?r a t (set_status s b c))"
      using Some by (simp add: tr_updateTaskStatusByTaskId_def)
    have frame: "tr_snapshotsForPlan (tr_emit (write_task q a t f)) k = tr_snapshotsForPlan q k"
      "tr_revisionsForPlan (tr_emit (write_task q a t f)) k = tr_revisionsForPlan q k"
      "tr_emits (tr_emit (write_task q a t f)) = Suc (tr_emits q)" for q f
      by (simp_all add: tr_snapshotsForPlan_def tr_revisionsForPlan_def tr_emit_def write_task_def)
    show ?thesis
      by (simp only: Let_def upd emit frame tr_listPlans_write [OF ok Some] ex if_True simp_thms)
  qed
qed

text \<open>
  A status update without a cancel reason keeps the reason the task already carries, and one without a
  span id keeps its bound span; the status is taken whatever it was before.
\<close>

lemma set_status_keeps_reason:
  "tk_status (set_status s b c t) = s \<and> tk_id (set_status s b c t) = tk_id t \<and>
   tk_cancelReason (set_status s b c t) = (if c = '''' then tk_cancelReason t else Some c) \<and>
   tk_boundSpanId (set_status s b c t) = or_str b (tk_boundSpanId t)"
  by (simp add: set_status_def Let_def or_str_def)

section \<open>Revision history of a plan\<close>

lemma store_plan_get:
  "tr_getPlan (store_plan r a) (tp_id (tr_heap r ! a)) = Some (tr_heap r ! a)"
  by (simp add: store_plan_def tr_getPlan_def push_plan_def Let_def split: option.splits)

lemma record_revision_frame [simp]:
  "tr_heap (record_revision r p a n) = tr_heap r" "tr_byId (record_revision r p a n) = tr_byId r"
  "tr_plans (record_revision r p a n) = tr_plans r"
  "tr_snapshotsByPlan (record_revision r p a n) = tr_snapshotsByPlan r"
  by (simp_all add: record_revision_def Let_def)

text \<open>When a plan that is live is upserted again, the full revision sequence of its id gains the new plan: after
  the old one when the revision number differs, in place of the old one when the numbers are equal.
\<close>

theorem upsert_extends_history:
  assumes "tr_getPlan r (tp_id plan) = Some old" and "tasks_ok r"
  shows "tr_allRevsForPlan (tr_upsertPlan r plan now) (tp_id plan) =
     (if rev_index old \<noteq> rev_index plan then tr_allRevsForPlan r (tp_id plan) @ [plan]
      else butlast (tr_allRevsForPlan r (tp_id plan)) @ [plan])"
proof -
  let ?r0 = "drop_sibling (r\<lparr>tr_heap := tr_heap r @ [plan]\<rparr>) (find_sibling r plan)"
  have ok: "plans_ok r" using assms(2) by (simp add: tasks_ok_def)
  obtain e where e: "map_of (tr_byId r) (tp_id plan) = Some e" and old: "old = tr_heap r ! e"
    using assms(1) by (auto simp: tr_getPlan_def)
  have el: "e < length (tr_heap r)" using plans_okD(4) [OF ok e] by simp
  have e0: "map_of (tr_byId ?r0) (tp_id plan) = Some e"
    using e find_sibling_Some [of r plan] plans_okD(5) [OF ok]
    by (auto simp: drop_sibling_def nth_append split: option.splits)
  have s0: "tr_snapshotsByPlan ?r0 = tr_snapshotsByPlan r"
    by (simp add: drop_sibling_def split: option.splits)
  have snaps: "map_list_get (tr_snapshotsByPlan (store_plan ?r0 (length (tr_heap r)))) (tp_id plan) =
      map_list_get (tr_snapshotsByPlan r) (tp_id plan) @ (if rev_index old \<noteq> rev_index plan then [old] else [])"
    using e0 el by (simp add: store_plan_def Let_def s0 old nth_append push_plan_def)
  have get: "tr_getPlan (store_plan ?r0 (length (tr_heap r))) (tp_id plan) = Some plan"
    using store_plan_get [of ?r0 "length (tr_heap r)"] by simp
  have "tr_allRevsForPlan (tr_upsertPlan r plan now) (tp_id plan) =
      map_list_get (tr_snapshotsByPlan r) (tp_id plan) @ (if rev_index old \<noteq> rev_index plan then [old] else []) @ [plan]"
  proof -
    have "tr_getPlan (tr_upsertPlan r plan now) k = tr_getPlan (store_plan ?r0 (length (tr_heap r))) k"
      "tr_snapshotsByPlan (tr_upsertPlan r plan now) = tr_snapshotsByPlan (store_plan ?r0 (length (tr_heap r)))" for k
      by (simp_all add: tr_upsertPlan_def Let_def tr_emit_def tr_getPlan_def)
    with get snaps show ?thesis by (simp only: tr_allRevsForPlan_def Let_def option.case append_assoc)
  qed
  then show ?thesis
    using assms(1) by (simp add: tr_allRevsForPlan_def Let_def)
qed

definition demoTask :: "string \<Rightarrow> string \<Rightarrow> task" where
  "demoTask i title = \<lparr>tk_id = i, tk_title = title, tk_description = '''', tk_assigneeAgentId = ''c:w'',
     tk_status = TS_PENDING, tk_predictedStartMs = 0, tk_predictedDurationMs = 0, tk_boundSpanId = '''',
     tk_cancelReason = None, tk_supersedes = '''', tk_discovered = Some False\<rparr>"

definition demoPlan :: "string \<Rightarrow> int \<Rightarrow> string \<Rightarrow> task list \<Rightarrow> task_plan" where
  "demoPlan i n reason ts = \<lparr>tp_id = i, tp_invocationSpanId = '''', tp_plannerAgentId = '''', tp_createdAtMs = 0,
     tp_summary = '''', tp_tasks = ts, tp_edges = [], tp_revisionReason = reason, tp_revisionKind = None,
     tp_revisionSeverity = None, tp_revisionIndex = Some n, tp_triggerEventId = None\<rparr>"

definition demoTasks :: task_registry where
  "demoTasks = tr_upsertPlan (tr_upsertPlan emptyTasks (demoPlan ''p'' 0 '''' [demoTask ''a'' ''A'']) 10)
     (demoPlan ''p'' 1 ''drift'' [demoTask ''a'' ''A'', demoTask ''b'' ''B'']) 20"

lemmas demo_task_simps = demoTasks_def demoTask_def demoPlan_def emptyTasks_def tr_upsertPlan_def tr_emit_def
  store_plan_def drop_sibling_def push_plan_def record_revision_def find_sibling_def Let_def rev_index_def
  map_list_get_def computePlanDiff_def task_map_def edge_key_set_def edges_changed_def task_changes_def

theorem upsert_extends_history_witness:
  "tr_allRevsForPlan (tr_upsertPlan demoTasks (demoPlan ''p'' 2 ''again'' []) 30) ''p'' =
     tr_allRevsForPlan demoTasks ''p'' @ [demoPlan ''p'' 2 ''again'' []]"
proof -
  have "tr_getPlan demoTasks (tp_id (demoPlan ''p'' 2 ''again'' [])) =
      Some (demoPlan ''p'' 1 ''drift'' [demoTask ''a'' ''A'', demoTask ''b'' ''B''])"
    by (simp add: demo_task_simps tr_getPlan_def)
  moreover have "tasks_ok demoTasks"
    using tasks_ok_run [OF tasks_ok_empty, of "[TUpsert (demoPlan ''p'' 0 '''' [demoTask ''a'' ''A'']) 10,
      TUpsert (demoPlan ''p'' 1 ''drift'' [demoTask ''a'' ''A'', demoTask ''b'' ''B'']) 20]"]
    by (simp add: demoTasks_def)
  ultimately show ?thesis
    using upsert_extends_history [of demoTasks "demoPlan ''p'' 2 ''again'' []" _ 30]
    by (simp add: demoPlan_def rev_index_def)
qed

text \<open>
  The added tasks of a recorded revision are the live task objects of its plan, not copies: a later status
  update shows in the recorded diff, while the past snapshots stay as they were captured.
\<close>

theorem recorded_diff_follows_live_tasks:
  "let r' = tr_updateTaskStatusByTaskId demoTasks ''b'' TS_RUNNING '''' ''''
   in map tk_status (concat (map (added_tasks demoTasks) (tr_revisionsForPlan demoTasks ''p''))) = [TS_PENDING] \<and>
      map tk_status (concat (map (added_tasks r') (tr_revisionsForPlan r' ''p''))) = [TS_RUNNING] \<and>
      tr_snapshotsForPlan r' ''p'' = tr_snapshotsForPlan demoTasks ''p''"
  by (simp add: demo_task_simps tr_updateTaskStatusByTaskId_def has_task_def write_task_def set_status_def
      added_tasks_def tr_revisionsForPlan_def tr_snapshotsForPlan_def)

section \<open>The registry is consistent\<close>

definition log_ok :: "task_plan list \<Rightarrow> string \<Rightarrow> plan_revision list \<Rightarrow> string option \<Rightarrow> bool" where
  \<comment> \<open>the recorded revisions of the plan \<open>k\<close>: each was made by a plan object with that id and with its reason\<close>
  "log_ok h k revs lastReason \<longleftrightarrow>
     distinct_adj (map rv_reason revs) \<and> lastReason = (if revs = [] then None else Some (rv_reason (last revs))) \<and>
     (\<forall>v\<in>set revs. rv_plan v < length h \<and> tp_id (h ! rv_plan v) = k \<and> tp_revisionReason (h ! rv_plan v) = rv_reason v \<and>
        rv_reason v \<noteq> '''')"

definition recorded_ok :: "task_registry \<Rightarrow> bool" where
  "recorded_ok r \<longleftrightarrow>
     (\<forall>k. log_ok (tr_heap r) k (map_list_get (tr_revisionsByPlan r) k) (map_of (tr_lastReasonByPlan r) k) \<and>
          (\<forall>q\<in>set (map_list_get (tr_snapshotsByPlan r) k). tp_id q = k))"

lemma log_ok_snoc:
  assumes "log_ok h k revs prev" and "rv_reason v \<noteq> ''''" and "prev \<noteq> Some (rv_reason v)"
    and "rv_plan v < length h" "tp_id (h ! rv_plan v) = k" "tp_revisionReason (h ! rv_plan v) = rv_reason v"
  shows "log_ok h k (revs @ [v]) (Some (rv_reason v))"
  using assms by (auto simp: log_ok_def distinct_adj_append_iff last_map)

lemma log_ok_tl: "log_ok h k revs prev \<Longrightarrow> 1 < length revs \<Longrightarrow> log_ok h k (tl revs) prev"
  by (cases revs) (auto simp: log_ok_def distinct_adj_Cons)

lemma recorded_ok_write:
  assumes "recorded_ok r"
  shows "recorded_ok (tr_emit (write_task r a t f))"
proof -
  let ?r = "write_task r a t f"
  have "tp_revisionReason (tr_heap ?r ! b) = tp_revisionReason (tr_heap r ! b)" for b
    by (cases "a < length (tr_heap r)"; cases "a = b") (simp_all add: write_task_def list_update_beyond)
  moreover have "tr_revisionsByPlan ?r = tr_revisionsByPlan r" "tr_lastReasonByPlan ?r = tr_lastReasonByPlan r"
      "tr_snapshotsByPlan ?r = tr_snapshotsByPlan r"
    by (simp_all add: write_task_def)
  ultimately show ?thesis using assms by (simp add: recorded_ok_def log_ok_def tr_emit_def write_task_heap)
qed

lemma recorded_ok_record:
  assumes ok: "recorded_ok r" and a: "a < length (tr_heap r)"
  shows "recorded_ok (record_revision r prev a now)"
proof -
  define plan where "plan = tr_heap r ! a"
  define v where "v = \<lparr>rv_revisedAtMs = now, rv_reason = tp_revisionReason plan,
    rv_diff = computePlanDiff (map_option (\<lambda>p. tr_heap r ! p) prev) plan, rv_plan = a\<rparr>"
  define revs where "revs = map_list_get (tr_revisionsByPlan r) (tp_id plan)"
  define arr where "arr = (if length (revs @ [v]) > 20 then tl (revs @ [v]) else revs @ [v])"
  show ?thesis
  proof (cases "record_revision r prev a now = r")
    case False
    then have new: "rv_reason v \<noteq> ''''" "map_of (tr_lastReasonByPlan r) (tp_id plan) \<noteq> Some (rv_reason v)"
      and rec: "record_revision r prev a now =
        r\<lparr>tr_revisionsByPlan := AList.update (tp_id plan) arr (tr_revisionsByPlan r),
          tr_lastReasonByPlan := AList.update (tp_id plan) (rv_reason v) (tr_lastReasonByPlan r)\<rparr>"
      by (auto simp: record_revision_def Let_def v_def revs_def arr_def plan_def or_str_def split: if_splits option.splits)
    have "log_ok (tr_heap r) (tp_id plan) revs (map_of (tr_lastReasonByPlan r) (tp_id plan))"
      using ok by (simp add: recorded_ok_def revs_def)
    from log_ok_snoc [OF this new] a have "log_ok (tr_heap r) (tp_id plan) (revs @ [v]) (Some (rv_reason v))"
      by (simp add: v_def plan_def)
    note snoc = this
    have "log_ok (tr_heap r) (tp_id plan) arr (Some (rv_reason v))"
    proof (cases "20 < length (revs @ [v])")
      case True
      then have "1 < length (revs @ [v])" by linarith
      from log_ok_tl [OF snoc this] True show ?thesis by (simp only: arr_def if_True)
    qed (use snoc in \<open>simp only: arr_def if_False\<close>)
    with ok show ?thesis unfolding rec by (simp add: recorded_ok_def)
  qed (use ok in simp)
qed

lemma recorded_ok_store:
  assumes ok: "recorded_ok r" and p: "plans_ok r" and a: "a < length (tr_heap r)"
  shows "recorded_ok (store_plan r a)"
proof -
  have same: "tr_lastReasonByPlan (store_plan r a) = tr_lastReasonByPlan r"
    by (simp add: store_plan_def push_plan_def Let_def split: option.split)
  have "tr_snapshotsByPlan (store_plan r a) = tr_snapshotsByPlan r \<or>
    (\<exists>e. map_of (tr_byId r) (tp_id (tr_heap r ! a)) = Some e \<and>
       tr_snapshotsByPlan (store_plan r a) = AList.update (tp_id (tr_heap r ! a))
         (map_list_get (tr_snapshotsByPlan r) (tp_id (tr_heap r ! a)) @ [tr_heap r ! e]) (tr_snapshotsByPlan r))"
    by (auto simp: store_plan_def push_plan_def Let_def split: option.splits)
  then have "\<forall>q\<in>set (map_list_get (tr_snapshotsByPlan (store_plan r a)) k). tp_id q = k" for k
    using ok plans_okD(4) [OF p] by (auto simp: recorded_ok_def split: if_splits)
  with ok same show ?thesis by (simp add: recorded_ok_def)
qed

lemma recorded_ok_upsert:
  assumes ok: "recorded_ok r" and p: "plans_ok r"
  shows "recorded_ok (tr_upsertPlan r plan now)"
proof -
  define r0 where "r0 = drop_sibling (r\<lparr>tr_heap := tr_heap r @ [plan]\<rparr>) (find_sibling r plan)"
  have "tr_lastReasonByPlan r0 = tr_lastReasonByPlan r" "tr_snapshotsByPlan r0 = tr_snapshotsByPlan r"
      "tr_revisionsByPlan r0 = tr_revisionsByPlan r" "tr_heap r0 = tr_heap r @ [plan]"
    by (simp_all add: r0_def drop_sibling_def split: option.split)
  then have "recorded_ok r0" using ok unfolding recorded_ok_def log_ok_def by (simp add: nth_append) fastforce
  moreover have "plans_ok r0"
    using plans_ok_drop [OF plans_ok_alloc [OF p]] plans_ok_alloc [OF p] find_sibling_Some [of r plan]
    by (cases "find_sibling r plan") (simp_all add: r0_def drop_sibling_def)
  ultimately have "recorded_ok (record_revision (store_plan r0 (length (tr_heap r))) q (length (tr_heap r)) now)" for q
    by (intro recorded_ok_record recorded_ok_store) (simp_all add: r0_def)
  then show ?thesis by (simp add: tr_upsertPlan_def Let_def r0_def tr_emit_def recorded_ok_def)
qed

lemma recorded_ok_step: "recorded_ok r \<Longrightarrow> plans_ok r \<Longrightarrow> recorded_ok (task_step r op)"
  by (cases op)
    (simp_all add: recorded_ok_upsert tr_updateTaskStatus_def tr_updateTaskStatusByTaskId_def recorded_ok_write split: option.split,
     simp add: recorded_ok_def log_ok_def tr_clear_def tr_emit_def map_list_get_def)

lemma recorded_ok_run: "recorded_ok (foldl task_step emptyTasks ops)"
proof (induction ops rule: rev_induct)
  case Nil
  show ?case by (simp add: recorded_ok_def log_ok_def emptyTasks_def map_list_get_def)
next
  case (snoc op ops)
  have "tasks_ok (foldl task_step emptyTasks ops)" by (intro tasks_ok_run tasks_ok_empty)
  with snoc show ?case by (simp add: recorded_ok_step tasks_ok_def)
qed

lemma plan_listed_iff:
  assumes "plans_ok r"
  shows "tr_getPlan r k = Some q \<longleftrightarrow> q \<in> set (tr_listPlans r) \<and> tp_id q = k"
  using plans_okD(4,5) [OF assms] by (auto simp: tr_getPlan_def tr_listPlans_def)

lemma upsert_get: "tr_getPlan (tr_upsertPlan r plan now) (tp_id plan) = Some plan"
proof -
  let ?r0 = "drop_sibling (r\<lparr>tr_heap := tr_heap r @ [plan]\<rparr>) (find_sibling r plan)"
  have "tr_getPlan (tr_upsertPlan r plan now) (tp_id plan) = tr_getPlan (store_plan ?r0 (length (tr_heap r))) (tp_id plan)"
    by (simp add: tr_upsertPlan_def Let_def tr_emit_def tr_getPlan_def)
  then show ?thesis using store_plan_get [of ?r0 "length (tr_heap r)"] by simp
qed


end
