(* ===== verification/Registries.thy ===== *)
theory Registries
  imports GanttTypes
begin

text \<open>
  The event registries of \<open>frontend/src/gantt/index.ts\<close>: drifts, task transitions, refine attempts and
  failures, user messages, invocation cancels and delegations.

  Every class has the same shape: an array of records in arrival order, a sequence counter, listeners
  and, for five of the seven, a set of dedup keys. The state is the record \<open>registry\<close>, polymorphic in the row;
  \<open>rg_emits\<close> counts notifications. An \<open>append\<close> takes the record it is given (its \<open>seq\<close> and its absolute
  time are overwritten, as the spread in the code does) and the optional absolute time.
\<close>

section \<open>The shared shape\<close>

record 'a registry =
  rg_rows :: "'a list"
  rg_nextSeq :: nat
  rg_seen :: "string list"
  rg_emits :: nat

definition emptyRegistry :: "'a registry" where
  "emptyRegistry = \<lparr>rg_rows = [], rg_nextSeq = 0, rg_seen = [], rg_emits = 0\<rparr>"

definition rg_push :: "(nat \<Rightarrow> 'a) \<Rightarrow> 'a registry \<Rightarrow> 'a registry" where
  \<comment> \<open>\<open>rows.push({..., seq: this.nextSeq++}); this.emit()\<close>\<close>
  "rg_push mk r = r\<lparr>rg_rows := rg_rows r @ [mk (rg_nextSeq r)], rg_nextSeq := Suc (rg_nextSeq r),
                    rg_emits := Suc (rg_emits r)\<rparr>"

definition rg_push_once :: "string \<Rightarrow> (nat \<Rightarrow> 'a) \<Rightarrow> 'a registry \<Rightarrow> 'a registry" where
  \<comment> \<open>\<open>if (this.seen.has(key)) return; this.seen.add(key); ...\<close>\<close>
  "rg_push_once key mk r =
     (if key \<in> set (rg_seen r) then r else rg_push mk (r\<lparr>rg_seen := set_add key (rg_seen r)\<rparr>))"

definition rebase_row :: "('a \<Rightarrow> int) \<Rightarrow> ('a \<Rightarrow> int) \<Rightarrow> (int \<Rightarrow> 'a \<Rightarrow> 'a) \<Rightarrow> int \<Rightarrow> 'a \<Rightarrow> 'a \<times> bool" where
  \<comment> \<open>the loop body of \<open>rebase\<close>: the row and whether it changed\<close>
  "rebase_row absolute relative putRel start x =
     (if absolute x = 0 then (x, False)
      else let nxt = absolute x - start in
           if relative x \<noteq> nxt then (putRel nxt x, True) else (x, False))"

definition rg_rebase :: "('a \<Rightarrow> int) \<Rightarrow> ('a \<Rightarrow> int) \<Rightarrow> (int \<Rightarrow> 'a \<Rightarrow> 'a) \<Rightarrow> int \<Rightarrow> 'a registry \<Rightarrow> 'a registry" where
  "rg_rebase absolute relative putRel start r =
     (if rg_rows r = [] then r
      else let steps = map (rebase_row absolute relative putRel start) (rg_rows r);
               changed = list_ex snd steps;
               r1 = r\<lparr>rg_rows := map fst steps\<rparr>
           in if changed then r1\<lparr>rg_emits := Suc (rg_emits r1)\<rparr> else r1)"

definition rg_clear :: "'a registry \<Rightarrow> 'a registry" where
  "rg_clear r =
     (if rg_rows r = [] then r
      else r\<lparr>rg_rows := [], rg_nextSeq := 0, rg_seen := [], rg_emits := Suc (rg_emits r)\<rparr>)"

definition or_else :: "int option \<Rightarrow> int \<Rightarrow> int" where
  \<comment> \<open>\<open>x ?? d\<close>\<close>
  "or_else x d = (case x of None \<Rightarrow> d | Some v \<Rightarrow> v)"

definition or_num :: "int \<Rightarrow> int \<Rightarrow> int" where
  \<comment> \<open>\<open>x || d\<close>\<close>
  "or_num x d = (if x = 0 then d else x)"

section \<open>Drifts\<close>

record drift_record =
  dr_seq :: nat
  dr_kind :: string
  dr_severity :: string
  dr_detail :: string
  dr_taskId :: string
  dr_agentId :: string
  dr_recordedAtMs :: int
  dr_recordedAtAbsoluteMs :: int
  dr_annotationId :: string
  dr_driftId :: string
  dr_authoredBy :: "string option"
  dr_conditionId :: "string option"
  dr_lifecycle :: "string option"
  dr_prevSeverity :: "string option"

definition dr_append :: "drift_record \<times> int option \<Rightarrow> drift_record registry \<Rightarrow> drift_record registry" where
  "dr_append i =
     (let d = fst i; recordedAtAbsoluteMs = or_else (snd i) (dr_recordedAtMs d)
      in rg_push (\<lambda>n. d\<lparr>dr_recordedAtAbsoluteMs := recordedAtAbsoluteMs, dr_seq := n\<rparr>))"

definition dr_rebase :: "int \<Rightarrow> drift_record registry \<Rightarrow> drift_record registry" where
  "dr_rebase = rg_rebase dr_recordedAtAbsoluteMs dr_recordedAtMs (\<lambda>n d. d\<lparr>dr_recordedAtMs := n\<rparr>)"

definition dr_clear :: "drift_record registry \<Rightarrow> drift_record registry" where
  "dr_clear = rg_clear"

section \<open>Invocation cancels\<close>

record invocation_cancel_record =
  ic_seq :: nat
  ic_runId :: string
  ic_invocationId :: string
  ic_agentId :: string
  ic_reason :: string
  ic_severity :: string
  ic_driftId :: string
  ic_driftKind :: string
  ic_detail :: string
  ic_toolName :: string
  ic_recordedAtMs :: int
  ic_recordedAtAbsoluteMs :: int

definition ic_append ::
    "invocation_cancel_record \<times> int option \<Rightarrow> invocation_cancel_record registry \<Rightarrow> invocation_cancel_record registry" where
  "ic_append i =
     (let c = fst i; recordedAtAbsoluteMs = or_else (snd i) (ic_recordedAtMs c)
      in rg_push (\<lambda>n. c\<lparr>ic_recordedAtAbsoluteMs := recordedAtAbsoluteMs, ic_seq := n\<rparr>))"

definition ic_rebase :: "int \<Rightarrow> invocation_cancel_record registry \<Rightarrow> invocation_cancel_record registry" where
  "ic_rebase = rg_rebase ic_recordedAtAbsoluteMs ic_recordedAtMs (\<lambda>n c. c\<lparr>ic_recordedAtMs := n\<rparr>)"

definition ic_clear :: "invocation_cancel_record registry \<Rightarrow> invocation_cancel_record registry" where
  "ic_clear = rg_clear"

section \<open>Task transitions\<close>

record task_transition_record =
  tt_seq :: nat
  tt_runId :: string
  tt_taskId :: string
  tt_fromStatus :: string
  tt_toStatus :: string
  tt_source :: string
  tt_revisionStamp :: int
  tt_agentName :: string
  tt_invocationId :: string
  tt_recordedAtMs :: int
  tt_recordedAtAbsoluteMs :: int

definition tt_key :: "task_transition_record \<times> int \<times> int option \<Rightarrow> string" where
  \<comment> \<open>the input is the record, the wire sequence (0 when absent) and the optional absolute time\<close>
  "tt_key i =
     (let t = fst i; sq = fst (snd i);
          recordedAtAbsoluteMs = or_else (snd (snd i)) (tt_recordedAtMs t);
          seqKey = (if sq \<noteq> 0 then ''seq:'' @ tt_taskId t @ ''|'' @ js_int sq else '''');
          fbKey = ''fb:'' @ tt_taskId t @ ''|'' @ tt_fromStatus t @ ''|'' @ tt_toStatus t @ ''|'' @
                    js_int (or_num recordedAtAbsoluteMs (tt_recordedAtMs t))
      in or_str seqKey fbKey)"

definition tt_append ::
    "task_transition_record \<times> int \<times> int option \<Rightarrow> task_transition_record registry \<Rightarrow> task_transition_record registry" where
  "tt_append i =
     (let t = fst i; recordedAtAbsoluteMs = or_else (snd (snd i)) (tt_recordedAtMs t)
      in rg_push_once (tt_key i) (\<lambda>n. t\<lparr>tt_recordedAtAbsoluteMs := recordedAtAbsoluteMs, tt_seq := n\<rparr>))"

definition tt_rebase :: "int \<Rightarrow> task_transition_record registry \<Rightarrow> task_transition_record registry" where
  "tt_rebase = rg_rebase tt_recordedAtAbsoluteMs tt_recordedAtMs (\<lambda>n t. t\<lparr>tt_recordedAtMs := n\<rparr>)"

definition tt_clear :: "task_transition_record registry \<Rightarrow> task_transition_record registry" where
  "tt_clear = rg_clear"

section \<open>Refine attempts\<close>

record refine_attempt_record =
  ra_seq :: nat
  ra_runId :: string
  ra_attemptId :: string
  ra_driftId :: string
  ra_triggerKind :: string
  ra_triggerSeverity :: string
  ra_taskId :: string
  ra_agentId :: string
  ra_recordedAtMs :: int
  ra_recordedAtAbsoluteMs :: int

definition ra_key :: "refine_attempt_record \<times> int option \<Rightarrow> string" where
  "ra_key i =
     (let a = fst i in
      if ra_attemptId a \<noteq> '''' then ''id:'' @ ra_attemptId a
      else ''fb:'' @ ra_runId a @ ''|'' @ ra_driftId a @ ''|'' @ js_int (ra_recordedAtMs a))"

definition ra_append ::
    "refine_attempt_record \<times> int option \<Rightarrow> refine_attempt_record registry \<Rightarrow> refine_attempt_record registry" where
  "ra_append i =
     (let a = fst i; recordedAtAbsoluteMs = or_else (snd i) (ra_recordedAtMs a)
      in rg_push_once (ra_key i) (\<lambda>n. a\<lparr>ra_recordedAtAbsoluteMs := recordedAtAbsoluteMs, ra_seq := n\<rparr>))"

definition ra_rebase :: "int \<Rightarrow> refine_attempt_record registry \<Rightarrow> refine_attempt_record registry" where
  "ra_rebase = rg_rebase ra_recordedAtAbsoluteMs ra_recordedAtMs (\<lambda>n a. a\<lparr>ra_recordedAtMs := n\<rparr>)"

definition ra_clear :: "refine_attempt_record registry \<Rightarrow> refine_attempt_record registry" where
  "ra_clear = rg_clear"

section \<open>Refine failures\<close>

record refine_failure_record =
  rf_seq :: nat
  rf_runId :: string
  rf_attemptId :: string
  rf_driftId :: string
  rf_triggerKind :: string
  rf_triggerSeverity :: string
  rf_failureKind :: string
  rf_reason :: string
  rf_detail :: string
  rf_taskId :: string
  rf_agentId :: string
  rf_recordedAtMs :: int
  rf_recordedAtAbsoluteMs :: int

definition rf_key :: "refine_failure_record \<times> int option \<Rightarrow> string" where
  "rf_key i =
     (let f = fst i in
      if rf_attemptId f \<noteq> '''' then ''id:'' @ rf_attemptId f
      else ''fb:'' @ rf_runId f @ ''|'' @ rf_driftId f @ ''|'' @ js_int (rf_recordedAtMs f))"

definition rf_append ::
    "refine_failure_record \<times> int option \<Rightarrow> refine_failure_record registry \<Rightarrow> refine_failure_record registry" where
  "rf_append i =
     (let f = fst i; recordedAtAbsoluteMs = or_else (snd i) (rf_recordedAtMs f)
      in rg_push_once (rf_key i) (\<lambda>n. f\<lparr>rf_recordedAtAbsoluteMs := recordedAtAbsoluteMs, rf_seq := n\<rparr>))"

definition rf_rebase :: "int \<Rightarrow> refine_failure_record registry \<Rightarrow> refine_failure_record registry" where
  "rf_rebase = rg_rebase rf_recordedAtAbsoluteMs rf_recordedAtMs (\<lambda>n f. f\<lparr>rf_recordedAtMs := n\<rparr>)"

definition rf_clear :: "refine_failure_record registry \<Rightarrow> refine_failure_record registry" where
  "rf_clear = rg_clear"

section \<open>User messages\<close>

record user_message_record =
  um_seq :: nat
  um_runId :: string
  um_content :: string
  um_author :: string
  um_midTurn :: bool
  um_invocationId :: string
  um_recordedAtMs :: int
  um_recordedAtAbsoluteMs :: int

definition um_key :: "user_message_record \<times> int option \<Rightarrow> string" where
  "um_key i =
     (let m = fst i; head = take 128 (or_str (um_content m) '''')
      in ''seq:'' @ um_runId m @ ''|'' @ head @ ''|'' @ js_int (um_recordedAtMs m))"

definition um_append ::
    "user_message_record \<times> int option \<Rightarrow> user_message_record registry \<Rightarrow> user_message_record registry" where
  "um_append i =
     (let m = fst i; recordedAtAbsoluteMs = or_else (snd i) (um_recordedAtMs m)
      in rg_push_once (um_key i) (\<lambda>n. m\<lparr>um_recordedAtAbsoluteMs := recordedAtAbsoluteMs, um_seq := n\<rparr>))"

definition um_rebase :: "int \<Rightarrow> user_message_record registry \<Rightarrow> user_message_record registry" where
  "um_rebase = rg_rebase um_recordedAtAbsoluteMs um_recordedAtMs (\<lambda>n m. m\<lparr>um_recordedAtMs := n\<rparr>)"

definition um_clear :: "user_message_record registry \<Rightarrow> user_message_record registry" where
  "um_clear = rg_clear"

section \<open>Delegations\<close>

record delegation_record =
  dl_seq :: nat
  dl_fromAgentId :: string
  dl_toAgentId :: string
  dl_taskId :: string
  dl_invocationId :: string
  dl_observedAtMs :: int
  dl_observedAtAbsoluteMs :: int

definition dl_key :: "delegation_record \<times> int option \<Rightarrow> string" where
  "dl_key i =
     (let d = fst i; observedAtAbsoluteMs = or_else (snd i) (dl_observedAtMs d) in
      if dl_invocationId d \<noteq> ''''
      then dl_fromAgentId d @ ''|'' @ dl_toAgentId d @ ''|inv:'' @ dl_invocationId d
      else dl_fromAgentId d @ ''|'' @ dl_toAgentId d @ ''|ts:'' @
             js_int (or_num observedAtAbsoluteMs (dl_observedAtMs d)))"

definition dl_append ::
    "delegation_record \<times> int option \<Rightarrow> delegation_record registry \<Rightarrow> delegation_record registry" where
  "dl_append i =
     (let d = fst i; observedAtAbsoluteMs = or_else (snd i) (dl_observedAtMs d)
      in rg_push_once (dl_key i) (\<lambda>n. d\<lparr>dl_observedAtAbsoluteMs := observedAtAbsoluteMs, dl_seq := n\<rparr>))"

definition dl_rebase :: "int \<Rightarrow> delegation_record registry \<Rightarrow> delegation_record registry" where
  "dl_rebase = rg_rebase dl_observedAtAbsoluteMs dl_observedAtMs (\<lambda>n d. d\<lparr>dl_observedAtMs := n\<rparr>)"

definition dl_clear :: "delegation_record registry \<Rightarrow> delegation_record registry" where
  "dl_clear = rg_clear"

section \<open>What every registry promises\<close>

datatype 'i log_op = LAppend 'i | LRebase int | LClear

fun log_step :: "('i \<Rightarrow> 's \<Rightarrow> 's) \<Rightarrow> (int \<Rightarrow> 's \<Rightarrow> 's) \<Rightarrow> ('s \<Rightarrow> 's) \<Rightarrow> 's \<Rightarrow> 'i log_op \<Rightarrow> 's" where
  "log_step app reb clr r (LAppend i) = app i r"
| "log_step app reb clr r (LRebase s) = reb s r"
| "log_step app reb clr r LClear = clr r"

lemma rg_clear_rows [simp]: "rg_rows (rg_clear r) = []"
  by (simp add: rg_clear_def)

lemma rg_push_simps [simp]:
  "rg_rows (rg_push mk r) = rg_rows r @ [mk (rg_nextSeq r)]" "rg_nextSeq (rg_push mk r) = Suc (rg_nextSeq r)"
  "rg_seen (rg_push mk r) = rg_seen r" "rg_emits (rg_push mk r) = Suc (rg_emits r)"
  by (simp_all add: rg_push_def)

lemma emptyRegistry_simps [simp]:
  "rg_rows emptyRegistry = []" "rg_nextSeq emptyRegistry = 0" "rg_seen emptyRegistry = []" "rg_emits emptyRegistry = 0"
  by (simp_all add: emptyRegistry_def)

lemma rg_rebase_rows: "rg_rows (rg_rebase ab re wr s r) = map (fst \<circ> rebase_row ab re wr s) (rg_rows r)"
  by (simp add: rg_rebase_def Let_def)

lemma rg_rebase_frame [simp]:
  "rg_nextSeq (rg_rebase ab re wr s r) = rg_nextSeq r" "rg_seen (rg_rebase ab re wr s r) = rg_seen r"
  by (simp_all add: rg_rebase_def Let_def)

lemma rg_rebase_emits:
  "rg_emits (rg_rebase ab re wr s r) =
     (if list_ex (\<lambda>x. snd (rebase_row ab re wr s x)) (rg_rows r) then Suc (rg_emits r) else rg_emits r)"
  by (auto simp: rg_rebase_def Let_def list_ex_iff)

lemma rebase_row_snd: "snd (rebase_row ab re wr s x) \<longleftrightarrow> ab x \<noteq> 0 \<and> re x \<noteq> ab x - s"
  by (simp add: rebase_row_def Let_def)

lemma registry_eqI:
  "rg_rows a = rg_rows b \<Longrightarrow> rg_nextSeq a = rg_nextSeq b \<Longrightarrow> rg_seen a = rg_seen b \<Longrightarrow> rg_emits a = rg_emits b
   \<Longrightarrow> (a :: 'a registry) = b"
  by simp

text \<open>A registry whose rows carry an absolute and a session-relative time.\<close>

locale timed_log =
  fixes absolute :: "'a \<Rightarrow> int" and relative :: "'a \<Rightarrow> int" and putRel :: "int \<Rightarrow> 'a \<Rightarrow> 'a"
    and rebase :: "int \<Rightarrow> 'a registry \<Rightarrow> 'a registry"
  assumes rebase_is: "rebase s r = rg_rebase absolute relative putRel s r"
    and relative_put [simp]: "relative (putRel n x) = n"
    and absolute_put [simp]: "absolute (putRel n x) = absolute x"
    and put_put [simp]: "putRel m (putRel n x) = putRel m x"
    and put_same [simp]: "putRel (relative x) x = x"
begin

lemma rebase_row_fst:
  "fst (rebase_row absolute relative putRel s x) = (if absolute x = 0 then x else putRel (absolute x - s) x)"
proof (cases "relative x = absolute x - s")
  case True
  then have "putRel (absolute x - s) x = x" using put_same [of x] by simp
  with True show ?thesis by (simp add: rebase_row_def)
qed (simp add: rebase_row_def)

lemma rebase_rows:
  "rg_rows (rebase s r) = map (\<lambda>x. if absolute x = 0 then x else putRel (absolute x - s) x) (rg_rows r)"
  by (simp add: rebase_is rg_rebase_rows rebase_row_fst)

lemma rebase_frame [simp]: "rg_nextSeq (rebase s r) = rg_nextSeq r" "rg_seen (rebase s r) = rg_seen r"
  by (simp_all add: rebase_is)

lemma rebase_emits:
  "rg_emits (rebase s r) =
     (if \<exists>x \<in> set (rg_rows r). absolute x \<noteq> 0 \<and> relative x \<noteq> absolute x - s then Suc (rg_emits r) else rg_emits r)"
  by (simp add: rebase_is rg_rebase_emits rebase_row_snd list_ex_iff)

lemma rebase_anchors: "x \<in> set (rg_rows (rebase s r)) \<Longrightarrow> absolute x \<noteq> 0 \<Longrightarrow> relative x = absolute x - s"
  by (auto simp: rebase_rows)

lemma rebase_anchored: "list_all (\<lambda>x. absolute x = 0 \<or> relative x = absolute x - s) (rg_rows (rebase s r))"
  using rebase_anchors by (auto simp: list_all_iff)

lemma rebase_keeps_absolute: "map absolute (rg_rows (rebase s r)) = map absolute (rg_rows r)"
  by (simp add: rebase_rows)

lemma rebase_twice_rows: "rg_rows (rebase s (rebase t r)) = rg_rows (rebase s r)"
  by (auto simp: rebase_rows)

lemma rebase_again: "rebase s (rebase s r) = rebase s r"
proof (rule registry_eqI)
  show "rg_emits (rebase s (rebase s r)) = rg_emits (rebase s r)"
    using rebase_anchors [of _ s r] by (subst rebase_emits) metis
qed (simp_all add: rebase_twice_rows)

end

text \<open>An event log numbers its rows by arrival.\<close>

locale event_log = timed_log absolute relative putRel rebase
  for absolute :: "'a \<Rightarrow> int" and relative :: "'a \<Rightarrow> int" and putRel and rebase +
  fixes seqno :: "'a \<Rightarrow> nat" and stamp :: "'i \<Rightarrow> nat \<Rightarrow> 'a" and append :: "'i \<Rightarrow> 'a registry \<Rightarrow> 'a registry"
    and clear :: "'a registry \<Rightarrow> 'a registry"
  assumes seqno_put [simp]: "seqno (putRel t x) = seqno x"
    and seqno_stamp [simp]: "seqno (stamp i n) = n"
    and append_cases: "append i r = r \<or> (\<exists>s. append i r = rg_push (stamp i) (r\<lparr>rg_seen := s\<rparr>))"
    and clear_is: "clear r = rg_clear r"
begin

lemma numbered_append:
  "map seqno (rg_rows r) = [0..<rg_nextSeq r] \<Longrightarrow> map seqno (rg_rows (append i r)) = [0..<rg_nextSeq (append i r)]"
  using append_cases [of i r] by (auto simp: upt_Suc)

lemma numbered_rebase:
  "map seqno (rg_rows r) = [0..<rg_nextSeq r] \<Longrightarrow> map seqno (rg_rows (rebase s r)) = [0..<rg_nextSeq (rebase s r)]"
proof -
  have "map seqno (rg_rows (rebase s r)) = map seqno (rg_rows r)"
    by (simp add: rebase_rows)
  then show "map seqno (rg_rows r) = [0..<rg_nextSeq r] \<Longrightarrow> ?thesis" by simp
qed

lemma numbered_clear:
  "map seqno (rg_rows r) = [0..<rg_nextSeq r] \<Longrightarrow> map seqno (rg_rows (clear r)) = [0..<rg_nextSeq (clear r)]"
  by (cases "rg_rows r = []") (simp_all add: clear_is rg_clear_def)

lemma numbered:
  "map seqno (rg_rows (foldl (log_step append rebase clear) emptyRegistry ops)) =
     [0..<rg_nextSeq (foldl (log_step append rebase clear) emptyRegistry ops)]"
proof (induction ops rule: rev_induct)
  case (snoc op ops)
  then show ?case
    by (cases op) (simp_all add: numbered_append numbered_rebase numbered_clear)
qed simp

end

text \<open>A log that drops an event whose key it has already seen.\<close>

locale dedup_log = event_log absolute relative putRel rebase seqno stamp append clear
  for absolute :: "'a \<Rightarrow> int" and relative :: "'a \<Rightarrow> int" and putRel and rebase and seqno :: "'a \<Rightarrow> nat"
    and stamp :: "'i \<Rightarrow> nat \<Rightarrow> 'a" and append and clear +
  fixes key :: "'i \<Rightarrow> string"
  assumes append_once: "append i r = rg_push_once (key i) (stamp i) r"
begin

lemma append_seen: "key i \<in> set (rg_seen r) \<Longrightarrow> append i r = r"
  by (simp add: append_once rg_push_once_def)

lemma seen_append: "set (rg_seen (append i r)) = insert (key i) (set (rg_seen r))"
  by (auto simp: append_once rg_push_once_def)

lemma seen_run: "set (rg_seen (foldl (\<lambda>r i. append i r) r is)) = set (rg_seen r) \<union> key ` set is"
  by (induction "is" arbitrary: r) (auto simp: seen_append)

lemma run_seen: "key ` set is \<subseteq> set (rg_seen r) \<Longrightarrow> foldl (\<lambda>r i. append i r) r is = r"
  by (induction "is" arbitrary: r) (auto simp: append_seen)

lemma replay: "foldl (\<lambda>r i. append i r) (rebase s (foldl (\<lambda>r i. append i r) r is)) is =
    rebase s (foldl (\<lambda>r i. append i r) r is)"
  by (rule run_seen) (auto simp: seen_run)

lemma length_append: "length (rg_rows (append i r)) = length (rg_rows r) + (if key i \<in> set (rg_seen r) then 0 else 1)"
  by (simp add: append_once rg_push_once_def)

lemma count_append:
  "length (rg_rows r) = length (rg_seen r) \<and> distinct (rg_seen r) \<Longrightarrow>
   length (rg_rows (append i r)) = length (rg_seen (append i r)) \<and> distinct (rg_seen (append i r))"
  by (auto simp: append_once rg_push_once_def set_add_def)

lemma one_row_per_key:
  "length (rg_rows (foldl (\<lambda>r i. append i r) emptyRegistry is)) = card (key ` set is)"
proof -
  let ?r = "foldl (\<lambda>r i. append i r) emptyRegistry is"
  have "length (rg_rows ?r) = length (rg_seen ?r) \<and> distinct (rg_seen ?r)"
    by (induction "is" rule: rev_induct) (simp_all add: count_append)
  moreover have "set (rg_seen ?r) = key ` set is"
    using seen_run [of emptyRegistry "is"] by simp
  ultimately show ?thesis by (metis distinct_card)
qed

end

section \<open>The seven registries keep the contract\<close>

interpretation drifts: event_log dr_recordedAtAbsoluteMs dr_recordedAtMs "\<lambda>n d. d\<lparr>dr_recordedAtMs := n\<rparr>" dr_rebase
  dr_seq "\<lambda>i n. (fst i)\<lparr>dr_recordedAtAbsoluteMs := or_else (snd i) (dr_recordedAtMs (fst i)), dr_seq := n\<rparr>" dr_append dr_clear
proof unfold_locales
  fix i :: "drift_record \<times> int option" and r
  have "dr_append i r = rg_push (\<lambda>n. (fst i)\<lparr>dr_recordedAtAbsoluteMs := or_else (snd i) (dr_recordedAtMs (fst i)), dr_seq := n\<rparr>)
      (r\<lparr>rg_seen := rg_seen r\<rparr>)" by (simp add: dr_append_def Let_def)
  then show "dr_append i r = r \<or> (\<exists>s. dr_append i r = rg_push (\<lambda>n. (fst i)\<lparr>dr_recordedAtAbsoluteMs :=
      or_else (snd i) (dr_recordedAtMs (fst i)), dr_seq := n\<rparr>) (r\<lparr>rg_seen := s\<rparr>))" by blast
qed (simp_all add: dr_rebase_def dr_clear_def)

interpretation cancels: event_log ic_recordedAtAbsoluteMs ic_recordedAtMs "\<lambda>n d. d\<lparr>ic_recordedAtMs := n\<rparr>" ic_rebase
  ic_seq "\<lambda>i n. (fst i)\<lparr>ic_recordedAtAbsoluteMs := or_else (snd i) (ic_recordedAtMs (fst i)), ic_seq := n\<rparr>" ic_append ic_clear
proof unfold_locales
  fix i :: "invocation_cancel_record \<times> int option" and r
  have "ic_append i r = rg_push (\<lambda>n. (fst i)\<lparr>ic_recordedAtAbsoluteMs := or_else (snd i) (ic_recordedAtMs (fst i)), ic_seq := n\<rparr>)
      (r\<lparr>rg_seen := rg_seen r\<rparr>)" by (simp add: ic_append_def Let_def)
  then show "ic_append i r = r \<or> (\<exists>s. ic_append i r = rg_push (\<lambda>n. (fst i)\<lparr>ic_recordedAtAbsoluteMs :=
      or_else (snd i) (ic_recordedAtMs (fst i)), ic_seq := n\<rparr>) (r\<lparr>rg_seen := s\<rparr>))" by blast
qed (simp_all add: ic_rebase_def ic_clear_def)

lemma push_once_cases: "rg_push_once k mk r = r \<or> (\<exists>s. rg_push_once k mk r = rg_push mk (r\<lparr>rg_seen := s\<rparr>))"
  by (auto simp: rg_push_once_def)

interpretation transitions: dedup_log tt_recordedAtAbsoluteMs tt_recordedAtMs "\<lambda>n d. d\<lparr>tt_recordedAtMs := n\<rparr>" tt_rebase
  tt_seq "\<lambda>i n. (fst i)\<lparr>tt_recordedAtAbsoluteMs := or_else (snd (snd i)) (tt_recordedAtMs (fst i)), tt_seq := n\<rparr>"
  tt_append tt_clear tt_key
  by unfold_locales (simp_all add: tt_rebase_def tt_clear_def tt_append_def Let_def push_once_cases)

interpretation attempts: dedup_log ra_recordedAtAbsoluteMs ra_recordedAtMs "\<lambda>n d. d\<lparr>ra_recordedAtMs := n\<rparr>" ra_rebase
  ra_seq "\<lambda>i n. (fst i)\<lparr>ra_recordedAtAbsoluteMs := or_else (snd i) (ra_recordedAtMs (fst i)), ra_seq := n\<rparr>"
  ra_append ra_clear ra_key
  by unfold_locales (simp_all add: ra_rebase_def ra_clear_def ra_append_def Let_def push_once_cases)

interpretation failures: dedup_log rf_recordedAtAbsoluteMs rf_recordedAtMs "\<lambda>n d. d\<lparr>rf_recordedAtMs := n\<rparr>" rf_rebase
  rf_seq "\<lambda>i n. (fst i)\<lparr>rf_recordedAtAbsoluteMs := or_else (snd i) (rf_recordedAtMs (fst i)), rf_seq := n\<rparr>"
  rf_append rf_clear rf_key
  by unfold_locales (simp_all add: rf_rebase_def rf_clear_def rf_append_def Let_def push_once_cases)

interpretation messages: dedup_log um_recordedAtAbsoluteMs um_recordedAtMs "\<lambda>n d. d\<lparr>um_recordedAtMs := n\<rparr>" um_rebase
  um_seq "\<lambda>i n. (fst i)\<lparr>um_recordedAtAbsoluteMs := or_else (snd i) (um_recordedAtMs (fst i)), um_seq := n\<rparr>"
  um_append um_clear um_key
  by unfold_locales (simp_all add: um_rebase_def um_clear_def um_append_def Let_def push_once_cases)

interpretation delegs: dedup_log dl_observedAtAbsoluteMs dl_observedAtMs "\<lambda>n d. d\<lparr>dl_observedAtMs := n\<rparr>" dl_rebase
  dl_seq "\<lambda>i n. (fst i)\<lparr>dl_observedAtAbsoluteMs := or_else (snd i) (dl_observedAtMs (fst i)), dl_seq := n\<rparr>"
  dl_append dl_clear dl_key
  by unfold_locales (simp_all add: dl_rebase_def dl_clear_def dl_append_def Let_def push_once_cases)

section \<open>Properties\<close>

text \<open>
  Whatever events, rebases and clears reach the seven registries, the rows of each are numbered
  0, 1, 2, ... in their order, with no gap and no repetition, and the counter is the next number.
\<close>

theorem rows_numbered_by_arrival:
  "(let r = foldl (log_step dr_append dr_rebase dr_clear) emptyRegistry a in map dr_seq (rg_rows r) = [0..<rg_nextSeq r]) \<and>
   (let r = foldl (log_step ic_append ic_rebase ic_clear) emptyRegistry b in map ic_seq (rg_rows r) = [0..<rg_nextSeq r]) \<and>
   (let r = foldl (log_step tt_append tt_rebase tt_clear) emptyRegistry c in map tt_seq (rg_rows r) = [0..<rg_nextSeq r]) \<and>
   (let r = foldl (log_step ra_append ra_rebase ra_clear) emptyRegistry d in map ra_seq (rg_rows r) = [0..<rg_nextSeq r]) \<and>
   (let r = foldl (log_step rf_append rf_rebase rf_clear) emptyRegistry e in map rf_seq (rg_rows r) = [0..<rg_nextSeq r]) \<and>
   (let r = foldl (log_step um_append um_rebase um_clear) emptyRegistry f in map um_seq (rg_rows r) = [0..<rg_nextSeq r]) \<and>
   (let r = foldl (log_step dl_append dl_rebase dl_clear) emptyRegistry g in map dl_seq (rg_rows r) = [0..<rg_nextSeq r])"
  unfolding Let_def
  by (intro conjI drifts.numbered cancels.numbered transitions.numbered attempts.numbered failures.numbered
      messages.numbered delegs.numbered)

text \<open>Each deduplicating registry holds one row per distinct dedup key of the events it was given, however often
  and in whatever order they were delivered.
\<close>

theorem one_row_per_dedup_key:
  "length (rg_rows (foldl (\<lambda>r i. tt_append i r) emptyRegistry a)) = card (tt_key ` set a) \<and>
   length (rg_rows (foldl (\<lambda>r i. ra_append i r) emptyRegistry b)) = card (ra_key ` set b) \<and>
   length (rg_rows (foldl (\<lambda>r i. rf_append i r) emptyRegistry c)) = card (rf_key ` set c) \<and>
   length (rg_rows (foldl (\<lambda>r i. um_append i r) emptyRegistry d)) = card (um_key ` set d) \<and>
   length (rg_rows (foldl (\<lambda>r i. dl_append i r) emptyRegistry e)) = card (dl_key ` set e)"
  by (intro conjI transitions.one_row_per_key attempts.one_row_per_key failures.one_row_per_key
      messages.one_row_per_key delegs.one_row_per_key)

definition dl_event :: "int \<Rightarrow> delegation_record \<times> int \<Rightarrow> delegation_record \<times> int option" where
  \<comment> \<open>the record that the event handler builds for a delegation emitted at the wall-clock time \<open>snd e\<close>\<close>
  "dl_event start e =
     ((fst e)\<lparr>dl_observedAtMs := (if snd e \<noteq> 0 then snd e - start else 0)\<rparr>, Some (snd e))"

lemma dl_key_event: "dl_key (dl_event start e) = dl_key (dl_event start' e)"
  by (simp add: dl_key_def dl_event_def or_else_def or_num_def Let_def)

text \<open>Delegations that were ingested before the session start was known, rebased to it and then delivered again
  with the right start leave the registry as it is: no second row, no notification.
\<close>

theorem delegation_replay_is_ignored:
  "let r = dl_rebase start (foldl (\<lambda>r e. dl_append (dl_event 0 e) r) emptyRegistry es)
   in foldl (\<lambda>r e. dl_append (dl_event start e) r) r es = r"
proof -
  let ?r0 = "foldl (\<lambda>r i. dl_append i r) emptyRegistry (map (dl_event 0) es)"
  have "dl_key ` set (map (dl_event start) es) \<subseteq> set (rg_seen (dl_rebase start ?r0))"
    using dl_key_event [of start _ 0] by (auto simp: delegs.seen_run image_iff)
  from delegs.run_seen [OF this] show ?thesis
    by (simp add: foldl_map)
qed

definition um_event :: "int \<Rightarrow> user_message_record \<times> int \<Rightarrow> user_message_record \<times> int option" where
  \<comment> \<open>the record that the event handler builds for a user message emitted at the wall-clock time \<open>snd e\<close>\<close>
  "um_event start e = ((fst e)\<lparr>um_recordedAtMs := snd e - start\<rparr>, Some (snd e))"

definition demoMessage :: user_message_record where
  "demoMessage = \<lparr>um_seq = 0, um_runId = ''run'', um_content = ''stop'', um_author = ''user'', um_midTurn = False,
     um_invocationId = '''', um_recordedAtMs = 0, um_recordedAtAbsoluteMs = 0\<rparr>"

text \<open>
  The key of a user message holds its session-relative time, so the same message delivered before and after
  the session start is known is kept twice, with equal times.
\<close>

theorem user_message_replay_duplicates:
  "let r = um_rebase 9000 (um_append (um_event 0 (demoMessage, 9500)) emptyRegistry);
       r' = um_append (um_event 9000 (demoMessage, 9500)) r
   in map (\<lambda>m. (um_content m, um_recordedAtMs m, um_recordedAtAbsoluteMs m)) (rg_rows r') =
        [(''stop'', 500, 9500), (''stop'', 500, 9500)] \<and> map um_seq (rg_rows r') = [0, 1]"
  by (simp add: um_append_def um_event_def um_rebase_def demoMessage_def um_key_def or_else_def or_str_def Let_def
      rg_push_once_def rg_push_def rg_rebase_def rebase_row_def emptyRegistry_def set_add_def)

end
