(* ===== verification/ContextSeries.thy ===== *)
theory ContextSeries
  imports GanttTypes "HOL-Library.Multiset"
begin

text \<open>
  \<open>ContextSeriesRegistry\<close> of \<open>frontend/src/gantt/index.ts\<close>: per-agent context-window samples. Notifications
  carry the agent id, so \<open>cs_emits\<close> is the list of ids that were sent, the empty id being the wildcard of \<open>clear\<close>.
\<close>

record context_series =
  cs_byAgent :: "(string, context_window_sample list) jsmap"
  cs_emits :: "string list"

definition emptySeries :: context_series where
  "emptySeries = \<lparr>cs_byAgent = [], cs_emits = []\<rparr>"

definition cs_emit :: "context_series \<Rightarrow> string \<Rightarrow> context_series" where
  "cs_emit r agentId = r\<lparr>cs_emits := cs_emits r @ [agentId]\<rparr>"

definition place_sample :: "context_window_sample \<Rightarrow> context_window_sample list \<Rightarrow> context_window_sample list" where
  "place_sample sample arr =
     (let i = back_scan (\<lambda>y. cw_tMs sample < cw_tMs y) arr (length arr)
      in if i = length arr then arr @ [sample] else splice_in i sample arr)"

definition cs_append :: "context_series \<Rightarrow> string \<Rightarrow> context_window_sample \<Rightarrow> context_series" where
  "cs_append r agentId sample =
     (if cw_tokens sample = 0 \<and> cw_limitTokens sample = 0 then r
      else let arr = (case map_of (cs_byAgent r) agentId of None \<Rightarrow> [] | Some xs \<Rightarrow> xs)
           in cs_emit (r\<lparr>cs_byAgent := AList.update agentId (place_sample sample arr) (cs_byAgent r)\<rparr>) agentId)"

definition cs_forAgent :: "context_series \<Rightarrow> string \<Rightarrow> context_window_sample list" where
  "cs_forAgent r agentId = (case map_of (cs_byAgent r) agentId of None \<Rightarrow> [] | Some xs \<Rightarrow> xs)"

definition cs_latest :: "context_series \<Rightarrow> string \<Rightarrow> context_window_sample option" where
  "cs_latest r agentId =
     (case map_of (cs_byAgent r) agentId of
        None \<Rightarrow> None
      | Some arr \<Rightarrow> if arr = [] then None else Some (arr ! (length arr - 1)))"

definition cs_hasAny :: "context_series \<Rightarrow> bool" where
  "cs_hasAny r = list_ex (\<lambda>e. snd e \<noteq> []) (cs_byAgent r)"

definition cs_clear :: "context_series \<Rightarrow> context_series" where
  "cs_clear r = (if cs_byAgent r = [] then r else cs_emit (r\<lparr>cs_byAgent := []\<rparr>) '''')"

section \<open>The series of an agent is sorted and complete\<close>

datatype series_op = SAppend string context_window_sample | SClear

fun series_step :: "context_series \<Rightarrow> series_op \<Rightarrow> context_series" where
  "series_step r (SAppend a s) = cs_append r a s"
| "series_step r SClear = cs_clear r"

definition known_sample :: "context_window_sample \<Rightarrow> bool" where
  "known_sample s = (\<not> (cw_tokens s = 0 \<and> cw_limitTokens s = 0))"

lemma place_sample_splice:
  "place_sample s xs = splice_in (back_scan (\<lambda>y. cw_tMs s < cw_tMs y) xs (length xs)) s xs"
  by (simp add: place_sample_def Let_def splice_in_length)

lemma sorted_place_sample: "sorted (map cw_tMs xs) \<Longrightarrow> sorted (map cw_tMs (place_sample s xs))"
  unfolding place_sample_splice by (rule sorted_back_scan_insert)

lemma set_place_sample [simp]: "set (place_sample s xs) = insert s (set xs)"
  by (simp add: place_sample_splice)

lemma place_sample_not_Nil [simp]: "place_sample s xs \<noteq> []"
  by (metis set_place_sample insert_not_empty set_empty)

lemma cs_forAgent_append:
  "cs_forAgent (cs_append r a s) b =
     (if known_sample s \<and> a = b then place_sample s (cs_forAgent r b) else cs_forAgent r b)"
  by (auto simp: cs_append_def cs_forAgent_def cs_emit_def known_sample_def Let_def)

lemma cs_forAgent_clear [simp]: "cs_forAgent (cs_clear r) b = []"
  by (simp add: cs_clear_def cs_forAgent_def cs_emit_def)

lemma cs_forAgent_empty [simp]: "cs_forAgent emptySeries b = []"
  by (simp add: emptySeries_def cs_forAgent_def)

text \<open>In every reachable state the samples of an agent are in ascending time order, \<open>latest\<close> is one with the
  greatest time, and no sample with zero tokens and zero limit is stored.
\<close>

theorem series_sorted:
  "let r = foldl series_step emptySeries ops in
   sorted (map cw_tMs (cs_forAgent r a)) \<and> list_all known_sample (cs_forAgent r a) \<and>
   (case cs_latest r a of
      None \<Rightarrow> cs_forAgent r a = []
    | Some x \<Rightarrow> x \<in> set (cs_forAgent r a) \<and> list_all (\<lambda>y. cw_tMs y \<le> cw_tMs x) (cs_forAgent r a))"
proof -
  let ?r = "foldl series_step emptySeries ops"
  have inv: "sorted (map cw_tMs (cs_forAgent ?r a)) \<and> list_all known_sample (cs_forAgent ?r a)"
  proof (induction ops rule: rev_induct)
    case (snoc op ops)
    then show ?case
      by (cases op) (auto simp: cs_forAgent_append sorted_place_sample list_all_iff)
  qed simp
  have latest: "cs_latest ?r a = (if cs_forAgent ?r a = [] then None else Some (last (cs_forAgent ?r a)))"
    by (auto simp: cs_latest_def cs_forAgent_def last_conv_nth split: option.splits)
  have "cw_tMs y \<le> cw_tMs (last xs)" if "sorted (map cw_tMs xs)" and "y \<in> set xs" for xs y
    using that by (induction xs) auto
  with inv latest show ?thesis by (auto simp: Let_def list_all_iff)
qed

text \<open>Out of order delivery loses nothing: after any appends to an empty series, an agent's series is a
  permutation of the known samples that were sent for it.
\<close>

theorem series_is_permutation:
  "mset (cs_forAgent (foldl (\<lambda>r e. cs_append r (fst e) (snd e)) emptySeries es) a) =
     mset (map snd (filter (\<lambda>e. fst e = a \<and> known_sample (snd e)) es))"
proof (induction es rule: rev_induct)
  case (snoc e es)
  have place: "mset (place_sample s xs) = add_mset s (mset xs)" for s xs
  proof -
    have "mset (take i xs @ drop i xs) = mset xs" for i by simp
    then show ?thesis by (simp add: place_sample_splice splice_in_def) (metis append_take_drop_id mset_append)
  qed
  from snoc show ?case by (auto simp: cs_forAgent_append place)
qed simp

end
