(* ===== verification/SpanIndex.thy ===== *)
theory SpanIndex
  imports GanttTypes
begin

text \<open>
  \<open>SpanIndex\<close> of \<open>frontend/src/gantt/spatialIndex.ts\<close>: every span of the session by id, and per agent an
  array of the same span objects sorted by start time. An object is reached through its id, so a bucket is
  the list of ids of its objects and \<open>si_byId\<close> holds their fields. \<open>si_dirty\<close> is the list of notifications.
  Query bounds are viewport coordinates and may be fractional, so they are rationals.
\<close>

definition BUCKET_MS :: int where
  "BUCKET_MS = 64"

record agent_buckets =
  ab_spans :: "string list"
  ab_maxEndPrefix :: "int list"
  ab_minStartMs :: int

record dirty_rect =
  dr_agent :: "string option"
  dr_t0 :: int
  dr_t1 :: etime

record span_index =
  si_agents :: "(string, agent_buckets) jsmap"
  si_byId :: "(string, span) jsmap"
  si_globalMaxEndMs :: int
  si_dirty :: "dirty_rect list"

definition emptyIndex :: span_index where
  "emptyIndex = \<lparr>si_agents = [], si_byId = [], si_globalMaxEndMs = 0, si_dirty = []\<rparr>"

definition si_size :: "span_index \<Rightarrow> nat" where
  "si_size ix = length (si_byId ix)"

definition si_agentIds :: "span_index \<Rightarrow> string list" where
  "si_agentIds ix = map fst (si_agents ix)"

definition si_maxEndMs :: "span_index \<Rightarrow> int" where
  "si_maxEndMs ix = si_globalMaxEndMs ix"

definition si_get :: "span_index \<Rightarrow> string \<Rightarrow> span option" where
  "si_get ix i = map_of (si_byId ix) i"

definition si_all :: "span_index \<Rightarrow> span list" where
  "si_all ix = map snd (si_byId ix)"

definition si_emit :: "span_index \<Rightarrow> string option \<Rightarrow> int \<Rightarrow> etime \<Rightarrow> span_index" where
  "si_emit ix a t0 t1 = ix\<lparr>si_dirty := si_dirty ix @ [\<lparr>dr_agent = a, dr_t0 = t0, dr_t1 = t1\<rparr>]\<rparr>"

definition end_or_start :: "span \<Rightarrow> int" where
  \<comment> \<open>\<open>span.endMs ?? span.startMs\<close>\<close>
  "end_or_start s = (case sp_endMs s of None \<Rightarrow> sp_startMs s | Some e \<Rightarrow> e)"

definition start_of :: "(string, span) jsmap \<Rightarrow> string \<Rightarrow> int" where
  "start_of m i = sp_startMs (the (map_of m i))"

definition place_span :: "(string \<Rightarrow> int) \<Rightarrow> string \<Rightarrow> string list \<Rightarrow> string list" where
  \<comment> \<open>push at the end, or binary search and splice\<close>
  "place_span f i xs =
     (if xs = [] \<or> f (xs ! (length xs - 1)) \<le> f i then xs @ [i]
      else splice_in (bsearch (\<lambda>j. f (xs ! j) \<le> f i) 0 (length xs)) i xs)"

definition raise_end :: "int \<Rightarrow> int \<Rightarrow> int" where
  \<comment> \<open>\<open>if (endMs > this.globalMaxEndMs) this.globalMaxEndMs = endMs\<close>\<close>
  "raise_end e g = (if g < e then e else g)"

definition si_insert :: "span_index \<Rightarrow> span \<Rightarrow> span_index" where
  \<comment> \<open>\<open>append\<close> of a span whose id is new\<close>
  "si_insert ix s =
     (let byId = AList.update (sp_id s) s (si_byId ix);
          b = (case map_of (si_agents ix) (sp_agentId s) of
                 None \<Rightarrow> \<lparr>ab_spans = [], ab_maxEndPrefix = [], ab_minStartMs = sp_startMs s\<rparr>
               | Some b \<Rightarrow> b);
          b' = b\<lparr>ab_spans := place_span (start_of byId) (sp_id s) (ab_spans b), ab_maxEndPrefix := []\<rparr>
      in si_emit (ix\<lparr>si_byId := byId, si_agents := AList.update (sp_agentId s) b' (si_agents ix),
                    si_globalMaxEndMs := raise_end (end_or_start s) (si_globalMaxEndMs ix)\<rparr>)
           (Some (sp_agentId s)) (sp_startMs s) (Fin (end_or_start s)))"

definition overwrite :: "span \<Rightarrow> span \<Rightarrow> span" where
  \<comment> \<open>the fields that \<open>update\<close> assigns; id, session, agent, parent, kind, start and lane stay\<close>
  "overwrite e s = e\<lparr>sp_status := sp_status s, sp_endMs := sp_endMs s, sp_name := sp_name s, sp_links := sp_links s,
     sp_replaced := sp_replaced s, sp_payloadRefs := sp_payloadRefs s, sp_attributes := sp_attributes s,
     sp_error := sp_error s\<rparr>"

definition si_overwrite :: "span_index \<Rightarrow> span \<Rightarrow> span \<Rightarrow> span_index" where
  \<comment> \<open>\<open>update\<close> of the existing object \<open>e\<close>\<close>
  "si_overwrite ix e s =
     (let e' = overwrite e s;
          ags = (case map_of (si_agents ix) (sp_agentId e') of
                   None \<Rightarrow> si_agents ix
                 | Some b \<Rightarrow> AList.update (sp_agentId e') (b\<lparr>ab_maxEndPrefix := []\<rparr>) (si_agents ix))
      in si_emit (ix\<lparr>si_byId := AList.update (sp_id e) e' (si_byId ix), si_agents := ags,
                    si_globalMaxEndMs := raise_end (end_or_start e') (si_globalMaxEndMs ix)\<rparr>)
           (Some (sp_agentId e')) (sp_startMs e') (Fin (end_or_start e')))"

definition si_append :: "span_index \<Rightarrow> span \<Rightarrow> span_index" where
  "si_append ix s =
     (case map_of (si_byId ix) (sp_id s) of Some e \<Rightarrow> si_overwrite ix e s | None \<Rightarrow> si_insert ix s)"

definition si_update :: "span_index \<Rightarrow> span \<Rightarrow> span_index" where
  "si_update ix s =
     (case map_of (si_byId ix) (sp_id s) of None \<Rightarrow> si_append ix s | Some e \<Rightarrow> si_overwrite ix e s)"

definition si_remove :: "span_index \<Rightarrow> string \<Rightarrow> span_index" where
  "si_remove ix i =
     (case map_of (si_byId ix) i of
        None \<Rightarrow> ix
      | Some e \<Rightarrow>
          (case map_of (si_agents ix) (sp_agentId e) of
             None \<Rightarrow> ix
           | Some b \<Rightarrow>
               si_emit (ix\<lparr>si_byId := AList.delete i (si_byId ix),
                           si_agents := AList.update (sp_agentId e)
                             (b\<lparr>ab_spans := remove1 i (ab_spans b), ab_maxEndPrefix := []\<rparr>) (si_agents ix)\<rparr>)
                 (Some (sp_agentId e)) (sp_startMs e) (Fin (end_or_start e))))"

definition si_clear :: "span_index \<Rightarrow> span_index" where
  "si_clear ix = si_emit (ix\<lparr>si_agents := [], si_byId := [], si_globalMaxEndMs := 0\<rparr>) None 0 PInf"

definition move_span :: "string \<Rightarrow> string list \<Rightarrow> string \<times> span \<Rightarrow> string \<times> span" where
  \<comment> \<open>\<open>span.agentId = toAgentId\<close> for the objects of the source bucket\<close>
  "move_span toAgentId moved e = (if fst e \<in> set moved then (fst e, (snd e)\<lparr>sp_agentId := toAgentId\<rparr>) else e)"

definition si_reassignAgent :: "span_index \<Rightarrow> string \<Rightarrow> string \<Rightarrow> span_index" where
  "si_reassignAgent ix fromId toId =
     (if fromId = '''' \<or> toId = '''' \<or> fromId = toId then ix
      else case map_of (si_agents ix) fromId of
             None \<Rightarrow> ix\<lparr>si_agents := AList.delete fromId (si_agents ix)\<rparr>
           | Some src \<Rightarrow>
               if ab_spans src = [] then ix\<lparr>si_agents := AList.delete fromId (si_agents ix)\<rparr>
               else (let dst = (case map_of (si_agents ix) toId of
                                  None \<Rightarrow> \<lparr>ab_spans = [], ab_maxEndPrefix = [], ab_minStartMs = ab_minStartMs src\<rparr>
                                | Some d \<Rightarrow> d);
                         dst' = dst\<lparr>ab_spans := foldl (\<lambda>d i. place_span (start_of (si_byId ix)) i d)
                                                   (ab_spans dst) (ab_spans src),
                                    ab_maxEndPrefix := [],
                                    ab_minStartMs := (if ab_minStartMs src < ab_minStartMs dst
                                                      then ab_minStartMs src else ab_minStartMs dst)\<rparr>
                     in si_emit (ix\<lparr>si_agents := AList.delete fromId (AList.update toId dst' (si_agents ix)),
                                    si_byId := map (move_span toId (ab_spans src)) (si_byId ix)\<rparr>)
                          (Some toId) 0 PInf))"

section \<open>Queries\<close>

definition ends_from :: "span \<Rightarrow> rat \<Rightarrow> bool" where
  \<comment> \<open>\<open>(s.endMs ?? +Infinity) >= t0\<close>\<close>
  "ends_from s t0 = (case sp_endMs s of None \<Rightarrow> True | Some e \<Rightarrow> t0 \<le> rat_of_int e)"

abbreviation startR :: "span \<Rightarrow> rat" where
  "startR s \<equiv> rat_of_int (sp_startMs s)"

datatype right_edge = At rat | Beyond \<comment> \<open>a viewport edge, or \<open>Number.POSITIVE_INFINITY\<close>\<close>

fun starts_before :: "span \<Rightarrow> right_edge \<Rightarrow> bool" where
  "starts_before s (At t1) = (startR s < t1)"
| "starts_before s Beyond = True"

fun walk_back :: "span list \<Rightarrow> rat \<Rightarrow> right_edge \<Rightarrow> nat \<Rightarrow> span list \<Rightarrow> span list" where
  \<comment> \<open>the loop from index \<open>i - 1\<close> down to 0, with its break\<close>
  "walk_back spans t0 t1 0 out = out"
| "walk_back spans t0 t1 (Suc i) out =
     (let s = spans ! i;
          out' = (if ends_from s t0 \<and> starts_before s t1 then out @ [s] else out)
      in if startR s < t0 - rat_of_int (BUCKET_MS * 1024) then out' else walk_back spans t0 t1 i out')"

definition bucket_spans :: "span_index \<Rightarrow> agent_buckets \<Rightarrow> span list" where
  "bucket_spans ix b = map (\<lambda>i. the (map_of (si_byId ix) i)) (ab_spans b)"

definition si_queryAgent :: "span_index \<Rightarrow> string \<Rightarrow> rat \<Rightarrow> right_edge \<Rightarrow> span list \<Rightarrow> span list" where
  "si_queryAgent ix agentId t0 t1 out =
     (case map_of (si_agents ix) agentId of
        None \<Rightarrow> out
      | Some b \<Rightarrow>
          if ab_spans b = [] then out
          else (let spans = bucket_spans ix b;
                    lo = bsearch (\<lambda>j. startR (spans ! j) < t0) 0 (length spans)
                in walk_back spans t0 t1 lo out @ takeWhile (\<lambda>s. starts_before s t1) (drop lo spans)))"

definition si_queryRange :: "span_index \<Rightarrow> rat \<Rightarrow> right_edge \<Rightarrow> string list option \<Rightarrow> span list" where
  "si_queryRange ix t0 t1 agentFilter =
     foldl (\<lambda>out a. if (case agentFilter of None \<Rightarrow> False | Some f \<Rightarrow> a \<notin> set f) then out
                    else si_queryAgent ix a t0 t1 out) [] (map fst (si_agents ix))"

section \<open>Well-formedness\<close>

datatype span_op =
  SpAppend span | SpUpdate span | SpRemove string | SpReassign string string | SpClear

fun span_step :: "span_index \<Rightarrow> span_op \<Rightarrow> span_index" where
  "span_step ix (SpAppend s) = si_append ix s"
| "span_step ix (SpUpdate s) = si_update ix s"
| "span_step ix (SpRemove i) = si_remove ix i"
| "span_step ix (SpReassign a b) = si_reassignAgent ix a b"
| "span_step ix SpClear = si_clear ix"

text \<open>
  Every span is filed under its own id; the bucket of an agent lists the spans of that agent, each once,
  by ascending start; the horizon \<open>maxEndMs\<close> is at or past every end.
\<close>

definition bucket_ok :: "(string, span) jsmap \<Rightarrow> string \<Rightarrow> agent_buckets \<Rightarrow> bool" where
  "bucket_ok m a b =
     (distinct (ab_spans b) \<and> sorted (map (start_of m) (ab_spans b)) \<and>
      set (ab_spans b) = {i. \<exists>s. map_of m i = Some s \<and> sp_agentId s = a})"

definition span_ok :: "span_index \<Rightarrow> bool" where
  "span_ok ix =
     (map_ok (si_byId ix) \<and> map_ok (si_agents ix) \<and>
      (\<forall>i s. map_of (si_byId ix) i = Some s \<longrightarrow>
         sp_id s = i \<and> map_has (si_agents ix) (sp_agentId s) \<and> end_or_start s \<le> si_globalMaxEndMs ix) \<and>
      (\<forall>a b. map_of (si_agents ix) a = Some b \<longrightarrow> bucket_ok (si_byId ix) a b))"

lemma place_span_cases:
  assumes "sorted (map f xs)"
  shows "\<exists>n \<le> length xs. place_span f i xs = splice_in n i xs"
proof (cases "xs = [] \<or> f (xs ! (length xs - 1)) \<le> f i")
  case True
  then have "place_span f i xs = splice_in (length xs) i xs" by (simp add: place_span_def splice_in_length)
  then show ?thesis by blast
next
  case False
  moreover have "bsearch (\<lambda>j. f (xs ! j) \<le> f i) 0 (length xs) \<le> length xs"
    by (rule splits_atD(1) [OF bsearch_sorted_le [OF assms, of "f i"]])
  ultimately show ?thesis by (auto simp: place_span_def)
qed

lemma place_span_props:
  assumes "sorted (map f xs)"
  shows "sorted (map f (place_span f i xs))" and "set (place_span f i xs) = insert i (set xs)"
    and "distinct xs \<Longrightarrow> i \<notin> set xs \<Longrightarrow> distinct (place_span f i xs)"
proof -
  show "sorted (map f (place_span f i xs))"
  proof (cases "xs = [] \<or> f (xs ! (length xs - 1)) \<le> f i")
    case True
    have "f x \<le> f (xs ! (length xs - 1))" if x: "x \<in> set xs" for x
    proof -
      obtain j where j: "j < length xs" "x = xs ! j" using x by (auto simp: in_set_conv_nth)
      then have "map f xs ! j \<le> map f xs ! (length xs - 1)"
        by (intro sorted_nth_mono [OF assms]) auto
      with j show ?thesis by simp
    qed
    with True assms show ?thesis by (fastforce simp: place_span_def sorted_append)
  next
    case False
    then show ?thesis using sorted_bsearch_insert [OF assms, of i] by (auto simp: place_span_def)
  qed
  show "set (place_span f i xs) = insert i (set xs)"
    using place_span_cases [OF assms, of i] by auto
  show "distinct xs \<Longrightarrow> i \<notin> set xs \<Longrightarrow> distinct (place_span f i xs)"
    using place_span_cases [OF assms, of i] distinct_splice_in [of xs i] by auto
qed

lemma place_all_props:
  assumes "sorted (map f d)" and "distinct (d @ xs)"
  shows "sorted (map f (foldl (\<lambda>d i. place_span f i d) d xs)) \<and> distinct (foldl (\<lambda>d i. place_span f i d) d xs) \<and>
         set (foldl (\<lambda>d i. place_span f i d) d xs) = set d \<union> set xs"
  using assms
proof (induction xs arbitrary: d)
  case (Cons x xs)
  have "sorted (map f (place_span f x d))" "distinct (place_span f x d @ xs)"
    using Cons.prems place_span_props [OF Cons.prems(1), of x] by auto
  from Cons.IH [OF this] show ?case
    using place_span_props(2) [OF Cons.prems(1), of x] by auto
qed simp

lemma si_emit_simps [simp]:
  "si_agents (si_emit ix a t u) = si_agents ix" "si_byId (si_emit ix a t u) = si_byId ix"
  "si_globalMaxEndMs (si_emit ix a t u) = si_globalMaxEndMs ix"
  by (simp_all add: si_emit_def)

lemma span_ok_emit [simp]: "span_ok (si_emit ix a t u) = span_ok ix"
  by (simp add: span_ok_def)

lemma span_okD:
  assumes "span_ok ix"
  shows "map_ok (si_byId ix)" "map_ok (si_agents ix)"
    and "map_of (si_byId ix) i = Some s \<Longrightarrow> sp_id s = i"
    and "map_of (si_byId ix) i = Some s \<Longrightarrow> map_has (si_agents ix) (sp_agentId s)"
    and "map_of (si_byId ix) i = Some s \<Longrightarrow> end_or_start s \<le> si_globalMaxEndMs ix"
    and "map_of (si_agents ix) a = Some b \<Longrightarrow> bucket_ok (si_byId ix) a b"
  using assms by (auto simp: span_ok_def)

lemma span_okI:
  assumes "map_ok (si_byId ix)" and "map_ok (si_agents ix)"
    and "\<And>i s. map_of (si_byId ix) i = Some s \<Longrightarrow>
      sp_id s = i \<and> map_has (si_agents ix) (sp_agentId s) \<and> end_or_start s \<le> si_globalMaxEndMs ix"
    and "\<And>a b. map_of (si_agents ix) a = Some b \<Longrightarrow> bucket_ok (si_byId ix) a b"
  shows "span_ok ix"
  using assms by (simp add: span_ok_def)

lemma raise_end_le [intro]: "e \<le> raise_end e g" "x \<le> g \<Longrightarrow> x \<le> raise_end e g"
  by (auto simp: raise_end_def)

lemma bucket_ok_cong:
  assumes "bucket_ok m a b" and "ab_spans b' = ab_spans b"
    and "\<And>i. (\<exists>s. map_of m i = Some s \<and> sp_agentId s = a) = (\<exists>s. map_of m' i = Some s \<and> sp_agentId s = a)"
    and "\<And>i. i \<in> set (ab_spans b) \<Longrightarrow> start_of m' i = start_of m i"
  shows "bucket_ok m' a b'"
proof -
  have "map (start_of m') (ab_spans b) = map (start_of m) (ab_spans b)"
    using assms(4) by simp
  then have "sorted (map (start_of m') (ab_spans b))" using assms(1) by (simp only: bucket_ok_def)
  then show ?thesis using assms(1,2,3) by (auto simp: bucket_ok_def)
qed

lemma span_ok_empty [wf_intros]: "span_ok emptyIndex"
  by (simp add: span_ok_def emptyIndex_def)

lemma span_ok_clear [wf_intros]: "span_ok (si_clear ix)"
  by (simp add: si_clear_def) (simp add: span_ok_def)

lemma bucket_ok_other:
  assumes b: "bucket_ok m a b" and a: "a \<noteq> sp_agentId s"
    and old: "\<forall>e. map_of m (sp_id s) = Some e \<longrightarrow> sp_agentId e \<noteq> a"
  shows "bucket_ok (AList.update (sp_id s) s m) a b"
proof (rule bucket_ok_cong [OF b refl])
  show "(\<exists>x. map_of m i = Some x \<and> sp_agentId x = a) =
      (\<exists>x. map_of (AList.update (sp_id s) s m) i = Some x \<and> sp_agentId x = a)" for i
    using a old by auto
  show "start_of (AList.update (sp_id s) s m) i = start_of m i" if "i \<in> set (ab_spans b)" for i
  proof -
    have "\<exists>x. map_of m i = Some x \<and> sp_agentId x = a" using b that by (auto simp: bucket_ok_def)
    then have "i \<noteq> sp_id s" using old by auto
    then show ?thesis by (simp add: start_of_def)
  qed
qed

lemma bucket_ok_insert:
  assumes b: "bucket_ok m (sp_agentId s) b" and new: "map_of m (sp_id s) = None"
    and spans: "ab_spans b' = place_span (start_of (AList.update (sp_id s) s m)) (sp_id s) (ab_spans b)"
  shows "bucket_ok (AList.update (sp_id s) s m) (sp_agentId s) b'"
proof -
  let ?m = "AList.update (sp_id s) s m"
  have out: "sp_id s \<notin> set (ab_spans b)" using b new by (auto simp: bucket_ok_def)
  have "map (start_of ?m) (ab_spans b) = map (start_of m) (ab_spans b)"
    using out by (intro map_cong refl) (auto simp: start_of_def)
  then have "sorted (map (start_of ?m) (ab_spans b))" using b by (simp only: bucket_ok_def)
  note p = place_span_props [OF this, of "sp_id s"]
  have "set (ab_spans b) = {i. \<exists>x. map_of m i = Some x \<and> sp_agentId x = sp_agentId s}" "distinct (ab_spans b)"
    using b by (auto simp: bucket_ok_def)
  with p out new show ?thesis by (auto simp: bucket_ok_def spans)
qed

lemma span_ok_insert:
  assumes ok: "span_ok ix" and new: "map_of (si_byId ix) (sp_id s) = None"
  shows "span_ok (si_insert ix s)"
proof -
  define b where "b = (case map_of (si_agents ix) (sp_agentId s) of
      None \<Rightarrow> \<lparr>ab_spans = [], ab_maxEndPrefix = [], ab_minStartMs = sp_startMs s\<rparr> | Some b \<Rightarrow> b)"
  define m where "m = AList.update (sp_id s) s (si_byId ix)"
  have b: "bucket_ok (si_byId ix) (sp_agentId s) b"
  proof (cases "map_of (si_agents ix) (sp_agentId s)")
    case None
    then have "\<not> (\<exists>x. map_of (si_byId ix) i = Some x \<and> sp_agentId x = sp_agentId s)" for i
      using span_okD(4) [OF ok, of i] by (auto simp: map_has_def)
    then show ?thesis using None by (simp add: b_def bucket_ok_def)
  qed (use span_okD(6) [OF ok] in \<open>simp add: b_def\<close>)
  have ix': "si_byId (si_insert ix s) = m"
    "si_agents (si_insert ix s) = AList.update (sp_agentId s)
       (b\<lparr>ab_spans := place_span (start_of m) (sp_id s) (ab_spans b), ab_maxEndPrefix := []\<rparr>) (si_agents ix)"
    "si_globalMaxEndMs (si_insert ix s) = raise_end (end_or_start s) (si_globalMaxEndMs ix)"
    by (simp_all add: si_insert_def Let_def b_def m_def cong: option.case_cong)
  have buckets: "bucket_ok m a c" if "map_of (si_agents (si_insert ix s)) a = Some c" for a c
  proof (cases "a = sp_agentId s")
    case True
    with that have "ab_spans c = place_span (start_of m) (sp_id s) (ab_spans b)" by (auto simp: ix')
    with True bucket_ok_insert [OF b new] show ?thesis by (simp add: m_def)
  next
    case False
    with that have "bucket_ok (si_byId ix) a c" using span_okD(6) [OF ok] by (simp add: ix')
    then show ?thesis unfolding m_def using False new by (intro bucket_ok_other) auto
  qed
  have fields: "sp_id x = i \<and> map_has (si_agents (si_insert ix s)) (sp_agentId x) \<and>
      end_or_start x \<le> si_globalMaxEndMs (si_insert ix s)" if "map_of m i = Some x" for i x
    using that span_okD(3-5) [OF ok, of i x]
    by (auto simp: m_def ix' split: if_splits)
  have maps: "map_ok m" "map_ok (si_agents (si_insert ix s))"
    using span_okD(1,2) [OF ok] by (simp_all add: ix'(2) m_def)
  show ?thesis by (rule span_okI; use buckets fields maps in \<open>simp only: ix'(1)\<close>)
qed

lemma overwrite_simps [simp]:
  "sp_id (overwrite e s) = sp_id e" "sp_agentId (overwrite e s) = sp_agentId e"
  "sp_startMs (overwrite e s) = sp_startMs e" "sp_endMs (overwrite e s) = sp_endMs s"
  by (simp_all add: overwrite_def)

lemma span_ok_overwrite:
  assumes ok: "span_ok ix" and e: "map_of (si_byId ix) (sp_id s) = Some e"
  shows "span_ok (si_overwrite ix e s)"
proof -
  define m where "m = AList.update (sp_id e) (overwrite e s) (si_byId ix)"
  have ids: "sp_id e = sp_id s" using span_okD(3) [OF ok e] .
  obtain b where b: "map_of (si_agents ix) (sp_agentId e) = Some b"
    using span_okD(4) [OF ok e] by (auto simp: map_has_def)
  have ix': "si_byId (si_overwrite ix e s) = m"
    "si_agents (si_overwrite ix e s) = AList.update (sp_agentId e) (b\<lparr>ab_maxEndPrefix := []\<rparr>) (si_agents ix)"
    "si_globalMaxEndMs (si_overwrite ix e s) = raise_end (end_or_start (overwrite e s)) (si_globalMaxEndMs ix)"
    by (simp_all add: si_overwrite_def Let_def b m_def)
  have keep: "bucket_ok m a c'" if "bucket_ok (si_byId ix) a c" and "ab_spans c' = ab_spans c" for a c c'
    by (rule bucket_ok_cong [OF that]) (use e ids in \<open>auto simp: m_def start_of_def\<close>)
  have buckets: "bucket_ok m a c" if "map_of (si_agents (si_overwrite ix e s)) a = Some c" for a c
  proof (cases "a = sp_agentId e")
    case True
    with that have "ab_spans c = ab_spans b" by (auto simp: ix')
    with True keep span_okD(6) [OF ok b] show ?thesis by blast
  next
    case False
    with that keep span_okD(6) [OF ok] show ?thesis by (simp add: ix') blast
  qed
  have fields: "sp_id x = i \<and> map_has (si_agents (si_overwrite ix e s)) (sp_agentId x) \<and>
      end_or_start x \<le> si_globalMaxEndMs (si_overwrite ix e s)" if "map_of m i = Some x" for i x
    using that span_okD(3-5) [OF ok, of i x] ids
    by (auto simp: m_def ix' split: if_splits)
  have maps: "map_ok m" "map_ok (si_agents (si_overwrite ix e s))"
    using span_okD(1,2) [OF ok] by (simp_all add: ix'(2) m_def)
  show ?thesis by (rule span_okI; use buckets fields maps in \<open>simp only: ix'(1)\<close>)
qed

lemma span_ok_append [wf_intros]: "span_ok ix \<Longrightarrow> span_ok (si_append ix s)"
  by (simp add: si_append_def span_ok_insert span_ok_overwrite split: option.splits)

lemma si_update_is_append: "si_update ix s = si_append ix s"
  by (simp add: si_update_def si_append_def split: option.splits)

lemma sorted_map_remove1: "sorted (map f xs) \<Longrightarrow> sorted (map f (remove1 x xs))"
  by (induction xs) (auto dest: notin_set_remove1 in_set_takeD set_remove1_subset [THEN subsetD])

lemma span_ok_remove [wf_intros]:
  assumes ok: "span_ok ix"
  shows "span_ok (si_remove ix i)"
proof (cases "map_of (si_byId ix) i")
  case None
  then show ?thesis using ok by (simp add: si_remove_def)
next
  case (Some e)
  then obtain b where b: "map_of (si_agents ix) (sp_agentId e) = Some b"
    using span_okD(4) [OF ok] by (auto simp: map_has_def)
  define m where "m = AList.delete i (si_byId ix)"
  define b' where "b' = b\<lparr>ab_spans := remove1 i (ab_spans b), ab_maxEndPrefix := []\<rparr>"
  have ix': "si_byId (si_remove ix i) = m"
    "si_agents (si_remove ix i) = AList.update (sp_agentId e) b' (si_agents ix)"
    "si_globalMaxEndMs (si_remove ix i) = si_globalMaxEndMs ix"
    using Some b by (simp_all add: si_remove_def m_def b'_def)
  have starts: "map (start_of m) xs = map (start_of (si_byId ix)) xs" if "i \<notin> set xs" for xs
    using that by (intro map_cong refl) (auto simp: m_def start_of_def)
  have buckets: "bucket_ok m a c" if c: "map_of (si_agents (si_remove ix i)) a = Some c" for a c
  proof (cases "a = sp_agentId e")
    case True
    then have "c = b'" using c by (simp add: ix')
    moreover have "bucket_ok (si_byId ix) a b" using span_okD(6) [OF ok b] True by simp
    moreover have "sorted (map (start_of m) (remove1 i (ab_spans b)))"
    proof -
      have b: "i \<notin> set (remove1 i (ab_spans b))" "sorted (map (start_of (si_byId ix)) (ab_spans b))"
        using \<open>bucket_ok (si_byId ix) a b\<close> by (auto simp: bucket_ok_def)
      show ?thesis unfolding starts [OF b(1)] by (rule sorted_map_remove1 [OF b(2)])
    qed
    ultimately show ?thesis by (auto simp: bucket_ok_def b'_def) (auto simp: m_def split: if_splits)
  next
    case False
    then have oc: "bucket_ok (si_byId ix) a c" using c span_okD(6) [OF ok] by (simp add: ix')
    then have out: "i \<notin> set (ab_spans c)" using Some False by (auto simp: bucket_ok_def)
    from oc show ?thesis unfolding bucket_ok_def starts [OF out] using Some False by (auto simp: m_def)
  qed
  have fields: "sp_id x = j \<and> map_has (si_agents (si_remove ix i)) (sp_agentId x) \<and>
      end_or_start x \<le> si_globalMaxEndMs (si_remove ix i)" if "map_of m j = Some x" for j x
    using that span_okD(3-5) [OF ok, of j x] by (auto simp: m_def ix' split: if_splits)
  have maps: "map_ok m" "map_ok (si_agents (si_remove ix i))"
    using span_okD(1,2) [OF ok] by (simp_all add: ix'(2) m_def)
  show ?thesis by (rule span_okI; use buckets fields maps in \<open>simp only: ix'(1)\<close>)
qed

lemma map_of_move:
  "map_of (map (move_span to xs) m) i =
     map_option (\<lambda>s. if i \<in> set xs then s\<lparr>sp_agentId := to\<rparr> else s) (map_of m i)"
  by (induction m) (auto simp: move_span_def)

lemma filed_move:
  "(\<exists>s. map_of (map (move_span to xs) m) i = Some s \<and> sp_agentId s = a) \<longleftrightarrow>
     (if i \<in> set xs then a = to \<and> map_has m i else (\<exists>s. map_of m i = Some s \<and> sp_agentId s = a))"
  by (cases "map_of m i") (auto simp: map_of_move map_has_def)

lemma keys_move [simp]: "map fst (map (move_span to xs) m) = map fst m"
  by (induction m) (auto simp: move_span_def)

lemma map_ok_move [simp]: "map_ok (map (move_span to xs) m) = map_ok m"
  unfolding map_ok_def keys_move ..

lemma start_of_move: "map_has m i \<Longrightarrow> start_of (map (move_span to xs) m) i = start_of m i"
  by (auto simp: start_of_def map_of_move map_has_def)

lemma end_or_start_agent [simp]: "end_or_start (s\<lparr>sp_agentId := a\<rparr>) = end_or_start s"
  by (simp add: end_or_start_def split: option.split)

lemma span_ok_drop_empty:
  assumes ok: "span_ok ix" and e: "\<And>b. map_of (si_agents ix) a = Some b \<Longrightarrow> ab_spans b = []"
  shows "span_ok (ix\<lparr>si_agents := AList.delete a (si_agents ix)\<rparr>)"
proof (rule span_okI; simp)
  show "map_ok (si_byId ix)" "map_ok (AList.delete a (si_agents ix))" using span_okD(1,2) [OF ok] by simp_all
  show "sp_id s = i \<and> sp_agentId s \<noteq> a \<and> map_has (si_agents ix) (sp_agentId s) \<and> end_or_start s \<le> si_globalMaxEndMs ix"
    if s: "map_of (si_byId ix) i = Some s" for i s
  proof -
    obtain b where b: "map_of (si_agents ix) (sp_agentId s) = Some b"
      using span_okD(4) [OF ok s] by (auto simp: map_has_def)
    then have "i \<in> set (ab_spans b)" using span_okD(6) [OF ok b] s by (auto simp: bucket_ok_def)
    then have "sp_agentId s \<noteq> a" using e b by auto
    then show ?thesis using span_okD(3-5) [OF ok s] by simp
  qed
  show "bucket_ok (si_byId ix) c b" if "(if c = a then None else map_of (si_agents ix) c) = Some b" for c b
    using that span_okD(6) [OF ok] by (auto split: if_splits)
qed

lemma span_ok_reassign [wf_intros]:
  assumes ok: "span_ok ix"
  shows "span_ok (si_reassignAgent ix from to)"
proof (cases "from = '''' \<or> to = '''' \<or> from = to")
  case True
  then show ?thesis using ok by (auto simp: si_reassignAgent_def)
next
  case False
  then have ne: "from \<noteq> to" by simp
  show ?thesis
  proof (cases "\<exists>b. map_of (si_agents ix) from = Some b \<and> ab_spans b \<noteq> []")
    case empty: False
    then have "si_reassignAgent ix from to = ix\<lparr>si_agents := AList.delete from (si_agents ix)\<rparr>"
      using False by (auto simp: si_reassignAgent_def split: option.splits)
    then show ?thesis using empty by (simp only:) (rule span_ok_drop_empty [OF ok], auto)
  next
    case True
    then obtain src where src: "map_of (si_agents ix) from = Some src" and some: "ab_spans src \<noteq> []" by blast
    define f where "f = start_of (si_byId ix)"
    define dst where "dst = (case map_of (si_agents ix) to of
        None \<Rightarrow> \<lparr>ab_spans = [], ab_maxEndPrefix = [], ab_minStartMs = ab_minStartMs src\<rparr> | Some d \<Rightarrow> d)"
    define merged where "merged = foldl (\<lambda>d i. place_span f i d) (ab_spans dst) (ab_spans src)"
    define m where "m = map (move_span to (ab_spans src)) (si_byId ix)"
    have osrc: "bucket_ok (si_byId ix) from src" by (rule span_okD(6) [OF ok src])
    have odst: "bucket_ok (si_byId ix) to dst"
    proof (cases "map_of (si_agents ix) to")
      case None
      then have "\<not> (\<exists>x. map_of (si_byId ix) i = Some x \<and> sp_agentId x = to)" for i
        using span_okD(4) [OF ok, of i] by (auto simp: map_has_def)
      then show ?thesis using None by (simp add: dst_def bucket_ok_def)
    qed (use span_okD(6) [OF ok] in \<open>simp add: dst_def\<close>)
    obtain b' where b': "ab_spans b' = merged" and
      ix': "si_byId (si_reassignAgent ix from to) = m"
      "si_agents (si_reassignAgent ix from to) = AList.delete from (AList.update to b' (si_agents ix))"
      "si_globalMaxEndMs (si_reassignAgent ix from to) = si_globalMaxEndMs ix"
      using that [of "dst\<lparr>ab_spans := merged, ab_maxEndPrefix := [],
          ab_minStartMs := (if ab_minStartMs src < ab_minStartMs dst then ab_minStartMs src else ab_minStartMs dst)\<rparr>"]
        src some False
      by (simp add: si_reassignAgent_def Let_def dst_def merged_def m_def f_def cong: option.case_cong)
    have disj: "set (ab_spans dst) \<inter> set (ab_spans src) = {}"
      using osrc odst ne by (auto simp: bucket_ok_def)
    have merged: "sorted (map f merged) \<and> distinct merged \<and> set merged = set (ab_spans dst) \<union> set (ab_spans src)"
      unfolding merged_def
      by (rule place_all_props) (use osrc odst disj in \<open>auto simp: bucket_ok_def f_def\<close>)
    have starts: "map (start_of m) xs = map f xs" if "\<forall>i\<in>set xs. map_has (si_byId ix) i" for xs
      using that by (intro map_cong refl) (simp add: m_def f_def start_of_move)
    have known: "\<forall>i\<in>set (ab_spans c). map_has (si_byId ix) i" if "bucket_ok (si_byId ix) a c" for a c
      using that by (auto simp: bucket_ok_def map_has_def)
    have buckets: "bucket_ok m a c" if c: "map_of (si_agents (si_reassignAgent ix from to)) a = Some c" for a c
    proof (cases "a = to")
      case True
      then have "c = b'" using c ne by (simp add: ix')
      moreover have "map (start_of m) merged = map f merged"
        using merged known [OF osrc] known [OF odst] by (intro starts) auto
      moreover have "set merged = {i. \<exists>s. map_of m i = Some s \<and> sp_agentId s = to}"
        unfolding m_def filed_move using merged osrc odst by (auto simp: bucket_ok_def map_has_def)
      ultimately show ?thesis using merged True b' by (simp only: bucket_ok_def)
    next
      case other: False
      then have c': "map_of (si_agents ix) a = Some c" "a \<noteq> from" using c by (auto simp: ix' split: if_splits)
      have oc: "bucket_ok (si_byId ix) a c" by (rule span_okD(6) [OF ok c'(1)])
      have "set (ab_spans c) = {i. \<exists>s. map_of m i = Some s \<and> sp_agentId s = a}"
        unfolding m_def filed_move using oc osrc c'(2) other by (auto simp: bucket_ok_def)
      moreover have "map (start_of m) (ab_spans c) = map f (ab_spans c)" by (rule starts [OF known [OF oc]])
      ultimately show ?thesis using oc by (simp only: bucket_ok_def f_def)
    qed
    have fields: "sp_id x = j \<and> map_has (si_agents (si_reassignAgent ix from to)) (sp_agentId x) \<and>
        end_or_start x \<le> si_globalMaxEndMs (si_reassignAgent ix from to)" if x: "map_of m j = Some x" for j x
    proof -
      obtain s where s: "map_of (si_byId ix) j = Some s" "x = (if j \<in> set (ab_spans src) then s\<lparr>sp_agentId := to\<rparr> else s)"
        using x by (auto simp: m_def map_of_move)
      have "sp_agentId s \<noteq> from" if "j \<notin> set (ab_spans src)"
        using that s(1) osrc by (auto simp: bucket_ok_def)
      with s(2) span_okD(3-5) [OF ok s(1)] ne show ?thesis by (auto simp: ix')
    qed
    have maps: "map_ok m" "map_ok (si_agents (si_reassignAgent ix from to))"
      using span_okD(1,2) [OF ok] by (simp_all add: ix'(2) m_def)
    show ?thesis by (rule span_okI; use buckets fields maps in \<open>simp only: ix'(1)\<close>)
  qed
qed

lemma span_ok_step: "span_ok ix \<Longrightarrow> span_ok (span_step ix op)"
  by (cases op) (simp_all add: si_update_is_append wf_intros)

lemma span_ok_run: "span_ok ix \<Longrightarrow> span_ok (foldl span_step ix ops)"
  by (induction ops arbitrary: ix) (simp_all add: span_ok_step)

section \<open>Properties\<close>

lemma si_all_iff:
  assumes ok: "span_ok ix"
  shows "s \<in> set (si_all ix) \<longleftrightarrow> map_of (si_byId ix) (sp_id s) = Some s"
proof
  assume "s \<in> set (si_all ix)"
  then obtain i where "(i, s) \<in> set (si_byId ix)" by (auto simp: si_all_def)
  then have i: "map_of (si_byId ix) i = Some s" using span_okD(1) [OF ok] by (simp add: map_ok_def)
  from span_okD(3) [OF ok i] i show "map_of (si_byId ix) (sp_id s) = Some s" by simp
next
  assume "map_of (si_byId ix) (sp_id s) = Some s"
  then show "s \<in> set (si_all ix)" by (force simp: si_all_def dest: map_of_SomeD)
qed

lemma bucket_of_span:
  assumes "span_ok ix" and "s \<in> set (si_all ix)" and "map_of (si_agents ix) (sp_agentId s) = None"
  shows False
  using span_okD(4) [OF assms(1)] assms(2,3) by (force simp: si_all_iff [OF assms(1)] map_has_def)

lemma bucket_contents:
  assumes ok: "span_ok ix" and b: "map_of (si_agents ix) a = Some b"
  shows "map sp_id (bucket_spans ix b) = ab_spans b"
    and "set (bucket_spans ix b) = {s \<in> set (si_all ix). sp_agentId s = a}"
    and "set (ab_spans b) = sp_id ` {s \<in> set (si_all ix). sp_agentId s = a}"
proof -
  note bo = span_okD(6) [OF ok b]
  have get: "\<exists>s. map_of (si_byId ix) i = Some s \<and> sp_agentId s = a \<and> sp_id s = i" if "i \<in> set (ab_spans b)" for i
    using bo that span_okD(3) [OF ok] unfolding bucket_ok_def by blast
  show ids: "map sp_id (bucket_spans ix b) = ab_spans b"
    unfolding bucket_spans_def map_map by (rule map_idI) (use get in force)
  show set: "set (bucket_spans ix b) = {s \<in> set (si_all ix). sp_agentId s = a}"
  proof (intro equalityI subsetI)
    fix s assume "s \<in> set (bucket_spans ix b)"
    then obtain i where "i \<in> set (ab_spans b)" "s = the (map_of (si_byId ix) i)" by (auto simp: bucket_spans_def)
    with get [of i] show "s \<in> {s \<in> set (si_all ix). sp_agentId s = a}" by (auto simp: si_all_iff [OF ok])
  next
    fix s assume "s \<in> {s \<in> set (si_all ix). sp_agentId s = a}"
    then have s: "map_of (si_byId ix) (sp_id s) = Some s" "sp_agentId s = a" by (auto simp: si_all_iff [OF ok])
    then have "sp_id s \<in> set (ab_spans b)" using bo by (auto simp: bucket_ok_def)
    with s show "s \<in> set (bucket_spans ix b)" unfolding bucket_spans_def by force
  qed
  show "set (ab_spans b) = sp_id ` {s \<in> set (si_all ix). sp_agentId s = a}"
    unfolding ids [symmetric] set_map set ..
qed

text \<open>C38: After any sequence of appends, updates, removals, merges of agent rows and clears, every span is filed
  once, under its own id and in the bucket of its agent; each bucket is sorted by start time; and
  \<open>maxEndMs\<close> is at or past the end of every span.
\<close>

theorem span_index_invariant:
  "let ix = foldl span_step emptyIndex ops in
     distinct (map sp_id (si_all ix)) \<and>
     (case map_of (si_agents ix) a of
        None \<Rightarrow> a \<notin> sp_agentId ` set (si_all ix)
      | Some b \<Rightarrow> distinct (ab_spans b) \<and> set (ab_spans b) = sp_id ` {s \<in> set (si_all ix). sp_agentId s = a} \<and>
                  sorted (map sp_startMs (bucket_spans ix b))) \<and>
     end_or_start ` set (si_all ix) \<subseteq> {..si_maxEndMs ix}"
proof -
  let ?ix = "foldl span_step emptyIndex ops"
  have ok: "span_ok ?ix" by (intro span_ok_run span_ok_empty)
  note mem = si_all_iff [OF ok]
  have "\<forall>e\<in>set (si_byId ?ix). sp_id (snd e) = fst e"
    using span_okD(1,3) [OF ok] by (auto simp: map_ok_def dest: map_of_is_SomeI)
  then have "map sp_id (si_all ?ix) = map fst (si_byId ?ix)" by (simp add: si_all_def)
  then have d: "distinct (map sp_id (si_all ?ix))" using span_okD(1) [OF ok] by (simp add: map_ok_def)
  have e: "end_or_start ` set (si_all ?ix) \<subseteq> {..si_maxEndMs ?ix}"
    using span_okD(5) [OF ok] by (auto simp: mem si_maxEndMs_def)
  show ?thesis
  proof (cases "map_of (si_agents ?ix) a")
    case None
    then have "a \<notin> sp_agentId ` set (si_all ?ix)" using bucket_of_span [OF ok] by blast
    with None d e show ?thesis by (simp add: Let_def)
  next
    case (Some b)
    note bo = span_okD(6) [OF ok Some]
    have "set (ab_spans b) = sp_id ` {s \<in> set (si_all ?ix). sp_agentId s = a}"
      by (rule bucket_contents(3) [OF ok Some])
    moreover have "map sp_startMs (bucket_spans ?ix b) = map (start_of (si_byId ?ix)) (ab_spans b)"
      by (simp add: bucket_spans_def start_of_def)
    ultimately show ?thesis using Some d e bo unfolding Let_def Some option.case by (simp only: bucket_ok_def)
  qed
qed

lemma walk_back_shape:
  "i \<le> length spans \<Longrightarrow>
   \<exists>k\<le>i. walk_back spans t0 t1 i out =
       out @ filter (\<lambda>s. ends_from s t0 \<and> starts_before s t1) (rev (drop k (take i spans))) \<and>
     (k = 0 \<or> k < i \<and> startR (spans ! k) < t0 - rat_of_int (BUCKET_MS * 1024))"
proof (induction i arbitrary: out)
  case (Suc i)
  let ?s = "spans ! i" and ?keep = "\<lambda>s. ends_from s t0 \<and> starts_before s t1"
  let ?out = "if ?keep ?s then out @ [?s] else out"
  have i: "take (Suc i) spans = take i spans @ [?s]" using Suc.prems by (simp add: take_Suc_conv_app_nth)
  have out: "?out @ filter ?keep ys = out @ filter ?keep (?s # ys)" for ys by simp
  show ?case
  proof (cases "startR ?s < t0 - rat_of_int (BUCKET_MS * 1024)")
    case True
    have "drop i (take (Suc i) spans) = [?s]" using Suc.prems by (simp add: i)
    with True out [of "[]"] show ?thesis by (intro exI [of _ i]) (simp add: Let_def)
  next
    case False
    obtain k where k: "k \<le> i" "walk_back spans t0 t1 i ?out = ?out @ filter ?keep (rev (drop k (take i spans)))"
      "k = 0 \<or> k < i \<and> startR (spans ! k) < t0 - rat_of_int (BUCKET_MS * 1024)"
      using Suc.IH [of ?out] Suc.prems by auto
    have "rev (drop k (take (Suc i) spans)) = ?s # rev (drop k (take i spans))"
      using k(1) Suc.prems by (simp add: i)
    moreover have "walk_back spans t0 t1 (Suc i) out = walk_back spans t0 t1 i ?out"
      using False by (simp add: Let_def)
    ultimately show ?thesis
      using k out [of "rev (drop k (take i spans))"] less_SucI [of k i] by (intro exI [of _ k]) (simp only: le_SucI, blast)
  qed
qed simp

lemma sorted_take_while_set:
  assumes "sorted (map startR xs)"
  shows "set (takeWhile (\<lambda>s. starts_before s t1) xs) = {s \<in> set xs. starts_before s t1}"
proof (cases t1)
  case (At t)
  from assms show ?thesis unfolding At by (induction xs) force+
next
  case Beyond
  have all: "takeWhile (\<lambda>s. True) ys = ys" for ys :: "span list" by (induction ys) simp_all
  show ?thesis unfolding Beyond starts_before.simps all by simp
qed

definition wanted :: "rat \<Rightarrow> right_edge \<Rightarrow> span \<Rightarrow> bool" where
  "wanted t0 t1 s = (starts_before s t1 \<and> (t0 \<le> startR s \<or> ends_from s t0))"

definition reach_ms :: rat where
  "reach_ms = rat_of_int (BUCKET_MS * 1024)"

lemma query_list:
  fixes spans :: "span list" and t0 :: rat and t1 :: right_edge
  assumes sorted: "sorted (map startR spans)" and d: "distinct (map sp_id spans)"
  defines "q \<equiv> walk_back spans t0 t1 (bsearch (\<lambda>j. startR (spans ! j) < t0) 0 (length spans)) [] @
     takeWhile (\<lambda>s. starts_before s t1) (drop (bsearch (\<lambda>j. startR (spans ! j) < t0) 0 (length spans)) spans)"
  shows "distinct (map sp_id q) \<and> set q \<subseteq> {s \<in> set spans. wanted t0 t1 s} \<and>
     {s \<in> set spans. wanted t0 t1 s \<and> t0 - reach_ms \<le> startR s} \<subseteq> set q"
proof -
  define lo where "lo = bsearch (\<lambda>j. startR (spans ! j) < t0) 0 (length spans)"
  have "splits_at (\<lambda>j. startR (spans ! j) < t0) (length spans) lo"
    unfolding lo_def by (rule bsearch_sorted_less [OF sorted])
  note lo = splits_atD [OF this]
  obtain k where k: "k \<le> lo" "walk_back spans t0 t1 lo [] =
      filter (\<lambda>s. ends_from s t0 \<and> starts_before s t1) (rev (drop k (take lo spans)))"
    "k = 0 \<or> k < lo \<and> startR (spans ! k) < t0 - reach_ms"
    using walk_back_shape [OF lo(1), of t0 t1 "[]"] by (auto simp: reach_ms_def)
  have "sorted (map startR (drop lo spans))"
    using sorted by (metis drop_map sorted_wrt_drop)
  then have fwd: "set (takeWhile (\<lambda>s. starts_before s t1) (drop lo spans)) = {s \<in> set (drop lo spans). starts_before s t1}"
    by (rule sorted_take_while_set)
  have q: "q = filter (\<lambda>s. ends_from s t0 \<and> starts_before s t1) (rev (drop k (take lo spans))) @
      takeWhile (\<lambda>s. starts_before s t1) (drop lo spans)"
    unfolding q_def lo_def [symmetric] k(2) ..
  have late: "t0 \<le> startR s" if s: "s \<in> set (drop lo spans)" for s
  proof -
    obtain j where "j < length spans - lo" "s = spans ! (lo + j)" using s by (auto simp: in_set_conv_nth)
    with lo(3) [of "lo + j"] show ?thesis by (simp add: not_less)
  qed
  have sub: "set (drop k (take lo spans)) \<subseteq> set spans" "set (drop lo spans) \<subseteq> set spans"
    by (auto dest: in_set_dropD in_set_takeD)
  have sound: "set q \<subseteq> {s \<in> set spans. wanted t0 t1 s}"
    using sub fwd late by (auto simp: q wanted_def)
  have complete: "{s \<in> set spans. wanted t0 t1 s \<and> t0 - reach_ms \<le> startR s} \<subseteq> set q"
  proof
    fix s assume "s \<in> {s \<in> set spans. wanted t0 t1 s \<and> t0 - reach_ms \<le> startR s}"
    then obtain j where j: "j < length spans" "s = spans ! j" and w: "wanted t0 t1 s" "t0 - reach_ms \<le> startR s"
      by (auto simp: in_set_conv_nth)
    show "s \<in> set q"
    proof (cases "lo \<le> j")
      case True
      with j have "s \<in> set (drop lo spans)"
        by (auto simp: in_set_conv_nth intro!: exI [of _ "j - lo"])
      with w fwd show ?thesis by (simp add: q wanted_def)
    next
      case False
      then have "startR s < t0" using lo(2) [of j] j by simp
      with w have e: "ends_from s t0" "starts_before s t1" by (auto simp: wanted_def)
      have "k \<le> j"
      proof (rule ccontr)
        assume "\<not> k \<le> j"
        then have kl: "k < length spans" "startR (spans ! k) < t0 - reach_ms" using k(3) lo(1) by auto
        have "map startR spans ! j \<le> map startR spans ! k"
          using \<open>\<not> k \<le> j\<close> kl(1) by (intro sorted_nth_mono [OF sorted]) auto
        with kl j w(2) show False by auto
      qed
      with False j have "s \<in> set (drop k (take lo spans))"
        by (auto simp: in_set_conv_nth intro!: exI [of _ "j - k"])
      with e show ?thesis by (simp add: q)
    qed
  qed
  have "distinct (map sp_id (take lo spans @ drop lo spans))" using d by simp
  then have dd: "distinct (map sp_id (take lo spans))" "distinct (map sp_id (drop lo spans))"
    "sp_id ` set (take lo spans) \<inter> sp_id ` set (drop lo spans) = {}"
    by (simp_all only: map_append distinct_append set_map)
  have "distinct (map sp_id (filter P (rev (drop k (take lo spans)))))" for P
    using dd(1) by (intro distinct_map_filter) (metis distinct_drop drop_map distinct_rev rev_map)
  moreover have "distinct (map sp_id (takeWhile P (drop lo spans)))" for P
    using dd(2) by (metis distinct_take takeWhile_eq_take take_map)
  moreover have "set (takeWhile P (drop lo spans)) \<subseteq> set (drop lo spans)" for P
    by (auto dest: set_takeWhileD)
  moreover have "set (filter P (rev (drop k (take lo spans)))) \<subseteq> set (take lo spans)" for P
    by (auto dest: in_set_dropD)
  ultimately have "distinct (map sp_id q)"
    using dd(3) unfolding q map_append distinct_append set_map by blast
  with sound complete show ?thesis by blast
qed

lemma query_agent_ok:
  fixes ix :: span_index
  assumes ok: "span_ok ix"
  shows "let q = si_queryAgent ix a t0 t1 []; spans = {s \<in> set (si_all ix). sp_agentId s = a}
   in distinct (map sp_id q) \<and> set q \<subseteq> {s \<in> spans. wanted t0 t1 s} \<and>
      {s \<in> spans. wanted t0 t1 s \<and> t0 - 65536 \<le> startR s} \<subseteq> set q"
proof -
  have reach: "reach_ms = 65536" by (simp add: reach_ms_def BUCKET_MS_def)
  note mem = si_all_iff [OF ok]
  show ?thesis
  proof (cases "map_of (si_agents ix) a")
    case None
    then have "{s \<in> set (si_all ix). sp_agentId s = a} = {}" using bucket_of_span [OF ok] by blast
    with None show ?thesis by (auto simp: Let_def si_queryAgent_def)
  next
    case (Some b)
    note bo = span_okD(6) [OF ok Some]
    note ids = bucket_contents(1) [OF ok Some] and set = bucket_contents(2) [OF ok Some]
    have "sorted (map sp_startMs (bucket_spans ix b))"
    proof -
      have "map sp_startMs (bucket_spans ix b) = map (start_of (si_byId ix)) (ab_spans b)"
        by (simp add: bucket_spans_def start_of_def)
      with bo show ?thesis by (simp only: bucket_ok_def)
    qed
    then have sorted: "sorted (map startR (bucket_spans ix b))"
      by (simp add: sorted_wrt_map)
    have "distinct (map sp_id (bucket_spans ix b))" using bo by (simp add: ids bucket_ok_def)
    note q = query_list [OF sorted this, of t0 t1, unfolded reach set]
    show ?thesis
    proof (cases "ab_spans b = []")
      case True
      then have "bucket_spans ix b = []" by (simp add: bucket_spans_def)
      with set have "{s \<in> set (si_all ix). sp_agentId s = a} = {}" by simp
      with True Some show ?thesis by (auto simp: Let_def si_queryAgent_def)
    next
      case False
      then have "si_queryAgent ix a t0 t1 [] =
          walk_back (bucket_spans ix b) t0 t1
            (bsearch (\<lambda>j. startR (bucket_spans ix b ! j) < t0) 0 (length (bucket_spans ix b))) [] @
          takeWhile (\<lambda>s. starts_before s t1)
            (drop (bsearch (\<lambda>j. startR (bucket_spans ix b ! j) < t0) 0 (length (bucket_spans ix b)))
              (bucket_spans ix b))"
        by (simp add: si_queryAgent_def Some Let_def)
      with q show ?thesis by (simp only: Let_def)
    qed
  qed
qed

text \<open>C37: A viewport query returns each span of the agent at most once, returns only spans that start before the
  right edge and reach the left one, and misses none of those that start at most 65536 ms before the left edge.
\<close>

theorem query_agent_spec:
  "let ix = foldl span_step emptyIndex ops; q = si_queryAgent ix a t0 t1 [];
       spans = {s \<in> set (si_all ix). sp_agentId s = a}
   in distinct (map sp_id q) \<and> set q \<subseteq> {s \<in> spans. wanted t0 t1 s} \<and>
      {s \<in> spans. wanted t0 t1 s \<and> t0 - 65536 \<le> startR s} \<subseteq> set q"
  using query_agent_ok [OF span_ok_run [OF span_ok_empty], of ops a t0 t1] by (simp only: Let_def)

lemma update_same: "map_of m k = Some v \<Longrightarrow> AList.update k v m = m"
  by (induction m) auto

lemma overwrite_again: "overwrite (overwrite e s) s = overwrite e s" "overwrite s s = s"
  by (simp_all add: overwrite_def)

lemma overwrite_settled:
  assumes "map_of (si_byId ix) (sp_id s) = Some e" and "sp_id e = sp_id s" and "overwrite e s = e"
    and "map_of (si_agents ix) (sp_agentId e) = Some b" and "ab_maxEndPrefix b = []"
    and "end_or_start e \<le> si_globalMaxEndMs ix"
  shows "(si_append ix s)\<lparr>si_dirty := d\<rparr> = ix\<lparr>si_dirty := d\<rparr>"
proof -
  have "b\<lparr>ab_maxEndPrefix := []\<rparr> = b" using assms(5) by simp
  with assms show ?thesis
    by (simp add: si_append_def si_overwrite_def Let_def si_emit_def update_same raise_end_def)
qed

text \<open>Appending is idempotent on the span id: a new id is stored as it is, a known one keeps its start, agent,
  kind and place and takes the other fields of the delivered span, every other span is untouched, and the second
  delivery of the same span changes nothing but the notification list.
\<close>

theorem append_idempotent:
  "let ix = foldl span_step emptyIndex ops; ix' = si_append ix s in
     si_get ix' i = (if i = sp_id s then Some (case si_get ix i of None \<Rightarrow> s | Some e \<Rightarrow> overwrite e s) else si_get ix i) \<and>
     si_size ix' = (if si_get ix (sp_id s) = None then Suc (si_size ix) else si_size ix) \<and>
     (si_append ix' s)\<lparr>si_dirty := []\<rparr> = ix'\<lparr>si_dirty := []\<rparr>"
proof -
  let ?ix = "foldl span_step emptyIndex ops" and ?ix' = "si_append (foldl span_step emptyIndex ops) s"
  have ok: "span_ok ?ix" by (intro span_ok_run span_ok_empty)
  then have ok': "span_ok ?ix'" by (rule span_ok_append)
  have id: "sp_id e = sp_id s" if "map_of (si_byId ?ix) (sp_id s) = Some e" for e using span_okD(3) [OF ok that] .
  have get: "si_get ?ix' i =
      (if i = sp_id s then Some (case si_get ?ix i of None \<Rightarrow> s | Some e \<Rightarrow> overwrite e s) else si_get ?ix i)" for i
  proof (cases "map_of (si_byId ?ix) (sp_id s)")
    case None
    then show ?thesis by (simp add: si_get_def si_append_def si_insert_def Let_def)
  next
    case (Some e)
    then show ?thesis by (simp add: si_get_def si_append_def si_overwrite_def Let_def id [OF Some])
  qed
  have size: "si_size ?ix' = (if si_get ?ix (sp_id s) = None then Suc (si_size ?ix) else si_size ?ix)"
  proof (cases "map_of (si_byId ?ix) (sp_id s)")
    case None
    then show ?thesis
      by (simp add: si_size_def si_get_def si_append_def si_insert_def Let_def update_new map_has_def)
  next
    case (Some e)
    then show ?thesis
      by (simp add: si_size_def si_get_def si_append_def si_overwrite_def Let_def id [OF Some] length_update_old map_has_def)
  qed
  obtain e where e: "map_of (si_byId ?ix') (sp_id s) = Some e" "overwrite e s = e"
    using get [of "sp_id s"] overwrite_again by (auto simp: si_get_def split: option.splits)
  have "\<exists>b. map_of (si_agents ?ix') (sp_agentId e) = Some b \<and> ab_maxEndPrefix b = []"
  proof (cases "map_of (si_byId ?ix) (sp_id s)")
    case None
    with e(1) show ?thesis by (simp add: si_append_def si_insert_def Let_def)
  next
    case (Some e0)
    moreover obtain b where "map_of (si_agents ?ix) (sp_agentId e0) = Some b"
      using span_okD(4) [OF ok Some] by (auto simp: map_has_def)
    moreover from Some id [OF Some] e(1) have "e = overwrite e0 s"
      by (simp add: si_append_def si_overwrite_def Let_def)
    ultimately show ?thesis by (simp add: si_append_def si_overwrite_def Let_def)
  qed
  then have "(si_append ?ix' s)\<lparr>si_dirty := []\<rparr> = ?ix'\<lparr>si_dirty := []\<rparr>"
    using overwrite_settled [OF e(1) span_okD(3) [OF ok' e(1)] e(2)] span_okD(5) [OF ok' e(1)] by blast
  with get size show ?thesis unfolding Let_def by blast
qed

lemma reassign_moves_run:
  "let ix = foldl span_step emptyIndex ops; ix' = si_reassignAgent ix frm to in
     si_all ix' = (if frm = '''' \<or> to = '''' then si_all ix
                   else map (\<lambda>s. if sp_agentId s = frm then s\<lparr>sp_agentId := to\<rparr> else s) (si_all ix)) \<and>
     (if frm = '''' \<or> to = '''' \<or> frm = to then ix' = ix else frm \<notin> set (si_agentIds ix'))"
proof -
  let ?ix = "foldl span_step emptyIndex ops"
  have ok: "span_ok ?ix" by (intro span_ok_run span_ok_empty)
  show ?thesis
  proof (cases "frm = '''' \<or> to = '''' \<or> frm = to")
    case True
    then show ?thesis by (auto simp: Let_def si_reassignAgent_def intro!: map_idI [symmetric])
  next
    case False
    have gone: "frm \<notin> set (si_agentIds (si_reassignAgent ?ix frm to))"
      using False by (auto simp: si_agentIds_def si_reassignAgent_def set_delete Let_def split: option.splits)
    have all: "si_all (si_reassignAgent ?ix frm to) =
        map (\<lambda>s. if sp_agentId s = frm then s\<lparr>sp_agentId := to\<rparr> else s) (si_all ?ix)"
    proof (cases "map_of (si_agents ?ix) frm")
      case None
      have "\<forall>s\<in>set (si_all ?ix). sp_agentId s \<noteq> frm" using bucket_of_span [OF ok] None by blast
      then show ?thesis using None False by (simp add: si_reassignAgent_def si_all_def map_idI)
    next
      case (Some b)
      note c = bucket_contents(3) [OF ok Some]
      have entry: "snd (move_span to (ab_spans b) e) =
          (if sp_agentId (snd e) = frm then (snd e)\<lparr>sp_agentId := to\<rparr> else snd e)" if e: "e \<in> set (si_byId ?ix)" for e
      proof -
        have "map_of (si_byId ?ix) (fst e) = Some (snd e)" using e span_okD(1) [OF ok] by (simp add: map_ok_def)
        then have "fst e \<in> set (ab_spans b) \<longleftrightarrow> sp_agentId (snd e) = frm"
          using span_okD(6) [OF ok Some] by (simp add: bucket_ok_def)
        then show ?thesis by (simp add: move_span_def)
      qed
      show ?thesis
      proof (cases "ab_spans b = []")
        case True
        then have "\<forall>s\<in>set (si_all ?ix). sp_agentId s \<noteq> frm" using c by auto
        then show ?thesis using Some True False by (simp add: si_reassignAgent_def si_all_def map_idI)
      next
        case ne: False
        then have "si_byId (si_reassignAgent ?ix frm to) = map (move_span to (ab_spans b)) (si_byId ?ix)"
          using Some False by (simp add: si_reassignAgent_def Let_def)
        then show ?thesis using entry by (simp add: si_all_def comp_def)
      qed
    qed
    from all gone False show ?thesis by (simp add: Let_def)
  qed
qed

lemma reassign_moves:
  assumes "frm \<noteq> ''''" and "to \<noteq> ''''"
  shows "si_all (si_reassignAgent (foldl span_step emptyIndex ops) frm to) =
     map (\<lambda>s. if sp_agentId s = frm then s\<lparr>sp_agentId := to\<rparr> else s) (si_all (foldl span_step emptyIndex ops))"
  using reassign_moves_run [where frm = frm and to = to and ops = ops] assms by (simp add: Let_def)

text \<open>
  Merging the row of one agent into another gives every span of the first to the second, keeps every
  other span and the order of the spans, and leaves no bucket of the first behind.
\<close>

theorem reassign_moves_all_spans:
  "let ix = foldl span_step emptyIndex ops; ix' = si_reassignAgent ix frm to in
     si_all ix' = (if frm = '''' \<or> to = '''' then si_all ix
                   else map (\<lambda>s. if sp_agentId s = frm then s\<lparr>sp_agentId := to\<rparr> else s) (si_all ix)) \<and>
     (if frm = '''' \<or> to = '''' \<or> frm = to then ix' = ix else frm \<notin> set (si_agentIds ix'))"
  by (rule reassign_moves_run)

definition demoSpan :: "string \<Rightarrow> int \<Rightarrow> int option \<Rightarrow> span" where
  "demoSpan i t0 t1 = \<lparr>sp_id = i, sp_sessionId = ''s'', sp_agentId = ''a'', sp_parentSpanId = None, sp_kind = CUSTOM,
     sp_status = (if t1 = None then SP_RUNNING else SP_COMPLETED), sp_name = i, sp_startMs = t0, sp_endMs = t1, sp_links = [],
     sp_attributes = [], sp_payloadRefs = [], sp_error = None, sp_lane = -1, sp_replaced = False\<rparr>"

text \<open>
  The bound on the backward walk hides running spans: one that started 100 s before the viewport and is still
  running is not returned once another span that started after it lies more than 65536 ms before the viewport.
\<close>

theorem old_running_span_is_missed:
  "let running = demoSpan ''r'' 0 None;
       ix = si_append (si_append emptyIndex running) (demoSpan ''d'' 1000 (Some 1500))
   in si_get ix ''r'' = Some running \<and> wanted 100000 (At 130000) running \<and> si_queryAgent ix ''a'' 100000 (At 130000) [] = [] \<and>
      si_queryAgent ix ''a'' 60000 (At 130000) [] = [running]"
  by code_simp

end
