(* ===== verification/PlanHistory.thy ===== *)
theory PlanHistory
  imports Tasks
begin

text \<open>
  \<open>PlanHistoryRegistry\<close> of \<open>frontend/src/state/planHistoryStore.ts\<close>: every revision of every plan, and the
  three views derived from it (the plan at a revision, the cumulative plan, the supersedes map). \<open>append\<close>
  deep-clones the plan it stores, so records are values; \<open>hi_emits\<close> counts notifications.
\<close>

record plan_revision_record =
  ph_revision :: int
  ph_plan :: task_plan
  ph_reason :: string
  ph_kind :: string
  ph_triggerEventId :: string
  ph_emittedAtMs :: int

record supersession_link =
  sl_oldTaskId :: string
  sl_newTaskId :: string
  sl_revision :: int
  sl_kind :: string
  sl_reason :: string
  sl_triggerEventId :: string

record cumulative_task_meta =
  cm_introducedInRevision :: int
  cm_lastModifiedInRevision :: int
  cm_isSuperseded :: bool

record cumulative_plan = task_plan +
  cp_taskRevisionMeta :: "(string, cumulative_task_meta) jsmap"

record plan_history =
  hi_revisions :: "(string, plan_revision_record list) jsmap"
  hi_emits :: nat

definition emptyHistory :: plan_history where
  "emptyHistory = \<lparr>hi_revisions = [], hi_emits = 0\<rparr>"

definition hi_emit :: "plan_history \<Rightarrow> plan_history" where
  "hi_emit h = h\<lparr>hi_emits := Suc (hi_emits h)\<rparr>"

fun task_status_string :: "task_status \<Rightarrow> string" where
  "task_status_string TS_UNSPECIFIED = ''UNSPECIFIED''"
| "task_status_string TS_PENDING = ''PENDING''"
| "task_status_string TS_RUNNING = ''RUNNING''"
| "task_status_string TS_COMPLETED = ''COMPLETED''"
| "task_status_string TS_FAILED = ''FAILED''"
| "task_status_string TS_CANCELLED = ''CANCELLED''"
| "task_status_string TS_BLOCKED = ''BLOCKED''"

definition taskFingerprint :: "task \<Rightarrow> string" where
  \<comment> \<open>\<open>[...].join('')\<close>: the separator is the empty string\<close>
  "taskFingerprint t = concat [tk_title t, tk_description t, tk_assigneeAgentId t, task_status_string (tk_status t),
     js_int (tk_predictedStartMs t), js_int (tk_predictedDurationMs t)]"

section \<open>Appending\<close>

definition place_revision :: "plan_revision_record \<Rightarrow> plan_revision_record list \<Rightarrow> plan_revision_record list" where
  "place_revision c arr =
     (let i = back_scan (\<lambda>r. ph_revision c < ph_revision r) arr (length arr)
      in if i = length arr then arr @ [c] else splice_in i c arr)"

definition hi_append :: "plan_history \<Rightarrow> plan_revision_record \<Rightarrow> plan_history" where
  "hi_append h r =
     (let planId = tp_id (ph_plan r) in
      if planId = '''' then h
      else (let arr = (case map_of (hi_revisions h) planId of None \<Rightarrow> [] | Some a \<Rightarrow> a)
            in if list_ex (\<lambda>x. ph_revision x = ph_revision r) arr
               then h\<lparr>hi_revisions := AList.update planId arr (hi_revisions h)\<rparr>
               else hi_emit (h\<lparr>hi_revisions := AList.update planId (place_revision r arr) (hi_revisions h)\<rparr>)))"

definition hi_historyFor :: "plan_history \<Rightarrow> string \<Rightarrow> plan_revision_record list" where
  "hi_historyFor h planId = (case map_of (hi_revisions h) planId of None \<Rightarrow> [] | Some a \<Rightarrow> a)"

definition hi_planAtRevision :: "plan_history \<Rightarrow> string \<Rightarrow> int \<Rightarrow> task_plan option" where
  "hi_planAtRevision h planId n =
     (case map_of (hi_revisions h) planId of
        None \<Rightarrow> None
      | Some arr \<Rightarrow> map_option ph_plan (find (\<lambda>r. ph_revision r = n) arr))"

definition hi_planIds :: "plan_history \<Rightarrow> string list" where
  "hi_planIds h = map fst (hi_revisions h)"

definition hi_clear :: "plan_history \<Rightarrow> plan_history" where
  "hi_clear h = (if hi_revisions h = [] then h else hi_emit (h\<lparr>hi_revisions := []\<rparr>))"

section \<open>The cumulative plan\<close>

record union_state =
  un_meta :: "(string, cumulative_task_meta) jsmap"
  un_byId :: "(string, task) jsmap"
  un_fingerprint :: "(string, string) jsmap"

definition union_task :: "int \<Rightarrow> union_state \<Rightarrow> task \<Rightarrow> union_state" where
  \<comment> \<open>the body of the inner loop\<close>
  "union_task n u t =
     (let fp = taskFingerprint t;
          meta = (case map_of (un_meta u) (tk_id t) of
                    None \<Rightarrow> AList.update (tk_id t)
                              \<lparr>cm_introducedInRevision = n, cm_lastModifiedInRevision = n, cm_isSuperseded = False\<rparr> (un_meta u)
                  | Some m \<Rightarrow> if map_of (un_fingerprint u) (tk_id t) \<noteq> Some fp
                              then AList.update (tk_id t) (m\<lparr>cm_lastModifiedInRevision := n\<rparr>) (un_meta u)
                              else un_meta u)
      in \<lparr>un_meta = meta, un_byId = AList.update (tk_id t) t (un_byId u),
          un_fingerprint = AList.update (tk_id t) fp (un_fingerprint u)\<rparr>)"

definition union_revision :: "union_state \<Rightarrow> plan_revision_record \<Rightarrow> union_state" where
  "union_revision u r = foldl (union_task (ph_revision r)) u (tp_tasks (ph_plan r))"

definition union_all :: "plan_revision_record list \<Rightarrow> union_state" where
  "union_all arr = foldl union_revision \<lparr>un_meta = [], un_byId = [], un_fingerprint = []\<rparr> arr"

definition add_edge :: "task_edge list \<Rightarrow> task_edge \<Rightarrow> task_edge list" where
  \<comment> \<open>\<open>edgeKeys\<close> holds the keys of the edges emitted so far\<close>
  "add_edge es e = (if edge_key e \<in> set (map edge_key es) then es else es @ [e])"

definition union_edges :: "plan_revision_record list \<Rightarrow> task_edge list" where
  "union_edges arr = foldl (\<lambda>es r. foldl add_edge es (tp_edges (ph_plan r))) [] arr"

definition union_tasks :: "(string, task) jsmap \<Rightarrow> task list \<Rightarrow> task list" where
  \<comment> \<open>the tasks of the latest plan, then the others in order of first appearance\<close>
  "union_tasks byId latest =
     List.map_filter (\<lambda>t. map_of byId (tk_id t)) latest @
     map snd (filter (\<lambda>e. \<not> (fst e \<in> tk_id ` set latest \<and> map_has byId (fst e))) byId)"

definition hi_cumulativePlan :: "plan_history \<Rightarrow> string \<Rightarrow> cumulative_plan option" where
  "hi_cumulativePlan h planId =
     (case map_of (hi_revisions h) planId of
        None \<Rightarrow> None
      | Some arr \<Rightarrow>
          if arr = [] then None
          else (let latest = ph_plan (arr ! (length arr - 1));
                    u = union_all arr;
                    latestIds = tk_id ` set (tp_tasks latest);
                    meta = map (\<lambda>e. (fst e, if fst e \<in> latestIds then snd e else (snd e)\<lparr>cm_isSuperseded := True\<rparr>)) (un_meta u)
                in Some (task_plan.extend (latest\<lparr>tp_tasks := union_tasks (un_byId u) (tp_tasks latest),
                                                  tp_edges := union_edges arr\<rparr>)
                           (cumulative_plan.fields meta))))"

section \<open>The supersedes map\<close>

definition first_seen :: "plan_revision_record list \<Rightarrow> (string, nat) jsmap" where
  "first_seen arr =
     foldl (\<lambda>m ir. foldl (\<lambda>m t. if map_has m (tk_id t) then m else AList.update (tk_id t) (fst ir) m) m
                     (tp_tasks (ph_plan (snd ir))))
       [] (enumerate 0 arr)"

record pairing =
  pa_out :: "(string, supersession_link) jsmap"
  pa_oldIds :: "string list"
  pa_newIds :: "string list"

definition link_of :: "plan_revision_record \<Rightarrow> string \<Rightarrow> string \<Rightarrow> supersession_link" where
  "link_of r old nw = \<lparr>sl_oldTaskId = old, sl_newTaskId = nw, sl_revision = ph_revision r, sl_kind = ph_kind r,
     sl_reason = ph_reason r, sl_triggerEventId = ph_triggerEventId r\<rparr>"

definition pair_explicit :: "(string, nat) jsmap \<Rightarrow> nat \<Rightarrow> plan_revision_record \<Rightarrow> pairing \<Rightarrow> task \<Rightarrow> pairing" where
  \<comment> \<open>the body of pass 1\<close>
  "pair_explicit seen i r p t =
     (if tk_supersedes t = '''' then p
      else if map_of seen (tk_id t) \<noteq> Some i then p
      else if tk_supersedes t = tk_id t then p
      else if map_has (pa_out p) (tk_supersedes t) then p
      else \<lparr>pa_out = AList.update (tk_supersedes t) (link_of r (tk_supersedes t) (tk_id t)) (pa_out p),
            pa_oldIds = set_add (tk_supersedes t) (pa_oldIds p),
            pa_newIds = set_add (tk_id t) (pa_newIds p)\<rparr>)"

definition pass_one :: "plan_revision_record list \<Rightarrow> pairing" where
  "pass_one arr =
     foldl (\<lambda>p ir. foldl (pair_explicit (first_seen arr) (fst ir) (snd ir)) p (tp_tasks (ph_plan (snd ir))))
       \<lparr>pa_out = [], pa_oldIds = [], pa_newIds = []\<rparr> (enumerate 0 arr)"

definition plan_ids :: "plan_revision_record \<Rightarrow> string list" where
  "plan_ids r = map tk_id (tp_tasks (ph_plan r))"

definition pair_dropped ::
    "string list \<Rightarrow> plan_revision_record \<Rightarrow> string list \<Rightarrow> string list \<Rightarrow> (string, supersession_link) jsmap \<Rightarrow> nat
     \<Rightarrow> (string, supersession_link) jsmap" where
  \<comment> \<open>the body of the pairing loop of pass 2, for the index \<open>k\<close>\<close>
  "pair_dropped oldIds r dropped trulyNew out k =
     (if dropped ! k \<in> set oldIds then out
      else AList.update (dropped ! k)
             (link_of r (dropped ! k) (if k < min (length dropped) (length trulyNew) then trulyNew ! k else '''')) out)"

definition pass_two_step ::
    "pairing \<Rightarrow> (string, supersession_link) jsmap \<times> string list \<Rightarrow> plan_revision_record \<times> plan_revision_record
     \<Rightarrow> (string, supersession_link) jsmap \<times> string list" where
  "pass_two_step p s step =
     (let prv = fst step; nxt = snd step; everSeen = snd s;
          dropped = filter (\<lambda>i. i \<notin> set (plan_ids nxt) \<and> i \<notin> set (pa_oldIds p)) (plan_ids prv);
          trulyNew = filter (\<lambda>i. i \<notin> set everSeen \<and> i \<notin> set (pa_newIds p)) (plan_ids nxt)
      in (foldl (pair_dropped (pa_oldIds p) nxt dropped trulyNew) (fst s) [0..<length dropped],
          foldl (\<lambda>s i. set_add i s) everSeen (plan_ids nxt)))"

definition supersedes_list :: "plan_revision_record list \<Rightarrow> (string, supersession_link) jsmap" where
  "supersedes_list arr =
     (let p = pass_one arr in
      if length arr < 2 then pa_out p
      else fst (foldl (pass_two_step p) (pa_out p, foldl (\<lambda>s i. set_add i s) [] (plan_ids (arr ! 0)))
                  (zip arr (tl arr))))"

definition hi_supersedesMap :: "plan_history \<Rightarrow> string \<Rightarrow> (string, supersession_link) jsmap" where
  "hi_supersedesMap h planId =
     (case map_of (hi_revisions h) planId of
        None \<Rightarrow> []
      | Some arr \<Rightarrow> if arr = [] then [] else supersedes_list arr)"

section \<open>The history is sorted and first delivery wins\<close>

lemma place_revision_splice:
  "place_revision c xs = splice_in (back_scan (\<lambda>r. ph_revision c < ph_revision r) xs (length xs)) c xs"
  by (simp add: place_revision_def Let_def splice_in_length)

lemma set_place_revision [simp]: "set (place_revision c xs) = insert c (set xs)"
  by (simp add: place_revision_splice)

lemma place_revision_not_Nil [simp]: "place_revision c xs \<noteq> []"
  by (metis set_place_revision insert_not_empty set_empty)

lemma distinct_place_revision:
  "distinct (map ph_revision xs) \<Longrightarrow> ph_revision c \<notin> ph_revision ` set xs \<Longrightarrow> distinct (map ph_revision (place_revision c xs))"
  by (simp add: place_revision_splice map_splice_in distinct_splice_in)

lemma sorted_place_revision: "sorted (map ph_revision xs) \<Longrightarrow> sorted (map ph_revision (place_revision c xs))"
  unfolding place_revision_splice by (rule sorted_back_scan_insert)

definition revs_sorted :: "string \<Rightarrow> plan_revision_record list \<Rightarrow> bool" where
  "revs_sorted pid arr = (sorted (map ph_revision arr) \<and> distinct (map ph_revision arr) \<and>
     list_all (\<lambda>r. tp_id (ph_plan r) = pid) arr)"

lemma historyFor_append:
  "hi_historyFor (hi_append h r) pid =
     (if pid \<noteq> '''' \<and> tp_id (ph_plan r) = pid \<and> ph_revision r \<notin> ph_revision ` set (hi_historyFor h pid)
      then place_revision r (hi_historyFor h pid) else hi_historyFor h pid)"
  by (auto simp: hi_append_def hi_historyFor_def hi_emit_def Let_def list_ex_image split: option.splits)

lemma historyFor_simps [simp]: "hi_historyFor emptyHistory pid = []" "hi_historyFor (hi_clear h) pid = []"
  by (simp_all add: hi_historyFor_def emptyHistory_def hi_clear_def hi_emit_def)

lemma revs_sorted_Nil [simp]: "revs_sorted pid []"
  by (simp add: revs_sorted_def)

lemma revs_sorted_append: "revs_sorted pid (hi_historyFor h pid) \<Longrightarrow> revs_sorted pid (hi_historyFor (hi_append h r) pid)"
  by (auto simp: historyFor_append revs_sorted_def sorted_place_revision distinct_place_revision list_all_iff)

datatype history_op = HAppend plan_revision_record | HClear

fun history_step :: "plan_history \<Rightarrow> history_op \<Rightarrow> plan_history" where
  "history_step h (HAppend r) = hi_append h r"
| "history_step h HClear = hi_clear h"

lemma revs_sorted_run: "revs_sorted pid (hi_historyFor (foldl history_step emptyHistory ops) pid)"
proof (induction ops rule: rev_induct)
  case (snoc op ops)
  then show ?case by (cases op) (simp_all add: revs_sorted_append)
qed simp

lemma revs_sorted_appends: "revs_sorted pid (hi_historyFor (foldl hi_append emptyHistory recs) pid)"
  by (induction recs rule: rev_induct) (simp_all add: revs_sorted_append)

lemma planAt_historyFor: "hi_planAtRevision h pid n = map_option ph_plan (find (\<lambda>r. ph_revision r = n) (hi_historyFor h pid))"
  by (simp add: hi_planAtRevision_def hi_historyFor_def split: option.splits)

lemma find_unique:
  assumes "distinct (map f xs)"
  shows "find (\<lambda>x. f x = v) xs = Some y \<longleftrightarrow> y \<in> set xs \<and> f y = v"
  using assms by (induction xs) auto

lemma find_place:
  assumes "revs_sorted pid xs" and "ph_revision c \<notin> ph_revision ` set xs"
  shows "find (\<lambda>r. ph_revision r = n) (place_revision c xs) =
     (if n = ph_revision c then Some c else find (\<lambda>r. ph_revision r = n) xs)"
proof -
  have d: "distinct (map ph_revision xs)" "distinct (map ph_revision (place_revision c xs))"
    using assms by (auto simp: revs_sorted_def distinct_place_revision)
  have "z \<in> set xs \<Longrightarrow> ph_revision z \<noteq> ph_revision c" for z
    using assms(2) imageI [of z "set xs" ph_revision] by metis
  then show ?thesis
    by (intro option_eq_all) (auto simp: find_unique [OF d(1)] find_unique [OF d(2)])
qed

text \<open>
  In every reachable state the revisions of a plan id are kept in strictly ascending order, all of that plan,
  and the revision numbers are those of the records delivered since the last clear.
\<close>

theorem history_sorted:
  "sorted_wrt (<) (map ph_revision (hi_historyFor (foldl history_step emptyHistory ops) pid)) \<and>
   tp_id ` ph_plan ` set (hi_historyFor (foldl history_step emptyHistory ops) pid) \<subseteq> {pid} \<and>
   (pid = '''' \<or> ph_revision ` set (hi_historyFor (foldl hi_append emptyHistory recs) pid) =
      ph_revision ` {r \<in> set recs. tp_id (ph_plan r) = pid})"
proof -
  have "ph_revision ` set (hi_historyFor (foldl hi_append emptyHistory recs) pid) =
      ph_revision ` {r \<in> set recs. tp_id (ph_plan r) = pid}" if "pid \<noteq> ''''"
  proof (induction recs rule: rev_induct)
    case (snoc r recs)
    then show ?case using that by (auto simp: historyFor_append image_iff)
  qed simp
  then show ?thesis
    using revs_sorted_run [of pid ops] by (auto simp: revs_sorted_def strict_sorted_iff list_all_iff)
qed

text \<open>The plan at a revision is the one of the first record that was delivered for it: later deliveries of the same
  plan id and revision number do not replace it, whatever they contain and in whatever order revisions arrive.
\<close>

theorem first_delivery_wins:
  "hi_planAtRevision (foldl hi_append emptyHistory recs) pid n =
     (if pid = '''' then None
      else map_option ph_plan (find (\<lambda>r. tp_id (ph_plan r) = pid \<and> ph_revision r = n) recs))"
proof (cases "pid = ''''")
  case True
  have "hi_historyFor (foldl hi_append emptyHistory recs) '''' = []"
    by (induction recs rule: rev_induct) (simp_all add: historyFor_append)
  with True show ?thesis by (simp add: planAt_historyFor)
next
  case False
  have "find (\<lambda>r. ph_revision r = n) (hi_historyFor (foldl hi_append emptyHistory recs) pid) =
      find (\<lambda>r. tp_id (ph_plan r) = pid \<and> ph_revision r = n) recs"
  proof (induction recs rule: rev_induct)
    case (snoc r recs)
    let ?h = "foldl hi_append emptyHistory recs"
    have known: "find (\<lambda>x. tp_id (ph_plan x) = pid \<and> ph_revision x = n) recs \<noteq> None"
      if "n \<in> ph_revision ` set (hi_historyFor ?h pid)"
      using that snoc.IH [symmetric] by (auto simp: find_None_iff)
    have unknown: "find (\<lambda>x. tp_id (ph_plan x) = pid \<and> ph_revision x = n) recs = None"
      if "n \<notin> ph_revision ` set (hi_historyFor ?h pid)"
      using that snoc.IH [symmetric] by (force simp: find_None_iff)
    show ?case
    proof (cases "tp_id (ph_plan r) = pid \<and> ph_revision r \<notin> ph_revision ` set (hi_historyFor ?h pid)")
      case True
      with False have "hi_historyFor (hi_append ?h r) pid = place_revision r (hi_historyFor ?h pid)"
        by (simp add: historyFor_append)
      with True snoc.IH unknown show ?thesis
        by (auto simp: find_place [OF revs_sorted_appends] find_append split: option.split)
    next
      case F: False
      then have "hi_historyFor (hi_append ?h r) pid = hi_historyFor ?h pid" by (auto simp: historyFor_append)
      with F snoc.IH known show ?thesis by (auto simp: find_append split: option.split)
    qed
  qed simp
  with False show ?thesis by (simp add: planAt_historyFor)
qed

section \<open>The cumulative plan\<close>

definition versions :: "plan_revision_record list \<Rightarrow> (int \<times> task) list" where
  "versions arr = concat (map (\<lambda>r. map (Pair (ph_revision r)) (tp_tasks (ph_plan r))) arr)"

definition keyed :: "(string, task) jsmap \<Rightarrow> bool" where
  "keyed m = (map_ok m \<and> list_all (\<lambda>e. tk_id (snd e) = fst e) m)"

lemma union_all_versions:
  "union_all arr = foldl (\<lambda>u p. union_task (fst p) u (snd p)) \<lparr>un_meta = [], un_byId = [], un_fingerprint = []\<rparr> (versions arr)"
proof -
  have rev: "union_revision u r = foldl (\<lambda>u p. union_task (fst p) u (snd p)) u (map (Pair (ph_revision r)) (tp_tasks (ph_plan r)))" for u r
    by (simp add: union_revision_def foldl_map)
  have "foldl union_revision u arr = foldl (\<lambda>u p. union_task (fst p) u (snd p)) u (versions arr)" for u
    by (induction arr arbitrary: u) (simp_all add: versions_def rev foldl_append)
  then show ?thesis by (simp add: union_all_def)
qed

lemma keyed_update: "keyed m \<Longrightarrow> keyed (AList.update (tk_id t) t m)"
  by (auto simp: keyed_def list_all_iff set_update_ok)

lemma union_run:
  fixes ps :: "(int \<times> task) list"
  defines "u \<equiv> foldl (\<lambda>u p. union_task (fst p) u (snd p)) \<lparr>un_meta = [], un_byId = [], un_fingerprint = []\<rparr> ps"
  shows "map_of (un_byId u) i = find (\<lambda>t. tk_id t = i) (rev (map snd ps)) \<and>
    map_option (\<lambda>m. (cm_introducedInRevision m, cm_isSuperseded m)) (map_of (un_meta u) i) =
      map_option (\<lambda>p. (fst p, False)) (find (\<lambda>p. tk_id (snd p) = i) ps) \<and> keyed (un_byId u)"
  unfolding u_def
proof (induction ps rule: rev_induct)
  case (snoc p ps)
  let ?u = "foldl (\<lambda>u p. union_task (fst p) u (snd p)) \<lparr>un_meta = [], un_byId = [], un_fingerprint = []\<rparr> ps"
  have upd: "un_byId (union_task (fst p) ?u (snd p)) = AList.update (tk_id (snd p)) (snd p) (un_byId ?u)"
    by (simp add: union_task_def Let_def)
  show ?case
  proof (intro conjI)
    show "map_of (un_byId (foldl (\<lambda>u p. union_task (fst p) u (snd p)) \<lparr>un_meta = [], un_byId = [], un_fingerprint = []\<rparr> (ps @ [p]))) i =
        find (\<lambda>t. tk_id t = i) (rev (map snd (ps @ [p])))"
      using snoc.IH by (auto simp: upd)
    show "keyed (un_byId (foldl (\<lambda>u p. union_task (fst p) u (snd p)) \<lparr>un_meta = [], un_byId = [], un_fingerprint = []\<rparr> (ps @ [p])))"
      using snoc.IH by (simp add: upd keyed_update)
    show "map_option (\<lambda>m. (cm_introducedInRevision m, cm_isSuperseded m))
          (map_of (un_meta (foldl (\<lambda>u p. union_task (fst p) u (snd p)) \<lparr>un_meta = [], un_byId = [], un_fingerprint = []\<rparr> (ps @ [p]))) i) =
        map_option (\<lambda>p. (fst p, False)) (find (\<lambda>p. tk_id (snd p) = i) (ps @ [p]))"
      using snoc.IH
      by (cases "find (\<lambda>p. tk_id (snd p) = i) ps"; cases "map_of (un_meta ?u) i")
        (auto simp: union_task_def Let_def find_append split: option.splits)
  qed
qed (simp add: keyed_def)

lemma versions_first:
  "map_option fst (find (\<lambda>p. tk_id (snd p) = i) (versions arr)) = map_option ph_revision (find (\<lambda>r. i \<in> set (plan_ids r)) arr)"
proof (induction arr)
  case (Cons r arr)
  have "find (\<lambda>p. tk_id (snd p) = i) (map (Pair n) ts) = map_option (Pair n) (find (\<lambda>t. tk_id t = i) ts)" for n ts
    by (induction ts) auto
  with Cons show ?case
    by (auto simp: versions_def find_append plan_ids_def find_None_iff find_Some_iff split: option.splits)
qed (simp add: versions_def)

lemma find_keyed:
  assumes "list_all (\<lambda>e. tk_id (snd e) = fst e) m" and "\<forall>e\<in>set m. P e \<longleftrightarrow> fst e \<notin> L"
  shows "find (\<lambda>t. tk_id t = i) (map snd (filter P m)) = (if i \<in> L then None else map_of m i)"
  using assms by (induction m) auto

lemma find_union_tasks:
  assumes "keyed m" and "\<forall>t\<in>set latest. map_has m (tk_id t)"
  shows "find (\<lambda>t. tk_id t = i) (union_tasks m latest) = map_of m i"
proof -
  have k: "tk_id t = j" if "map_of m j = Some t" for j t
    using assms(1) map_of_SomeD [OF that] by (auto simp: keyed_def list_all_iff)
  have front: "find (\<lambda>t. tk_id t = i) (List.map_filter (\<lambda>t. map_of m (tk_id t)) ts) =
      (if i \<in> tk_id ` set ts then map_of m i else None)" if "\<forall>t\<in>set ts. map_has m (tk_id t)" for ts
    using that by (induction ts) (auto simp: List.map_filter_simps map_has_def k)
  have others: "find (\<lambda>t. tk_id t = i) (map snd (filter (\<lambda>e. \<not> (fst e \<in> tk_id ` set latest \<and> map_has m (fst e))) m)) =
      (if i \<in> tk_id ` set latest then None else map_of m i)"
    by (rule find_keyed) (use assms(1) in \<open>auto simp: keyed_def map_has_iff\<close>)
  show ?thesis
    unfolding union_tasks_def find_append front [OF assms(2)] others by (auto split: option.splits)
qed

lemma edges_added:
  "edge_key ` set (foldl add_edge es xs) = edge_key ` set es \<union> edge_key ` set xs \<and>
   (distinct (map edge_key es) \<longrightarrow> distinct (map edge_key (foldl add_edge es xs)))"
  by (induction xs arbitrary: es) (auto simp: add_edge_def)

lemma union_edges_props:
  "edge_key ` set (union_edges arr) = (\<Union>r\<in>set arr. edge_key ` set (tp_edges (ph_plan r))) \<and>
   distinct (map edge_key (union_edges arr))"
  unfolding union_edges_def
  by (induction arr rule: rev_induct) (auto simp: edges_added)

lemma map_filter_ids:
  "keyed m \<Longrightarrow> \<forall>t\<in>set ts. map_has m (tk_id t) \<Longrightarrow> map tk_id (List.map_filter (\<lambda>t. map_of m (tk_id t)) ts) = map tk_id ts"
proof (induction ts)
  case (Cons t ts)
  then obtain x where x: "map_of m (tk_id t) = Some x" by (auto simp: map_has_def)
  then have "tk_id x = tk_id t" using Cons.prems(1) map_of_SomeD [OF x] by (auto simp: keyed_def list_all_iff)
  with Cons x show ?case by (simp add: List.map_filter_simps)
qed (simp add: List.map_filter_simps)

lemma union_props:
  fixes arr :: "plan_revision_record list"
  defines "u \<equiv> union_all arr"
  shows "map_of (un_byId u) i = find (\<lambda>t. tk_id t = i) (rev (concat (map (\<lambda>r. tp_tasks (ph_plan r)) arr)))"
    and "map_option (\<lambda>m. (cm_introducedInRevision m, cm_isSuperseded m)) (map_of (un_meta u) i) =
      map_option (\<lambda>r. (ph_revision r, False)) (find (\<lambda>r. i \<in> set (plan_ids r)) arr)"
    and "keyed (un_byId u)"
proof -
  note run = union_run [of "versions arr" i]
  have "map snd (versions arr) = concat (map (\<lambda>r. tp_tasks (ph_plan r)) arr)"
    by (induction arr) (simp_all add: versions_def comp_def)
  with run show "map_of (un_byId u) i = find (\<lambda>t. tk_id t = i) (rev (concat (map (\<lambda>r. tp_tasks (ph_plan r)) arr)))"
    and "keyed (un_byId u)"
    by (simp_all add: u_def union_all_versions)
  have "map_option (\<lambda>p. (fst p, False)) (find (\<lambda>p. tk_id (snd p) = i) (versions arr)) =
      map_option (\<lambda>r. (ph_revision r, False)) (find (\<lambda>r. i \<in> set (plan_ids r)) arr)"
    using arg_cong [OF versions_first [of i arr], of "map_option (\<lambda>n. (n, False))"]
    by (simp add: option.map_comp comp_def)
  with run show "map_option (\<lambda>m. (cm_introducedInRevision m, cm_isSuperseded m)) (map_of (un_meta u) i) =
      map_option (\<lambda>r. (ph_revision r, False)) (find (\<lambda>r. i \<in> set (plan_ids r)) arr)"
    by (simp add: u_def union_all_versions)
qed

lemma map_of_map_value: "map_of (map (\<lambda>e. (fst e, f (fst e) (snd e))) m) i = map_option (f i) (map_of m i)"
  by (induction m) auto

text \<open>The cumulative plan lists, first in the order of the latest revision, every task of every revision in its
  last version; its metadata names the first revision that had the task and marks it superseded exactly when the
  latest revision lacks it; its edges are the edges of all revisions, each once.
\<close>

theorem cumulative_plan_spec:
  "let h = foldl history_step emptyHistory ops; arr = hi_historyFor h pid in
   case hi_cumulativePlan h pid of
     None \<Rightarrow> arr = []
   | Some c \<Rightarrow>
       arr \<noteq> [] \<and>
       take (length (plan_ids (last arr))) (map tk_id (tp_tasks c)) = plan_ids (last arr) \<and>
       find (\<lambda>t. tk_id t = i) (tp_tasks c) = find (\<lambda>t. tk_id t = i) (rev (concat (map (\<lambda>r. tp_tasks (ph_plan r)) arr))) \<and>
       map_option (\<lambda>m. (cm_introducedInRevision m, cm_isSuperseded m)) (map_of (cp_taskRevisionMeta c) i) =
         map_option (\<lambda>r. (ph_revision r, i \<notin> set (plan_ids (last arr)))) (find (\<lambda>r. i \<in> set (plan_ids r)) arr) \<and>
       edge_key ` set (tp_edges c) = (\<Union>r\<in>set arr. edge_key ` set (tp_edges (ph_plan r))) \<and>
       distinct (map edge_key (tp_edges c))"
proof -
  let ?h = "foldl history_step emptyHistory ops" and ?arr = "hi_historyFor (foldl history_step emptyHistory ops) pid"
  show ?thesis
  proof (cases "?arr = []")
    case True
    then have "hi_cumulativePlan ?h pid = None"
      by (auto simp: hi_cumulativePlan_def hi_historyFor_def split: option.splits)
    with True show ?thesis by simp
  next
    case False
    define latest where "latest = ph_plan (last ?arr)"
    define L where "L = tk_id ` set (tp_tasks latest)"
    let ?u = "union_all ?arr"
    have ids: "plan_ids (last ?arr) = map tk_id (tp_tasks latest)" by (simp add: plan_ids_def latest_def)
    have "map_of (hi_revisions ?h) pid = Some ?arr"
      using False by (simp add: hi_historyFor_def split: option.splits)
    then obtain c where c: "hi_cumulativePlan ?h pid = Some c"
      "tp_tasks c = union_tasks (un_byId ?u) (tp_tasks latest)" "tp_edges c = union_edges ?arr"
      "cp_taskRevisionMeta c = map (\<lambda>e. (fst e, if fst e \<in> L then snd e else (snd e)\<lparr>cm_isSuperseded := True\<rparr>)) (un_meta ?u)"
      using False
      by (simp add: hi_cumulativePlan_def Let_def task_plan.extend_def cumulative_plan.fields_def latest_def L_def last_conv_nth)
    have has: "\<forall>t\<in>set (tp_tasks latest). map_has (un_byId ?u) (tk_id t)"
    proof
      fix t assume "t \<in> set (tp_tasks latest)"
      then have "t \<in> set (rev (concat (map (\<lambda>r. tp_tasks (ph_plan r)) ?arr)))"
        using last_in_set [OF False] by (auto simp: latest_def)
      then have "find (\<lambda>x. tk_id x = tk_id t) (rev (concat (map (\<lambda>r. tp_tasks (ph_plan r)) ?arr))) \<noteq> None"
        unfolding find_None_iff by blast
      then show "map_has (un_byId ?u) (tk_id t)" by (simp only: map_has_def union_props(1) not_False_eq_True)
    qed
    have front: "take (length (plan_ids (last ?arr))) (map tk_id (tp_tasks c)) = plan_ids (last ?arr)"
      using map_filter_ids [OF union_props(3) has] by (simp add: c(2) union_tasks_def ids)
    have tasks: "find (\<lambda>t. tk_id t = i) (tp_tasks c) = find (\<lambda>t. tk_id t = i) (rev (concat (map (\<lambda>r. tp_tasks (ph_plan r)) ?arr)))"
      unfolding c(2) find_union_tasks [OF union_props(3) has] by (rule union_props(1))
    have "map_of (cp_taskRevisionMeta c) i =
        map_option (\<lambda>m. if i \<in> L then m else m\<lparr>cm_isSuperseded := True\<rparr>) (map_of (un_meta ?u) i)"
      unfolding c(4) by (rule map_of_map_value [where f = "\<lambda>k m. if k \<in> L then m else m\<lparr>cm_isSuperseded := True\<rparr>"])
    then have meta: "map_option (\<lambda>m. (cm_introducedInRevision m, cm_isSuperseded m)) (map_of (cp_taskRevisionMeta c) i) =
        map_option (\<lambda>r. (ph_revision r, i \<notin> set (plan_ids (last ?arr)))) (find (\<lambda>r. i \<in> set (plan_ids r)) ?arr)"
      using union_props(2) [of ?arr i]
      by (cases "map_of (un_meta ?u) i"; cases "find (\<lambda>r. i \<in> set (plan_ids r)) ?arr") (auto simp: ids L_def)
    show ?thesis
      unfolding Let_def c(1) option.case using False front tasks meta union_edges_props [of ?arr] c(3) by simp
  qed
qed

section \<open>The supersedes map\<close>

definition explicit_link :: "plan_revision_record list \<Rightarrow> string \<Rightarrow> supersession_link \<Rightarrow> bool" where
  "explicit_link arr k l =
     list_ex (\<lambda>r. list_ex (\<lambda>t. tk_supersedes t = k \<and> tk_id t \<noteq> k \<and> l = link_of r k (tk_id t)) (tp_tasks (ph_plan r))) arr"

definition pairing_ok :: "plan_revision_record list \<Rightarrow> pairing \<Rightarrow> bool" where
  "pairing_ok arr p =
     (set (pa_oldIds p) = fst ` set (pa_out p) \<and> (\<forall>e\<in>set (pa_out p). explicit_link arr (fst e) (snd e)))"

lemma pairing_ok_explicit:
  assumes "pairing_ok arr p" and "r \<in> set arr" and "t \<in> set (tp_tasks (ph_plan r))"
  shows "pairing_ok arr (pair_explicit seen i r p t)"
proof -
  have "explicit_link arr (tk_supersedes t) (link_of r (tk_supersedes t) (tk_id t))" if "tk_supersedes t \<noteq> tk_id t"
    using assms(2,3) that unfolding explicit_link_def list_ex_iff by (intro bexI [of _ r] bexI [of _ t]) auto
  with assms(1) set_update_subset [of "tk_supersedes t" "link_of r (tk_supersedes t) (tk_id t)" "pa_out p"]
  show ?thesis by (auto simp: pairing_ok_def pair_explicit_def fst_set_update)
qed

lemma pairing_ok_tasks:
  "pairing_ok arr p \<Longrightarrow> r \<in> set arr \<Longrightarrow> set ts \<subseteq> set (tp_tasks (ph_plan r)) \<Longrightarrow>
   pairing_ok arr (foldl (pair_explicit seen i r) p ts)"
  by (induction ts arbitrary: p) (simp_all add: pairing_ok_explicit)

lemma pass_one_ok: "pairing_ok arr (pass_one arr)"
proof -
  have "pairing_ok arr (foldl (\<lambda>p ir. foldl (pair_explicit (first_seen arr) (fst ir) (snd ir)) p (tp_tasks (ph_plan (snd ir)))) p irs)"
    if "pairing_ok arr p" and "snd ` set irs \<subseteq> set arr" for p irs
    using that by (induction irs arbitrary: p) (simp_all add: pairing_ok_tasks)
  moreover have "snd ` set (enumerate 0 arr) \<subseteq> set arr" by (auto simp: in_set_enumerate_eq)
  moreover have "pairing_ok arr \<lparr>pa_out = [], pa_oldIds = [], pa_newIds = []\<rparr>" by (simp add: pairing_ok_def)
  ultimately show ?thesis unfolding pass_one_def by blast
qed

lemma pair_dropped_keys:
  "n \<le> length dropped \<Longrightarrow> fst ` set (foldl (pair_dropped old r dropped new) out [0..<n]) =
     fst ` set out \<union> {x \<in> set (take n dropped). x \<notin> set old}"
proof (induction n)
  case (Suc n)
  then have "take (Suc n) dropped = take n dropped @ [dropped ! n]" by (simp add: take_Suc_conv_app_nth)
  with Suc show ?case by (auto simp: pair_dropped_def fst_set_update)
qed simp

lemma pair_dropped_old:
  "k \<in> set old \<Longrightarrow> map_of (foldl (pair_dropped old r dropped new) out ns) k = map_of out k"
  by (induction ns arbitrary: out) (auto simp: pair_dropped_def)

definition self_keyed :: "(string, supersession_link) jsmap \<Rightarrow> bool" where
  "self_keyed m = (\<forall>e\<in>set m. sl_oldTaskId (snd e) = fst e)"

lemma self_keyed_update: "self_keyed m \<Longrightarrow> sl_oldTaskId l = k \<Longrightarrow> self_keyed (AList.update k l m)"
  using set_update_subset [of k l m] by (auto simp: self_keyed_def)

lemma pair_dropped_self: "self_keyed out \<Longrightarrow> self_keyed (foldl (pair_dropped old r dropped new) out ns)"
  by (induction ns arbitrary: out) (simp_all add: pair_dropped_def self_keyed_update link_of_def)

lemma pass_two_step_keys:
  "fst ` set (fst (pass_two_step p s (a, b))) =
     fst ` set (fst s) \<union> {i \<in> set (plan_ids a). i \<notin> set (plan_ids b) \<and> i \<notin> set (pa_oldIds p)}"
  by (auto simp: pass_two_step_def Let_def pair_dropped_keys)

lemma pass_two_step_old:
  "k \<in> set (pa_oldIds p) \<Longrightarrow> map_of (fst (pass_two_step p s step)) k = map_of (fst s) k"
  by (simp add: pass_two_step_def Let_def pair_dropped_old)

lemma pass_two_step_self: "self_keyed (fst s) \<Longrightarrow> self_keyed (fst (pass_two_step p s step))"
  by (simp add: pass_two_step_def Let_def pair_dropped_self)

lemma pass_two_keys:
  "fst ` set (fst (foldl (pass_two_step p) s steps)) =
     fst ` set (fst s) \<union> {i. i \<notin> set (pa_oldIds p) \<and> (\<exists>e\<in>set steps. i \<in> set (plan_ids (fst e)) \<and> i \<notin> set (plan_ids (snd e)))}"
proof (induction steps arbitrary: s)
  case (Cons e steps)
  obtain a b where "e = (a, b)" by (cases e)
  then show ?case using Cons [of "pass_two_step p s e"] by (auto simp: pass_two_step_keys)
qed simp

lemma pass_two_old:
  "k \<in> set (pa_oldIds p) \<Longrightarrow> map_of (fst (foldl (pass_two_step p) s steps)) k = map_of (fst s) k"
  by (induction steps arbitrary: s) (simp_all add: pass_two_step_old)

lemma pass_two_self: "self_keyed (fst s) \<Longrightarrow> self_keyed (fst (foldl (pass_two_step p) s steps))"
  by (induction steps arbitrary: s) (simp_all add: pass_two_step_self)

lemma dropped_somewhere:
  "\<exists>r\<in>set arr. P r \<Longrightarrow> \<not> P (last arr) \<Longrightarrow> \<exists>e\<in>set (zip arr (tl arr)). P (fst e) \<and> \<not> P (snd e)"
proof (induction arr)
  case (Cons x arr)
  show ?case
  proof (cases arr)
    case Nil
    with Cons.prems show ?thesis by simp
  next
    case c: (Cons y ys)
    show ?thesis
    proof (cases "\<exists>r\<in>set arr. P r")
      case True
      with Cons.IH Cons.prems(2) c show ?thesis by auto
    next
      case False
      with Cons.prems c show ?thesis by auto
    qed
  qed
qed simp

text \<open>The reference: the links that the planner states, then the positional pairing of what is left, one transition at a time.\<close>

definition ids_before :: "plan_revision_record list \<Rightarrow> nat \<Rightarrow> string set" where
  "ids_before arr i = (\<Union>r\<in>set (take i arr). set (plan_ids r))"

definition stated_links :: "plan_revision_record list \<Rightarrow> (string \<times> supersession_link) list" where
  \<comment> \<open>what the tasks say in the revision that introduces them, in order\<close>
  "stated_links arr =
     concat (map (\<lambda>i. map (\<lambda>t. (tk_supersedes t, link_of (arr ! i) (tk_supersedes t) (tk_id t)))
                        (filter (\<lambda>t. tk_supersedes t \<noteq> '''' \<and> tk_supersedes t \<noteq> tk_id t \<and> tk_id t \<notin> ids_before arr i)
                           (tp_tasks (ph_plan (arr ! i)))))
               [0..<length arr])"

definition stated_old :: "plan_revision_record list \<Rightarrow> string set" where
  "stated_old arr = fst ` set (stated_links arr)"

definition stated_new :: "plan_revision_record list \<Rightarrow> string set" where
  \<comment> \<open>the new tasks of the links that count: the first one stated for a task\<close>
  "stated_new arr = sl_newTaskId ` ran (map_of (stated_links arr))"

definition guessed_at :: "plan_revision_record list \<Rightarrow> nat \<Rightarrow> (string \<times> supersession_link) list" where
  \<comment> \<open>the tasks that revision \<open>i\<close> drops against those it introduces, by position; the rest retires without a successor\<close>
  "guessed_at arr i =
     (let gone = filter (\<lambda>k. k \<notin> set (plan_ids (arr ! i)) \<and> k \<notin> stated_old arr) (plan_ids (arr ! (i - 1)));
          new = filter (\<lambda>k. k \<notin> ids_before arr i \<and> k \<notin> stated_new arr) (plan_ids (arr ! i))
      in map2 (\<lambda>k n. (k, link_of (arr ! i) k n)) gone (new @ replicate (length gone) ''''))"

definition guessed_links :: "plan_revision_record list \<Rightarrow> (string \<times> supersession_link) list" where
  "guessed_links arr = concat (map (guessed_at arr) [1..<length arr])"

lemma first_seen_iff:
  "map_of (first_seen arr) k = Some i \<longleftrightarrow> i < length arr \<and> k \<in> set (plan_ids (arr ! i)) \<and> k \<notin> ids_before arr i"
proof -
  have inner: "map_of (foldl (\<lambda>m t. if map_has m (tk_id t) then m else AList.update (tk_id t) n m) m ts) k =
      (case map_of m k of Some j \<Rightarrow> Some j | None \<Rightarrow> if k \<in> tk_id ` set ts then Some n else None)"
    for n :: nat and m and ts :: "task list"
    by (induction ts arbitrary: m) (auto simp: map_has_def update_conv split: option.split)
  have "map_of (first_seen arr) k = None \<longleftrightarrow> k \<notin> ids_before arr (length arr)" for arr
    by (induction arr rule: rev_induct)
      (auto simp: first_seen_def enumerate_append_eq inner ids_before_def plan_ids_def split: option.splits)
  note none = this
  show ?thesis
  proof (induction arr rule: rev_induct)
    case (snoc r arr)
    have "map_of (first_seen (arr @ [r])) k =
        (case map_of (first_seen arr) k of Some j \<Rightarrow> Some j | None \<Rightarrow> if k \<in> set (plan_ids r) then Some (length arr) else None)"
      by (simp add: first_seen_def enumerate_append_eq inner plan_ids_def split: option.split)
    with snoc none [of arr] show ?case
      by (auto simp: ids_before_def nth_append less_Suc_eq split: option.splits)
  qed (simp add: first_seen_def)
qed

lemma first_stated_wins: "m1(k \<mapsto> l) ++ m = m1 ++ (if k \<in> dom m then m else m(k \<mapsto> l))"
  by (rule ext) (auto simp: map_add_def split: option.split)

lemma pass_one_tasks:
  assumes "set (pa_newIds p) = sl_newTaskId ` ran (map_of (pa_out p))"
  shows "map_of (pa_out (foldl (pair_explicit seen i r) p ts)) =
      map_of (map (\<lambda>t. (tk_supersedes t, link_of r (tk_supersedes t) (tk_id t)))
        (filter (\<lambda>t. tk_supersedes t \<noteq> '''' \<and> map_of seen (tk_id t) = Some i \<and> tk_supersedes t \<noteq> tk_id t) ts)) ++ map_of (pa_out p) \<and>
    set (pa_newIds (foldl (pair_explicit seen i r) p ts)) =
      sl_newTaskId ` ran (map_of (pa_out (foldl (pair_explicit seen i r) p ts)))"
  using assms
proof (induction ts arbitrary: p)
  case (Cons t ts)
  define said where "said \<longleftrightarrow> tk_supersedes t \<noteq> '''' \<and> map_of seen (tk_id t) = Some i \<and> tk_supersedes t \<noteq> tk_id t"
  define p' where "p' = pair_explicit seen i r p t"
  have p': "map_of (pa_out p') = (if said \<and> tk_supersedes t \<notin> dom (map_of (pa_out p))
      then (map_of (pa_out p))(tk_supersedes t \<mapsto> link_of r (tk_supersedes t) (tk_id t)) else map_of (pa_out p))"
    by (auto simp: p'_def said_def pair_explicit_def map_has_def update_conv')
  have "set (pa_newIds p') = sl_newTaskId ` ran (map_of (pa_out p'))"
    using Cons.prems by (auto simp: p'_def pair_explicit_def map_has_def update_conv' link_of_def)
  from Cons.IH [OF this] show ?case
    by (simp add: p'_def [symmetric] said_def [symmetric] p' first_stated_wins)
qed simp

lemma pass_one_links:
  "map_of (pa_out (pass_one arr)) = map_of (stated_links arr)" "set (pa_newIds (pass_one arr)) = stated_new arr"
proof -
  define said where "said = (\<lambda>i r. map (\<lambda>t. (tk_supersedes t, link_of r (tk_supersedes t) (tk_id t)))
    (filter (\<lambda>t. tk_supersedes t \<noteq> '''' \<and> map_of (first_seen arr) (tk_id t) = Some i \<and> tk_supersedes t \<noteq> tk_id t) (tp_tasks (ph_plan r))))"
  define step where "step = (\<lambda>p ir. foldl (pair_explicit (first_seen arr) (fst ir) (snd ir)) p (tp_tasks (ph_plan (snd ir))))"
  have run: "map_of (pa_out (foldl step p irs)) = map_of (concat (map (\<lambda>ir. said (fst ir) (snd ir)) irs)) ++ map_of (pa_out p) \<and>
      set (pa_newIds (foldl step p irs)) = sl_newTaskId ` ran (map_of (pa_out (foldl step p irs)))"
    if "set (pa_newIds p) = sl_newTaskId ` ran (map_of (pa_out p))" for p irs
    using that
  proof (induction irs arbitrary: p)
    case (Cons ir irs)
    have one: "map_of (pa_out (step p ir)) = map_of (said (fst ir) (snd ir)) ++ map_of (pa_out p)"
      "set (pa_newIds (step p ir)) = sl_newTaskId ` ran (map_of (pa_out (step p ir)))"
      unfolding step_def said_def using pass_one_tasks [OF Cons.prems] by blast+
    from Cons.IH [OF one(2)] show ?case by (simp add: one(1))
  qed simp
  have "said i r = map (\<lambda>t. (tk_supersedes t, link_of (arr ! i) (tk_supersedes t) (tk_id t)))
      (filter (\<lambda>t. tk_supersedes t \<noteq> '''' \<and> tk_supersedes t \<noteq> tk_id t \<and> tk_id t \<notin> ids_before arr i) (tp_tasks (ph_plan (arr ! i))))"
    if "i < length arr" "r = arr ! i" for i r
    unfolding said_def that(2) using that(1) by (intro arg_cong [where f = "map _"] filter_cong) (auto simp: first_seen_iff plan_ids_def)
  then have "concat (map (\<lambda>ir. said (fst ir) (snd ir)) (enumerate 0 arr)) = stated_links arr"
    unfolding stated_links_def by (intro arg_cong [where f = concat] nth_equalityI) (simp_all add: nth_enumerate_eq)
  moreover have "pass_one arr = foldl step \<lparr>pa_out = [], pa_oldIds = [], pa_newIds = []\<rparr> (enumerate 0 arr)"
    by (simp add: pass_one_def step_def)
  ultimately have "map_of (pa_out (pass_one arr)) = map_of (stated_links arr) \<and>
      set (pa_newIds (pass_one arr)) = sl_newTaskId ` ran (map_of (pa_out (pass_one arr)))"
    using run [of "\<lparr>pa_out = [], pa_oldIds = [], pa_newIds = []\<rparr>" "enumerate 0 arr"] by simp
  then show "map_of (pa_out (pass_one arr)) = map_of (stated_links arr)" and "set (pa_newIds (pass_one arr)) = stated_new arr"
    by (auto simp: stated_new_def)
qed

lemma pass_one_old: "set (pa_oldIds (pass_one arr)) = stated_old arr"
proof -
  have "set (pa_oldIds (pass_one arr)) = dom (map_of (pa_out (pass_one arr)))"
    using pass_one_ok [of arr] by (simp add: pairing_ok_def dom_map_of_conv_image_fst)
  then show ?thesis by (simp add: pass_one_links stated_old_def dom_map_of_conv_image_fst)
qed

lemma pair_dropped_run:
  assumes "set dropped \<inter> set old = {}" and "n \<le> length dropped"
  shows "map_of (foldl (pair_dropped old r dropped new) out [0..<n]) k =
    (map_of out ++ map_of (rev (take n (map2 (\<lambda>k n. (k, link_of r k n)) dropped (new @ replicate (length dropped) ''''))))) k"
  using assms(2)
proof (induction n)
  case (Suc n)
  then have "dropped ! n \<in> set dropped" by simp
  then have "dropped ! n \<notin> set old" using assms(1) by blast
  moreover have "(new @ replicate (length dropped) '''') ! n = (if n < min (length dropped) (length new) then new ! n else '''')"
    using Suc.prems by (auto simp: nth_append)
  ultimately show ?case using Suc by (simp add: pair_dropped_def take_Suc_conv_app_nth map_add_def update_conv)
qed simp

lemma zip_tl_nth: "zip xs (tl xs) = map (\<lambda>i. (xs ! (i - 1), xs ! i)) [1..<length xs]"
  by (intro nth_equalityI) (simp_all add: nth_tl)

lemma ids_before_Suc: "i < length arr \<Longrightarrow> ids_before arr (Suc i) = ids_before arr i \<union> set (plan_ids (arr ! i))"
  by (auto simp: ids_before_def take_Suc_conv_app_nth)

lemma set_fold_add: "set (foldl (\<lambda>s i. set_add i s) s is) = set s \<union> set is"
  by (induction "is" arbitrary: s) auto

lemma pass_two_at:
  assumes seen: "set (snd s) = ids_before arr i" and i: "i < length arr"
  shows "map_of (fst (pass_two_step (pass_one arr) s (arr ! (i - 1), arr ! i))) = map_of (fst s) ++ map_of (rev (guessed_at arr i))"
    and "set (snd (pass_two_step (pass_one arr) s (arr ! (i - 1), arr ! i))) = ids_before arr (Suc i)"
proof -
  define gone where "gone = filter (\<lambda>k. k \<notin> set (plan_ids (arr ! i)) \<and> k \<notin> stated_old arr) (plan_ids (arr ! (i - 1)))"
  define new where "new = filter (\<lambda>k. k \<notin> ids_before arr i \<and> k \<notin> stated_new arr) (plan_ids (arr ! i))"
  have step: "pass_two_step (pass_one arr) s (arr ! (i - 1), arr ! i) =
      (foldl (pair_dropped (pa_oldIds (pass_one arr)) (arr ! i) gone new) (fst s) [0..<length gone],
       foldl (\<lambda>s i. set_add i s) (snd s) (plan_ids (arr ! i)))"
    by (simp add: pass_two_step_def Let_def gone_def new_def seen pass_one_old pass_one_links(2))
  have guess: "guessed_at arr i = map2 (\<lambda>k n. (k, link_of (arr ! i) k n)) gone (new @ replicate (length gone) '''')"
    unfolding guessed_at_def Let_def gone_def new_def by (rule refl)
  have "set gone \<inter> set (pa_oldIds (pass_one arr)) = {}" by (auto simp: gone_def pass_one_old)
  from pair_dropped_run [OF this order.refl]
  show "map_of (fst (pass_two_step (pass_one arr) s (arr ! (i - 1), arr ! i))) = map_of (fst s) ++ map_of (rev (guessed_at arr i))"
    unfolding step guess fst_conv by (intro ext) simp
  show "set (snd (pass_two_step (pass_one arr) s (arr ! (i - 1), arr ! i))) = ids_before arr (Suc i)"
    unfolding step by (simp add: set_fold_add seen ids_before_Suc [OF i])
qed

lemma pass_two_links:
  assumes seen: "set (snd s) = set (plan_ids (arr ! 0))" and n: "1 \<le> n" "n \<le> length arr"
  shows "map_of (fst (foldl (pass_two_step (pass_one arr)) s (map (\<lambda>i. (arr ! (i - 1), arr ! i)) [1..<n]))) =
      map_of (fst s) ++ map_of (rev (concat (map (guessed_at arr) [1..<n]))) \<and>
    set (snd (foldl (pass_two_step (pass_one arr)) s (map (\<lambda>i. (arr ! (i - 1), arr ! i)) [1..<n]))) = ids_before arr n"
  using n
proof (induction n rule: nat_induct_at_least)
  case base
  then have "ids_before arr (Suc 0) = ids_before arr 0 \<union> set (plan_ids (arr ! 0))" by (intro ids_before_Suc) linarith
  then show ?case using seen by (simp add: ids_before_def)
next
  case (Suc n)
  define s' where "s' = foldl (pass_two_step (pass_one arr)) s (map (\<lambda>i. (arr ! (i - 1), arr ! i)) [1..<n])"
  have IH: "map_of (fst s') = map_of (fst s) ++ map_of (rev (concat (map (guessed_at arr) [1..<n])))" "set (snd s') = ids_before arr n"
    using Suc by (simp_all add: s'_def)
  have snoc: "[1..<Suc n] = [1..<n] @ [n]" using Suc.hyps by simp
  from pass_two_at [OF IH(2)] Suc.prems show ?case
    unfolding snoc map_append foldl_append s'_def [symmetric] by (simp add: IH(1))
qed

lemma supersedes_list_links:
  assumes "arr \<noteq> []"
  shows "map_of (supersedes_list arr) = map_of (rev (guessed_links arr)) ++ map_of (stated_links arr)"
proof -
  have disj: "dom (map_of (rev (guessed_links arr))) \<inter> dom (map_of (stated_links arr)) = {}"
  proof -
    have "k \<notin> stated_old arr" if "(k, l) \<in> set (guessed_at arr i)" for k l i
      using that by (auto simp: guessed_at_def Let_def dest!: set_zip_leftD)
    then have "fst ` set (guessed_links arr) \<inter> stated_old arr = {}" by (auto simp: guessed_links_def)
    then show ?thesis by (simp add: dom_map_of_conv_image_fst stated_old_def)
  qed
  show ?thesis
  proof (cases "length arr < 2")
    case True
    then have "guessed_links arr = []" by (simp add: guessed_links_def)
    with True show ?thesis by (simp add: supersedes_list_def Let_def pass_one_links)
  next
    case False
    define s where "s = (pa_out (pass_one arr), foldl (\<lambda>s i. set_add i s) [] (plan_ids (arr ! 0)))"
    have "set (snd s) = set (plan_ids (arr ! 0))" by (simp add: s_def set_fold_add)
    from pass_two_links [OF this, of "length arr"] assms
    have "map_of (supersedes_list arr) = map_of (fst s) ++ map_of (rev (guessed_links arr))"
      using False by (simp add: supersedes_list_def Let_def s_def zip_tl_nth guessed_links_def Suc_le_eq)
    then show ?thesis using map_add_comm [OF disj] by (simp add: s_def pass_one_links)
  qed
qed

text \<open>C39: The supersedes map is the reference: a task that the planner states as replaced has the link stated first, in the revision
  that introduced its replacement; any other task that a revision drops has the link of the last revision that dropped it,
  paired by position with the tasks new in that revision that no stated link claims, or with none when they run out; and
  there is no other entry. So every task that some revision had and the latest one lacks has an entry.\<close>

theorem supersedes_map_complete:
  "let h = foldl history_step emptyHistory ops; arr = hi_historyFor h pid; m = hi_supersedesMap h pid in
     map_of m k = (case map_of (stated_links arr) k of Some l \<Rightarrow> Some l | None \<Rightarrow> map_of (rev (guessed_links arr)) k) \<and>
     map (\<lambda>e. sl_oldTaskId (snd e)) m = map fst m \<and>
     (\<Union>r\<in>set arr. set (plan_ids r)) - set (plan_ids (last arr)) \<subseteq> set (map fst m)"
proof -
  let ?h = "foldl history_step emptyHistory ops" and ?arr = "hi_historyFor (foldl history_step emptyHistory ops) pid"
  let ?p = "pass_one ?arr"
  have m: "hi_supersedesMap ?h pid = (if ?arr = [] then [] else supersedes_list ?arr)"
    by (simp add: hi_supersedesMap_def hi_historyFor_def split: option.splits)
  note ok = pass_one_ok [of ?arr]
  define fin where "fin = foldl (pass_two_step ?p) (pa_out ?p, foldl (\<lambda>s i. set_add i s) [] (plan_ids (?arr ! 0))) (zip ?arr (tl ?arr))"
  have fin: "supersedes_list ?arr = (if length ?arr < 2 then pa_out ?p else fst fin)"
    by (simp add: supersedes_list_def Let_def fin_def)
  have self: "self_keyed (pa_out ?p)"
    using ok by (fastforce simp: self_keyed_def pairing_ok_def explicit_link_def list_ex_iff link_of_def)
  then have self': "self_keyed (supersedes_list ?arr)"
    by (simp add: fin fin_def pass_two_self)
  have retired: "i \<in> fst ` set (supersedes_list ?arr)"
    if "r \<in> set ?arr" "i \<in> set (plan_ids r)" "i \<notin> set (plan_ids (last ?arr))" for r i
  proof -
    have "\<exists>e\<in>set (zip ?arr (tl ?arr)). i \<in> set (plan_ids (fst e)) \<and> i \<notin> set (plan_ids (snd e))"
      by (rule dropped_somewhere) (use that in blast)+
    then obtain e where e: "e \<in> set (zip ?arr (tl ?arr))" "i \<in> set (plan_ids (fst e))" "i \<notin> set (plan_ids (snd e))"
      by blast
    have two: "\<not> length ?arr < 2"
    proof
      assume "length ?arr < 2"
      then have "tl ?arr = []" by (cases ?arr) auto
      with e(1) show False by simp
    qed
    have "i \<in> fst ` set (fst fin)"
      using e ok unfolding fin_def pass_two_keys pairing_ok_def fst_conv by blast
    with two show ?thesis by (simp only: fin if_False)
  qed
  show ?thesis
  proof (cases "?arr = []")
    case True
    then show ?thesis by (simp add: m stated_links_def guessed_links_def)
  next
    case False
    then have m': "hi_supersedesMap ?h pid = supersedes_list ?arr" by (simp add: m)
    have "map (\<lambda>e. sl_oldTaskId (snd e)) (supersedes_list ?arr) = map fst (supersedes_list ?arr)"
      using self' by (simp add: self_keyed_def)
    moreover have "(\<Union>r\<in>set ?arr. set (plan_ids r)) - set (plan_ids (last ?arr)) \<subseteq> set (map fst (supersedes_list ?arr))"
      using retired by auto
    moreover have "map_of (supersedes_list ?arr) k =
        (case map_of (stated_links ?arr) k of Some l \<Rightarrow> Some l | None \<Rightarrow> map_of (rev (guessed_links ?arr)) k)"
      unfolding supersedes_list_links [OF False] by (simp add: map_add_def)
    ultimately show ?thesis unfolding Let_def m' by blast
  qed
qed

definition demoRevision :: "int \<Rightarrow> string \<Rightarrow> string \<Rightarrow> plan_revision_record" where
  "demoRevision n title desc =
     \<lparr>ph_revision = n, ph_plan = demoPlan ''p'' n '''' [(demoTask ''a'' title)\<lparr>tk_description := desc\<rparr>],
      ph_reason = '''', ph_kind = '''', ph_triggerEventId = '''', ph_emittedAtMs = 0\<rparr>"

text \<open>
  The task fingerprint joins its fields with nothing between them, so an edit that moves text from the title
  to the description is a change for the plan diff and none for the cumulative plan.
\<close>

theorem fingerprint_misses_edit:
  "let h = hi_append (hi_append emptyHistory (demoRevision 0 ''ship it'' '''')) (demoRevision 1 ''ship'' '' it'') in
   task_changes (hd (tp_tasks (ph_plan (demoRevision 0 ''ship it'' '''')))) (hd (tp_tasks (ph_plan (demoRevision 1 ''ship'' '' it'')))) =
     [F_title, F_description] \<and>
   map_option (\<lambda>c. map (\<lambda>e. (fst e, cm_lastModifiedInRevision (snd e))) (cp_taskRevisionMeta c)) (hi_cumulativePlan h ''p'') =
     Some [(''a'', 0)]"
  by (simp add: Let_def demoRevision_def demoPlan_def demoTask_def hi_append_def emptyHistory_def hi_emit_def
      place_revision_def task_changes_def hi_cumulativePlan_def union_all_def union_revision_def union_task_def
      taskFingerprint_def task_plan.extend_def cumulative_plan.fields_def)

end
