(* ===== verification/Thinking.thy ===== *)
theory Thinking
  imports GanttTypes
begin

text \<open>
  \<open>frontend/src/lib/thinking.ts\<close>: reading a span's reasoning text and shortening it for display. Whitespace is
  the ASCII whitespace of \<open>\s\<close>. \<open>String.localeCompare\<close> depends on the browser's locale and is an argument.
\<close>

definition attr_get :: "attributes \<Rightarrow> string \<Rightarrow> attribute_value option" where
  "attr_get attrs k = map_of attrs k"

definition attrString :: "attribute_value option \<Rightarrow> string option" where
  "attrString a = (case a of Some (AString s) \<Rightarrow> Some s | _ \<Rightarrow> None)"

definition attrBool :: "attribute_value option \<Rightarrow> bool" where
  "attrBool a = (case a of Some (ABool b) \<Rightarrow> b | _ \<Rightarrow> False)"

definition or_string :: "string option \<Rightarrow> string option \<Rightarrow> string option" where
  \<comment> \<open>\<open>a || b\<close> on \<open>string | null\<close>\<close>
  "or_string a b = (case a of None \<Rightarrow> b | Some s \<Rightarrow> if s = '''' then b else Some s)"

definition extractThinkingText :: "span \<Rightarrow> string option" where
  "extractThinkingText s =
     (let attrs = sp_attributes s;
          full = or_string (attrString (attr_get attrs ''llm.reasoning_trail'')) (attrString (attr_get attrs ''llm.reasoning''))
      in case full of None \<Rightarrow> None | Some t \<Rightarrow> if t \<noteq> '''' \<and> 0 < length t then Some t else None)"

definition hasThinking :: "span \<Rightarrow> bool" where
  "hasThinking s =
     (if attrBool (attr_get (sp_attributes s) ''has_reasoning'') then True else extractThinkingText s \<noteq> None)"

section \<open>Previews\<close>

definition is_space :: "char \<Rightarrow> bool" where
  "is_space c = (c \<in> {CHR 0x09, CHR 0x0A, CHR 0x0B, CHR 0x0C, CHR 0x0D, CHR 0x20})"

definition ellipsis :: string where
  "ellipsis = [CHR 0x85]"

definition trim_start :: "string \<Rightarrow> string" where
  "trim_start s = dropWhile is_space s"

definition trim_end :: "string \<Rightarrow> string" where
  "trim_end s = rev (dropWhile is_space (rev s))"

definition trim_both :: "string \<Rightarrow> string" where
  "trim_both s = trim_end (trim_start s)"

definition tail_to_space :: "string \<Rightarrow> string" where
  \<comment> \<open>\<open>replace(/\s+$/, ' ')\<close>\<close>
  "tail_to_space s = (if s \<noteq> '''' \<and> is_space (last s) then trim_end s @ '' '' else s)"

fun squash :: "string \<Rightarrow> string" where
  \<comment> \<open>\<open>replace(/\s+/g, ' ')\<close>\<close>
  "squash [] = []"
| "squash (c # s) =
     (if is_space c then (case s of [] \<Rightarrow> '' '' | d # _ \<Rightarrow> if is_space d then squash s else CHR '' '' # squash s)
      else c # squash s)"

definition cut :: "nat \<Rightarrow> string \<Rightarrow> string" where
  \<comment> \<open>\<open>s.slice(0, maxChars - 1).trimEnd() + ellipsis\<close> for a positive \<open>maxChars\<close>\<close>
  "cut maxChars s = trim_end (take (maxChars - 1) s) @ ellipsis"

definition formatThinkingPreview :: "string option \<Rightarrow> nat \<Rightarrow> string" where
  "formatThinkingPreview txt maxChars =
     (case txt of
        None \<Rightarrow> ''''
      | Some t \<Rightarrow> if t = '''' then ''''
                  else (let trimmed = tail_to_space (trim_start t)
                        in if length trimmed \<le> maxChars then trimmed else cut maxChars trimmed))"

definition formatThinkingInline :: "string option \<Rightarrow> nat \<Rightarrow> string" where
  "formatThinkingInline txt maxChars =
     (case txt of
        None \<Rightarrow> ''''
      | Some t \<Rightarrow> if t = '''' then ''''
                  else (let squashed = trim_both (squash t)
                        in if length squashed \<le> maxChars then squashed else cut maxChars squashed))"

section \<open>The reasoning feed\<close>

record thinking_entry =
  th_spanId :: string
  th_agentId :: string
  th_spanName :: string
  th_spanKind :: span_kind
  th_startMs :: int
  th_endMs :: "int option"
  th_text :: string
  th_isLive :: bool

definition entry_of :: "span \<Rightarrow> thinking_entry list" where
  "entry_of s =
     (case extractThinkingText s of
        None \<Rightarrow> []
      | Some t \<Rightarrow> [\<lparr>th_spanId = sp_id s, th_agentId = sp_agentId s, th_spanName = sp_name s, th_spanKind = sp_kind s,
                    th_startMs = sp_startMs s, th_endMs = sp_endMs s, th_text = t, th_isLive = (sp_endMs s = None)\<rparr>])"

definition entry_cmp :: "(string \<Rightarrow> string \<Rightarrow> int) \<Rightarrow> thinking_entry \<Rightarrow> thinking_entry \<Rightarrow> int" where
  "entry_cmp localeCompare a b =
     (if th_startMs a - th_startMs b \<noteq> 0 then th_startMs a - th_startMs b
      else localeCompare (th_spanId a) (th_spanId b))"

definition collectThinkingEntries :: "(string \<Rightarrow> string \<Rightarrow> int) \<Rightarrow> span list \<Rightarrow> thinking_entry list" where
  "collectThinkingEntries localeCompare spans = js_sort (entry_cmp localeCompare) (concat (map entry_of spans))"

definition collectThinkingForTask :: "(string \<Rightarrow> string \<Rightarrow> int) \<Rightarrow> span list \<Rightarrow> string \<Rightarrow> thinking_entry list" where
  "collectThinkingForTask localeCompare spans taskId =
     collectThinkingEntries localeCompare
       (filter (\<lambda>s. attr_get (sp_attributes s) ''hgraf.task_id'' = Some (AString taskId)) spans)"

section \<open>Properties\<close>

lemma length_trim_end: "length (trim_end s) \<le> length s"
  by (simp add: trim_end_def) (metis length_dropWhile_le length_rev)

lemma set_trim_end: "set (trim_end s) \<subseteq> set s"
  unfolding trim_end_def using set_dropWhileD by fastforce

lemma length_cut: "length (cut (Suc n) s) \<le> Suc n"
  using length_trim_end [of "take n s"] by (simp add: cut_def ellipsis_def)

lemma set_squash: "set (squash s) \<subseteq> insert (CHR '' '') {c. \<not> is_space c}"
proof (induction s)
  case (Cons c s)
  show ?case
  proof (cases s)
    case Nil
    then show ?thesis by simp
  next
    case (Cons d r)
    with Cons.IH show ?thesis by (cases "is_space c"; cases "is_space d") (simp_all del: squash.simps add: squash.simps(2) [of c])
  qed
qed simp

lemma set_trim_both: "set (trim_both s) \<subseteq> set s"
  unfolding trim_both_def trim_start_def using set_trim_end [of "dropWhile is_space s"] set_dropWhileD by fastforce

text \<open>
  A preview is at most as long as asked for (a positive length), and a one-line preview contains no whitespace
  character but the blank: every tab, line break and form feed of the reasoning text is gone.
\<close>

theorem inline_preview_bounded:
  "length (formatThinkingInline t (Suc n)) \<le> Suc n \<and> length (formatThinkingPreview t (Suc n)) \<le> Suc n \<and>
   set (formatThinkingInline t (Suc n)) \<inter> {c. is_space c} \<subseteq> {CHR '' ''}"
proof -
  have cut: "set (cut m s) \<subseteq> insert (CHR 0x85) (set s)" for m s
    using set_trim_end [of "take (m - 1) s"] by (auto simp: cut_def ellipsis_def dest: in_set_takeD)
  have sq: "set (trim_both (squash s)) \<subseteq> insert (CHR '' '') {c. \<not> is_space c}" for s
    using set_trim_both set_squash by blast
  have "\<not> is_space (CHR 0x85)" by (simp add: is_space_def)
  then have "set (cut m (trim_both (squash s))) \<inter> {c. is_space c} \<subseteq> {CHR '' ''}" for m s
    using cut [of m "trim_both (squash s)"] sq [of s] by auto
  moreover have "set (trim_both (squash s)) \<inter> {c. is_space c} \<subseteq> {CHR '' ''}" for s
    using sq [of s] by auto
  ultimately have "set (formatThinkingInline t (Suc n)) \<inter> {c. is_space c} \<subseteq> {CHR '' ''}"
    by (cases t) (simp_all add: formatThinkingInline_def Let_def)
  then show ?thesis
    using length_cut by (cases t) (simp_all add: formatThinkingInline_def formatThinkingPreview_def Let_def)
qed

lemma entry_ids: "map th_spanId (concat (map entry_of spans)) = map sp_id (filter (\<lambda>s. extractThinkingText s \<noteq> None) spans)"
proof (induction spans)
  case (Cons s spans)
  then show ?case by (cases "extractThinkingText s") (simp_all add: entry_of_def)
qed simp

text \<open>The reasoning feed lists by ascending start time one entry for each span that carries reasoning text, whatever
  the locale's comparison of ids is, and every span it lists counts as thinking.
\<close>

theorem thinking_feed_complete:
  "sorted (map th_startMs (collectThinkingEntries lc spans)) \<and>
   th_spanId ` set (collectThinkingEntries lc spans) = sp_id ` {s \<in> set spans. extractThinkingText s \<noteq> None} \<and>
   length (collectThinkingEntries lc spans) = length (filter (\<lambda>s. extractThinkingText s \<noteq> None) spans) \<and>
   list_all hasThinking (filter (\<lambda>s. extractThinkingText s \<noteq> None) spans)"
proof (intro conjI)
  show "sorted (map th_startMs (collectThinkingEntries lc spans))"
    unfolding collectThinkingEntries_def by (rule sorted_js_sort) (auto simp: entry_cmp_def split: if_splits)
  show "th_spanId ` set (collectThinkingEntries lc spans) = sp_id ` {s \<in> set spans. extractThinkingText s \<noteq> None}"
    unfolding collectThinkingEntries_def set_js_sort set_map [symmetric] entry_ids by auto
  have "length (concat (map entry_of spans)) = length (filter (\<lambda>s. extractThinkingText s \<noteq> None) spans)"
    using entry_ids [of spans] by (metis length_map)
  then show "length (collectThinkingEntries lc spans) = length (filter (\<lambda>s. extractThinkingText s \<noteq> None) spans)"
    by (simp add: collectThinkingEntries_def)
  show "list_all hasThinking (filter (\<lambda>s. extractThinkingText s \<noteq> None) spans)"
    by (auto simp: list_all_iff hasThinking_def)
qed

end
