(* ===== verification/Session.thy ===== *)
theory Session
  imports Agents Tasks Registries ContextSeries SpanIndex PlanHistory Thinking
begin

text \<open>
  \<open>SessionStore\<close> of \<open>frontend/src/gantt/index.ts\<close>: the registries of one session and the views that need
  more than one of them. \<open>JSON.parse\<close> is an argument, a function from the text to the parsed value or to
  \<open>None\<close> when it throws.
\<close>

section \<open>Reporting tools\<close>

definition ORCHESTRATION_TOOL_NAMES :: "string list" where
  "ORCHESTRATION_TOOL_NAMES = [''report_task_started'', ''report_task_progress'', ''report_task_completed'',
     ''report_task_failed'', ''report_task_blocked'', ''report_new_work_discovered'', ''report_plan_divergence'']"

datatype orchestration_event_kind =
  EV_started | EV_progress | EV_completed | EV_failed | EV_blocked | EV_discovered | EV_divergence

definition TOOL_KIND_MAP :: "(string \<times> orchestration_event_kind) list" where
  "TOOL_KIND_MAP = [(''report_task_started'', EV_started), (''report_task_progress'', EV_progress),
     (''report_task_completed'', EV_completed), (''report_task_failed'', EV_failed), (''report_task_blocked'', EV_blocked),
     (''report_new_work_discovered'', EV_discovered), (''report_plan_divergence'', EV_divergence)]"

definition object_prototype_keys :: "string list" where
  "object_prototype_keys = [''constructor'', ''__defineGetter__'', ''__defineSetter__'', ''hasOwnProperty'',
     ''__lookupGetter__'', ''__lookupSetter__'', ''isPrototypeOf'', ''propertyIsEnumerable'', ''toString'', ''valueOf'',
     ''__proto__'', ''toLocaleString'']"

text \<open>Indexing an object literal finds its own properties, then those of \<open>Object.prototype\<close>, all of them truthy.\<close>

datatype 'a looked_up = Own 'a | Inherited string | Missing

definition object_get :: "(string \<times> 'a) list \<Rightarrow> string \<Rightarrow> 'a looked_up" where
  "object_get m k =
     (case map_of m k of
        Some v \<Rightarrow> Own v
      | None \<Rightarrow> if k \<in> set object_prototype_keys then Inherited k else Missing)"

record orchestration_event =
  oe_spanId :: string
  oe_agentId :: string
  oe_kind :: "orchestration_event_kind looked_up"
  oe_toolName :: string
  oe_startMs :: int
  oe_taskId :: string
  oe_title :: string
  oe_detail :: string
  oe_recoverable :: "bool option"

datatype json =
  JNull | JBool bool | JNum rat | JStr string | JArr "json list" | JObj "(string \<times> json) list"

definition parseArgsPreview :: "(string \<Rightarrow> json option) \<Rightarrow> string \<Rightarrow> json option" where
  "parseArgsPreview jsonParse raw =
     (if raw = '''' then None
      else case jsonParse raw of
             Some (JObj fs) \<Rightarrow> Some (JObj fs)
           | Some (JArr xs) \<Rightarrow> Some (JArr xs)
           | _ \<Rightarrow> None)"

definition json_field :: "json option \<Rightarrow> string \<Rightarrow> json option" where
  \<comment> \<open>\<open>obj[key]\<close>: an array has no property of these names\<close>
  "json_field obj k = (case obj of Some (JObj fs) \<Rightarrow> map_of fs k | _ \<Rightarrow> None)"

definition pickString :: "json option \<Rightarrow> string \<Rightarrow> string" where
  "pickString obj k = (case json_field obj k of Some (JStr s) \<Rightarrow> s | _ \<Rightarrow> '''')"

section \<open>The store\<close>

record session_store =
  ss_agents :: agent_registry
  ss_spans :: span_index
  ss_tasks :: task_registry
  ss_drifts :: "drift_record registry"
  ss_invocationCancels :: "invocation_cancel_record registry"
  ss_refineAttempts :: "refine_attempt_record registry"
  ss_refineFailures :: "refine_failure_record registry"
  ss_taskTransitions :: "task_transition_record registry"
  ss_userMessages :: "user_message_record registry"
  ss_delegations :: "delegation_record registry"
  ss_contextSeries :: context_series
  ss_planHistory :: plan_history
  ss_wallClockStartMs :: int
  ss_nowMs :: int

definition emptyStore :: session_store where
  "emptyStore = \<lparr>ss_agents = emptyAgents, ss_spans = emptyIndex, ss_tasks = emptyTasks, ss_drifts = emptyRegistry,
     ss_invocationCancels = emptyRegistry, ss_refineAttempts = emptyRegistry, ss_refineFailures = emptyRegistry,
     ss_taskTransitions = emptyRegistry, ss_userMessages = emptyRegistry, ss_delegations = emptyRegistry,
     ss_contextSeries = emptySeries, ss_planHistory = emptyHistory, ss_wallClockStartMs = 0, ss_nowMs = 0\<rparr>"

definition event_of :: "(string \<Rightarrow> json option) \<Rightarrow> span \<Rightarrow> orchestration_event list" where
  \<comment> \<open>the body of the loop over \<open>spans.all()\<close>: the event pushed, if any\<close>
  "event_of jsonParse s =
     (if sp_kind s \<noteq> TOOL_CALL then []
      else (let kind = object_get TOOL_KIND_MAP (sp_name s) in
            if kind = Missing then []
            else (let preview = (case attr_get (sp_attributes s) ''tool_args_preview'' of Some (AString v) \<Rightarrow> v | _ \<Rightarrow> '''');
                      parsed = parseArgsPreview jsonParse preview;
                      detail = or_str (pickString parsed ''detail'') (or_str (pickString parsed ''summary'')
                                 (or_str (pickString parsed ''reason'') (or_str (pickString parsed ''blocker'')
                                   (or_str (pickString parsed ''note'') (pickString parsed ''description'')))))
                  in [\<lparr>oe_spanId = sp_id s, oe_agentId = sp_agentId s, oe_kind = kind, oe_toolName = sp_name s,
                       oe_startMs = sp_startMs s,
                       oe_taskId = or_str (pickString parsed ''task_id'') (pickString parsed ''parent_task_id''),
                       oe_title = pickString parsed ''title'', oe_detail = detail,
                       oe_recoverable = (case json_field parsed ''recoverable'' of Some (JBool b) \<Rightarrow> Some b | _ \<Rightarrow> None)\<rparr>])))"

definition listOrchestrationEvents :: "(string \<Rightarrow> json option) \<Rightarrow> session_store \<Rightarrow> nat \<Rightarrow> orchestration_event list" where
  "listOrchestrationEvents jsonParse st limit =
     (let out = sort_key (\<lambda>e. - oe_startMs e) (concat (map (event_of jsonParse) (si_all (ss_spans st))))
      in if limit < length out then take limit out else out)"

section \<open>The current task\<close>

record current_task =
  ct_task :: task
  ct_plan :: task_plan
  ct_inFlightTool :: "(string \<times> int) option"
  ct_isThinking :: bool

definition is_done :: "task \<Rightarrow> bool" where
  "is_done t = (tk_status t = TS_COMPLETED \<or> tk_status t = TS_FAILED \<or> tk_status t = TS_CANCELLED)"

fun scan_tasks :: "task_plan \<Rightarrow> task list \<Rightarrow> (task \<times> task_plan) option
    \<Rightarrow> (task \<times> task_plan) option \<times> (task \<times> task_plan) option" where
  \<comment> \<open>the inner loop: (found, lastDone)\<close>
  "scan_tasks plan [] lastDone = (None, lastDone)"
| "scan_tasks plan (t # ts) lastDone =
     (if tk_status t = TS_RUNNING then (Some (t, plan), lastDone)
      else scan_tasks plan ts (if is_done t then Some (t, plan) else lastDone))"

fun scan_plans :: "task_plan list \<Rightarrow> (task \<times> task_plan) option
    \<Rightarrow> (task \<times> task_plan) option \<times> (task \<times> task_plan) option" where
  "scan_plans [] lastDone = (None, lastDone)"
| "scan_plans (p # ps) lastDone =
     (case scan_tasks p (tp_tasks p) lastDone of
        (Some f, d) \<Rightarrow> (Some f, d)
      | (None, d) \<Rightarrow> scan_plans ps d)"

definition scan_span :: "(string \<times> int) option \<times> bool \<Rightarrow> span \<Rightarrow> (string \<times> int) option \<times> bool" where
  \<comment> \<open>one round of the loop over the assignee's spans: (inFlightTool, isThinking)\<close>
  "scan_span a s =
     (if sp_endMs s \<noteq> None then a
      else if sp_kind s = TOOL_CALL
      then (case fst a of
              None \<Rightarrow> (Some (sp_name s, sp_startMs s), snd a)
            | Some (n, t) \<Rightarrow> if t < sp_startMs s then (Some (sp_name s, sp_startMs s), snd a) else a)
      else if sp_kind s = LLM_CALL then (if hasThinking s then (fst a, True) else a)
      else a)"

definition getCurrentTask :: "session_store \<Rightarrow> current_task option" where
  "getCurrentTask st =
     (let scanned = scan_plans (tr_listPlans (ss_tasks st)) None;
          picked = (case fst scanned of Some f \<Rightarrow> Some f | None \<Rightarrow> snd scanned)
      in case picked of
           None \<Rightarrow> None
         | Some (t, p) \<Rightarrow>
             if tk_status t \<noteq> TS_RUNNING \<or> tk_assigneeAgentId t = ''''
             then Some \<lparr>ct_task = t, ct_plan = p, ct_inFlightTool = None, ct_isThinking = False\<rparr>
             else (let agentSpans = si_queryAgent (ss_spans st) (tk_assigneeAgentId t) 0 Beyond [];
                       live = foldl scan_span (None, False) agentSpans
                   in Some \<lparr>ct_task = t, ct_plan = p, ct_inFlightTool = fst live, ct_isThinking = snd live\<rparr>))"

section \<open>Rebasing, merging the orchestrator rows, clearing\<close>

definition rebaseRelativeTimestamps :: "session_store \<Rightarrow> int \<Rightarrow> session_store" where
  "rebaseRelativeTimestamps st start =
     st\<lparr>ss_drifts := dr_rebase start (ss_drifts st),
        ss_invocationCancels := ic_rebase start (ss_invocationCancels st),
        ss_refineAttempts := ra_rebase start (ss_refineAttempts st),
        ss_refineFailures := rf_rebase start (ss_refineFailures st),
        ss_taskTransitions := tt_rebase start (ss_taskTransitions st),
        ss_userMessages := um_rebase start (ss_userMessages st),
        ss_delegations := dl_rebase start (ss_delegations st)\<rparr>"

definition is_compound :: "string \<Rightarrow> agent \<Rightarrow> bool" where
  "is_compound legacyId a = (ag_id a \<noteq> legacyId \<and> ends_with (ag_id a) '':goldfive'')"

definition mergeGoldfiveAlias :: "session_store \<Rightarrow> string \<Rightarrow> session_store \<times> string" where
  "mergeGoldfiveAlias st legacyId =
     (let compound = (case find (is_compound legacyId) (ar_list (ss_agents st)) of None \<Rightarrow> '''' | Some a \<Rightarrow> ag_id a)
      in if compound = '''' then (st, legacyId)
         else if ar_get (ss_agents st) legacyId \<noteq> None
         then (st\<lparr>ss_spans := si_reassignAgent (ss_spans st) legacyId compound,
                  ss_agents := ar_remove (ss_agents st) legacyId\<rparr>, compound)
         else (st, compound))"

definition resolveGoldfiveActorId :: "session_store \<Rightarrow> string \<Rightarrow> string" where
  "resolveGoldfiveActorId st legacyId =
     (case find (is_compound legacyId) (ar_list (ss_agents st)) of None \<Rightarrow> legacyId | Some a \<Rightarrow> ag_id a)"

definition clearStore :: "session_store \<Rightarrow> session_store" where
  "clearStore st =
     st\<lparr>ss_agents := ar_clear (ss_agents st), ss_spans := si_clear (ss_spans st), ss_tasks := tr_clear (ss_tasks st),
        ss_drifts := dr_clear (ss_drifts st), ss_invocationCancels := ic_clear (ss_invocationCancels st),
        ss_refineAttempts := ra_clear (ss_refineAttempts st), ss_refineFailures := rf_clear (ss_refineFailures st),
        ss_taskTransitions := tt_clear (ss_taskTransitions st), ss_userMessages := um_clear (ss_userMessages st),
        ss_delegations := dl_clear (ss_delegations st), ss_contextSeries := cs_clear (ss_contextSeries st),
        ss_planHistory := hi_clear (ss_planHistory st), ss_nowMs := 0\<rparr>"

definition emptyDirty :: dirty_rect where
  "emptyDirty = \<lparr>dr_agent = None, dr_t0 = 0, dr_t1 = Fin 0\<rparr>"

section \<open>Rebasing the store\<close>

lemmas rebase_simps = drifts.rebase_again cancels.rebase_again attempts.rebase_again failures.rebase_again
  transitions.rebase_again messages.rebase_again delegs.rebase_again

lemmas anchored_simps = drifts.rebase_anchored cancels.rebase_anchored attempts.rebase_anchored failures.rebase_anchored
  transitions.rebase_anchored messages.rebase_anchored delegs.rebase_anchored

text \<open>Once the session start is known, rebasing anchors every record of the seven registries that has an absolute
  time at that time minus the start, whatever start it was ingested or rebased with before; rebasing again to the same
  start changes nothing and notifies nobody.
\<close>

theorem rebase_anchors_store:
  "let st' = rebaseRelativeTimestamps (rebaseRelativeTimestamps st t) s in
     list_all (\<lambda>x. dr_recordedAtAbsoluteMs x = 0 \<or> dr_recordedAtMs x = dr_recordedAtAbsoluteMs x - s) (rg_rows (ss_drifts st')) \<and>
     list_all (\<lambda>x. ic_recordedAtAbsoluteMs x = 0 \<or> ic_recordedAtMs x = ic_recordedAtAbsoluteMs x - s) (rg_rows (ss_invocationCancels st')) \<and>
     list_all (\<lambda>x. ra_recordedAtAbsoluteMs x = 0 \<or> ra_recordedAtMs x = ra_recordedAtAbsoluteMs x - s) (rg_rows (ss_refineAttempts st')) \<and>
     list_all (\<lambda>x. rf_recordedAtAbsoluteMs x = 0 \<or> rf_recordedAtMs x = rf_recordedAtAbsoluteMs x - s) (rg_rows (ss_refineFailures st')) \<and>
     list_all (\<lambda>x. tt_recordedAtAbsoluteMs x = 0 \<or> tt_recordedAtMs x = tt_recordedAtAbsoluteMs x - s) (rg_rows (ss_taskTransitions st')) \<and>
     list_all (\<lambda>x. um_recordedAtAbsoluteMs x = 0 \<or> um_recordedAtMs x = um_recordedAtAbsoluteMs x - s) (rg_rows (ss_userMessages st')) \<and>
     list_all (\<lambda>x. dl_observedAtAbsoluteMs x = 0 \<or> dl_observedAtMs x = dl_observedAtAbsoluteMs x - s) (rg_rows (ss_delegations st')) \<and>
     rebaseRelativeTimestamps st' s = st'"
  by (simp add: Let_def rebaseRelativeTimestamps_def rebase_simps anchored_simps)

section \<open>The current task\<close>

lemma scan_tasks_spec:
  "map_option fst (fst (scan_tasks p ts d)) = find (\<lambda>t. tk_status t = TS_RUNNING) ts \<and>
   (fst (scan_tasks p ts d) = None \<longrightarrow> map_option fst (snd (scan_tasks p ts d)) =
      (case find is_done (rev ts) of None \<Rightarrow> map_option fst d | Some t \<Rightarrow> Some t))"
  by (induction ts arbitrary: d) (auto simp: find_append split: option.splits)

lemma scan_plans_spec:
  "map_option fst (fst (scan_plans ps d)) = find (\<lambda>t. tk_status t = TS_RUNNING) (concat (map tp_tasks ps)) \<and>
   (fst (scan_plans ps d) = None \<longrightarrow> map_option fst (snd (scan_plans ps d)) =
      (case find is_done (rev (concat (map tp_tasks ps))) of None \<Rightarrow> map_option fst d | Some t \<Rightarrow> Some t))"
proof (induction ps arbitrary: d)
  case (Cons p ps)
  obtain f e where s: "scan_tasks p (tp_tasks p) d = (f, e)" by (cases "scan_tasks p (tp_tasks p) d")
  show ?case
    using scan_tasks_spec [of p "tp_tasks p" d] Cons [of e] s
    by (cases f) (auto simp: find_append split: option.splits)
qed simp

text \<open>The current task is the first running task in plan order; without one it is the last task in plan order that
  completed, failed or was cancelled; without either there is none.
\<close>

theorem current_task_choice:
  "let ts = concat (map tp_tasks (tr_listPlans (ss_tasks st))) in
   map_option ct_task (getCurrentTask st) =
     (case find (\<lambda>t. tk_status t = TS_RUNNING) ts of Some t \<Rightarrow> Some t | None \<Rightarrow> find is_done (rev ts))"
proof -
  obtain f e where s: "scan_plans (tr_listPlans (ss_tasks st)) None = (f, e)"
    by (cases "scan_plans (tr_listPlans (ss_tasks st)) None")
  have "map_option ct_task (getCurrentTask st) = (case f of Some x \<Rightarrow> Some (fst x) | None \<Rightarrow> map_option fst e)"
    by (auto simp: getCurrentTask_def Let_def s split: option.split)
  moreover note scan_plans_spec [of "tr_listPlans (ss_tasks st)" None]
  moreover define R where "R = find (\<lambda>t. tk_status t = TS_RUNNING) (concat (map tp_tasks (tr_listPlans (ss_tasks st))))"
  moreover define D where "D = find is_done (rev (concat (map tp_tasks (tr_listPlans (ss_tasks st)))))"
  ultimately show ?thesis
    unfolding Let_def R_def [symmetric] D_def [symmetric] s by (cases f; cases D) auto
qed

definition open_span :: "string \<Rightarrow> span_kind \<Rightarrow> span \<Rightarrow> bool" where
  "open_span a k s = (sp_agentId s = a \<and> sp_endMs s = None \<and> sp_kind s = k)"

lemma scan_span_run:
  "snd (foldl scan_span (tool, th) ss) =
     (th \<or> list_ex (\<lambda>s. sp_endMs s = None \<and> sp_kind s = LLM_CALL \<and> hasThinking s) ss)"
proof (induction ss arbitrary: tool th)
  case (Cons s ss)
  obtain tool' th' where "scan_span (tool, th) s = (tool', th')" by (cases "scan_span (tool, th) s")
  moreover from this have "th' = (th \<or> (sp_endMs s = None \<and> sp_kind s = LLM_CALL \<and> hasThinking s))"
    by (auto simp: scan_span_def split: if_splits option.splits prod.splits)
  ultimately show ?case using Cons by auto
qed simp

definition tool_ok :: "span list \<Rightarrow> (string \<times> int) option \<Rightarrow> bool" where
  \<comment> \<open>no tool call is open, or the pair is the name and start of one that starts last\<close>
  "tool_ok ss tool =
     (let tools = filter (\<lambda>s. sp_endMs s = None \<and> sp_kind s = TOOL_CALL) ss in
      case tool of
        None \<Rightarrow> tools = []
      | Some (n, t) \<Rightarrow> list_ex (\<lambda>s. sp_name s = n \<and> sp_startMs s = t) tools \<and> list_all (\<lambda>s. sp_startMs s \<le> t) tools)"

lemma scan_span_tool: "tool_ok ss (fst (foldl scan_span (None, False) ss))"
proof (induction ss rule: rev_induct)
  case (snoc s ss)
  obtain tool th where run: "foldl scan_span (None, False) ss = (tool, th)" by (cases "foldl scan_span (None, False) ss")
  show ?case
  proof (cases "sp_endMs s = None \<and> sp_kind s = TOOL_CALL")
    case False
    then have "fst (scan_span (tool, th) s) = tool" by (auto simp: scan_span_def)
    moreover have "filter (\<lambda>s. sp_endMs s = None \<and> sp_kind s = TOOL_CALL) (ss @ [s]) =
        filter (\<lambda>s. sp_endMs s = None \<and> sp_kind s = TOOL_CALL) ss"
      using False by simp
    ultimately show ?thesis using snoc run by (simp only: tool_ok_def foldl_append foldl.simps fst_conv)
  next
    case True
    define tools where "tools = filter (\<lambda>s. sp_endMs s = None \<and> sp_kind s = TOOL_CALL) ss"
    have tools: "filter (\<lambda>s. sp_endMs s = None \<and> sp_kind s = TOOL_CALL) (ss @ [s]) = tools @ [s]"
      using True by (simp add: tools_def)
    have step: "fst (foldl scan_span (None, False) (ss @ [s])) = fst (scan_span (tool, th) s)"
      by (simp add: run)
    have ok: "case tool of None \<Rightarrow> tools = [] | Some (n, t) \<Rightarrow>
        list_ex (\<lambda>s. sp_name s = n \<and> sp_startMs s = t) tools \<and> list_all (\<lambda>s. sp_startMs s \<le> t) tools"
      using snoc run by (simp only: tool_ok_def tools_def Let_def fst_conv)
    show ?thesis
      unfolding tool_ok_def tools step Let_def
      using ok True by (cases tool) (fastforce simp: scan_span_def list_ex_iff list_all_iff)+
  qed
qed (simp add: tool_ok_def)

lemma query_all:
  assumes "ix = foldl span_step emptyIndex ops" and "list_all (\<lambda>s. 0 \<le> sp_startMs s) (si_all ix)"
  shows "set (si_queryAgent ix a 0 Beyond []) = {s \<in> set (si_all ix). sp_agentId s = a}"
proof -
  have "wanted 0 Beyond s \<and> 0 - 65536 \<le> startR s" if "s \<in> set (si_all ix)" for s
    using assms(2) that by (auto simp: wanted_def list_all_iff intro: order_trans [of "- 65536" 0])
  moreover have ok: "span_ok ix" unfolding assms(1) by (intro span_ok_run span_ok_empty)
  ultimately have "{s \<in> set (si_all ix). sp_agentId s = a} \<subseteq> set (si_queryAgent ix a 0 Beyond [])"
    using query_agent_ok [OF ok, of a 0 Beyond] by (auto simp: Let_def)
  then show ?thesis using query_agent_ok [OF ok, of a 0 Beyond] by (auto simp: Let_def)
qed

lemma current_task_live_data:
  assumes "getCurrentTask st = Some c" and "tk_status (ct_task c) = TS_RUNNING" and "tk_assigneeAgentId (ct_task c) \<noteq> ''''"
  shows "(ct_inFlightTool c, ct_isThinking c) =
     foldl scan_span (None, False) (si_queryAgent (ss_spans st) (tk_assigneeAgentId (ct_task c)) 0 Beyond [])"
  using assms by (auto simp: getCurrentTask_def Let_def split: option.splits if_splits)

text \<open>While the current task runs and no span starts before the session, the thinking flag says exactly whether some
  open LLM call of the assignee carries reasoning, and the tool shown is an open tool call of the assignee that
  starts last, or none when the assignee has no open tool call.
\<close>

theorem current_task_live:
  assumes "ss_spans st = foldl span_step emptyIndex ops" and "list_all (\<lambda>s. 0 \<le> sp_startMs s) (si_all (ss_spans st))"
    and "getCurrentTask st = Some c" and "tk_status (ct_task c) = TS_RUNNING" and "tk_assigneeAgentId (ct_task c) \<noteq> ''''"
  defines "a \<equiv> tk_assigneeAgentId (ct_task c)"
  shows "ct_isThinking c = list_ex (\<lambda>s. open_span a LLM_CALL s \<and> hasThinking s) (si_all (ss_spans st)) \<and>
     (case ct_inFlightTool c of
        None \<Rightarrow> \<not> list_ex (open_span a TOOL_CALL) (si_all (ss_spans st))
      | Some (n, t) \<Rightarrow>
          list_ex (\<lambda>s. open_span a TOOL_CALL s \<and> sp_name s = n \<and> sp_startMs s = t) (si_all (ss_spans st)) \<and>
          list_all (\<lambda>s. sp_startMs s \<le> t) (filter (open_span a TOOL_CALL) (si_all (ss_spans st))))"
proof -
  define q where "q = si_queryAgent (ss_spans st) a 0 Beyond []"
  have q: "set q = {s \<in> set (si_all (ss_spans st)). sp_agentId s = a}"
    unfolding q_def by (rule query_all [OF assms(1,2)])
  have "(ct_inFlightTool c, ct_isThinking c) = foldl scan_span (None, False) q"
    unfolding q_def a_def by (rule current_task_live_data [OF assms(3-5)])
  then have live: "ct_inFlightTool c = fst (foldl scan_span (None, False) q)" "ct_isThinking c = snd (foldl scan_span (None, False) q)"
    by (metis fst_conv, metis snd_conv)
  have think: "ct_isThinking c = list_ex (\<lambda>s. open_span a LLM_CALL s \<and> hasThinking s) (si_all (ss_spans st))"
    unfolding live(2) scan_span_run list_ex_iff q open_span_def by auto
  have tools: "set (filter (\<lambda>s. sp_endMs s = None \<and> sp_kind s = TOOL_CALL) q) =
      {s \<in> set (si_all (ss_spans st)). open_span a TOOL_CALL s}"
    by (auto simp: q open_span_def)
  then have none: "filter (\<lambda>s. sp_endMs s = None \<and> sp_kind s = TOOL_CALL) q = [] \<longleftrightarrow>
      \<not> list_ex (open_span a TOOL_CALL) (si_all (ss_spans st))"
    unfolding set_empty [symmetric] by (auto simp: list_ex_iff)
  have "tool_ok q (ct_inFlightTool c)" unfolding live(1) by (rule scan_span_tool)
  then show ?thesis
    using think none tools by (auto simp: tool_ok_def Let_def list_ex_iff list_all_iff split: option.splits)
qed

definition demoStore :: session_store where
  "demoStore = emptyStore\<lparr>
     ss_tasks := tr_upsertPlan emptyTasks (demoPlan ''p'' 0 '''' [(demoTask ''t'' ''T'')\<lparr>tk_status := TS_RUNNING\<rparr>]) 0,
     ss_spans := foldl span_step emptyIndex
       [SpAppend ((demoSpan ''x'' 50 None)\<lparr>sp_agentId := ''c:w'', sp_kind := TOOL_CALL, sp_name := ''search''\<rparr>)]\<rparr>"

theorem current_task_live_witness:
  "map_option (\<lambda>c. (ct_isThinking c, ct_inFlightTool c)) (getCurrentTask demoStore) = Some (False, Some (''search'', 50)) \<and>
   list_ex (\<lambda>s. open_span ''c:w'' TOOL_CALL s \<and> sp_name s = ''search'' \<and> sp_startMs s = 50) (si_all (ss_spans demoStore))"
proof -
  obtain c where c: "getCurrentTask demoStore = Some c" "tk_status (ct_task c) = TS_RUNNING"
    "tk_assigneeAgentId (ct_task c) = ''c:w''" "ct_inFlightTool c = Some (''search'', 50)" "ct_isThinking c = False"
  proof -
    have "map_option (\<lambda>c. (tk_status (ct_task c), tk_assigneeAgentId (ct_task c), ct_inFlightTool c, ct_isThinking c))
        (getCurrentTask demoStore) = Some (TS_RUNNING, ''c:w'', Some (''search'', 50), False)"
      by code_simp
    with that show thesis by auto
  qed
  have nonneg: "list_all (\<lambda>s. 0 \<le> sp_startMs s) (si_all (ss_spans demoStore))" by code_simp
  have run: "ss_spans demoStore = foldl span_step emptyIndex
      [SpAppend ((demoSpan ''x'' 50 None)\<lparr>sp_agentId := ''c:w'', sp_kind := TOOL_CALL, sp_name := ''search''\<rparr>)]"
    by (simp add: demoStore_def)
  have "list_ex (\<lambda>s. open_span ''c:w'' TOOL_CALL s \<and> sp_name s = ''search'' \<and> sp_startMs s = 50) (si_all (ss_spans demoStore))"
    using current_task_live [OF run nonneg c(1,2), unfolded c(3,4)] by simp
  with c show ?thesis by simp
qed

section \<open>Merging the orchestrator rows\<close>

definition GOLDFIVE_ACTOR_ID :: string where
  "GOLDFIVE_ACTOR_ID = ''__goldfive__''"

lemma find_map_first:
  "find P (map f xs) = map_option f (find (P \<circ> f) xs)"
  by (induction xs) auto

lemma find_remove1: "\<not> P x \<Longrightarrow> find P (remove1 x xs) = find P xs"
  by (induction xs) auto

lemma ar_remove_some:
  assumes ok: "agents_ok r" and l: "map_of (ar_byId r) l \<noteq> None"
  shows "find (is_compound l) (ar_list (ar_remove r l)) = find (is_compound l) (ar_list r)"
    and "ar_get (ar_remove r l) l = None"
proof -
  obtain a where a: "map_of (ar_byId r) l = Some a" using l by auto
  have "agents_ok (ar_remove r l)" by (rule agents_ok_remove [OF ok])
  then have l': "ar_list (ar_remove r l) = map (\<lambda>k. the (map_of (AList.delete l (ar_byId r)) k)) (remove1 l (ar_agents r))"
    by (simp add: ar_list_eq) (simp add: ar_remove_def a ar_emit_def)
  have d: "distinct (ar_agents r)" using ok by (simp add: agents_ok_def)
  have "ar_list (ar_remove r l) = map (\<lambda>k. the (map_of (ar_byId r) k)) (remove1 l (ar_agents r))"
    unfolding l' using d by (intro map_cong refl) auto
  moreover have "\<not> is_compound l (the (map_of (ar_byId r) l))"
    using ok a by (simp add: is_compound_def agents_ok_def)
  ultimately show "find (is_compound l) (ar_list (ar_remove r l)) = find (is_compound l) (ar_list r)"
    by (simp add: ar_list_eq [OF ok] find_map_first find_remove1)
  show "ar_get (ar_remove r l) l = None" by (simp add: ar_remove_def a ar_emit_def ar_get_def)
qed

text \<open>C40: Merging the legacy orchestrator row into the compound one returns the id that later spans resolve to; when
  both rows exist it removes the legacy row and hands all its spans, and no others, to the compound row; otherwise
  it changes nothing; and a second merge changes nothing and returns the same id.
\<close>

theorem merge_goldfive_alias:
  "let st = st0\<lparr>ss_agents := foldl agent_step emptyAgents aops, ss_spans := foldl span_step emptyIndex sops\<rparr>;
       g = GOLDFIVE_ACTOR_ID; st' = fst (mergeGoldfiveAlias st g); c = snd (mergeGoldfiveAlias st g)
   in c = resolveGoldfiveActorId st g \<and> mergeGoldfiveAlias st' g = (st', c) \<and>
      (if c \<noteq> g \<and> ar_get (ss_agents st) g \<noteq> None
       then ar_get (ss_agents st') g = None \<and> ar_get (ss_agents st') c = ar_get (ss_agents st) c \<and>
            si_all (ss_spans st') = map (\<lambda>s. if sp_agentId s = g then s\<lparr>sp_agentId := c\<rparr> else s) (si_all (ss_spans st))
       else st' = st)"
proof -
  let ?ar = "foldl agent_step emptyAgents aops" and ?ix = "foldl span_step emptyIndex sops" and ?g = GOLDFIVE_ACTOR_ID
  let ?st = "st0\<lparr>ss_agents := ?ar, ss_spans := ?ix\<rparr>"
  have ok: "agents_ok ?ar" by (intro agents_ok_run agents_ok_empty)
  have g: "?g \<noteq> ''''" by (simp add: GOLDFIVE_ACTOR_ID_def)
  show ?thesis
  proof (cases "find (is_compound ?g) (ar_list ?ar)")
    case None
    then show ?thesis by (simp add: Let_def mergeGoldfiveAlias_def resolveGoldfiveActorId_def)
  next
    case (Some a)
    then have a: "is_compound ?g a" by (auto simp: find_Some_iff)
    then have ne: "ag_id a \<noteq> ''''" "ag_id a \<noteq> ?g" by (auto simp: is_compound_def ends_with_def)
    show ?thesis
    proof (cases "ar_get ?ar ?g")
      case none: None
      then show ?thesis using Some ne by (simp add: Let_def mergeGoldfiveAlias_def resolveGoldfiveActorId_def)
    next
      case row: (Some b)
      then have has: "map_of (ar_byId ?ar) ?g \<noteq> None" by (simp add: ar_get_def)
      have merged: "mergeGoldfiveAlias ?st ?g =
          (?st\<lparr>ss_spans := si_reassignAgent ?ix ?g (ag_id a), ss_agents := ar_remove ?ar ?g\<rparr>, ag_id a)"
        using Some ne row by (simp add: mergeGoldfiveAlias_def Let_def)
      have again: "mergeGoldfiveAlias (?st\<lparr>ss_spans := si_reassignAgent ?ix ?g (ag_id a), ss_agents := ar_remove ?ar ?g\<rparr>) ?g =
          (?st\<lparr>ss_spans := si_reassignAgent ?ix ?g (ag_id a), ss_agents := ar_remove ?ar ?g\<rparr>, ag_id a)"
        using ar_remove_some [OF ok has] Some ne by (simp add: mergeGoldfiveAlias_def Let_def)
      have "si_all (si_reassignAgent ?ix ?g (ag_id a)) =
          map (\<lambda>s. if sp_agentId s = ?g then s\<lparr>sp_agentId := ag_id a\<rparr> else s) (si_all ?ix)"
        using reassign_moves [of ?g "ag_id a" sops] g ne by simp
      moreover have "ar_get (ar_remove ?ar ?g) (ag_id a) = ar_get ?ar (ag_id a)"
        using ne(2) by (simp add: ar_remove_def ar_get_def ar_emit_def split: option.split)
      ultimately show ?thesis
        using merged again ar_remove_some(2) [OF ok has] Some row ne(2)
        by (simp add: Let_def resolveGoldfiveActorId_def)
    qed
  qed
qed

section \<open>Orchestration events\<close>

lemma sorted_neg_key: "sorted (map f (sort_key f xs))"
  by (rule sorted_sort_key_map)

lemma length_events:
  "length (concat (map (event_of jp) ss)) =
     length (filter (\<lambda>s. sp_kind s = TOOL_CALL \<and> object_get TOOL_KIND_MAP (sp_name s) \<noteq> Missing) ss)"
  by (induction ss) (auto simp: event_of_def Let_def)

lemma events_spans:
  "e \<in> set (concat (map (event_of jp) ss)) \<Longrightarrow>
   \<exists>s\<in>set ss. sp_kind s = TOOL_CALL \<and> oe_spanId e = sp_id s \<and> oe_kind e = object_get TOOL_KIND_MAP (sp_name s) \<and> oe_kind e \<noteq> Missing"
  by (auto simp: event_of_def Let_def split: if_splits)

text \<open>
  The orchestration timeline is newest first, holds one event per tool call whose name the tool table knows, up to
  the limit, and every event comes from such a span of the index.
\<close>

theorem orchestration_events_newest_first:
  "let es = listOrchestrationEvents jp st limit;
       known = filter (\<lambda>s. sp_kind s = TOOL_CALL \<and> object_get TOOL_KIND_MAP (sp_name s) \<noteq> Missing) (si_all (ss_spans st))
   in sorted (map (\<lambda>e. - oe_startMs e) es) \<and> length es = min limit (length known) \<and>
      oe_spanId ` set es \<subseteq> sp_id ` set known"
proof -
  let ?all = "sort_key (\<lambda>e. - oe_startMs e) (concat (map (event_of jp) (si_all (ss_spans st))))"
  have es: "listOrchestrationEvents jp st limit = take limit ?all"
    by (simp add: listOrchestrationEvents_def Let_def)
  have "sorted (map (\<lambda>e. - oe_startMs e) (take limit ?all))"
    using sorted_wrt_take [OF sorted_sort_key_map, of limit "\<lambda>e. - oe_startMs e"] by (simp add: take_map)
  moreover have "oe_spanId e \<in> sp_id ` set (filter (\<lambda>s. sp_kind s = TOOL_CALL \<and>
      object_get TOOL_KIND_MAP (sp_name s) \<noteq> Missing) (si_all (ss_spans st)))" if "e \<in> set (take limit ?all)" for e
  proof -
    have "e \<in> set (concat (map (event_of jp) (si_all (ss_spans st))))"
      using in_set_takeD [OF that] by (simp only: set_sort_key)
    then show ?thesis using events_spans by fastforce
  qed
  moreover have "length (take limit ?all) = min limit (length (filter (\<lambda>s. sp_kind s = TOOL_CALL \<and>
      object_get TOOL_KIND_MAP (sp_name s) \<noteq> Missing) (si_all (ss_spans st))))"
    using length_events [of jp "si_all (ss_spans st)"] by (simp add: min.commute)
  ultimately show ?thesis unfolding Let_def es by blast
qed

text \<open>
  The table of reporting tools is indexed without an own-property test, so a tool call named like an inherited
  property of every object is listed as an orchestration event, with a kind that is none of the seven.
\<close>

theorem inherited_name_is_listed:
  "let st = emptyStore\<lparr>ss_spans := si_append emptyIndex ((demoSpan ''x'' 50 None)\<lparr>sp_kind := TOOL_CALL, sp_name := ''constructor''\<rparr>)\<rparr>
   in ''constructor'' \<notin> set ORCHESTRATION_TOOL_NAMES \<and>
      map oe_kind (listOrchestrationEvents jp st 200) = [Inherited ''constructor'']"
  by (simp add: Let_def emptyStore_def si_append_def si_insert_def emptyIndex_def demoSpan_def listOrchestrationEvents_def
      si_all_def si_emit_def event_of_def object_get_def TOOL_KIND_MAP_def object_prototype_keys_def
      ORCHESTRATION_TOOL_NAMES_def attr_get_def)

end
