(* ===== verification/Stores.thy ===== *)
theory Stores
  imports GanttTypes
begin

text \<open>
  The client-side stores of \<open>frontend/src/state\<close>: the annotations of a session (\<open>annotationStore.ts\<close>), and the
  pending approvals (\<open>approvalsStore.ts\<close>). Both keep, per session,
  an array of rows with one row per key, sorted by a time; the locale \<open>keyed_rows\<close> states that contract once.
  A store is the immutable snapshot that zustand hands from one \<open>set\<close> to the next.
\<close>

section \<open>Rows with one row per key\<close>

fun replace_first :: "('a \<Rightarrow> bool) \<Rightarrow> ('a \<Rightarrow> 'a) \<Rightarrow> 'a list \<Rightarrow> 'a list" where
  \<comment> \<open>\<open>const i = arr.findIndex(p); arr[i] = f(arr[i])\<close>\<close>
  "replace_first p f [] = []"
| "replace_first p f (x # xs) = (if p x then f x # xs else x # replace_first p f xs)"

definition put_row :: "('r \<Rightarrow> 'k) \<Rightarrow> ('r \<Rightarrow> int) \<Rightarrow> ('r \<Rightarrow> 'r \<Rightarrow> 'r) \<Rightarrow> 'r \<Rightarrow> 'r list \<Rightarrow> 'r list" where
  "put_row key tm merge e arr =
     sort_key tm (if list_ex (\<lambda>x. key x = key e) arr then replace_first (\<lambda>x. key x = key e) (\<lambda>x. merge x e) arr
                  else arr @ [e])"

definition row_of :: "('r \<Rightarrow> 'k) \<Rightarrow> 'r list \<Rightarrow> 'k \<Rightarrow> 'r option" where
  "row_of key arr k = find (\<lambda>x. key x = k) arr"

definition rows_ok :: "('r \<Rightarrow> 'k) \<Rightarrow> ('r \<Rightarrow> int) \<Rightarrow> 'r list \<Rightarrow> bool" where
  "rows_ok key tm arr = (distinct (map key arr) \<and> sorted (map tm arr))"

lemma row_of_SomeD: "row_of key arr k = Some r \<Longrightarrow> r \<in> set arr \<and> key r = k"
  by (auto simp: row_of_def find_Some_iff)

lemma row_of_None_iff: "row_of key arr k = None \<longleftrightarrow> k \<notin> key ` set arr"
  by (auto simp: row_of_def find_None_iff)

lemma row_of_SomeI: "distinct (map key arr) \<Longrightarrow> r \<in> set arr \<Longrightarrow> row_of key arr (key r) = Some r"
  by (induction arr) (auto simp: row_of_def)

lemma row_of_Some_iff: "distinct (map key arr) \<Longrightarrow> row_of key arr k = Some r \<longleftrightarrow> r \<in> set arr \<and> key r = k"
  by (metis row_of_SomeD row_of_SomeI)

lemma row_of_sort:
  assumes "distinct (map key arr)"
  shows "row_of key (sort_key tm arr) k = row_of key arr k"
proof -
  have "distinct (map key (sort_key tm arr))"
    using assms by (simp add: distinct_map)
  then have "row_of key (sort_key tm arr) k = Some r \<longleftrightarrow> row_of key arr k = Some r" for r
    using assms by (simp add: row_of_Some_iff)
  then show ?thesis by (simp add: option_eq_all)
qed

lemma row_of_append: "row_of key (xs @ ys) k = (case row_of key xs k of None \<Rightarrow> row_of key ys k | Some r \<Rightarrow> Some r)"
  by (simp add: row_of_def find_append split: option.split)

lemma keys_replace_first:
  assumes "\<And>x. p x \<Longrightarrow> key (f x) = key x"
  shows "map key (replace_first p f xs) = map key xs"
  using assms by (induction xs) auto

lemma row_of_replace_first:
  assumes "\<And>x. key x = k \<Longrightarrow> key (f x) = k"
  shows "row_of key (replace_first (\<lambda>x. key x = k) f xs) k' =
         (if k' = k then map_option f (row_of key xs k) else row_of key xs k')"
  using assms by (induction xs) (auto simp: row_of_def)

lemma row_of_filter: "row_of key (filter (\<lambda>x. key x \<noteq> k) xs) k' = (if k' = k then None else row_of key xs k')"
  by (induction xs) (auto simp: row_of_def)

lemma row_of_map:
  assumes "\<And>x. key (f x) = key x"
  shows "row_of key (map (\<lambda>x. if key x = k then f x else x) xs) k' =
         (if k' = k then map_option f (row_of key xs k') else row_of key xs k')"
  using assms by (induction xs) (auto simp: row_of_def)

locale keyed_rows =
  fixes key :: "'r \<Rightarrow> 'k" and tm :: "'r \<Rightarrow> int" and merge :: "'r \<Rightarrow> 'r \<Rightarrow> 'r"
  assumes key_merge: "key old = key new \<Longrightarrow> key (merge old new) = key new"
begin

lemma rows_ok_put: "rows_ok key tm arr \<Longrightarrow> rows_ok key tm (put_row key tm merge e arr)"
proof -
  assume ok: "rows_ok key tm arr"
  let ?hit = "list_ex (\<lambda>x. key x = key e) arr"
  let ?arr = "if ?hit then replace_first (\<lambda>x. key x = key e) (\<lambda>x. merge x e) arr else arr @ [e]"
  have "map key (replace_first (\<lambda>x. key x = key e) (\<lambda>x. merge x e) arr) = map key arr"
    by (rule keys_replace_first) (simp add: key_merge)
  then have "distinct (map key ?arr)"
    using ok by (auto simp: rows_ok_def list_ex_iff)
  then show ?thesis by (simp add: rows_ok_def put_row_def distinct_map)
qed

lemma row_of_put:
  assumes "rows_ok key tm arr"
  shows "row_of key (put_row key tm merge e arr) k =
         (if k = key e then Some (case row_of key arr k of None \<Rightarrow> e | Some old \<Rightarrow> merge old e) else row_of key arr k)"
proof -
  have d: "distinct (map key arr)" using assms by (simp add: rows_ok_def)
  show ?thesis
  proof (cases "list_ex (\<lambda>x. key x = key e) arr")
    case True
    then obtain old where old: "row_of key arr (key e) = Some old"
      by (metis list_ex_image row_of_None_iff option.exhaust)
    have "distinct (map key (replace_first (\<lambda>x. key x = key e) (\<lambda>x. merge x e) arr))"
      using d by (subst keys_replace_first) (simp_all add: key_merge)
    with True old show ?thesis
      by (simp add: put_row_def row_of_sort row_of_replace_first key_merge)
  next
    case False
    then have none: "row_of key arr (key e) = None"
      by (simp add: row_of_None_iff list_ex_image)
    then have "distinct (map key (arr @ [e]))" using d by (auto simp: row_of_None_iff)
    with False none show ?thesis
      by (simp add: put_row_def row_of_sort row_of_append) (auto simp: row_of_def split: option.split)
  qed
qed

end

section \<open>Pending approvals\<close>

record pending_approval =
  pa_sessionId :: string
  pa_targetId :: string
  pa_kind :: string
  pa_prompt :: string
  pa_taskId :: string
  pa_metadata :: "(string, string) jsmap"
  pa_requestedAtMs :: int
  pa_agentId :: string
  pa_spanId :: string

interpretation ap: keyed_rows pa_targetId pa_requestedAtMs "\<lambda>old e. e"
  by unfold_locales simp

type_synonym approvals_state = "(string, pending_approval list) jsmap"

definition approvals_list :: "approvals_state \<Rightarrow> string option \<Rightarrow> pending_approval list" where
  "approvals_list st sessionId =
     (case sessionId of
        None \<Rightarrow> []
      | Some sid \<Rightarrow> if sid = '''' then [] else case map_of st sid of None \<Rightarrow> [] | Some arr \<Rightarrow> arr)"

definition approvals_request :: "approvals_state \<Rightarrow> pending_approval \<Rightarrow> approvals_state" where
  "approvals_request st entry =
     (let arr = (case map_of st (pa_sessionId entry) of None \<Rightarrow> [] | Some arr \<Rightarrow> arr)
      in AList.update (pa_sessionId entry) (put_row pa_targetId pa_requestedAtMs (\<lambda>old e. e) entry arr) st)"

definition approvals_resolve :: "approvals_state \<Rightarrow> string \<Rightarrow> string \<Rightarrow> approvals_state" where
  "approvals_resolve st sessionId targetId =
     (case map_of st sessionId of
        None \<Rightarrow> st
      | Some arr \<Rightarrow>
          let filtered = filter (\<lambda>a. pa_targetId a \<noteq> targetId) arr
          in if length filtered = length arr then st else AList.update sessionId filtered st)"

definition approvals_clear :: "approvals_state \<Rightarrow> string \<Rightarrow> approvals_state" where
  "approvals_clear st sessionId = (if \<not> map_has st sessionId then st else AList.delete sessionId st)"

datatype approval_op = ApRequest pending_approval | ApResolve string string | ApClear string

fun approval_step :: "approvals_state \<Rightarrow> approval_op \<Rightarrow> approvals_state" where
  "approval_step st (ApRequest e) = approvals_request st e"
| "approval_step st (ApResolve s t) = approvals_resolve st s t"
| "approval_step st (ApClear s) = approvals_clear st s"

text \<open>What the store promises: a partial map from session and target to the request that is waiting.\<close>

fun approval_spec :: "(string \<times> string \<Rightarrow> pending_approval option) \<Rightarrow> approval_op \<Rightarrow> (string \<times> string \<Rightarrow> pending_approval option)" where
  "approval_spec m (ApRequest e) = m((pa_sessionId e, pa_targetId e) \<mapsto> e)"
| "approval_spec m (ApResolve s t) = m((s, t) := None)"
| "approval_spec m (ApClear s) = (\<lambda>(s', t). if s' = s then None else m (s', t))"

definition rows_in :: "(string, 'r list) jsmap \<Rightarrow> string \<Rightarrow> 'r list" where
  "rows_in st sid = (case map_of st sid of None \<Rightarrow> [] | Some arr \<Rightarrow> arr)"

lemma rows_in_update [simp]: "rows_in (AList.update s arr st) s' = (if s' = s then arr else rows_in st s')"
  by (simp add: rows_in_def)

lemma rows_in_delete [simp]: "rows_in (AList.delete s st) s' = (if s' = s then [] else rows_in st s')"
  by (simp add: rows_in_def)

lemma rows_in_Nil [simp]: "rows_in [] s = []"
  by (simp add: rows_in_def)

definition pending_map :: "approvals_state \<Rightarrow> string \<times> string \<Rightarrow> pending_approval option" where
  "pending_map st = (\<lambda>(s, t). row_of pa_targetId (rows_in st s) t)"

definition approvals_ok :: "approvals_state \<Rightarrow> bool" where
  "approvals_ok st = (\<forall>s. rows_ok pa_targetId pa_requestedAtMs (rows_in st s))"

lemma rows_ok_Nil [simp]: "rows_ok key tm []"
  by (simp add: rows_ok_def)

lemma rows_ok_filter: "rows_ok key tm arr \<Longrightarrow> rows_ok key tm (filter p arr)"
  by (auto simp: rows_ok_def distinct_map_filter sorted_filter)

lemma filter_same_length: "length (filter p xs) = length xs \<Longrightarrow> filter p xs = xs"
proof (induction xs)
  case (Cons x xs)
  then show ?case using length_filter_le [of p xs] by (cases "p x") simp_all
qed simp

lemma rows_in_request:
  "rows_in (approvals_request st e) s =
     (if s = pa_sessionId e then put_row pa_targetId pa_requestedAtMs (\<lambda>old e. e) e (rows_in st s) else rows_in st s)"
  by (simp add: approvals_request_def Let_def) (simp add: rows_in_def)

lemma rows_in_resolve:
  "rows_in (approvals_resolve st s t) s' = (if s' = s then filter (\<lambda>a. pa_targetId a \<noteq> t) (rows_in st s) else rows_in st s')"
proof (cases "map_of st s")
  case None
  then show ?thesis by (simp add: approvals_resolve_def) (simp add: rows_in_def)
next
  case (Some arr)
  then have arr: "rows_in st s = arr" by (simp add: rows_in_def)
  show ?thesis
  proof (cases "length (filter (\<lambda>a. pa_targetId a \<noteq> t) arr) = length arr")
    case True
    then have "filter (\<lambda>a. pa_targetId a \<noteq> t) arr = arr" by (rule filter_same_length)
    with Some True arr show ?thesis by (simp add: approvals_resolve_def)
  next
    case False
    with Some arr show ?thesis by (simp add: approvals_resolve_def Let_def)
  qed
qed

lemma rows_in_clear: "rows_in (approvals_clear st s) s' = (if s' = s then [] else rows_in st s')"
  by (auto simp: approvals_clear_def map_has_def rows_in_def)

lemma approval_step_ok: "approvals_ok st \<Longrightarrow> approvals_ok (approval_step st cmd)"
  by (cases cmd) (auto simp: approvals_ok_def rows_in_request rows_in_resolve rows_in_clear ap.rows_ok_put rows_ok_filter)

lemma approval_step_refines:
  assumes "approvals_ok st"
  shows "pending_map (approval_step st cmd) = approval_spec (pending_map st) cmd"
proof (cases cmd)
  case (ApRequest e)
  have ok: "rows_ok pa_targetId pa_requestedAtMs (rows_in st (pa_sessionId e))" using assms by (simp add: approvals_ok_def)
  show ?thesis
  proof (rule ext, clarify)
    fix s t
    show "pending_map (approval_step st cmd) (s, t) = approval_spec (pending_map st) cmd (s, t)"
      by (simp add: ApRequest pending_map_def rows_in_request ap.row_of_put [OF ok] split: option.split)
  qed
next
  case (ApResolve s t)
  then show ?thesis by (auto simp: pending_map_def rows_in_resolve row_of_filter)
next
  case (ApClear s)
  then show ?thesis by (auto simp: pending_map_def rows_in_clear row_of_def)
qed

text \<open>C5: The approvals store refines its contract: after any sequence of requests, resolutions and clears, the queue
  of a session has the last unresolved request of every target and nothing else, one row per target, oldest request
  first.\<close>

theorem approvals_refine_pending:
  "pending_map (foldl approval_step [] ops) = foldl approval_spec Map.empty ops \<and>
   (\<forall>s. distinct (map pa_targetId (rows_in (foldl approval_step [] ops) s)) \<and>
        sorted (map pa_requestedAtMs (rows_in (foldl approval_step [] ops) s)))"
proof -
  have "approvals_ok (foldl approval_step [] ops) \<and>
    pending_map (foldl approval_step [] ops) = foldl approval_spec Map.empty ops"
  proof (induction ops rule: rev_induct)
    case Nil
    show ?case by (simp add: approvals_ok_def) (auto simp: pending_map_def row_of_def)
  next
    case (snoc cmd ops)
    then show ?case by (simp add: approval_step_ok approval_step_refines)
  qed
  then show ?thesis by (simp add: approvals_ok_def rows_ok_def)
qed

section \<open>Annotations\<close>

datatype annotation_kind = AN_COMMENT | AN_STEERING | AN_HUMAN_RESPONSE

record annotation =
  an_id :: string
  an_sessionId :: string
  an_spanId :: "string option"
  an_agentId :: "string option"
  an_atMs :: int
  an_rangeEndMs :: "int option option"  \<comment> \<open>\<open>None\<close>: the property is absent\<close>
  an_author :: string
  an_kind :: annotation_kind
  an_body :: string
  an_createdAtMs :: int
  an_deliveredAtMs :: "int option"
  an_pending :: bool
  an_error :: "string option"

definition spread_annotation :: "annotation \<Rightarrow> annotation \<Rightarrow> annotation" where
  \<comment> \<open>\<open>{ ...old, ...a }\<close>: only the optional property can survive\<close>
  "spread_annotation old a =
     a\<lparr>an_rangeEndMs := (case an_rangeEndMs a of None \<Rightarrow> an_rangeEndMs old | Some r \<Rightarrow> Some r)\<rparr>"

interpretation an: keyed_rows an_id an_atMs spread_annotation
  by unfold_locales (simp add: spread_annotation_def)

type_synonym annotation_state = "(string, annotation list) jsmap"

definition annotations_list :: "annotation_state \<Rightarrow> string \<Rightarrow> annotation list" where
  "annotations_list st sessionId = (case map_of st sessionId of None \<Rightarrow> [] | Some arr \<Rightarrow> arr)"

definition annotations_listForSpan :: "annotation_state \<Rightarrow> string \<Rightarrow> string \<Rightarrow> annotation list" where
  "annotations_listForSpan st sessionId spanId =
     filter (\<lambda>a. an_spanId a = Some spanId) (annotations_list st sessionId)"

definition annotations_upsert :: "annotation_state \<Rightarrow> annotation \<Rightarrow> annotation_state" where
  "annotations_upsert st a =
     AList.update (an_sessionId a)
       (put_row an_id an_atMs spread_annotation a (annotations_list st (an_sessionId a))) st"

definition annotations_remove :: "annotation_state \<Rightarrow> string \<Rightarrow> string \<Rightarrow> annotation_state" where
  "annotations_remove st sessionId i =
     AList.update sessionId (filter (\<lambda>a. an_id a \<noteq> i) (annotations_list st sessionId)) st"

definition annotations_markError :: "annotation_state \<Rightarrow> string \<Rightarrow> string \<Rightarrow> string \<Rightarrow> annotation_state" where
  "annotations_markError st sessionId i err =
     AList.update sessionId
       (map (\<lambda>a. if an_id a = i then a\<lparr>an_error := Some err, an_pending := False\<rparr> else a)
         (annotations_list st sessionId)) st"

definition annotations_markDelivered :: "annotation_state \<Rightarrow> string \<Rightarrow> string \<Rightarrow> int \<Rightarrow> annotation_state" where
  "annotations_markDelivered st sessionId i deliveredAtMs =
     AList.update sessionId
       (map (\<lambda>a. if an_id a = i then a\<lparr>an_deliveredAtMs := Some deliveredAtMs, an_pending := False\<rparr> else a)
         (annotations_list st sessionId)) st"

datatype annotation_op =
  AnUpsert annotation | AnRemove string string | AnError string string string | AnDelivered string string int

fun annotation_step :: "annotation_state \<Rightarrow> annotation_op \<Rightarrow> annotation_state" where
  "annotation_step st (AnUpsert a) = annotations_upsert st a"
| "annotation_step st (AnRemove s i) = annotations_remove st s i"
| "annotation_step st (AnError s i e) = annotations_markError st s i e"
| "annotation_step st (AnDelivered s i t) = annotations_markDelivered st s i t"

text \<open>The contract: a partial map from session and id to the annotation, merged field by field on a second upsert.\<close>

fun annotation_spec ::
  "(string \<times> string \<Rightarrow> annotation option) \<Rightarrow> annotation_op \<Rightarrow> (string \<times> string \<Rightarrow> annotation option)" where
  "annotation_spec m (AnUpsert a) =
     (let k = (an_sessionId a, an_id a)
      in m(k \<mapsto> case m k of None \<Rightarrow> a | Some old \<Rightarrow> spread_annotation old a))"
| "annotation_spec m (AnRemove s i) = m((s, i) := None)"
| "annotation_spec m (AnError s i e) =
     m((s, i) := map_option (\<lambda>a. a\<lparr>an_error := Some e, an_pending := False\<rparr>) (m (s, i)))"
| "annotation_spec m (AnDelivered s i t) =
     m((s, i) := map_option (\<lambda>a. a\<lparr>an_deliveredAtMs := Some t, an_pending := False\<rparr>) (m (s, i)))"

definition annotation_map :: "annotation_state \<Rightarrow> string \<times> string \<Rightarrow> annotation option" where
  "annotation_map st = (\<lambda>(s, i). row_of an_id (annotations_list st s) i)"

definition annotations_ok :: "annotation_state \<Rightarrow> bool" where
  "annotations_ok st = (\<forall>s. rows_ok an_id an_atMs (annotations_list st s))"

lemma annotations_list_update [simp]:
  "annotations_list (AList.update s arr st) s' = (if s' = s then arr else annotations_list st s')"
  by (simp add: annotations_list_def)

lemma rows_ok_map:
  assumes "\<And>x. key (f x) = key x" "\<And>x. tm (f x) = tm x" and "rows_ok key tm arr"
  shows "rows_ok key tm (map (\<lambda>x. if key x = k then f x else x) arr)"
proof -
  have "map key (map (\<lambda>x. if key x = k then f x else x) arr) = map key arr"
    "map tm (map (\<lambda>x. if key x = k then f x else x) arr) = map tm arr" using assms(1,2) by simp_all
  with assms(3) show ?thesis unfolding rows_ok_def by metis
qed

lemmas annotation_ops = annotations_upsert_def annotations_remove_def annotations_markError_def annotations_markDelivered_def

lemma annotation_step_ok: "annotations_ok st \<Longrightarrow> annotations_ok (annotation_step st cmd)"
  by (cases cmd) (simp_all add: annotations_ok_def annotation_ops an.rows_ok_put rows_ok_filter rows_ok_map)

lemma annotation_step_refines:
  assumes "annotations_ok st"
  shows "annotation_map (annotation_step st cmd) = annotation_spec (annotation_map st) cmd"
proof (rule ext, clarify)
  fix s i
  have ok: "rows_ok an_id an_atMs (annotations_list st s)" for s using assms by (simp add: annotations_ok_def)
  show "annotation_map (annotation_step st cmd) (s, i) = annotation_spec (annotation_map st) cmd (s, i)"
    by (cases cmd) (simp_all add: annotation_map_def annotation_ops an.row_of_put [OF ok] row_of_filter row_of_map Let_def)
qed

text \<open>C14: The annotation store refines its contract: after any sequence of operations the rows of a session are the
  annotations upserted and not removed, each with the fields of its last upsert (a range end given before survives an
  upsert without one) and the delivery or error marks set since, one row per id, sorted by time.\<close>

theorem annotations_refine_map:
  "annotation_map (foldl annotation_step [] ops) = foldl annotation_spec Map.empty ops \<and>
   (\<forall>s. distinct (map an_id (annotations_list (foldl annotation_step [] ops) s)) \<and>
        sorted (map an_atMs (annotations_list (foldl annotation_step [] ops) s)))"
proof -
  have "annotations_ok (foldl annotation_step [] ops) \<and>
    annotation_map (foldl annotation_step [] ops) = foldl annotation_spec Map.empty ops"
  proof (induction ops rule: rev_induct)
    case Nil
    show ?case by (simp add: annotations_ok_def annotations_list_def) (auto simp: annotation_map_def row_of_def annotations_list_def)
  next
    case (snoc cmd ops)
    then show ?case by (simp add: annotation_step_ok annotation_step_refines)
  qed
  then show ?thesis by (simp add: annotations_ok_def rows_ok_def)
qed

end
