(* ===== verification/Wire.thy ===== *)
theory Wire
  imports Stores
begin

text \<open>
  \<open>frontend/src/rpc/convert.ts\<close>: the seam between the protobuf messages and the types of the renderer. The wire messages
  are records with the fields the conversion reads; a oneof is a datatype with a constructor for the unset case; an enum
  is its wire number (proto3 enums are open, so a number outside the enum can arrive), and the lookup of a number in a
  TypeScript table is \<open>table_get\<close>, whose \<open>None\<close> is \<open>undefined\<close>. The entries of an \<open>attributes\<close> object come in
  the order in which \<open>Object.entries\<close> lists them.
\<close>

section \<open>Timestamps\<close>

record timestamp =
  ts_seconds :: int
  ts_nanos :: int

definition ts_ms :: "timestamp \<Rightarrow> int" where
  "ts_ms t = ts_seconds t * 1000 + ts_nanos t div 1000000"

definition tsToMs :: "timestamp option \<Rightarrow> int" where
  "tsToMs t = (case t of None \<Rightarrow> 0 | Some x \<Rightarrow> ts_ms x)"

definition ts_nanoseconds :: "timestamp \<Rightarrow> int" where
  "ts_nanoseconds t = ts_seconds t * 1000000000 + ts_nanos t"

lemma ts_ms_floor: "ts_ms t = ts_nanoseconds t div 1000000"
proof -
  have "ts_nanoseconds t = ts_seconds t * 1000 * 1000000 + ts_nanos t" by (simp add: ts_nanoseconds_def)
  then show ?thesis by (simp add: ts_ms_def div_mult_self1 add.commute)
qed

lemma ts_ms_mono: "ts_nanoseconds a \<le> ts_nanoseconds b \<Longrightarrow> ts_ms a \<le> ts_ms b"
  by (simp add: ts_ms_floor zdiv_mono1)

section \<open>Enum tables\<close>

definition table_get :: "(int \<times> 'a) list \<Rightarrow> int \<Rightarrow> 'a option" where
  "table_get t n = map_of t n"

definition get_or :: "'a option \<Rightarrow> 'a \<Rightarrow> 'a" where
  \<comment> \<open>\<open>x ?? d\<close>\<close>
  "get_or x d = (case x of None \<Rightarrow> d | Some v \<Rightarrow> v)"

definition SPAN_KIND :: "(int \<times> span_kind) list" where
  "SPAN_KIND = [(0, CUSTOM), (1, INVOCATION), (2, LLM_CALL), (3, TOOL_CALL), (4, USER_MESSAGE), (5, AGENT_MESSAGE),
     (6, TRANSFER), (7, WAIT_FOR_HUMAN), (8, PLANNED), (9, CUSTOM)]"

definition SPAN_STATUS :: "(int \<times> span_status) list" where
  "SPAN_STATUS = [(0, SP_PENDING), (1, SP_PENDING), (2, SP_RUNNING), (3, SP_COMPLETED), (4, SP_FAILED),
     (5, SP_CANCELLED), (6, SP_AWAITING_HUMAN)]"

definition FRAMEWORK :: "(int \<times> agent_framework) list" where
  "FRAMEWORK = [(0, FW_UNKNOWN), (1, FW_CUSTOM), (2, ADK)]"

definition AGENT_STATUS :: "(int \<times> agent_connection) list" where
  "AGENT_STATUS = [(0, DISCONNECTED), (1, CONNECTED), (2, DISCONNECTED), (3, CRASHED)]"

definition CAPABILITY :: "(int \<times> capability option) list" where
  \<comment> \<open>the inner \<open>None\<close> is \<open>null\<close>\<close>
  "CAPABILITY = [(0, None), (1, Some PAUSE_RESUME), (2, Some CANCEL), (3, Some REWIND), (4, Some STEERING),
     (5, Some HUMAN_IN_LOOP), (6, Some INTERCEPT_TRANSFER)]"

definition LINK_RELATION :: "(int \<times> link_relation) list" where
  "LINK_RELATION = [(0, FOLLOWS), (1, INVOKED), (2, WAITING_ON), (3, TRIGGERED_BY), (4, FOLLOWS), (5, REPLACES)]"

section \<open>Agents\<close>

record pb_agent =
  pba_id :: string
  pba_name :: string
  pba_framework :: int
  pba_capabilities :: "int list"
  pba_status :: int
  pba_connectedAt :: "timestamp option"
  pba_metadata :: "(string, string) jsmap"

definition convert_capabilities :: "int list \<Rightarrow> capability option list" where
  \<comment> \<open>\<open>.map((c) => CAPABILITY[c]).filter((c) => c !== null)\<close>: \<open>undefined\<close> is not \<open>null\<close> and stays\<close>
  "convert_capabilities cs =
     map (\<lambda>c. case c of None \<Rightarrow> None | Some v \<Rightarrow> v) (filter (\<lambda>c. c \<noteq> Some None) (map (table_get CAPABILITY) cs))"

definition convertAgent :: "pb_agent \<Rightarrow> agent" where
  "convertAgent a =
     \<lparr>ag_id = pba_id a, ag_name = pba_name a,
      ag_framework = get_or (table_get FRAMEWORK (pba_framework a)) FW_UNKNOWN,
      ag_capabilities = convert_capabilities (pba_capabilities a),
      ag_status = get_or (table_get AGENT_STATUS (pba_status a)) DISCONNECTED,
      ag_connectedAtMs = tsToMs (pba_connectedAt a),
      ag_currentActivity = '''', ag_stuck = False, ag_taskReport = '''', ag_taskReportAt = 0,
      ag_metadata = pba_metadata a\<rparr>"

section \<open>Spans\<close>

datatype pb_attribute =
  PbString string | PbInt int | PbDouble rat | PbBool bool | PbBytes "8 word list" | PbArray "pb_attribute list" | PbUnset

fun convertAttribute :: "pb_attribute \<Rightarrow> attribute_value" where
  "convertAttribute (PbString s) = AString s"
| "convertAttribute (PbInt i) = AInt i"
| "convertAttribute (PbDouble d) = ADouble d"
| "convertAttribute (PbBool b) = ABool b"
| "convertAttribute (PbBytes b) = ABytes b"
| "convertAttribute (PbArray vs) = AArray (map convertAttribute vs)"
| "convertAttribute PbUnset = AString ''''"

record pb_link =
  pbl_targetSpanId :: string
  pbl_targetAgentId :: string
  pbl_relation :: int

definition convertLink :: "pb_link \<Rightarrow> span_link" where
  "convertLink l = \<lparr>ln_targetSpanId = pbl_targetSpanId l, ln_targetAgentId = pbl_targetAgentId l,
     ln_relation = get_or (table_get LINK_RELATION (pbl_relation l)) FOLLOWS\<rparr>"

record pb_payload_ref =
  pbp_digest :: string
  pbp_size :: int
  pbp_mime :: string
  pbp_summary :: string
  pbp_role :: string
  pbp_evicted :: bool

definition convertPayloadRef :: "pb_payload_ref \<Rightarrow> payload_ref" where
  "convertPayloadRef p = \<lparr>pr_digest = pbp_digest p, pr_size = pbp_size p, pr_mime = pbp_mime p,
     pr_summary = pbp_summary p, pr_role = pbp_role p, pr_evicted = pbp_evicted p\<rparr>"

record pb_error =
  pbe_message :: string
  pbe_type :: string
  pbe_stack :: string

definition convertError :: "pb_error \<Rightarrow> error_info" where
  "convertError e = \<lparr>er_message = pbe_message e, er_type = pbe_type e, er_stack = pbe_stack e\<rparr>"

record pb_span =
  pbs_id :: string
  pbs_sessionId :: string
  pbs_agentId :: string
  pbs_parentSpanId :: string
  pbs_kind :: int
  pbs_status :: int
  pbs_name :: string
  pbs_startTime :: "timestamp option"
  pbs_endTime :: "timestamp option"
  pbs_attributes :: "(string, pb_attribute) jsmap"
  pbs_payloadRefs :: "pb_payload_ref list"
  pbs_links :: "pb_link list"
  pbs_error :: "pb_error option"

definition or_null :: "string \<Rightarrow> string option" where
  \<comment> \<open>\<open>s || null\<close>\<close>
  "or_null s = (if s = [] then None else Some s)"

definition convertSpan :: "pb_span \<Rightarrow> int \<Rightarrow> span" where
  "convertSpan s originStartMs =
     (let startAbs = tsToMs (pbs_startTime s);
          endAbs = (case pbs_endTime s of None \<Rightarrow> None | Some t \<Rightarrow> Some (ts_ms t));
          attributes = foldl (\<lambda>m (k, v). AList.update k (convertAttribute v) m) [] (pbs_attributes s)
      in \<lparr>sp_id = pbs_id s, sp_sessionId = pbs_sessionId s, sp_agentId = pbs_agentId s,
          sp_parentSpanId = or_null (pbs_parentSpanId s),
          sp_kind = get_or (table_get SPAN_KIND (pbs_kind s)) CUSTOM,
          sp_status = get_or (table_get SPAN_STATUS (pbs_status s)) SP_PENDING,
          sp_name = pbs_name s, sp_startMs = startAbs - originStartMs,
          sp_endMs = map_option (\<lambda>e. e - originStartMs) endAbs,
          sp_links = map convertLink (pbs_links s), sp_attributes = attributes,
          sp_payloadRefs = map convertPayloadRef (pbs_payloadRefs s),
          sp_error = map_option convertError (pbs_error s), sp_lane = -1, sp_replaced = False\<rparr>)"

section \<open>Annotations\<close>

datatype pb_target = TargetSpan string | TargetAgentTime string "timestamp option" | TargetUnset

record pb_annotation =
  pbn_id :: string
  pbn_sessionId :: string
  pbn_target :: "pb_target option"
  pbn_author :: string
  pbn_createdAt :: "timestamp option"
  pbn_kind :: int
  pbn_body :: string
  pbn_deliveredAt :: "timestamp option"

definition convertAnnotation :: "pb_annotation \<Rightarrow> int \<Rightarrow> int option \<Rightarrow> annotation" where
  "convertAnnotation a originStartMs spanStartMs =
     (let kind = (if pbn_kind a = 2 then AN_STEERING else if pbn_kind a = 3 then AN_HUMAN_RESPONSE else AN_COMMENT);
          (spanId, agentId, atMs) =
            (case pbn_target a of
               Some (TargetSpan s) \<Rightarrow> (Some s, None, get_or spanStartMs 0)
             | Some (TargetAgentTime ag t) \<Rightarrow>
                 (None, Some ag, case t of None \<Rightarrow> get_or spanStartMs 0 | Some x \<Rightarrow> ts_ms x - originStartMs)
             | _ \<Rightarrow> (None, None, get_or spanStartMs 0));
          createdAbs = tsToMs (pbn_createdAt a);
          createdAtMs = (if createdAbs \<noteq> 0 then createdAbs - originStartMs else 0);
          deliveredAtMs = map_option (\<lambda>t. ts_ms t - originStartMs) (pbn_deliveredAt a)
      in \<lparr>an_id = pbn_id a, an_sessionId = pbn_sessionId a, an_spanId = spanId, an_agentId = agentId, an_atMs = atMs,
          an_rangeEndMs = None, an_author = pbn_author a, an_kind = kind, an_body = pbn_body a,
          an_createdAtMs = createdAtMs, an_deliveredAtMs = deliveredAtMs, an_pending = False, an_error = None\<rparr>)"

section \<open>What the conversion keeps\<close>

lemma convert_attributes_lookup:
  assumes "map_ok as"
  shows "map_of (foldl (\<lambda>m (k, v). AList.update k (convertAttribute v) m) [] as) k = map_option convertAttribute (map_of as k)"
proof -
  have eq: "foldl (\<lambda>m (k, v). AList.update k (convertAttribute v) m) m as = js_spread m (map (\<lambda>(k, v). (k, convertAttribute v)) as)" for m
    unfolding js_spread_def by (induction as arbitrary: m) auto
  have "map fst (map (\<lambda>(k, v). (k, convertAttribute v)) as) = map fst as" by auto
  then have "map_ok (map (\<lambda>(k, v). (k, convertAttribute v)) as)" using assms by (simp only: map_ok_def)
  then show ?thesis by (simp add: eq map_of_spread map_of_map split: option.split)
qed

lemma sp_times_convert:
  "sp_startMs (convertSpan s org) = tsToMs (pbs_startTime s) - org"
  "sp_endMs (convertSpan s org) = map_option (\<lambda>t. ts_ms t - org) (pbs_endTime s)"
  "sp_attributes (convertSpan s org) = foldl (\<lambda>m (k, v). AList.update k (convertAttribute v) m) [] (pbs_attributes s)"
  by (simp_all add: convertSpan_def Let_def option.map_comp o_def split: option.split)

text \<open>A converted span keeps its times: its start and end are the wire times floored to whole milliseconds, both
  less the session start, so a span that ends no earlier than it starts still does, its length is off by less than a
  millisecond, two conversions against different origins differ by exactly the difference of the origins, and every
  wire attribute is found under its key.\<close>

theorem convertSpan_keeps_times:
  assumes t0: "pbs_startTime s = Some t0" and t1: "pbs_endTime s = Some t1"
    and order: "ts_nanoseconds t0 \<le> ts_nanoseconds t1" and keys: "map_ok (pbs_attributes s)"
  shows "(\<exists>e. sp_endMs (convertSpan s org) = Some e \<and> sp_startMs (convertSpan s org) \<le> e \<and>
            \<bar>(e - sp_startMs (convertSpan s org)) * 1000000 - (ts_nanoseconds t1 - ts_nanoseconds t0)\<bar> < 1000000) \<and>
         sp_startMs (convertSpan s org) + org = ts_nanoseconds t0 div 1000000 \<and>
         sp_startMs (convertSpan s org') = sp_startMs (convertSpan s org) + (org - org') \<and>
         sp_endMs (convertSpan s org') = map_option (\<lambda>e. e + (org - org')) (sp_endMs (convertSpan s org)) \<and>
         map_of (sp_attributes (convertSpan s org)) k = map_option convertAttribute (map_of (pbs_attributes s) k)"
proof -
  have "n div 1000000 * 1000000 \<le> n \<and> n < n div 1000000 * 1000000 + 1000000" for n :: int by presburger
  then have fl: "ts_ms t * 1000000 \<le> ts_nanoseconds t \<and> ts_nanoseconds t < ts_ms t * 1000000 + 1000000" for t
    by (simp only: ts_ms_floor)
  have mono: "ts_ms t0 \<le> ts_ms t1" using order by (rule ts_ms_mono)
  have one: "\<bar>(ts_ms t1 - ts_ms t0) * 1000000 - (ts_nanoseconds t1 - ts_nanoseconds t0)\<bar> < 1000000"
    using fl [of t0] fl [of t1] by arith
  show ?thesis
    using mono one by (simp add: sp_times_convert t0 t1 tsToMs_def ts_ms_floor [symmetric] convert_attributes_lookup [OF keys])
qed

definition demoPbSpan :: pb_span where
  "demoPbSpan = \<lparr>pbs_id = ''s'', pbs_sessionId = ''q'', pbs_agentId = ''a'', pbs_parentSpanId = [], pbs_kind = 3,
      pbs_status = 3, pbs_name = ''n'', pbs_startTime = Some \<lparr>ts_seconds = 12, ts_nanos = 999999999\<rparr>,
      pbs_endTime = Some \<lparr>ts_seconds = 13, ts_nanos = 0\<rparr>, pbs_attributes = [(''k'', PbUnset)], pbs_payloadRefs = [],
      pbs_links = [], pbs_error = None\<rparr>"

theorem convertSpan_keeps_times_witness:
  "sp_startMs (convertSpan demoPbSpan 10000) + 10000 = 12999"
proof -
  have t0: "pbs_startTime demoPbSpan = Some \<lparr>ts_seconds = 12, ts_nanos = 999999999\<rparr>"
    and t1: "pbs_endTime demoPbSpan = Some \<lparr>ts_seconds = 13, ts_nanos = 0\<rparr>" and ok: "map_ok (pbs_attributes demoPbSpan)"
    by (simp_all add: demoPbSpan_def map_ok_def)
  have order: "ts_nanoseconds \<lparr>ts_seconds = 12, ts_nanos = 999999999\<rparr> \<le> ts_nanoseconds \<lparr>ts_seconds = 13, ts_nanos = 0\<rparr>"
    by (simp add: ts_nanoseconds_def)
  from convertSpan_keeps_times [OF t0 t1 order ok, of 10000, THEN conjunct2, THEN conjunct1]
  show ?thesis by (simp add: ts_nanoseconds_def)
qed

lemma table_get_capability: "table_get CAPABILITY c = None \<longleftrightarrow> \<not> (0 \<le> c \<and> c \<le> 6)"
  by (auto simp: table_get_def CAPABILITY_def)

lemma table_get_capability_range: "table_get CAPABILITY c = Some v \<Longrightarrow> 0 \<le> c \<and> c \<le> 6"
  using table_get_capability [of c] by auto

text \<open>The filter that drops the unspecified capability lets the \<open>undefined\<close> of a number outside the enum through: the
  list of a converted agent holds one exactly when the wire carried such a number, and otherwise the capabilities named
  by the nonzero numbers, in order.\<close>

theorem unknown_capability_is_undefined:
  "(None \<in> set (ag_capabilities (convertAgent a)) \<longleftrightarrow> \<not> list_all (\<lambda>c. 0 \<le> c \<and> c \<le> 6) (pba_capabilities a)) \<and>
   length (ag_capabilities (convertAgent a)) = length (filter (\<lambda>c. c \<noteq> 0) (pba_capabilities a))"
proof -
  have null: "table_get CAPABILITY c = Some None \<longleftrightarrow> c = 0" for c
    by (auto simp: table_get_def CAPABILITY_def)
  have caps: "ag_capabilities (convertAgent a) = convert_capabilities (pba_capabilities a)" by (simp add: convertAgent_def)
  have "None \<in> set (convert_capabilities cs) \<longleftrightarrow> \<not> list_all (\<lambda>c. 0 \<le> c \<and> c \<le> 6) cs" for cs
    by (induction cs) (auto simp: convert_capabilities_def null table_get_capability dest: table_get_capability_range split: option.split)
  then have one: "None \<in> set (ag_capabilities (convertAgent a)) \<longleftrightarrow> \<not> list_all (\<lambda>c. 0 \<le> c \<and> c \<le> 6) (pba_capabilities a)"
    by (simp add: caps)
  have "length (convert_capabilities cs) = length (filter (\<lambda>c. c \<noteq> 0) cs)" for cs
    by (induction cs) (auto simp: convert_capabilities_def null)
  with one show ?thesis by (simp add: caps)
qed

end
