(* ===== verification/GoldfiveEvent.thy ===== *)
theory GoldfiveEvent
  imports Session Wire
begin

text \<open>
  \<open>frontend/src/rpc/goldfiveEvent.ts\<close>: the routing of a goldfive event envelope onto the stores of a session. The
  envelope's payload is a datatype with a constructor per case of the oneof the switch names; enum fields are wire
  numbers. \<open>now\<close> is the value of \<open>Date.now()\<close>. The functions write to the session store and to the global approvals
  store, so they take and return the pair \<open>gf_state\<close>.
\<close>

type_synonym gf_state = "session_store \<times> approvals_state"

section \<open>Enum names\<close>

definition DRIFT_KIND_NAMES :: "(int \<times> string) list" where
  "DRIFT_KIND_NAMES =
     [(0, ''UNSPECIFIED''), (1, ''TOOL_ERROR''), (2, ''AGENT_REFUSAL''), (3, ''NEW_WORK_DISCOVERED''), (4, ''PLAN_DIVERGENCE''),
      (5, ''USER_STEER''), (6, ''USER_CANCEL''), (7, ''TASK_FAILED_RECOVERABLE''), (8, ''TASK_FAILED_FATAL''),
      (9, ''CONTEXT_PRESSURE''), (10, ''BLOCKED''), (11, ''WRONG_AGENT''), (12, ''AGENT_TRANSFER''), (13, ''MODEL_REFUSAL''),
      (14, ''STOPPED_EARLY''), (15, ''TOO_MANY_STEPS''), (16, ''GOAL_UNREACHABLE''), (17, ''TASK_TIMEOUT''),
      (18, ''REPEATED_FAILURE''), (19, ''UNEXPECTED_OUTPUT''), (20, ''SCHEMA_VIOLATION''), (21, ''HALLUCINATION_SUSPECTED''),
      (22, ''SAFETY_CONCERN''), (23, ''RESOURCE_EXHAUSTED''), (24, ''AMBIGUOUS_INTENT''), (25, ''CUSTOM''),
      (26, ''LOOPING_TOOL_CALL''), (27, ''LOOPING_REASONING''), (29, ''OFF_TOPIC''), (30, ''INTENT_DIVERGENCE''),
      (31, ''UNCERTAIN_PROGRESS''), (32, ''SELF_REPORTED_STUCK''), (33, ''REASONING_CLUSTER_TIGHTENING''),
      (34, ''CONFABULATION_RISK''), (35, ''RUNAWAY_DELEGATION''), (36, ''REFINE_VALIDATION_FAILED''),
      (37, ''HUMAN_INTERVENTION_REQUIRED''), (38, ''GOAL_DRIFT''), (39, ''LLM_CALL_TIMEOUT''), (40, ''JUSTIFIED_DEVIATION''),
      (41, ''CAPABILITY_MISMATCH'')]"

definition DRIFT_SEVERITY_NAMES :: "(int \<times> string) list" where
  "DRIFT_SEVERITY_NAMES = [(0, ''UNSPECIFIED''), (1, ''INFO''), (2, ''WARNING''), (3, ''CRITICAL'')]"

definition DRIFT_LIFECYCLE_NAMES :: "(int \<times> string) list" where
  "DRIFT_LIFECYCLE_NAMES = [(0, ''UNSPECIFIED''), (1, ''OPENED''), (2, ''ESCALATING''), (3, ''RESOLVED''),
     (4, ''HUMAN_INTERVENTION_REQUIRED'')]"

definition enum_label :: "(int \<times> string) list \<Rightarrow> int \<Rightarrow> string" where
  "enum_label names n =
     (case table_get names n of
        None \<Rightarrow> ''''
      | Some nm \<Rightarrow> if nm = '''' \<or> nm = ''UNSPECIFIED'' then '''' else to_lower nm)"

definition driftKindToString :: "int \<Rightarrow> string" where
  "driftKindToString n = enum_label DRIFT_KIND_NAMES n"

definition driftSeverityToString :: "int \<Rightarrow> string" where
  "driftSeverityToString n = enum_label DRIFT_SEVERITY_NAMES n"

definition driftLifecycleToString :: "int \<Rightarrow> string" where
  "driftLifecycleToString n = enum_label DRIFT_LIFECYCLE_NAMES n"

definition TASK_STATUS_STRINGS :: "task_status list" where
  "TASK_STATUS_STRINGS = [TS_UNSPECIFIED, TS_PENDING, TS_RUNNING, TS_COMPLETED, TS_FAILED, TS_CANCELLED, TS_BLOCKED]"

definition taskStatusFromInt :: "int \<Rightarrow> task_status" where
  "taskStatusFromInt n =
     (if 0 \<le> n \<and> nat n < length TASK_STATUS_STRINGS then TASK_STATUS_STRINGS ! nat n else TS_UNSPECIFIED)"

definition tsToMsAbs :: "timestamp option \<Rightarrow> int" where
  "tsToMsAbs t = (case t of None \<Rightarrow> 0 | Some x \<Rightarrow> ts_seconds x * 1000 + ts_nanos x div 1000000)"

section \<open>Messages\<close>

record gf_task =
  gt_id :: string
  gt_title :: string
  gt_description :: string
  gt_assigneeAgentId :: string
  gt_status :: int
  gt_predictedStartMs :: int
  gt_predictedDurationMs :: int
  gt_boundSpanId :: string
  gt_supersedes :: string
  gt_discovered :: bool

record gf_plan =
  gp_id :: string
  gp_summary :: string
  gp_tasks :: "gf_task list"
  gp_edges :: "task_edge list"
  gp_createdAt :: "timestamp option"
  gp_revisionReason :: string
  gp_revisionKind :: int
  gp_revisionSeverity :: int
  gp_revisionIndex :: int
  gp_revisionTriggerEventId :: string

record gf_revised =
  gr_plan :: "gf_plan option"
  gr_driftKind :: int
  gr_severity :: int
  gr_reason :: string
  gr_revisionIndex :: int
  gr_targetAgentId :: string
  gr_refineInputSummary :: string
  gr_refineOutputSummary :: string

record gf_approval =
  gq_targetId :: string
  gq_kind :: string
  gq_prompt :: string
  gq_taskId :: string
  gq_metadata :: "(string, string) jsmap"

record gf_drift =
  gd_kind :: int
  gd_severity :: int
  gd_detail :: string
  gd_currentTaskId :: string
  gd_currentAgentId :: string
  gd_annotationId :: string
  gd_id :: string
  gd_conditionId :: string
  gd_lifecycle :: int
  gd_prevSeverity :: int
  gd_triggerInput :: string
  gd_authoredBy :: string

record gf_delegation =
  ge_fromAgent :: string
  ge_toAgent :: string
  ge_taskId :: string
  ge_invocationId :: string

record gf_cancelled =
  gc_invocationId :: string
  gc_agentName :: string
  gc_reason :: string
  gc_severity :: string
  gc_driftId :: string
  gc_driftKind :: string
  gc_detail :: string
  gc_toolName :: string

record gf_transition =
  gx_taskId :: string
  gx_fromStatus :: string
  gx_toStatus :: string
  gx_source :: string
  gx_revisionStamp :: int
  gx_agentName :: string
  gx_invocationId :: string

datatype gf_payload =
  PlanSubmitted "gf_plan option"
  | PlanRevised gf_revised
  | TaskStarted string
  | TaskCompleted string
  | TaskFailed string string
  | TaskBlocked string
  | TaskCancelled string string
  | ApprovalRequested gf_approval
  | ApprovalGranted string
  | ApprovalRejected string
  | DriftDetected gf_drift
  | RunStarted string string
  | TaskProgress | GoalDerived | RunCompleted | RunAborted | ConversationStarted | ConversationEnded
  | AgentInvocationStarted | AgentInvocationCompleted | ReasoningJudgeInvoked
  | DelegationObserved gf_delegation
  | InvocationCancelled gf_cancelled
  | TaskTransitioned gf_transition
  | OtherPayload
  | PayloadUnset

record gf_event =
  gv_eventId :: string
  gv_runId :: string
  gv_sequence :: int
  gv_emittedAt :: "timestamp option"
  gv_payload :: gf_payload

section \<open>Conversion of plans\<close>

definition convertGoldfiveTask :: "gf_task \<Rightarrow> task" where
  "convertGoldfiveTask t =
     \<lparr>tk_id = gt_id t, tk_title = gt_title t, tk_description = gt_description t,
      tk_assigneeAgentId = gt_assigneeAgentId t, tk_status = taskStatusFromInt (gt_status t),
      tk_predictedStartMs = gt_predictedStartMs t, tk_predictedDurationMs = gt_predictedDurationMs t,
      tk_boundSpanId = gt_boundSpanId t, tk_cancelReason = None, tk_supersedes = gt_supersedes t,
      tk_discovered = Some (gt_discovered t)\<rparr>"

definition convertGoldfivePlan :: "gf_plan \<Rightarrow> int \<Rightarrow> task_plan" where
  "convertGoldfivePlan p sessionStartMs =
     (let createdAbs = tsToMsAbs (gp_createdAt p) in
      \<lparr>tp_id = gp_id p, tp_invocationSpanId = '''', tp_plannerAgentId = '''',
       tp_createdAtMs = (if createdAbs \<noteq> 0 then createdAbs - sessionStartMs else 0),
       tp_summary = gp_summary p, tp_tasks = map convertGoldfiveTask (gp_tasks p), tp_edges = gp_edges p,
       tp_revisionReason = gp_revisionReason p, tp_revisionKind = Some (driftKindToString (gp_revisionKind p)),
       tp_revisionSeverity = Some (driftSeverityToString (gp_revisionSeverity p)),
       tp_revisionIndex = Some (gp_revisionIndex p), tp_triggerEventId = Some (gp_revisionTriggerEventId p)\<rparr>)"

section \<open>The synthetic actor rows\<close>

definition USER_ACTOR_ID :: string where
  "USER_ACTOR_ID = ''__user__''"

definition USER_DRIFT_KINDS :: "string list" where
  "USER_DRIFT_KINDS = [''user_steer'', ''user_cancel'', ''user_pause'']"

definition resolveActorId :: "session_store \<Rightarrow> string \<Rightarrow> string" where
  "resolveActorId st actorId =
     (if actorId \<noteq> GOLDFIVE_ACTOR_ID then actorId else resolveGoldfiveActorId st GOLDFIVE_ACTOR_ID)"

definition syntheticActor :: "string \<Rightarrow> string \<Rightarrow> agent" where
  "syntheticActor resolved actorId =
     \<lparr>ag_id = resolved, ag_name = (if actorId = USER_ACTOR_ID then ''user'' else ''goldfive''), ag_framework = FW_CUSTOM,
      ag_capabilities = [], ag_status = CONNECTED, ag_connectedAtMs = 1, ag_currentActivity = '''', ag_stuck = False,
      ag_taskReport = '''', ag_taskReportAt = 0, ag_metadata = [(''harmonograf.synthetic_actor'', ''1'')]\<rparr>"

definition ensureSyntheticActor :: "session_store \<Rightarrow> string \<Rightarrow> session_store \<times> string" where
  "ensureSyntheticActor st actorId =
     (let resolved = resolveActorId st actorId in
      if ar_get (ss_agents st) resolved \<noteq> None then (st, resolved)
      else let st1 = st\<lparr>ss_agents := ar_upsert (ss_agents st) (syntheticActor resolved actorId)\<rparr>;
               st2 = (if actorId = GOLDFIVE_ACTOR_ID then fst (mergeGoldfiveAlias st1 GOLDFIVE_ACTOR_ID) else st1)
           in (st2, resolved))"

section \<open>Synthesized spans\<close>

definition str_attr :: "string \<Rightarrow> string \<Rightarrow> string \<times> attribute_value" where
  "str_attr k v = (k, AString v)"

definition when_set :: "string \<Rightarrow> string \<Rightarrow> attributes" where
  \<comment> \<open>\<open>if (v) attributes[k] = { kind: 'string', value: v }\<close>\<close>
  "when_set k v = (if v = '''' then [] else [str_attr k v])"

definition marker_span :: "string \<Rightarrow> string option \<Rightarrow> string \<Rightarrow> span_kind \<Rightarrow> string \<Rightarrow> int \<Rightarrow> attributes \<Rightarrow> span" where
  \<comment> \<open>the span literal the six synthesizers share\<close>
  "marker_span i sessionId agentId kind nm t attrs =
     \<lparr>sp_id = i, sp_sessionId = get_or sessionId '''', sp_agentId = agentId, sp_parentSpanId = None, sp_kind = kind,
      sp_status = SP_COMPLETED, sp_name = nm, sp_startMs = t, sp_endMs = Some t, sp_links = [], sp_attributes = attrs,
      sp_payloadRefs = [], sp_error = None, sp_lane = -1, sp_replaced = False\<rparr>"

definition append_span :: "session_store \<Rightarrow> span \<Rightarrow> session_store" where
  "append_span st s = st\<lparr>ss_spans := si_append (ss_spans st) s\<rparr>"

definition drift_span_id :: "string \<Rightarrow> int \<Rightarrow> string \<Rightarrow> string" where
  "drift_span_id actorId recordedAtMs kind = ''drift-'' @ actorId @ ''-'' @ js_int recordedAtMs @ ''-'' @ kind"

definition synthesizeDriftSpan ::
  "session_store \<Rightarrow> string option \<Rightarrow> string \<Rightarrow> string \<Rightarrow> string \<Rightarrow> string \<Rightarrow> string \<Rightarrow> string \<Rightarrow> int \<Rightarrow> string \<Rightarrow> string \<Rightarrow> string \<Rightarrow> session_store"
where
  "synthesizeDriftSpan st sessionId actorId kind severity detail taskId targetAgentId recordedAtMs triggerInput authoredBy driftEventId =
     (let spanKind = (if actorId = USER_ACTOR_ID then USER_MESSAGE else CUSTOM);
          attributes =
            [str_attr ''drift.kind'' kind, str_attr ''drift.severity'' severity, str_attr ''drift.detail'' detail,
             str_attr ''drift.target_task_id'' taskId, str_attr ''drift.target_agent_id'' targetAgentId,
             (''harmonograf.synthetic_span'', ABool True)] @
            when_set ''drift.trigger_input'' triggerInput @ when_set ''drift.authored_by'' authoredBy @
            when_set ''drift.event_id'' driftEventId
      in append_span st (marker_span (drift_span_id actorId recordedAtMs kind) sessionId actorId spanKind
           (or_str kind ''drift'') recordedAtMs attributes))"

definition synthesizeRefineSpan ::
  "session_store \<Rightarrow> string option \<Rightarrow> int \<Rightarrow> string \<Rightarrow> string \<Rightarrow> string \<Rightarrow> int \<Rightarrow> string \<Rightarrow> string \<Rightarrow> string \<Rightarrow> string \<Rightarrow> session_store"
where
  "synthesizeRefineSpan st sessionId revisionIndex revisionKind revisionSeverity revisionReason recordedAtMs targetAgentId
       refineInputSummary refineOutputSummary goldfiveActorId =
     (let i = ''refine-'' @ js_int recordedAtMs @ ''-'' @ js_int revisionIndex;
          nameCore = or_str revisionKind ''refine'';
          attributes =
            [str_attr ''refine.index'' (js_int revisionIndex), str_attr ''refine.kind'' revisionKind,
             str_attr ''refine.severity'' revisionSeverity, str_attr ''refine.reason'' revisionReason,
             str_attr ''refine.target_agent_id'' targetAgentId, (''harmonograf.synthetic_span'', ABool True)] @
            when_set ''refine.input_summary'' refineInputSummary @ when_set ''refine.output_summary'' refineOutputSummary
      in append_span st (marker_span i sessionId goldfiveActorId CUSTOM (''refine: '' @ nameCore) recordedAtMs attributes))"

definition synthesizeUserGoalSpan :: "session_store \<Rightarrow> string option \<Rightarrow> string \<Rightarrow> string \<Rightarrow> int \<Rightarrow> session_store" where
  "synthesizeUserGoalSpan st sessionId runId goalSummary recordedAtMs =
     (if goalSummary = '''' then st
      else append_span st (marker_span (''user-goal-'' @ or_str runId (js_int recordedAtMs)) sessionId USER_ACTOR_ID USER_MESSAGE
             goalSummary recordedAtMs
             [str_attr ''user.goal_summary'' goalSummary, str_attr ''user.run_id'' runId,
              (''harmonograf.synthetic_span'', ABool True)]))"

definition synthesizeCancelSpan ::
  "session_store \<Rightarrow> string option \<Rightarrow> string \<Rightarrow> string \<Rightarrow> string \<Rightarrow> string \<Rightarrow> string \<Rightarrow> string \<Rightarrow> string \<Rightarrow> string \<Rightarrow> int \<Rightarrow> session_store"
where
  "synthesizeCancelSpan st sessionId agentId reason severity driftKind detail toolName invocationId driftId recordedAtMs =
     (if agentId = '''' then st
      else let i = ''cancel-'' @ agentId @ ''-'' @ js_int recordedAtMs @ ''-'' @ or_str invocationId ''x'';
               attributes =
                 [str_attr ''cancel.reason'' reason, str_attr ''cancel.severity'' severity,
                  str_attr ''cancel.drift_kind'' driftKind, str_attr ''cancel.detail'' detail,
                  str_attr ''cancel.invocation_id'' invocationId, str_attr ''cancel.drift_id'' driftId,
                  (''harmonograf.synthetic_span'', ABool True), (''harmonograf.cancel_marker'', ABool True)] @
                 when_set ''cancel.tool_name'' toolName
           in append_span st (marker_span i sessionId agentId CUSTOM
                (if reason \<noteq> '''' then ''cancelled: '' @ reason else ''cancelled'') recordedAtMs attributes))"

definition synthesizeFailedRefineSpan ::
  "session_store \<Rightarrow> string option \<Rightarrow> string \<Rightarrow> string \<Rightarrow> string \<Rightarrow> string \<Rightarrow> string \<Rightarrow> string \<Rightarrow> string \<Rightarrow> int \<Rightarrow> string \<Rightarrow> session_store"
where
  "synthesizeFailedRefineSpan st sessionId attemptId driftId triggerKind triggerSeverity failureKind reason detail recordedAtMs
       goldfiveActorId =
     (let i = ''refine-failed-'' @ or_str attemptId (js_int recordedAtMs @ ''-'' @ or_str driftId ''x'');
          attributes =
            [str_attr ''refine.attempt_id'' attemptId, str_attr ''refine.drift_id'' driftId,
             str_attr ''refine.trigger_kind'' triggerKind, str_attr ''refine.trigger_severity'' triggerSeverity,
             str_attr ''refine.failure_kind'' failureKind, str_attr ''refine.reason'' reason,
             str_attr ''refine.detail'' detail, (''harmonograf.synthetic_span'', ABool True),
             (''harmonograf.refine_failed'', ABool True)]
      in append_span st (marker_span i sessionId goldfiveActorId CUSTOM
           (if failureKind \<noteq> '''' then ''refine failed: '' @ failureKind else ''refine failed'') recordedAtMs attributes))"

definition synthesizeUserMessageSpan ::
  "session_store \<Rightarrow> string option \<Rightarrow> int \<Rightarrow> string \<Rightarrow> string \<Rightarrow> bool \<Rightarrow> string \<Rightarrow> session_store" where
  "synthesizeUserMessageSpan st sessionId recordedAtMs content author midTurn invocationId =
     (if content = '''' then st
      else let i = ''user-msg-'' @ js_int recordedAtMs @ ''-'' @ or_str author ''user'';
               headline = (if length content > 120 then take 117 content @ [CHR 0x85] else content)
           in append_span st (marker_span i sessionId USER_ACTOR_ID USER_MESSAGE headline recordedAtMs
                [str_attr ''user.content'' content, str_attr ''user.author'' (or_str author ''user''),
                 (''user.mid_turn'', ABool midTurn), str_attr ''user.invocation_id'' invocationId,
                 (''harmonograf.synthetic_span'', ABool True), (''harmonograf.user_message_marker'', ABool True)]))"

section \<open>The handlers\<close>

definition emitted_rel :: "gf_event \<Rightarrow> int \<Rightarrow> int" where
  \<comment> \<open>\<open>const emittedMs = emittedAbsMs ? emittedAbsMs - sessionStartMs : 0\<close>\<close>
  "emitted_rel e sessionStartMs =
     (let emittedAbsMs = tsToMsAbs (gv_emittedAt e) in if emittedAbsMs \<noteq> 0 then emittedAbsMs - sessionStartMs else 0)"

definition seed_agents :: "agent_registry \<Rightarrow> task list \<Rightarrow> agent_registry" where
  "seed_agents r tasks =
     foldl (\<lambda>r t. let i = tk_assigneeAgentId t in if i = '''' then r else fst (ar_ensureAgent r i (bareAgentName i))) r tasks"

definition applyPlan :: "int \<Rightarrow> gf_plan option \<Rightarrow> gf_event \<Rightarrow> session_store \<Rightarrow> int \<Rightarrow> session_store" where
  \<comment> \<open>the part that \<open>planSubmitted\<close> and \<open>planRevised\<close> share\<close>
  "applyPlan now plan e st sessionStartMs =
     (case plan of
        None \<Rightarrow> st
      | Some p \<Rightarrow>
          let converted = convertGoldfivePlan p sessionStartMs;
              entry = \<lparr>ph_revision = gp_revisionIndex p, ph_plan = converted, ph_reason = gp_revisionReason p,
                       ph_kind = driftKindToString (gp_revisionKind p), ph_triggerEventId = gp_revisionTriggerEventId p,
                       ph_emittedAtMs = tsToMsAbs (gv_emittedAt e)\<rparr>
          in st\<lparr>ss_tasks := tr_upsertPlan (ss_tasks st) converted now,
                ss_planHistory := hi_append (ss_planHistory st) entry,
                ss_agents := seed_agents (ss_agents st) (tp_tasks converted)\<rparr>)"

definition applyRefine :: "gf_revised \<Rightarrow> gf_event \<Rightarrow> session_store \<Rightarrow> int \<Rightarrow> string option \<Rightarrow> session_store" where
  \<comment> \<open>the part that only \<open>planRevised\<close> has\<close>
  "applyRefine pr e st sessionStartMs sessionId =
     (let (st1, goldfiveId) = ensureSyntheticActor st GOLDFIVE_ACTOR_ID
      in synthesizeRefineSpan st1 sessionId (gr_revisionIndex pr) (driftKindToString (gr_driftKind pr))
           (driftSeverityToString (gr_severity pr)) (gr_reason pr) (emitted_rel e sessionStartMs) (gr_targetAgentId pr)
           (gr_refineInputSummary pr) (gr_refineOutputSummary pr) goldfiveId)"

definition set_task_status :: "session_store \<Rightarrow> string \<Rightarrow> task_status \<Rightarrow> string \<Rightarrow> session_store" where
  "set_task_status st taskId status reason =
     st\<lparr>ss_tasks := tr_updateTaskStatusByTaskId (ss_tasks st) taskId status '''' reason\<rparr>"

definition approval_of :: "gf_approval \<Rightarrow> gf_event \<Rightarrow> session_store \<Rightarrow> int \<Rightarrow> string \<Rightarrow> pending_approval" where
  "approval_of r e st sessionStartMs sessionId =
     (let found = (if gq_taskId r \<noteq> '''' then tr_findPlanForTask (ss_tasks st) (gq_taskId r) else None);
          boundSpanId = (case found of None \<Rightarrow> '''' | Some (p, t) \<Rightarrow> tk_boundSpanId t);
          span = (if boundSpanId \<noteq> '''' then si_get (ss_spans st) boundSpanId else None);
          requestedAtMs = (case gv_emittedAt e of None \<Rightarrow> 0
                           | Some x \<Rightarrow> ts_seconds x * 1000 + ts_nanos x div 1000000 - sessionStartMs)
      in \<lparr>pa_sessionId = sessionId, pa_targetId = gq_targetId r, pa_kind = gq_kind r, pa_prompt = gq_prompt r,
          pa_taskId = gq_taskId r, pa_metadata = gq_metadata r, pa_requestedAtMs = requestedAtMs,
          pa_agentId = (case span of Some s \<Rightarrow> sp_agentId s
                        | None \<Rightarrow> (case found of Some (p, t) \<Rightarrow> tk_assigneeAgentId t | None \<Rightarrow> '''')),
          pa_spanId = boundSpanId\<rparr>)"

definition with_session :: "string option \<Rightarrow> (string \<Rightarrow> approvals_state) \<Rightarrow> approvals_state \<Rightarrow> approvals_state" where
  \<comment> \<open>\<open>if (!sessionId) return\<close>\<close>
  "with_session sessionId f ap = (case sessionId of None \<Rightarrow> ap | Some s \<Rightarrow> if s = '''' then ap else f s)"

definition applyDrift :: "gf_drift \<Rightarrow> gf_event \<Rightarrow> session_store \<Rightarrow> int \<Rightarrow> string option \<Rightarrow> session_store" where
  "applyDrift d e st sessionStartMs sessionId =
     (let emittedAbsMs = tsToMsAbs (gv_emittedAt e);
          emittedMs = emitted_rel e sessionStartMs;
          kindStr = driftKindToString (gd_kind d);
          sevStr = driftSeverityToString (gd_severity d);
          entry = \<lparr>dr_seq = 0, dr_kind = kindStr, dr_severity = sevStr, dr_detail = gd_detail d,
                   dr_taskId = gd_currentTaskId d, dr_agentId = gd_currentAgentId d, dr_recordedAtMs = emittedMs,
                   dr_recordedAtAbsoluteMs = emittedAbsMs, dr_annotationId = gd_annotationId d, dr_driftId = gd_id d,
                   dr_authoredBy = Some (gd_authoredBy d), dr_conditionId = Some (gd_conditionId d),
                   dr_lifecycle = Some (driftLifecycleToString (gd_lifecycle d)),
                   dr_prevSeverity = Some (driftSeverityToString (gd_prevSeverity d))\<rparr>;
          st1 = st\<lparr>ss_drifts := dr_append (entry, Some emittedAbsMs) (ss_drifts st)\<rparr>;
          (st2, actor) = ensureSyntheticActor st1
             (if kindStr \<in> set USER_DRIFT_KINDS then USER_ACTOR_ID else GOLDFIVE_ACTOR_ID)
      in synthesizeDriftSpan st2 sessionId actor kindStr sevStr (gd_detail d) (gd_currentTaskId d) (gd_currentAgentId d)
           emittedMs (gd_triggerInput d) (gd_authoredBy d) (gv_eventId e))"

definition applyRunStarted :: "string \<Rightarrow> string \<Rightarrow> gf_event \<Rightarrow> session_store \<Rightarrow> int \<Rightarrow> string option \<Rightarrow> session_store" where
  "applyRunStarted runId goalSummary e st sessionStartMs sessionId =
     (if goalSummary = '''' then st
      else synthesizeUserGoalSpan (fst (ensureSyntheticActor st USER_ACTOR_ID)) sessionId runId goalSummary
             (emitted_rel e sessionStartMs))"

definition applyDelegation :: "gf_delegation \<Rightarrow> gf_event \<Rightarrow> session_store \<Rightarrow> int \<Rightarrow> session_store" where
  "applyDelegation d e st sessionStartMs =
     (let observedAbsMs = tsToMsAbs (gv_emittedAt e);
          entry = \<lparr>dl_seq = 0, dl_fromAgentId = ge_fromAgent d, dl_toAgentId = ge_toAgent d, dl_taskId = ge_taskId d,
                   dl_invocationId = ge_invocationId d, dl_observedAtMs = emitted_rel e sessionStartMs,
                   dl_observedAtAbsoluteMs = observedAbsMs\<rparr>
      in st\<lparr>ss_delegations := dl_append (entry, Some observedAbsMs) (ss_delegations st)\<rparr>)"

definition applyInvocationCancelled ::
  "int \<Rightarrow> gf_cancelled \<Rightarrow> gf_event \<Rightarrow> session_store \<Rightarrow> int \<Rightarrow> string option \<Rightarrow> session_store" where
  "applyInvocationCancelled now c e st sessionStartMs sessionId =
     (let abs = or_num (tsToMsAbs (gv_emittedAt e)) now;
          recordedMs = abs - sessionStartMs;
          agentId = gc_agentName c;
          entry = \<lparr>ic_seq = 0, ic_runId = gv_runId e, ic_invocationId = gc_invocationId c, ic_agentId = agentId,
                   ic_reason = gc_reason c, ic_severity = gc_severity c, ic_driftId = gc_driftId c,
                   ic_driftKind = gc_driftKind c, ic_detail = gc_detail c, ic_toolName = gc_toolName c,
                   ic_recordedAtMs = recordedMs, ic_recordedAtAbsoluteMs = abs\<rparr>;
          st1 = st\<lparr>ss_invocationCancels := ic_append (entry, Some abs) (ss_invocationCancels st)\<rparr>;
          st2 = (if agentId \<noteq> '''' then st1\<lparr>ss_agents := fst (ar_ensureAgent (ss_agents st1) agentId (bareAgentName agentId))\<rparr>
                 else st1)
      in synthesizeCancelSpan st2 sessionId agentId (gc_reason c) (gc_severity c) (gc_driftKind c) (gc_detail c)
           (gc_toolName c) (gc_invocationId c) (gc_driftId c) recordedMs)"

definition applyTaskTransitioned :: "int \<Rightarrow> gf_transition \<Rightarrow> gf_event \<Rightarrow> session_store \<Rightarrow> int \<Rightarrow> session_store" where
  "applyTaskTransitioned now t e st sessionStartMs =
     (let abs = or_num (tsToMsAbs (gv_emittedAt e)) now;
          entry = \<lparr>tt_seq = 0, tt_runId = gv_runId e, tt_taskId = gx_taskId t, tt_fromStatus = to_upper (gx_fromStatus t),
                   tt_toStatus = to_upper (gx_toStatus t), tt_source = gx_source t, tt_revisionStamp = gx_revisionStamp t,
                   tt_agentName = gx_agentName t, tt_invocationId = gx_invocationId t,
                   tt_recordedAtMs = abs - sessionStartMs, tt_recordedAtAbsoluteMs = abs\<rparr>
      in st\<lparr>ss_taskTransitions := tt_append (entry, gv_sequence e, Some abs) (ss_taskTransitions st)\<rparr>)"

definition applyGoldfiveEvent :: "int \<Rightarrow> gf_event \<Rightarrow> gf_state \<Rightarrow> int \<Rightarrow> string option \<Rightarrow> gf_state" where
  "applyGoldfiveEvent now e s sessionStartMs sessionId =
     (let (st, ap) = s in
      case gv_payload e of
        PayloadUnset \<Rightarrow> s
      | PlanSubmitted plan \<Rightarrow> (applyPlan now plan e st sessionStartMs, ap)
      | PlanRevised pr \<Rightarrow> (applyRefine pr e (applyPlan now (gr_plan pr) e st sessionStartMs) sessionStartMs sessionId, ap)
      | TaskStarted i \<Rightarrow> (set_task_status st i TS_RUNNING '''', ap)
      | TaskCompleted i \<Rightarrow> (set_task_status st i TS_COMPLETED '''', ap)
      | TaskFailed i reason \<Rightarrow> (set_task_status st i TS_FAILED reason, ap)
      | TaskBlocked i \<Rightarrow> (set_task_status st i TS_BLOCKED '''', ap)
      | TaskCancelled i reason \<Rightarrow> (set_task_status st i TS_CANCELLED reason, ap)
      | ApprovalRequested r \<Rightarrow> (st, with_session sessionId (\<lambda>sid. approvals_request ap (approval_of r e st sessionStartMs sid)) ap)
      | ApprovalGranted t \<Rightarrow> (st, with_session sessionId (\<lambda>sid. approvals_resolve ap sid t) ap)
      | ApprovalRejected t \<Rightarrow> (st, with_session sessionId (\<lambda>sid. approvals_resolve ap sid t) ap)
      | DriftDetected d \<Rightarrow> (applyDrift d e st sessionStartMs sessionId, ap)
      | RunStarted runId goalSummary \<Rightarrow> (applyRunStarted runId goalSummary e st sessionStartMs sessionId, ap)
      | DelegationObserved d \<Rightarrow> (applyDelegation d e st sessionStartMs, ap)
      | InvocationCancelled c \<Rightarrow> (applyInvocationCancelled now c e st sessionStartMs sessionId, ap)
      | TaskTransitioned t \<Rightarrow> (applyTaskTransitioned now t e st sessionStartMs, ap)
      | _ \<Rightarrow> s)"

section \<open>The harmonograf envelopes\<close>

record hg_refine =
  hr_runId :: string
  hr_attemptId :: string
  hr_driftId :: string
  hr_triggerKind :: string
  hr_triggerSeverity :: string
  hr_failureKind :: string  \<comment> \<open>this and the next two: \<open>RefineFailed\<close> only\<close>
  hr_reason :: string
  hr_detail :: string
  hr_currentTaskId :: string
  hr_currentAgentId :: string
  hr_emittedAt :: "timestamp option"

definition applyRefineAttempted :: "int \<Rightarrow> hg_refine \<Rightarrow> session_store \<Rightarrow> int \<Rightarrow> session_store" where
  "applyRefineAttempted now e st sessionStartMs =
     (let abs = or_num (tsToMsAbs (hr_emittedAt e)) now;
          entry = \<lparr>ra_seq = 0, ra_runId = hr_runId e, ra_attemptId = hr_attemptId e, ra_driftId = hr_driftId e,
                   ra_triggerKind = to_lower (hr_triggerKind e), ra_triggerSeverity = to_lower (hr_triggerSeverity e),
                   ra_taskId = hr_currentTaskId e, ra_agentId = hr_currentAgentId e,
                   ra_recordedAtMs = abs - sessionStartMs, ra_recordedAtAbsoluteMs = abs\<rparr>
      in st\<lparr>ss_refineAttempts := ra_append (entry, Some abs) (ss_refineAttempts st)\<rparr>)"

definition applyRefineFailed :: "int \<Rightarrow> hg_refine \<Rightarrow> session_store \<Rightarrow> int \<Rightarrow> string option \<Rightarrow> session_store" where
  "applyRefineFailed now e st sessionStartMs sessionId =
     (let abs = or_num (tsToMsAbs (hr_emittedAt e)) now;
          recordedMs = abs - sessionStartMs;
          triggerKind = to_lower (hr_triggerKind e);
          triggerSeverity = to_lower (hr_triggerSeverity e);
          failureKind = to_lower (hr_failureKind e);
          entry = \<lparr>rf_seq = 0, rf_runId = hr_runId e, rf_attemptId = hr_attemptId e, rf_driftId = hr_driftId e,
                   rf_triggerKind = triggerKind, rf_triggerSeverity = triggerSeverity, rf_failureKind = failureKind,
                   rf_reason = hr_reason e, rf_detail = hr_detail e, rf_taskId = hr_currentTaskId e,
                   rf_agentId = hr_currentAgentId e, rf_recordedAtMs = recordedMs, rf_recordedAtAbsoluteMs = abs\<rparr>;
          st1 = st\<lparr>ss_refineFailures := rf_append (entry, Some abs) (ss_refineFailures st)\<rparr>;
          (st2, goldfiveId) = ensureSyntheticActor st1 GOLDFIVE_ACTOR_ID
      in synthesizeFailedRefineSpan st2 sessionId (hr_attemptId e) (hr_driftId e) triggerKind triggerSeverity failureKind
           (hr_reason e) (hr_detail e) recordedMs goldfiveId)"

record hg_user_message =
  hm_runId :: string
  hm_content :: string
  hm_author :: string
  hm_midTurn :: bool
  hm_invocationId :: string
  hm_emittedAt :: "timestamp option"

definition applyUserMessage :: "int \<Rightarrow> hg_user_message \<Rightarrow> session_store \<Rightarrow> int \<Rightarrow> string option \<Rightarrow> session_store" where
  "applyUserMessage now e st sessionStartMs sessionId =
     (let abs = or_num (tsToMsAbs (hm_emittedAt e)) now;
          recordedMs = abs - sessionStartMs;
          author = or_str (hm_author e) ''user'';
          entry = \<lparr>um_seq = 0, um_runId = hm_runId e, um_content = hm_content e, um_author = author,
                   um_midTurn = hm_midTurn e, um_invocationId = hm_invocationId e, um_recordedAtMs = recordedMs,
                   um_recordedAtAbsoluteMs = abs\<rparr>;
          st1 = st\<lparr>ss_userMessages := um_append (entry, Some abs) (ss_userMessages st)\<rparr>;
          st2 = fst (ensureSyntheticActor st1 USER_ACTOR_ID)
      in synthesizeUserMessageSpan st2 sessionId recordedMs (hm_content e) author (hm_midTurn e) (hm_invocationId e))"

end
