(* ===== verification/StoreInvariant.thy ===== *)
theory StoreInvariant
  imports GoldfiveEvent
begin

text \<open>
  The well-formedness of a whole session store, as the conjunction of the components' invariants, and that every
  operation of \<open>Session\<close> and every handler of \<open>GoldfiveEvent\<close> keeps it; what the goldfive events do to the store.
\<close>

section \<open>The invariant of a session store\<close>

definition numbered :: "('a \<Rightarrow> nat) \<Rightarrow> 'a registry \<Rightarrow> bool" where
  "numbered seqno r = (map seqno (rg_rows r) = [0..<rg_nextSeq r])"

definition logs_ok :: "session_store \<Rightarrow> bool" where
  "logs_ok st =
     (numbered dr_seq (ss_drifts st) \<and> numbered ic_seq (ss_invocationCancels st) \<and>
      numbered ra_seq (ss_refineAttempts st) \<and> numbered rf_seq (ss_refineFailures st) \<and>
      numbered tt_seq (ss_taskTransitions st) \<and> numbered um_seq (ss_userMessages st) \<and>
      numbered dl_seq (ss_delegations st))"

definition history_ok :: "plan_history \<Rightarrow> bool" where
  "history_ok h = (\<forall>pid. revs_sorted pid (hi_historyFor h pid))"

definition series_ok :: "context_series \<Rightarrow> bool" where
  "series_ok r = (\<forall>a. sorted (map cw_tMs (cs_forAgent r a)))"

definition store_ok :: "session_store \<Rightarrow> bool" where
  "store_ok st =
     (agents_ok (ss_agents st) \<and> span_ok (ss_spans st) \<and> tasks_ok (ss_tasks st) \<and> logs_ok st \<and>
      series_ok (ss_contextSeries st) \<and> history_ok (ss_planHistory st))"

lemma numbered_empty [simp]: "numbered seqno emptyRegistry"
  by (simp add: numbered_def)

lemma numbered_rg_clear [simp]: "numbered seqno r \<Longrightarrow> numbered seqno (rg_clear r)"
  by (auto simp: numbered_def rg_clear_def)

lemmas numbered_simps =
  drifts.numbered_append [folded numbered_def] cancels.numbered_append [folded numbered_def]
  attempts.numbered_append [folded numbered_def] failures.numbered_append [folded numbered_def]
  transitions.numbered_append [folded numbered_def] messages.numbered_append [folded numbered_def]
  delegs.numbered_append [folded numbered_def]
  drifts.numbered_rebase [folded numbered_def] cancels.numbered_rebase [folded numbered_def]
  attempts.numbered_rebase [folded numbered_def] failures.numbered_rebase [folded numbered_def]
  transitions.numbered_rebase [folded numbered_def] messages.numbered_rebase [folded numbered_def]
  delegs.numbered_rebase [folded numbered_def]
  drifts.numbered_clear [folded numbered_def] cancels.numbered_clear [folded numbered_def]
  attempts.numbered_clear [folded numbered_def] failures.numbered_clear [folded numbered_def]
  transitions.numbered_clear [folded numbered_def] messages.numbered_clear [folded numbered_def]
  delegs.numbered_clear [folded numbered_def]

lemma history_ok_append [simp]: "history_ok h \<Longrightarrow> history_ok (hi_append h r)"
  by (simp add: history_ok_def revs_sorted_append)

lemma series_ok_append [simp]: "series_ok r \<Longrightarrow> series_ok (cs_append r a s)"
  by (simp add: series_ok_def cs_forAgent_append sorted_place_sample)

lemma store_ok_empty: "store_ok emptyStore"
  by (simp add: store_ok_def emptyStore_def logs_ok_def series_ok_def history_ok_def span_ok_empty)

lemma store_okD:
  assumes "store_ok st"
  shows "agents_ok (ss_agents st)" and "span_ok (ss_spans st)" and "tasks_ok (ss_tasks st)" and "logs_ok st"
    and "series_ok (ss_contextSeries st)" and "history_ok (ss_planHistory st)"
  using assms by (simp_all add: store_ok_def)

named_theorems store_intros \<open>changes of a session store that keep its invariant\<close>

lemma store_ok_agents [store_intros]: "store_ok st \<Longrightarrow> agents_ok r \<Longrightarrow> store_ok (st\<lparr>ss_agents := r\<rparr>)"
  by (simp add: store_ok_def logs_ok_def)

lemma store_ok_spans [store_intros]: "store_ok st \<Longrightarrow> span_ok ix \<Longrightarrow> store_ok (st\<lparr>ss_spans := ix\<rparr>)"
  by (simp add: store_ok_def logs_ok_def)

lemma store_ok_tasks [store_intros]: "store_ok st \<Longrightarrow> tasks_ok r \<Longrightarrow> store_ok (st\<lparr>ss_tasks := r\<rparr>)"
  by (simp add: store_ok_def logs_ok_def)

lemma store_ok_series [store_intros]: "store_ok st \<Longrightarrow> series_ok r \<Longrightarrow> store_ok (st\<lparr>ss_contextSeries := r\<rparr>)"
  by (simp add: store_ok_def logs_ok_def)

lemma store_ok_history [store_intros]: "store_ok st \<Longrightarrow> history_ok h \<Longrightarrow> store_ok (st\<lparr>ss_planHistory := h\<rparr>)"
  by (simp add: store_ok_def logs_ok_def)

lemma store_ok_clock [store_intros]: "store_ok st \<Longrightarrow> store_ok (st\<lparr>ss_wallClockStartMs := n\<rparr>)"
  by (simp add: store_ok_def logs_ok_def)

lemma store_ok_logs [store_intros]:
  "store_ok st \<Longrightarrow> store_ok (st\<lparr>ss_drifts := dr_append i1 (ss_drifts st)\<rparr>)"
  "store_ok st \<Longrightarrow> store_ok (st\<lparr>ss_invocationCancels := ic_append i2 (ss_invocationCancels st)\<rparr>)"
  "store_ok st \<Longrightarrow> store_ok (st\<lparr>ss_refineAttempts := ra_append i3 (ss_refineAttempts st)\<rparr>)"
  "store_ok st \<Longrightarrow> store_ok (st\<lparr>ss_refineFailures := rf_append i4 (ss_refineFailures st)\<rparr>)"
  "store_ok st \<Longrightarrow> store_ok (st\<lparr>ss_taskTransitions := tt_append i5 (ss_taskTransitions st)\<rparr>)"
  "store_ok st \<Longrightarrow> store_ok (st\<lparr>ss_userMessages := um_append i6 (ss_userMessages st)\<rparr>)"
  "store_ok st \<Longrightarrow> store_ok (st\<lparr>ss_delegations := dl_append i7 (ss_delegations st)\<rparr>)"
  by (simp_all add: store_ok_def logs_ok_def numbered_simps)

lemma store_ok_rebase [store_intros]: "store_ok st \<Longrightarrow> store_ok (rebaseRelativeTimestamps st start)"
  by (simp add: store_ok_def logs_ok_def rebaseRelativeTimestamps_def numbered_simps)

lemma tasks_ok_upsert: "tasks_ok r \<Longrightarrow> tasks_ok (tr_upsertPlan r p now)"
  using tasks_ok_step [of r "TUpsert p now"] by simp

lemma tasks_ok_clear: "tasks_ok r \<Longrightarrow> tasks_ok (tr_clear r)"
  using tasks_ok_step [of r TClear] by simp

lemma tasks_ok_status: "tasks_ok r \<Longrightarrow> tasks_ok (tr_updateTaskStatusByTaskId r t status b c)"
  using tasks_ok_step [of r "TStatusById t status b c"] by simp

lemma store_ok_clear [store_intros]: "store_ok st \<Longrightarrow> store_ok (clearStore st)"
  by (simp add: store_ok_def logs_ok_def clearStore_def numbered_simps agents_ok_clear span_ok_clear tasks_ok_clear
      series_ok_def history_ok_def)

lemma store_ok_merge [store_intros]: "store_ok st \<Longrightarrow> store_ok (fst (mergeGoldfiveAlias st l))"
  by (auto simp: mergeGoldfiveAlias_def Let_def store_okD agents_ok_remove span_ok_reassign
      intro!: store_ok_agents store_ok_spans)

lemma store_ok_synthetic [store_intros]: "store_ok st \<Longrightarrow> store_ok (fst (ensureSyntheticActor st a))"
  by (auto simp: ensureSyntheticActor_def Let_def store_okD agents_ok_upsert intro!: store_ok_agents store_ok_merge)

lemma store_ok_append_span [store_intros]: "store_ok st \<Longrightarrow> store_ok (append_span st s)"
  by (simp add: append_span_def store_ok_spans store_okD span_ok_append)


section \<open>The handlers keep the invariant\<close>

lemma agents_ok_ensure: "agents_ok r \<Longrightarrow> agents_ok (fst (ar_ensureAgent r i b))"
  using agents_ok_step [of r "AEnsure i b"] by simp

lemma agents_ok_seed: "agents_ok r \<Longrightarrow> agents_ok (seed_agents r ts)"
  unfolding seed_agents_def by (induction ts arbitrary: r) (simp_all add: Let_def agents_ok_ensure)

lemmas synthesizer_defs = synthesizeDriftSpan_def synthesizeRefineSpan_def synthesizeUserGoalSpan_def
  synthesizeCancelSpan_def synthesizeFailedRefineSpan_def synthesizeUserMessageSpan_def

lemma store_ok_synthesize [store_intros]:
  "store_ok st \<Longrightarrow> store_ok (synthesizeDriftSpan st sid a k sv d t ta ms ti ab ev)"
  "store_ok st \<Longrightarrow> store_ok (synthesizeRefineSpan st sid ix rk rs rr ms ta i out g)"
  "store_ok st \<Longrightarrow> store_ok (synthesizeUserGoalSpan st sid run goal ms)"
  "store_ok st \<Longrightarrow> store_ok (synthesizeCancelSpan st sid a r sv dk d tn iv di ms)"
  "store_ok st \<Longrightarrow> store_ok (synthesizeFailedRefineSpan st sid aid di tk ts fk r d ms g)"
  "store_ok st \<Longrightarrow> store_ok (synthesizeUserMessageSpan st sid ms c au mid iv)"
  by (simp_all add: synthesizer_defs Let_def store_ok_append_span)

lemma store_ok_applyPlan [store_intros]:
  assumes "store_ok st"
  shows "store_ok (applyPlan now plan e st start)"
proof (cases plan)
  case (Some p)
  show ?thesis
    unfolding applyPlan_def Some option.simps Let_def
    by (intro store_intros assms tasks_ok_upsert agents_ok_seed history_ok_append) (simp_all add: store_okD assms)
qed (simp add: applyPlan_def assms)

lemma store_ok_status [store_intros]: "store_ok st \<Longrightarrow> store_ok (set_task_status st i s r)"
  by (simp add: set_task_status_def store_ok_tasks tasks_ok_status store_okD)

lemma store_ok_refine [store_intros]: "store_ok st \<Longrightarrow> store_ok (applyRefine pr e st start sid)"
  by (simp add: applyRefine_def Let_def split_beta store_intros)

lemma store_ok_drift [store_intros]: "store_ok st \<Longrightarrow> store_ok (applyDrift d e st start sid)"
  unfolding applyDrift_def Let_def split_beta by (intro store_intros)

lemma store_ok_run_started [store_intros]: "store_ok st \<Longrightarrow> store_ok (applyRunStarted run goal e st start sid)"
  by (simp add: applyRunStarted_def store_intros)

lemma store_ok_delegation [store_intros]: "store_ok st \<Longrightarrow> store_ok (applyDelegation d e st start)"
  unfolding applyDelegation_def Let_def by (intro store_intros)

lemma store_ok_cancelled [store_intros]:
  assumes "store_ok st"
  shows "store_ok (applyInvocationCancelled now c e st start sid)"
proof -
  have "store_ok (st'\<lparr>ss_agents := fst (ar_ensureAgent (ss_agents st') a b)\<rparr>)" if "store_ok st'" for st' a b
    using that by (intro store_intros agents_ok_ensure) (simp_all add: store_okD)
  then have ens: "store_ok (if a \<noteq> '''' then st'\<lparr>ss_agents := fst (ar_ensureAgent (ss_agents st') a b)\<rparr> else st')"
    if "store_ok st'" for st' a b
    using that by simp
  show ?thesis
    unfolding applyInvocationCancelled_def Let_def by (rule store_ok_synthesize(4), rule ens, intro store_intros assms)
qed

lemma store_ok_transitioned [store_intros]: "store_ok st \<Longrightarrow> store_ok (applyTaskTransitioned now t e st start)"
  unfolding applyTaskTransitioned_def Let_def by (intro store_intros)

lemma store_ok_refine_attempted [store_intros]: "store_ok st \<Longrightarrow> store_ok (applyRefineAttempted now r st start)"
  unfolding applyRefineAttempted_def Let_def by (intro store_intros)

lemma store_ok_refine_failed [store_intros]: "store_ok st \<Longrightarrow> store_ok (applyRefineFailed now r st start sid)"
  unfolding applyRefineFailed_def Let_def split_beta by (intro store_intros)

lemma store_ok_user_message [store_intros]: "store_ok st \<Longrightarrow> store_ok (applyUserMessage now m st start sid)"
  unfolding applyUserMessage_def Let_def by (intro store_intros)

lemma store_ok_goldfive [store_intros]:
  "store_ok st \<Longrightarrow> store_ok (fst (applyGoldfiveEvent now e (st, ap) start sid))"
  by (cases "gv_payload e") (simp_all add: applyGoldfiveEvent_def store_intros)

section \<open>Runs of goldfive events\<close>

definition gf_step :: "string option \<Rightarrow> gf_state \<Rightarrow> int \<times> gf_event \<times> int \<Rightarrow> gf_state" where
  \<comment> \<open>one event, with the clock reading and the session start it is applied with\<close>
  "gf_step sid s x = applyGoldfiveEvent (fst x) (fst (snd x)) s (snd (snd x)) sid"

definition gf_run :: "string option \<Rightarrow> (int \<times> gf_event \<times> int) list \<Rightarrow> gf_state" where
  "gf_run sid xs = foldl (gf_step sid) (emptyStore, []) xs"

lemma gf_run_simps [simp]: "gf_run sid [] = (emptyStore, [])" "gf_run sid (xs @ [x]) = gf_step sid (gf_run sid xs) x"
  by (simp_all add: gf_run_def)

lemma gf_run_ok: "store_ok (fst (gf_run sid xs))"
proof (induction xs rule: rev_induct)
  case Nil
  show ?case by (simp add: store_ok_empty)
next
  case (snoc x xs)
  then show ?case
    using store_ok_goldfive [of "fst (gf_run sid xs)" "fst x" "fst (snd x)" "snd (gf_run sid xs)" "snd (snd x)" sid]
    by (simp add: gf_step_def)
qed

text \<open>The operation of the approvals store that an event performs.\<close>

definition approval_ops :: "session_store \<Rightarrow> gf_event \<Rightarrow> int \<Rightarrow> string \<Rightarrow> approval_op list" where
  "approval_ops st e start sid =
     (case gv_payload e of
        ApprovalRequested r \<Rightarrow> [ApRequest (approval_of r e st start sid)]
      | ApprovalGranted t \<Rightarrow> [ApResolve sid t]
      | ApprovalRejected t \<Rightarrow> [ApResolve sid t]
      | _ \<Rightarrow> [])"

lemma goldfive_approvals:
  "snd (applyGoldfiveEvent now e (st, ap) start (Some (c # cs))) = foldl approval_step ap (approval_ops st e start (c # cs))"
  by (cases "gv_payload e") (simp_all add: applyGoldfiveEvent_def approval_ops_def with_session_def)

lemma approvals_ok_ops: "approvals_ok ap \<Longrightarrow> approvals_ok (foldl approval_step ap ops)"
  by (induction ops arbitrary: ap) (simp_all add: approval_step_ok)

lemma gf_run_approvals_ok: "approvals_ok (snd (gf_run (Some (c # cs)) xs))"
proof (induction xs rule: rev_induct)
  case Nil
  show ?case by (simp add: approvals_ok_def)
next
  case (snoc x xs)
  show ?case
    using goldfive_approvals [of "fst x" "fst (snd x)" "fst (gf_run (Some (c # cs)) xs)" "snd (gf_run (Some (c # cs)) xs)"]
      approvals_ok_ops [OF snoc] by (simp add: gf_step_def)
qed

definition approval_target :: "gf_event \<Rightarrow> string option" where
  "approval_target e =
     (case gv_payload e of
        ApprovalRequested r \<Rightarrow> Some (gq_targetId r) | ApprovalGranted t \<Rightarrow> Some t | ApprovalRejected t \<Rightarrow> Some t | _ \<Rightarrow> None)"

definition is_request :: "gf_event \<Rightarrow> bool" where
  "is_request e = (case gv_payload e of ApprovalRequested r \<Rightarrow> True | _ \<Rightarrow> False)"

lemma approval_ops_pending:
  assumes "approvals_ok ap"
  shows "pending_map (foldl approval_step ap (approval_ops st e start sid)) (sid, t) \<noteq> None \<longleftrightarrow>
         (if approval_target e = Some t then is_request e else pending_map ap (sid, t) \<noteq> None)"
  by (cases "gv_payload e")
    (simp_all add: approval_ops_def approval_target_def is_request_def approval_step_refines [OF assms, of "ApResolve x y" for x y, simplified]
      approval_step_refines [OF assms, of "ApRequest x" for x, simplified] approval_of_def Let_def)

text \<open>C4: While goldfive events of a session arrive, a target waits for approval exactly when the last approval event on
  it was a request: a grant or a rejection clears it, events of other kinds never do, and requests delivered again do
  not queue it twice.\<close>

theorem approval_pending_iff_last_request:
  "(pending_map (snd (gf_run (Some (c # cs)) xs)) (c # cs, t) \<noteq> None \<longleftrightarrow>
     (case find (\<lambda>x. approval_target (fst (snd x)) = Some t) (rev xs) of
        None \<Rightarrow> False | Some x \<Rightarrow> is_request (fst (snd x)))) \<and>
   distinct (map pa_targetId (rows_in (snd (gf_run (Some (c # cs)) xs)) (c # cs)))"
proof
  show "pending_map (snd (gf_run (Some (c # cs)) xs)) (c # cs, t) \<noteq> None \<longleftrightarrow>
     (case find (\<lambda>x. approval_target (fst (snd x)) = Some t) (rev xs) of
        None \<Rightarrow> False | Some x \<Rightarrow> is_request (fst (snd x)))"
  proof (induction xs rule: rev_induct)
    case Nil
    show ?case by (simp add: pending_map_def row_of_def)
  next
    case (snoc x xs)
    let ?s = "gf_run (Some (c # cs)) xs"
    have "snd (gf_run (Some (c # cs)) (xs @ [x])) =
        foldl approval_step (snd ?s) (approval_ops (fst ?s) (fst (snd x)) (snd (snd x)) (c # cs))"
      using goldfive_approvals [of "fst x" "fst (snd x)" "fst ?s" "snd ?s"] by (simp add: gf_step_def)
    then show ?case using snoc approval_ops_pending [OF gf_run_approvals_ok] by simp
  qed
  show "distinct (map pa_targetId (rows_in (snd (gf_run (Some (c # cs)) xs)) (c # cs)))"
    using gf_run_approvals_ok by (simp add: approvals_ok_def rows_ok_def)
qed

section \<open>A drift reaches its registry, its row and its lane\<close>

lemma ar_list_member: "x \<in> set (ar_list r) \<longleftrightarrow> (\<exists>i\<in>set (ar_agents r). map_of (ar_byId r) i = Some x)"
  by (force simp: ar_list_def List.map_filter_def)

lemma find_compound_upsert:
  assumes ok: "agents_ok r" and new: "map_of (ar_byId r) l = None" and none: "find (is_compound l) (ar_list r) = None"
    and a: "ag_id a = l"
  shows "find (is_compound l) (ar_list (ar_upsert r a)) = None"
proof -
  have "\<not> is_compound l x" if "x \<in> set (ar_list (ar_upsert r a))" for x
  proof -
    from that obtain i where i: "i \<in> set (ar_agents (ar_upsert r a))" "map_of (ar_byId (ar_upsert r a)) i = Some x"
      unfolding ar_list_member by blast
    show ?thesis
    proof (cases "i = l")
      case True
      with i a new have "x = a" by (simp add: ar_upsert_def ar_insert_def ar_emit_def Let_def)
      with a show ?thesis by (simp add: is_compound_def)
    next
      case False
      with i a new have "i \<in> set (ar_agents r)" "map_of (ar_byId r) i = Some x"
        by (auto simp: ar_upsert_def ar_insert_def ar_emit_def Let_def)
      then have "x \<in> set (ar_list r)" unfolding ar_list_member by blast
      with none show ?thesis by (simp add: find_None_iff)
    qed
  qed
  then show ?thesis by (simp add: find_None_iff)
qed

lemma ar_get_upsert: "ar_get (ar_upsert r a) (ag_id a) \<noteq> None"
  by (simp add: ar_get_eq ar_upsert_def ar_insert_def ar_emit_def Let_def split: option.split)

lemma ar_list_lookup:
  assumes "agents_ok r" and "x \<in> set (ar_list r)"
  shows "map_of (ar_byId r) (ag_id x) = Some x"
proof -
  from assms(2) obtain i where i: "map_of (ar_byId r) i = Some x" unfolding ar_list_member by blast
  from assms(1) i have "ag_id x = i" unfolding agents_ok_def by blast
  with i show ?thesis by simp
qed

lemma find_SomeD: "find P xs = Some x \<Longrightarrow> x \<in> set xs \<and> P x"
  by (induction xs) (auto split: if_splits)

lemma compound_is_listed:
  assumes "agents_ok r" and "find (is_compound l) (ar_list r) = Some a"
  shows "map_of (ar_byId r) (ag_id a) = Some a"
  using ar_list_lookup [OF assms(1)] find_SomeD [OF assms(2)] by blast

text \<open>After \<open>ensureSyntheticActor\<close> the row it names exists, and only the agent registry has changed.\<close>

lemma ensureSyntheticActor_row:
  assumes ok: "agents_ok (ss_agents st)"
  shows "ar_get (ss_agents (fst (ensureSyntheticActor st a))) (snd (ensureSyntheticActor st a)) \<noteq> None \<and>
         ss_drifts (fst (ensureSyntheticActor st a)) = ss_drifts st \<and>
         ss_spans (fst (ensureSyntheticActor st a)) = ss_spans st"
proof -
  let ?res = "resolveActorId st a"
  show ?thesis
  proof (cases "ar_get (ss_agents st) ?res")
    case (Some x)
    then show ?thesis by (simp add: ensureSyntheticActor_def Let_def)
  next
    case None
    let ?r = "ar_upsert (ss_agents st) (syntheticActor ?res a)"
    let ?st = "st\<lparr>ss_agents := ?r\<rparr>"
    have get: "ar_get ?r ?res \<noteq> None" using ar_get_upsert [of "ss_agents st" "syntheticActor ?res a"] by (simp add: syntheticActor_def)
    show ?thesis
    proof (cases "a = GOLDFIVE_ACTOR_ID")
      case False
      with None get show ?thesis by (simp add: ensureSyntheticActor_def Let_def)
    next
      case True
      have none: "find (is_compound GOLDFIVE_ACTOR_ID) (ar_list (ss_agents st)) = None"
      proof (cases "find (is_compound GOLDFIVE_ACTOR_ID) (ar_list (ss_agents st))")
        case (Some x)
        with compound_is_listed [OF ok Some] None True show ?thesis
          by (simp add: resolveActorId_def resolveGoldfiveActorId_def ar_get_eq)
      qed
      then have res: "?res = GOLDFIVE_ACTOR_ID" using True by (simp add: resolveActorId_def resolveGoldfiveActorId_def)
      have "find (is_compound GOLDFIVE_ACTOR_ID) (ar_list ?r) = None"
        using None ok none by (intro find_compound_upsert) (simp_all add: res ar_get_eq syntheticActor_def)
      then have "fst (mergeGoldfiveAlias ?st GOLDFIVE_ACTOR_ID) = ?st" by (simp add: mergeGoldfiveAlias_def)
      with None True get show ?thesis by (simp add: ensureSyntheticActor_def Let_def)
    qed
  qed
qed

lemma si_get_append:
  assumes "span_ok ix"
  shows "\<exists>s. si_get (si_append ix x) (sp_id x) = Some s \<and> sp_id s = sp_id x \<and> sp_endMs s = sp_endMs x \<and>
     sp_name s = sp_name x \<and> sp_attributes s = sp_attributes x \<and> sp_status s = sp_status x"
proof (cases "map_of (si_byId ix) (sp_id x)")
  case None
  then show ?thesis by (simp add: si_append_def si_insert_def si_get_def Let_def)
next
  case (Some e)
  with span_okD(3) [OF assms Some] show ?thesis
    by (simp add: si_append_def si_overwrite_def si_get_def Let_def overwrite_def)
qed

definition drift_entry :: "gf_drift \<Rightarrow> gf_event \<Rightarrow> int \<Rightarrow> drift_record" where
  "drift_entry d e start =
     \<lparr>dr_seq = 0, dr_kind = driftKindToString (gd_kind d), dr_severity = driftSeverityToString (gd_severity d),
      dr_detail = gd_detail d, dr_taskId = gd_currentTaskId d, dr_agentId = gd_currentAgentId d,
      dr_recordedAtMs = emitted_rel e start, dr_recordedAtAbsoluteMs = tsToMsAbs (gv_emittedAt e),
      dr_annotationId = gd_annotationId d, dr_driftId = gd_id d, dr_authoredBy = Some (gd_authoredBy d),
      dr_conditionId = Some (gd_conditionId d), dr_lifecycle = Some (driftLifecycleToString (gd_lifecycle d)),
      dr_prevSeverity = Some (driftSeverityToString (gd_prevSeverity d))\<rparr>"

lemma applyDrift_span:
  "\<exists>x. applyDrift d e st start sid =
      append_span (fst (ensureSyntheticActor (st\<lparr>ss_drifts := dr_append (drift_entry d e start, Some (tsToMsAbs (gv_emittedAt e))) (ss_drifts st)\<rparr>)
        (if driftKindToString (gd_kind d) \<in> set USER_DRIFT_KINDS then USER_ACTOR_ID else GOLDFIVE_ACTOR_ID))) x \<and>
    sp_id x = drift_span_id (snd (ensureSyntheticActor (st\<lparr>ss_drifts := dr_append (drift_entry d e start, Some (tsToMsAbs (gv_emittedAt e))) (ss_drifts st)\<rparr>)
        (if driftKindToString (gd_kind d) \<in> set USER_DRIFT_KINDS then USER_ACTOR_ID else GOLDFIVE_ACTOR_ID)))
        (emitted_rel e start) (driftKindToString (gd_kind d)) \<and>
    sp_startMs x = emitted_rel e start \<and> sp_endMs x = Some (emitted_rel e start) \<and> sp_status x = SP_COMPLETED \<and>
    map_of (sp_attributes x) ''drift.detail'' = Some (AString (gd_detail d))"
  unfolding applyDrift_def Let_def drift_entry_def [symmetric] split_beta synthesizeDriftSpan_def
  by (rule exI, rule conjI, rule refl) (simp add: marker_span_def str_attr_def)

text \<open>A drift event, delivered to any reachable store, adds one row at the end of the drift registry with the kind,
  the severity and the time relative to the session start, makes sure that the row of the actor (the user for a
  user-authored kind, the orchestrator otherwise) exists, and leaves on that actor a completed marker span that ends at
  the drift and carries its detail.\<close>

theorem drift_reaches_lane:
  "let st = fst (gf_run sid xs);
       a = (if driftKindToString (gd_kind d) \<in> set USER_DRIFT_KINDS then USER_ACTOR_ID else GOLDFIVE_ACTOR_ID);
       actor = resolveActorId st a;
       st' = applyDrift d e st start sid
   in (\<exists>row. rg_rows (ss_drifts st') = rg_rows (ss_drifts st) @ [row] \<and> dr_kind row = driftKindToString (gd_kind d) \<and>
          dr_recordedAtMs row = emitted_rel e start \<and> dr_recordedAtAbsoluteMs row = tsToMsAbs (gv_emittedAt e) \<and>
          dr_driftId row = gd_id d \<and> dr_seq row = length (rg_rows (ss_drifts st))) \<and>
      ar_get (ss_agents st') actor \<noteq> None \<and>
      (\<exists>s. si_get (ss_spans st') (drift_span_id actor (emitted_rel e start) (driftKindToString (gd_kind d))) = Some s \<and>
          sp_endMs s = Some (emitted_rel e start) \<and> sp_status s = SP_COMPLETED \<and>
          map_of (sp_attributes s) ''drift.detail'' = Some (AString (gd_detail d)))"
proof -
  define st where "st = fst (gf_run sid xs)"
  define a where "a = (if driftKindToString (gd_kind d) \<in> set USER_DRIFT_KINDS then USER_ACTOR_ID else GOLDFIVE_ACTOR_ID)"
  define st1 where "st1 = st\<lparr>ss_drifts := dr_append (drift_entry d e start, Some (tsToMsAbs (gv_emittedAt e))) (ss_drifts st)\<rparr>"
  define st2 where "st2 = fst (ensureSyntheticActor st1 a)"
  have ok: "store_ok st" by (simp add: st_def gf_run_ok)
  have "agents_ok (ss_agents st1)" using store_okD(1) [OF ok] by (simp add: st1_def)
  note row = ensureSyntheticActor_row [OF this, of a, folded st2_def]
  have actor: "snd (ensureSyntheticActor st1 a) = resolveActorId st a"
    by (simp add: ensureSyntheticActor_def Let_def st1_def resolveActorId_def resolveGoldfiveActorId_def)
  have ok2: "span_ok (ss_spans st2)" using row store_okD(2) [OF ok] by (simp add: st1_def)
  obtain x where x: "applyDrift d e st start sid = append_span st2 x"
    "sp_id x = drift_span_id (resolveActorId st a) (emitted_rel e start) (driftKindToString (gd_kind d))"
    "sp_endMs x = Some (emitted_rel e start)" "sp_status x = SP_COMPLETED"
    "map_of (sp_attributes x) ''drift.detail'' = Some (AString (gd_detail d))"
    using applyDrift_span [of d e st start sid] unfolding a_def [symmetric] st1_def [symmetric] st2_def [symmetric] actor by blast
  have n: "rg_nextSeq (ss_drifts st) = length (rg_rows (ss_drifts st))"
    using store_okD(4) [OF ok] by (metis length_map length_upt logs_ok_def minus_nat.diff_0 numbered_def)
  have drifts: "ss_drifts (append_span st2 x) = ss_drifts st1" using row by (simp add: append_span_def)
  have rows: "rg_rows (ss_drifts st1) = rg_rows (ss_drifts st) @ [(drift_entry d e start)\<lparr>dr_seq := length (rg_rows (ss_drifts st))\<rparr>]"
    by (simp add: st1_def dr_append_def Let_def or_else_def n drift_entry_def)
  show ?thesis
    unfolding Let_def a_def [symmetric] st_def [symmetric] x(1) drifts rows
  proof (intro conjI)
    show "ar_get (ss_agents (append_span st2 x)) (resolveActorId st a) \<noteq> None" using row by (simp add: append_span_def actor)
    show "\<exists>s. si_get (ss_spans (append_span st2 x)) (drift_span_id (resolveActorId st a) (emitted_rel e start)
          (driftKindToString (gd_kind d))) = Some s \<and> sp_endMs s = Some (emitted_rel e start) \<and> sp_status s = SP_COMPLETED \<and>
          map_of (sp_attributes s) ''drift.detail'' = Some (AString (gd_detail d))"
      using si_get_append [OF ok2, of x] x by (auto simp: append_span_def)
  qed (simp add: drift_entry_def)
qed

section \<open>What a replay does\<close>

lemma ensureSyntheticActor_frame:
  assumes "store_ok st"
  shows "ss_drifts (fst (ensureSyntheticActor st a)) = ss_drifts st" and "ss_spans (fst (ensureSyntheticActor st a)) = ss_spans st"
  using ensureSyntheticActor_row [OF store_okD(1) [OF assms], of a] by simp_all

lemma applyDrift_drifts:
  assumes ok: "store_ok st"
  shows "ss_drifts (applyDrift d e st start sid) = dr_append (drift_entry d e start, Some (tsToMsAbs (gv_emittedAt e))) (ss_drifts st)"
proof -
  obtain x where "applyDrift d e st start sid =
      append_span (fst (ensureSyntheticActor (st\<lparr>ss_drifts := dr_append (drift_entry d e start, Some (tsToMsAbs (gv_emittedAt e))) (ss_drifts st)\<rparr>)
        (if driftKindToString (gd_kind d) \<in> set USER_DRIFT_KINDS then USER_ACTOR_ID else GOLDFIVE_ACTOR_ID))) x"
    using applyDrift_span [of d e st start sid] by blast
  then show ?thesis by (simp add: append_span_def ensureSyntheticActor_frame store_ok_logs [OF ok])
qed

lemma applyDrift_spans_empty:
  assumes ok: "store_ok st" and none: "ss_spans st = emptyIndex"
  shows "map sp_startMs (si_all (ss_spans (applyDrift d e st start sid))) = [emitted_rel e start]"
proof -
  obtain x where x: "applyDrift d e st start sid =
      append_span (fst (ensureSyntheticActor (st\<lparr>ss_drifts := dr_append (drift_entry d e start, Some (tsToMsAbs (gv_emittedAt e))) (ss_drifts st)\<rparr>)
        (if driftKindToString (gd_kind d) \<in> set USER_DRIFT_KINDS then USER_ACTOR_ID else GOLDFIVE_ACTOR_ID))) x"
    "sp_startMs x = emitted_rel e start"
    using applyDrift_span [of d e st start sid] by blast
  show ?thesis
    unfolding x(1)
    by (simp add: append_span_def ensureSyntheticActor_frame store_ok_logs [OF ok] none si_append_def emptyIndex_def si_insert_def
        si_emit_def si_all_def Let_def x(2))
qed

lemma rebase_drifts: "ss_drifts (rebaseRelativeTimestamps st start) = dr_rebase start (ss_drifts st)"
  "ss_spans (rebaseRelativeTimestamps st start) = ss_spans st"
  by (simp_all add: rebaseRelativeTimestamps_def)

text \<open>A drift that arrives before the session start is known is re-anchored by the rebase only in its registry: its marker
  span keeps the wall-clock start. Delivered again after the rebase, it makes a second row of the registry.\<close>

theorem drift_marker_not_rebased:
  "let abs = tsToMsAbs (gv_emittedAt e);
       st = rebaseRelativeTimestamps (applyDrift d e emptyStore 0 sid) start
   in map dr_recordedAtMs (rg_rows (ss_drifts st)) = [if abs = 0 then 0 else abs - start] \<and>
      map sp_startMs (si_all (ss_spans st)) = [abs] \<and>
      map dr_driftId (rg_rows (ss_drifts (applyDrift d e st start sid))) = [gd_id d, gd_id d]"
proof -
  let ?st = "rebaseRelativeTimestamps (applyDrift d e emptyStore 0 sid) start"
  have ok: "store_ok ?st" by (intro store_intros store_ok_empty)
  have spans: "ss_spans emptyStore = emptyIndex" "ss_drifts emptyStore = emptyRegistry" by (simp_all add: emptyStore_def)
  have rel: "emitted_rel e 0 = tsToMsAbs (gv_emittedAt e)" by (simp add: emitted_rel_def Let_def)
  have rows: "rg_rows (ss_drifts (applyDrift d e emptyStore 0 sid)) = [drift_entry d e 0]"
    by (simp add: applyDrift_drifts store_ok_empty spans dr_append_def Let_def or_else_def drift_entry_def)
  have one: "map dr_recordedAtMs (rg_rows (ss_drifts ?st)) = [if tsToMsAbs (gv_emittedAt e) = 0 then 0 else tsToMsAbs (gv_emittedAt e) - start]"
    by (simp add: rebase_drifts drifts.rebase_rows rows drift_entry_def rel)
  have two: "map sp_startMs (si_all (ss_spans ?st)) = [tsToMsAbs (gv_emittedAt e)]"
    by (simp add: rebase_drifts applyDrift_spans_empty store_ok_empty spans rel)
  have "map dr_driftId (rg_rows (ss_drifts ?st)) = [gd_id d]"
    by (simp add: rebase_drifts drifts.rebase_rows rows drift_entry_def)
  then have "map dr_driftId (rg_rows (ss_drifts (applyDrift d e ?st start sid))) = [gd_id d, gd_id d]"
    by (simp add: applyDrift_drifts [OF ok] dr_append_def Let_def or_else_def drift_entry_def)
  with one two show ?thesis by (simp add: Let_def)
qed

lemma ensure_again: "map_has (ar_byId r) i \<or> i = '''' \<Longrightarrow> fst (ar_ensureAgent r i b) = r"
  by (auto simp: ar_ensureAgent_def map_has_def split: option.split)

lemma seed_has: "map_has (ar_byId r) i \<Longrightarrow> map_has (ar_byId (seed_agents r ts)) i"
proof (induction ts arbitrary: r)
  case (Cons t ts)
  have "map_has (ar_byId (fst (ar_ensureAgent r j b))) i" if "map_has (ar_byId r) i" for r j b
    using that by (auto simp: ar_ensureAgent_def ar_insert_def ar_emit_def map_has_def Let_def split: option.split)
  with Cons show ?case by (simp add: seed_agents_def Let_def)
qed (simp add: seed_agents_def)

lemma seed_again: "(\<And>t. t \<in> set ts \<Longrightarrow> tk_assigneeAgentId t = '''' \<or> map_has (ar_byId r) (tk_assigneeAgentId t)) \<Longrightarrow> seed_agents r ts = r"
proof (induction ts)
  case (Cons t ts)
  have "fst (ar_ensureAgent r (tk_assigneeAgentId t) b) = r" for b using Cons.prems [of t] by (intro ensure_again) auto
  with Cons show ?case by (simp add: seed_agents_def Let_def)
qed (simp add: seed_agents_def)

lemma seed_covers: "t \<in> set ts \<Longrightarrow> tk_assigneeAgentId t = '''' \<or> map_has (ar_byId (seed_agents r ts)) (tk_assigneeAgentId t)"
proof (induction ts arbitrary: r)
  case (Cons u ts)
  show ?case
  proof (cases "t = u")
    case True
    have "map_has (ar_byId (fst (ar_ensureAgent r i b))) i" if "i \<noteq> ''''" for i b
      using that by (auto simp: ar_ensureAgent_def ar_insert_def ar_emit_def map_has_def placeholderAgent_def Let_def split: option.split)
    then show ?thesis using True seed_has [of _ _ ts] by (auto simp: seed_agents_def Let_def)
  next
    case False
    with Cons show ?thesis by (simp add: seed_agents_def)
  qed
qed simp

lemma history_known:
  assumes "map_of (hi_revisions h) (tp_id (ph_plan r)) = Some arr" and "list_ex (\<lambda>x. ph_revision x = ph_revision r) arr"
  shows "hi_append h r = h"
  using assms by (simp add: hi_append_def Let_def update_same)

lemma history_again: "hi_append (hi_append h r) r = hi_append h r"
proof (cases "tp_id (ph_plan r) = ''''")
  case False
  let ?arr = "case map_of (hi_revisions h) (tp_id (ph_plan r)) of None \<Rightarrow> [] | Some a \<Rightarrow> a"
  show ?thesis
  proof (cases "list_ex (\<lambda>x. ph_revision x = ph_revision r) ?arr")
    case True
    have eq: "hi_append h r = h\<lparr>hi_revisions := AList.update (tp_id (ph_plan r)) ?arr (hi_revisions h)\<rparr>"
      unfolding hi_append_def Let_def if_not_P [OF False] if_P [OF True] ..
    show ?thesis by (rule history_known [OF _ True]) (simp add: eq)
  next
    case new: False
    have eq: "hi_append h r = hi_emit (h\<lparr>hi_revisions := AList.update (tp_id (ph_plan r)) (place_revision r ?arr) (hi_revisions h)\<rparr>)"
      unfolding hi_append_def Let_def if_not_P [OF False] if_not_P [OF new] ..
    show ?thesis
      by (rule history_known [where arr = "place_revision r ?arr"]) (simp_all add: eq hi_emit_def list_ex_iff)
  qed
qed (simp add: hi_append_def Let_def)

text \<open>A plan event that is delivered again leaves the plan history and the agent rows exactly as its first delivery left
  them, with no notification to either; every assignee of the plan has a row by then.\<close>

theorem plan_replay_idempotent:
  "let st = applyPlan now (Some p) e st0 start; st' = applyPlan now' (Some p) e st start
   in ss_planHistory st' = ss_planHistory st \<and> ss_agents st' = ss_agents st \<and>
      list_all (\<lambda>t. gt_assigneeAgentId t \<in> insert '''' (fst ` set (ar_byId (ss_agents st)))) (gp_tasks p)"
proof -
  let ?ts = "tp_tasks (convertGoldfivePlan p start)"
  have ts: "?ts = map convertGoldfiveTask (gp_tasks p)" by (simp add: convertGoldfivePlan_def Let_def)
  have covers: "tk_assigneeAgentId t = '''' \<or> map_has (ar_byId (seed_agents (ss_agents st0) ?ts)) (tk_assigneeAgentId t)"
    if "t \<in> set ?ts" for t
    using that by (rule seed_covers)
  have again: "seed_agents (seed_agents (ss_agents st0) ?ts) ?ts = seed_agents (ss_agents st0) ?ts"
    by (rule seed_again) (rule covers)
  have "gt_assigneeAgentId t = '''' \<or> map_has (ar_byId (seed_agents (ss_agents st0) ?ts)) (gt_assigneeAgentId t)"
    if "t \<in> set (gp_tasks p)" for t
    using covers [of "convertGoldfiveTask t"] that by (simp add: ts convertGoldfiveTask_def)
  then show ?thesis by (auto simp: applyPlan_def Let_def history_again again list_all_iff map_has_iff)
qed

text \<open>\<open>NOT_NEEDED\<close>, number 7 of goldfive's task statuses, has no entry in the table and becomes \<open>UNSPECIFIED\<close>; the
  numbers 0 to 6 are kept apart.\<close>

theorem not_needed_is_unspecified:
  "map taskStatusFromInt [0, 1, 2, 3, 4, 5, 6, 7] =
     [TS_UNSPECIFIED, TS_PENDING, TS_RUNNING, TS_COMPLETED, TS_FAILED, TS_CANCELLED, TS_BLOCKED, TS_UNSPECIFIED]"
  by (simp add: taskStatusFromInt_def TASK_STATUS_STRINGS_def)

end
