(* ===== verification/PlanLoader.thy ===== *)
theory PlanLoader
  imports StoreInvariant
begin

text \<open>
  \<open>frontend/src/state/planHistoryLoader.ts\<close>: the backfill of the plan history from one unary call. The reply of the client
  is a parameter: the method is missing, the call throws, or it returns the revisions it has. The \<open>plan\<close> of a wire
  revision is optional, its kind is a string (the empty string stands for an absent one, which the code treats alike).
\<close>

record wire_revision =
  wr_revisionNumber :: int
  wr_plan :: "gf_plan option"
  wr_revisionReason :: string
  wr_revisionKind :: string
  wr_revisionTriggerEventId :: string
  wr_emittedAt :: "timestamp option"

datatype history_reply = MethodMissing | CallFailed string | Reply "wire_revision list"

record load_result =
  lr_skipped :: bool
  lr_fetched :: bool
  lr_appended :: nat
  lr_error :: "string option"

definition normalizeRevisionKind :: "string \<Rightarrow> string" where
  "normalizeRevisionKind raw =
     (if raw = '''' then ''''
      else let upper = to_upper raw in
           if upper = ''UNSPECIFIED'' \<or> upper = '''' then ''''
           else let known = list_ex (\<lambda>k. k = upper) (map (js_int \<circ> fst) DRIFT_KIND_NAMES @ map snd DRIFT_KIND_NAMES)
                in if known then to_lower upper else to_lower raw)"

definition revisionFromWire :: "wire_revision \<Rightarrow> int \<Rightarrow> plan_revision_record option" where
  "revisionFromWire wire sessionStartMs =
     (case wr_plan wire of
        None \<Rightarrow> None
      | Some rawPlan \<Rightarrow> Some
          \<lparr>ph_revision = wr_revisionNumber wire, ph_plan = convertGoldfivePlan rawPlan sessionStartMs,
           ph_reason = wr_revisionReason wire, ph_kind = normalizeRevisionKind (wr_revisionKind wire),
           ph_triggerEventId = wr_revisionTriggerEventId wire, ph_emittedAtMs = tsToMsAbs (wr_emittedAt wire)\<rparr>)"

definition load_one :: "int \<Rightarrow> plan_history \<times> load_result \<Rightarrow> wire_revision \<Rightarrow> plan_history \<times> load_result" where
  "load_one sessionStartMs s wire =
     (let (h, res) = s in
      case revisionFromWire wire sessionStartMs of
        None \<Rightarrow> s
      | Some r \<Rightarrow>
          let before = length (hi_historyFor h (tp_id (ph_plan r)));
              h' = hi_append h r;
              after = length (hi_historyFor h' (tp_id (ph_plan r)))
          in (h', if after > before then res\<lparr>lr_appended := Suc (lr_appended res)\<rparr> else res))"

definition loadPlanHistory :: "history_reply \<Rightarrow> string \<Rightarrow> session_store \<Rightarrow> int \<Rightarrow> session_store \<times> load_result" where
  "loadPlanHistory reply sessionId st sessionStartMs =
     (let res = \<lparr>lr_skipped = False, lr_fetched = False, lr_appended = 0, lr_error = None\<rparr> in
      if sessionId = '''' then (st, res\<lparr>lr_skipped := True\<rparr>)
      else case reply of
             MethodMissing \<Rightarrow> (st, res\<lparr>lr_skipped := True\<rparr>)
           | CallFailed err \<Rightarrow> (st, res\<lparr>lr_error := Some err\<rparr>)
           | Reply wires \<Rightarrow>
               let (h, res') = foldl (load_one sessionStartMs) (ss_planHistory st, res\<lparr>lr_fetched := True\<rparr>) wires
               in (st\<lparr>ss_planHistory := h\<rparr>, res'))"

section \<open>The two paths into the history agree\<close>

lemma to_lower_upper_char: "to_lower_char (to_upper_char c) = to_lower_char c"
proof -
  have "of_char c < (256::nat)" by simp
  then show ?thesis
    by (auto simp: to_lower_char_def to_upper_char_def Let_def take_bit_nat_eq_self)
qed

lemma to_lower_upper [simp]: "to_lower (to_upper s) = to_lower s"
  by (simp add: to_lower_def to_upper_def to_lower_upper_char)

lemma normalizeRevisionKind_eq:
  "normalizeRevisionKind raw = (if to_upper raw = ''UNSPECIFIED'' then '''' else to_lower raw)"
proof -
  have "to_upper raw = [] \<longleftrightarrow> raw = []" by (simp add: to_upper_def)
  then show ?thesis by (simp add: normalizeRevisionKind_def Let_def)
qed

lemma upper_chars:
  "to_upper_char (CHR ''A'') = CHR ''A''" "to_upper_char (CHR ''B'') = CHR ''B''" "to_upper_char (CHR ''C'') = CHR ''C''"
  "to_upper_char (CHR ''D'') = CHR ''D''" "to_upper_char (CHR ''E'') = CHR ''E''" "to_upper_char (CHR ''F'') = CHR ''F''"
  "to_upper_char (CHR ''G'') = CHR ''G''" "to_upper_char (CHR ''H'') = CHR ''H''" "to_upper_char (CHR ''I'') = CHR ''I''"
  "to_upper_char (CHR ''J'') = CHR ''J''" "to_upper_char (CHR ''K'') = CHR ''K''" "to_upper_char (CHR ''L'') = CHR ''L''"
  "to_upper_char (CHR ''M'') = CHR ''M''" "to_upper_char (CHR ''N'') = CHR ''N''" "to_upper_char (CHR ''O'') = CHR ''O''"
  "to_upper_char (CHR ''P'') = CHR ''P''" "to_upper_char (CHR ''Q'') = CHR ''Q''" "to_upper_char (CHR ''R'') = CHR ''R''" "to_upper_char (CHR ''S'') = CHR ''S''"
  "to_upper_char (CHR ''T'') = CHR ''T''" "to_upper_char (CHR ''U'') = CHR ''U''" "to_upper_char (CHR ''V'') = CHR ''V''"
  "to_upper_char (CHR ''W'') = CHR ''W''" "to_upper_char (CHR ''X'') = CHR ''X''" "to_upper_char (CHR ''Y'') = CHR ''Y''"
  "to_upper_char (CHR ''_'') = CHR ''_''"
  by (simp_all add: to_upper_char_def)

lemma kind_names_upper: "list_all (\<lambda>p. to_upper (snd p) = snd p \<and> snd p \<noteq> '''') DRIFT_KIND_NAMES"
  unfolding DRIFT_KIND_NAMES_def by (simp add: to_upper_def upper_chars)

lemma kind_numbers: "distinct (map fst DRIFT_KIND_NAMES)"
  unfolding DRIFT_KIND_NAMES_def by simp

lemma kind_label_eq: "p \<in> set DRIFT_KIND_NAMES \<Longrightarrow> normalizeRevisionKind (snd p) = driftKindToString (fst p)"
proof -
  assume p: "p \<in> set DRIFT_KIND_NAMES"
  then have "to_upper (snd p) = snd p" "snd p \<noteq> ''''" using kind_names_upper by (auto simp: list_all_iff)
  moreover have "table_get DRIFT_KIND_NAMES (fst p) = Some (snd p)"
    using p kind_numbers by (simp add: table_get_def)
  ultimately show ?thesis by (simp add: normalizeRevisionKind_eq driftKindToString_def enum_label_def)
qed

lemma kind_names_distinct: "distinct (map snd DRIFT_KIND_NAMES)"
  unfolding DRIFT_KIND_NAMES_def by simp

lemma to_upper_lower_char: "to_upper_char (to_lower_char c) = to_upper_char c"
proof -
  have "of_char c < (256::nat)" by simp
  then show ?thesis by (auto simp: to_lower_char_def to_upper_char_def Let_def take_bit_nat_eq_self)
qed

lemma kind_labels_distinct: "distinct (map (driftKindToString \<circ> fst) DRIFT_KIND_NAMES)"
proof -
  have up: "to_upper (driftKindToString (fst p)) = (if snd p = ''UNSPECIFIED'' then '''' else snd p) \<and> snd p \<noteq> ''''"
    if p: "p \<in> set DRIFT_KIND_NAMES" for p
  proof -
    have "to_upper (snd p) = snd p" "snd p \<noteq> ''''" using p kind_names_upper by (auto simp: list_all_iff)
    moreover have "to_upper (to_lower (snd p)) = to_upper (snd p)"
      by (simp add: to_upper_def to_lower_def to_upper_lower_char)
    ultimately show ?thesis
      using kind_label_eq [OF p, symmetric] by (simp add: normalizeRevisionKind_eq) (simp add: to_upper_def)
  qed
  have "inj_on (driftKindToString \<circ> fst) (set DRIFT_KIND_NAMES)"
  proof (rule inj_onI)
    fix p q assume p: "p \<in> set DRIFT_KIND_NAMES" and q: "q \<in> set DRIFT_KIND_NAMES"
      and "(driftKindToString \<circ> fst) p = (driftKindToString \<circ> fst) q"
    then have "to_upper (driftKindToString (fst p)) = to_upper (driftKindToString (fst q))" by simp
    with up [OF p] up [OF q] have "snd p = snd q" by (auto split: if_splits)
    with p q kind_names_distinct show "p = q" by (auto simp: distinct_map dest: inj_onD)
  qed
  moreover have "distinct DRIFT_KIND_NAMES" using kind_names_distinct by (simp add: distinct_map)
  ultimately show ?thesis by (simp add: distinct_map)
qed

text \<open>The backfill and the event stream label a drift kind alike: for every kind of the enum, the loader's label of its
  name is the event path's label of its number; the labels of distinct kinds are distinct, and a name the enum does
  not have is kept in lower case.\<close>

theorem revision_kind_paths_agree:
  "list_all (\<lambda>(n, nm). normalizeRevisionKind nm = driftKindToString n) DRIFT_KIND_NAMES \<and>
   distinct (map (driftKindToString \<circ> fst) DRIFT_KIND_NAMES) \<and>
   normalizeRevisionKind (''x_'' @ s) = ''x_'' @ to_lower s"
proof -
  have "list_all (\<lambda>(n, nm). normalizeRevisionKind nm = driftKindToString n) DRIFT_KIND_NAMES"
    using kind_label_eq by (auto simp: list_all_iff)
  moreover have "distinct (map (driftKindToString \<circ> fst) DRIFT_KIND_NAMES)" by (rule kind_labels_distinct)
  moreover have "normalizeRevisionKind (''x_'' @ s) = ''x_'' @ to_lower s"
    by (simp add: normalizeRevisionKind_eq to_upper_def to_upper_char_def to_lower_def to_lower_char_def Let_def)
  ultimately show ?thesis by blast
qed

section \<open>The backfill is complete and idempotent\<close>

definition wire_records :: "int \<Rightarrow> wire_revision list \<Rightarrow> plan_revision_record list" where
  "wire_records start wires = List.map_filter (\<lambda>w. revisionFromWire w start) wires"

lemma load_run_history: "fst (foldl (load_one start) s wires) = foldl hi_append (fst s) (wire_records start wires)"
proof (induction wires arbitrary: s)
  case (Cons w ws)
  have "fst (load_one start s w) = (case revisionFromWire w start of None \<Rightarrow> fst s | Some r \<Rightarrow> hi_append (fst s) r)"
    by (simp add: load_one_def Let_def split_beta split: option.split)
  with Cons show ?case by (simp add: wire_records_def List.map_filter_simps split: option.split)
qed (simp add: wire_records_def List.map_filter_simps)

definition in_history :: "plan_history \<Rightarrow> plan_revision_record \<Rightarrow> bool" where
  "in_history h r =
     (if tp_id (ph_plan r) = '''' then True
      else case map_of (hi_revisions h) (tp_id (ph_plan r)) of
             None \<Rightarrow> False | Some arr \<Rightarrow> list_ex (\<lambda>x. ph_revision x = ph_revision r) arr)"

lemma in_history_same: "in_history h r \<Longrightarrow> hi_append h r = h"
  by (cases "tp_id (ph_plan r) = ''''")
    (auto simp: in_history_def hi_append_def Let_def update_same split: option.splits)

lemma hi_append_cases:
  "tp_id (ph_plan r) \<noteq> '''' \<Longrightarrow>
   hi_revisions (hi_append h r) = AList.update (tp_id (ph_plan r))
     (let arr = hi_historyFor h (tp_id (ph_plan r))
      in if list_ex (\<lambda>x. ph_revision x = ph_revision r) arr then arr else place_revision r arr) (hi_revisions h)"
  by (simp add: hi_append_def hi_historyFor_def hi_emit_def Let_def)

lemma in_history_new: "in_history (hi_append h r) r"
  by (simp add: in_history_def hi_append_cases Let_def list_ex_iff)

lemma in_history_mono: "in_history h q \<Longrightarrow> in_history (hi_append h r) q"
proof (cases "tp_id (ph_plan r) = ''''")
  case True
  then have "hi_append h r = h" by (simp add: hi_append_def Let_def)
  then show "in_history h q \<Longrightarrow> ?thesis" by simp
next
  case False
  show "in_history h q \<Longrightarrow> ?thesis"
    by (auto simp: in_history_def hi_append_cases [OF False] hi_historyFor_def Let_def list_ex_iff split: option.splits if_splits)
qed

lemma in_history_run: "in_history h q \<Longrightarrow> in_history (foldl hi_append h rs) q"
  by (induction rs arbitrary: h) (simp_all add: in_history_mono)

lemma in_history_all: "r \<in> set rs \<Longrightarrow> in_history (foldl hi_append h rs) r"
  by (induction rs arbitrary: h) (auto simp: in_history_new in_history_run)

lemma load_settled:
  assumes "\<And>r. r \<in> set (wire_records start wires) \<Longrightarrow> in_history h r"
  shows "foldl (load_one start) (h, res) wires = (h, res)"
  using assms
proof (induction wires)
  case (Cons w ws)
  have "load_one start (h, res) w = (h, res)"
  proof (cases "revisionFromWire w start")
    case (Some r)
    then have "r \<in> set (wire_records start (w # ws))" by (simp add: wire_records_def List.map_filter_simps)
    from in_history_same [OF Cons.prems [OF this]] Some show ?thesis by (simp add: load_one_def Let_def)
  qed (simp add: load_one_def)
  moreover have "in_history h r" if "r \<in> set (wire_records start ws)" for r
    using Cons.prems [of r] that by (simp add: wire_records_def List.map_filter_simps split: option.splits)
  ultimately show ?case using Cons.IH by simp
qed simp

text \<open>C31: The backfill stores every revision that has a plan with an id and is safe to repeat: loading the same reply again,
  whatever the history was before, appends nothing, changes nothing and notifies nobody; a missing method or a failed
  call leaves the store as it is and says so in the result.\<close>

theorem load_history_idempotent:
  "let (st1, res1) = loadPlanHistory (Reply wires) sid st start;
       (st2, res2) = loadPlanHistory (Reply wires) sid st1 start
   in st2 = st1 \<and> lr_appended res2 = 0 \<and> lr_skipped res1 = (sid = '''') \<and>
      (if sid = '''' then st1 = st else list_all (in_history (ss_planHistory st1)) (wire_records start wires)) \<and>
      loadPlanHistory (CallFailed err) (c # cs) st start =
        (st, \<lparr>lr_skipped = False, lr_fetched = False, lr_appended = 0, lr_error = Some err\<rparr>)"
proof -
  define res0 where "res0 = \<lparr>lr_skipped = False, lr_fetched = True, lr_appended = 0, lr_error = None :: string option\<rparr>"
  have load: "loadPlanHistory (Reply wires) sid s start =
      (let x = foldl (load_one start) (ss_planHistory s, res0) wires in (s\<lparr>ss_planHistory := fst x\<rparr>, snd x))" if "sid \<noteq> ''''" for s
    using that by (simp add: loadPlanHistory_def res0_def Let_def split_beta)
  have skipped: "lr_skipped (snd (foldl (load_one start) s wires)) = lr_skipped (snd s)" for s
  proof (induction wires arbitrary: s)
    case (Cons w ws)
    then show ?case by (simp add: load_one_def Let_def split_beta split: option.split)
  qed simp
  have failed: "loadPlanHistory (CallFailed err) (c # cs) st start =
        (st, \<lparr>lr_skipped = False, lr_fetched = False, lr_appended = 0, lr_error = Some err\<rparr>)" by (simp add: loadPlanHistory_def)
  show ?thesis
  proof (cases "sid = ''''")
    case True
    then show ?thesis by (simp add: loadPlanHistory_def Let_def)
  next
    case False
    define h where "h = fst (foldl (load_one start) (ss_planHistory st, res0) wires)"
    have hist: "in_history h r" if "r \<in> set (wire_records start wires)" for r
      using in_history_all [OF that] by (simp add: h_def load_run_history)
    have again: "foldl (load_one start) (h, res0) wires = (h, res0)" by (rule load_settled) (rule hist)
    show ?thesis
      using False hist again skipped [of "(ss_planHistory st, res0)"] failed
      by (simp add: load Let_def h_def [symmetric] list_all_iff) (simp add: res0_def)
  qed
qed

end
