(* ===== verification/Layout.thy ===== *)
theory Layout
  imports SpanIndex
begin

text \<open>
  \<open>packLanes\<close> of \<open>frontend/src/gantt/layout.ts\<close>: greedy packing of an agent's spans into lanes. The code
  sorts the array it is given and writes \<open>lane\<close> into the span objects; the model returns the sorted spans with their
  lanes. The comparator's \<open>Infinity - Infinity\<close> is NaN, which the sort reads as 0.
\<close>

definition end_time :: "span \<Rightarrow> etime" where
  "end_time s = (case sp_endMs s of None \<Rightarrow> PInf | Some e \<Rightarrow> Fin e)"

definition lane_cmp :: "span \<Rightarrow> span \<Rightarrow> int" where
  "lane_cmp a b =
     (if sp_startMs a \<noteq> sp_startMs b then sp_startMs a - sp_startMs b
      else case (end_time a, end_time b) of
             (Fin ae, Fin be) \<Rightarrow> ae - be
           | (PInf, Fin be) \<Rightarrow> 1
           | (Fin ae, PInf) \<Rightarrow> -1
           | (PInf, PInf) \<Rightarrow> 0)"

fun first_free :: "etime list \<Rightarrow> int \<Rightarrow> nat" where
  \<comment> \<open>the first lane whose end is at or before the start; the number of lanes when there is none\<close>
  "first_free [] t = 0"
| "first_free (e # es) t = (if e \<le> Fin t then 0 else Suc (first_free es t))"

record packing =
  pk_laneEnds :: "etime list"
  pk_placed :: "span list"
  pk_maxLane :: nat

definition pack_span :: "packing \<Rightarrow> span \<Rightarrow> packing" where
  "pack_span p s =
     (let lane = first_free (pk_laneEnds p) (sp_startMs s);
          ends = (if lane = length (pk_laneEnds p) then pk_laneEnds p @ [Fin 0] else pk_laneEnds p)
      in \<lparr>pk_laneEnds = ends[lane := end_time s], pk_placed = pk_placed p @ [s\<lparr>sp_lane := int lane\<rparr>],
          pk_maxLane = (if pk_maxLane p < lane then lane else pk_maxLane p)\<rparr>)"

definition packLanes :: "span list \<Rightarrow> span list \<times> nat" where
  "packLanes spans =
     (let p = foldl pack_span \<lparr>pk_laneEnds = [], pk_placed = [], pk_maxLane = 0\<rparr> (js_sort lane_cmp spans)
      in (pk_placed p, pk_maxLane p + 1))"

section \<open>No two spans of a lane overlap, and no lane is wasted\<close>

definition open_at :: "int \<Rightarrow> span \<Rightarrow> bool" where
  "open_at t s = (sp_startMs s \<le> t \<and> Fin t < end_time s)"

lemma first_free_le: "first_free es t \<le> length es"
  by (induction es) auto

lemma first_free_hit: "first_free es t < length es \<Longrightarrow> es ! first_free es t \<le> Fin t"
  by (induction es) (auto split: if_splits)

lemma first_free_busy: "i < first_free es t \<Longrightarrow> Fin t < es ! i"
proof (induction es arbitrary: i)
  case (Cons e es)
  then show ?case by (cases i) (auto split: if_splits simp: not_le)
qed simp

lemma end_time_lane [simp]: "end_time (s\<lparr>sp_lane := l\<rparr>) = end_time s"
  by (simp add: end_time_def split: option.split)

text \<open>
  The invariant of the loop, for spans sorted by start: the lanes in use are those of the placed spans; each lane
  remembers the end of its last span, which no earlier span of the lane passes; and the placed spans of a lane do
  not overlap.
\<close>

definition packed_ok :: "packing \<Rightarrow> bool" where
  "packed_ok p =
     ((\<forall>x\<in>set (pk_placed p). 0 \<le> sp_lane x \<and> nat (sp_lane x) < length (pk_laneEnds p) \<and>
         end_time x \<le> pk_laneEnds p ! nat (sp_lane x)) \<and>
      (\<forall>l<length (pk_laneEnds p). \<exists>x\<in>set (pk_placed p). sp_lane x = int l \<and> end_time x = pk_laneEnds p ! l) \<and>
      sorted_wrt (\<lambda>a b. sp_lane a \<noteq> sp_lane b \<or> end_time a \<le> Fin (sp_startMs b)) (pk_placed p) \<and>
      length (pk_laneEnds p) = (if pk_placed p = [] then 0 else Suc (pk_maxLane p)) \<and>
      (pk_placed p = [] \<longrightarrow> pk_maxLane p = 0))"

lemma packed_okD:
  assumes "packed_ok p"
  shows "x \<in> set (pk_placed p) \<Longrightarrow> 0 \<le> sp_lane x \<and> nat (sp_lane x) < length (pk_laneEnds p) \<and>
      end_time x \<le> pk_laneEnds p ! nat (sp_lane x)"
    and "l < length (pk_laneEnds p) \<Longrightarrow> \<exists>x\<in>set (pk_placed p). sp_lane x = int l \<and> end_time x = pk_laneEnds p ! l"
    and "sorted_wrt (\<lambda>a b. sp_lane a \<noteq> sp_lane b \<or> end_time a \<le> Fin (sp_startMs b)) (pk_placed p)"
    and "length (pk_laneEnds p) = (if pk_placed p = [] then 0 else Suc (pk_maxLane p))"
    and "pk_placed p = [] \<Longrightarrow> pk_maxLane p = 0"
  using assms by (auto simp: packed_ok_def)

lemma packed_ok_step:
  assumes ok: "packed_ok p" and s: "Fin (sp_startMs s) \<le> end_time s"
  shows "packed_ok (pack_span p s)"
proof -
  define lane where "lane = first_free (pk_laneEnds p) (sp_startMs s)"
  define ends where "ends = (if lane = length (pk_laneEnds p) then pk_laneEnds p @ [Fin 0] else pk_laneEnds p)"
  have p': "pack_span p s = \<lparr>pk_laneEnds = ends[lane := end_time s], pk_placed = pk_placed p @ [s\<lparr>sp_lane := int lane\<rparr>],
      pk_maxLane = (if pk_maxLane p < lane then lane else pk_maxLane p)\<rparr>"
    by (simp add: pack_span_def Let_def lane_def ends_def)
  have le: "lane \<le> length (pk_laneEnds p)" by (simp add: lane_def first_free_le)
  have len: "length ends = (if lane = length (pk_laneEnds p) then Suc (length (pk_laneEnds p)) else length (pk_laneEnds p))"
    by (simp add: ends_def)
  have ends: "ends ! i = pk_laneEnds p ! i" if "i < length (pk_laneEnds p)" for i
    using that by (simp add: ends_def nth_append)
  have clear: "end_time x \<le> Fin (sp_startMs s)" if x: "x \<in> set (pk_placed p)" "sp_lane x = int lane" for x
  proof -
    have "lane < length (pk_laneEnds p)" "end_time x \<le> pk_laneEnds p ! lane"
      using packed_okD(1) [OF ok x(1)] x(2) by auto
    with first_free_hit [of "pk_laneEnds p" "sp_startMs s"] show ?thesis unfolding lane_def by (meson order_trans)
  qed
  have one: "0 \<le> sp_lane x \<and> nat (sp_lane x) < length (ends[lane := end_time s]) \<and>
      end_time x \<le> ends[lane := end_time s] ! nat (sp_lane x)" if x: "x \<in> set (pk_placed p @ [s\<lparr>sp_lane := int lane\<rparr>])" for x
  proof (cases "x \<in> set (pk_placed p)")
    case True
    note old = packed_okD(1) [OF ok True]
    show ?thesis
    proof (cases "sp_lane x = int lane")
      case same: True
      have "end_time x \<le> end_time s" using clear [OF True same] s by (rule order_trans)
      with same old le show ?thesis by (auto simp: len nth_list_update)
    next
      case False
      then have "nat (sp_lane x) \<noteq> lane" using old by auto
      with old ends le show ?thesis by (auto simp: len nth_list_update)
    qed
  next
    case False
    with x have "x = s\<lparr>sp_lane := int lane\<rparr>" by simp
    then show ?thesis using le by (auto simp: len)
  qed
  have two: "\<exists>x\<in>set (pk_placed p @ [s\<lparr>sp_lane := int lane\<rparr>]). sp_lane x = int l \<and> end_time x = ends[lane := end_time s] ! l"
    if l: "l < length (ends[lane := end_time s])" for l
  proof (cases "l = lane")
    case True
    then show ?thesis using l by auto
  next
    case False
    with l le have "l < length (pk_laneEnds p)" by (auto simp: len split: if_splits)
    with packed_okD(2) [OF ok this] ends False show ?thesis by (auto simp: nth_list_update)
  qed
  have three: "sorted_wrt (\<lambda>a b. sp_lane a \<noteq> sp_lane b \<or> end_time a \<le> Fin (sp_startMs b)) (pk_placed p @ [s\<lparr>sp_lane := int lane\<rparr>])"
    using packed_okD(3) [OF ok] clear by (auto simp: sorted_wrt_append)
  have four: "length (ends[lane := end_time s]) =
      (if pk_placed p @ [s\<lparr>sp_lane := int lane\<rparr>] = [] then 0 else Suc (if pk_maxLane p < lane then lane else pk_maxLane p))"
    using packed_okD(4,5) [OF ok] le by (cases "pk_placed p") (auto simp: len)
  show ?thesis unfolding p' packed_ok_def using one two three four by simp
qed

lemma pack_span_placed:
  "pk_placed (pack_span p s) = pk_placed p @ [s\<lparr>sp_lane := int (first_free (pk_laneEnds p) (sp_startMs s))\<rparr>]"
  by (simp add: pack_span_def Let_def)

lemma pack_span_ends:
  "length (pk_laneEnds (pack_span p s)) =
     (if first_free (pk_laneEnds p) (sp_startMs s) = length (pk_laneEnds p) then Suc (length (pk_laneEnds p))
      else length (pk_laneEnds p))"
  by (simp add: pack_span_def Let_def)

lemma open_at_lane [simp]: "open_at t (s\<lparr>sp_lane := l\<rparr>) = open_at t s"
  by (simp add: open_at_def)

text \<open>Opening a lane means that every lane is busy: that many spans are running at the new span's start.\<close>

lemma lanes_all_busy:
  assumes ok: "packed_ok p" and new: "first_free (pk_laneEnds p) t = length (pk_laneEnds p)"
    and le: "\<forall>x\<in>set (pk_placed p). sp_startMs x \<le> t"
  shows "length (pk_laneEnds p) \<le> length (filter (open_at t) (pk_placed p))"
proof -
  let ?n = "length (pk_laneEnds p)" and ?busy = "filter (open_at t) (pk_placed p)"
  have "int ` {..<?n} \<subseteq> sp_lane ` set ?busy"
  proof (intro image_subsetI)
    fix l assume "l \<in> {..<?n}"
    then have l: "l < ?n" by simp
    then have "Fin t < pk_laneEnds p ! l" using first_free_busy [of l "pk_laneEnds p" t] new by simp
    with packed_okD(2) [OF ok l] le show "int l \<in> sp_lane ` set ?busy" by (force simp: open_at_def)
  qed
  then have "card (int ` {..<?n}) \<le> card (sp_lane ` set ?busy)" by (intro card_mono) auto
  also have "\<dots> \<le> length ?busy" by (meson card_image_le card_length finite_set order_trans)
  finally show ?thesis by (simp add: card_image)
qed

text \<open>The spans of one lane that run at one time are at most one, so a time never needs more than the lanes there are.\<close>

lemma open_lanes_distinct:
  assumes "sorted_wrt (\<lambda>a b. sp_lane a \<noteq> sp_lane b \<or> end_time a \<le> Fin (sp_startMs b)) xs"
  shows "distinct (map sp_lane (filter (open_at t) xs))"
proof -
  have "sp_lane x \<noteq> sp_lane y" if "open_at t x" "open_at t y"
    "sp_lane x \<noteq> sp_lane y \<or> end_time x \<le> Fin (sp_startMs y)" for x y
    using that by (cases "end_time x") (auto simp: open_at_def)
  with assms show ?thesis by (induction xs) auto
qed

lemma open_le_lanes:
  assumes ok: "packed_ok p"
  shows "length (filter (open_at t) (pk_placed p)) \<le> length (pk_laneEnds p)"
proof -
  let ?lanes = "map sp_lane (filter (open_at t) (pk_placed p))"
  have d: "distinct ?lanes" using packed_okD(3) [OF ok] by (rule open_lanes_distinct)
  have "set ?lanes \<subseteq> int ` {..<length (pk_laneEnds p)}"
  proof
    fix l assume "l \<in> set ?lanes"
    then obtain x where "x \<in> set (pk_placed p)" "l = sp_lane x" by auto
    with packed_okD(1) [OF ok this(1)] show "l \<in> int ` {..<length (pk_laneEnds p)}"
      by (metis imageI int_nat_eq lessThan_iff)
  qed
  then have "card (set ?lanes) \<le> length (pk_laneEnds p)" by (metis card_image_le card_lessThan card_mono finite_imageI finite_lessThan order_trans)
  with distinct_card [OF d] show ?thesis by simp
qed

lemma packed_tight_step:
  assumes ok: "packed_ok p" and le: "\<forall>x\<in>set (pk_placed p). sp_startMs x \<le> sp_startMs s"
    and pos: "Fin (sp_startMs s) < end_time s"
    and tight: "pk_placed p \<noteq> [] \<Longrightarrow> \<exists>t. length (pk_laneEnds p) \<le> length (filter (open_at t) (pk_placed p))"
  shows "\<exists>t. length (pk_laneEnds (pack_span p s)) \<le> length (filter (open_at t) (pk_placed (pack_span p s)))"
proof (cases "first_free (pk_laneEnds p) (sp_startMs s) = length (pk_laneEnds p)")
  case True
  have "open_at (sp_startMs s) s" using pos by (simp add: open_at_def)
  with lanes_all_busy [OF ok True le] show ?thesis
    by (intro exI [of _ "sp_startMs s"]) (simp add: pack_span_ends pack_span_placed True)
next
  case False
  with first_free_le [of "pk_laneEnds p" "sp_startMs s"] have "pk_laneEnds p \<noteq> []" by auto
  with packed_okD(4) [OF ok] have "pk_placed p \<noteq> []" by auto
  from tight [OF this] obtain t where "length (pk_laneEnds p) \<le> length (filter (open_at t) (pk_placed p))" ..
  then show ?thesis by (intro exI [of _ t]) (simp add: pack_span_ends pack_span_placed False)
qed

definition pack_all :: "packing \<Rightarrow> span list \<Rightarrow> packing" where
  "pack_all p xs = foldl pack_span p xs"

lemma pack_all_simps [simp]: "pack_all p [] = p" "pack_all p (x # xs) = pack_all (pack_span p x) xs"
  by (simp_all add: pack_all_def)

lemma pack_all_ok:
  assumes "packed_ok p" and "\<forall>x\<in>set xs. Fin (sp_startMs x) \<le> end_time x"
  shows "packed_ok (pack_all p xs)"
  using assms by (induction xs arbitrary: p) (simp_all add: packed_ok_step)

lemma pack_all_tight:
  assumes "packed_ok p" and "\<forall>x\<in>set xs. Fin (sp_startMs x) < end_time x" and "sorted (map sp_startMs xs)"
    and "\<forall>y\<in>set (pk_placed p). \<forall>x\<in>set xs. sp_startMs y \<le> sp_startMs x"
    and "pk_placed p \<noteq> [] \<Longrightarrow> \<exists>t. length (pk_laneEnds p) \<le> length (filter (open_at t) (pk_placed p))"
    and "pk_placed p \<noteq> [] \<or> xs \<noteq> []"
  shows "\<exists>t. length (pk_laneEnds (pack_all p xs)) \<le> length (filter (open_at t) (pk_placed (pack_all p xs)))"
  using assms
proof (induction xs arbitrary: p)
  case (Cons x xs)
  have step: "\<exists>t. length (pk_laneEnds (pack_span p x)) \<le> length (filter (open_at t) (pk_placed (pack_span p x)))"
    using Cons.prems by (intro packed_tight_step) auto
  have "\<exists>t. length (pk_laneEnds (pack_all (pack_span p x) xs)) \<le> length (filter (open_at t) (pk_placed (pack_all (pack_span p x) xs)))"
    using Cons.prems step by (intro Cons.IH) (auto simp: packed_ok_step less_imp_le pack_span_placed)
  then show ?case by simp
qed simp

lemma pack_all_placed:
  "map (\<lambda>s. s\<lparr>sp_lane := l\<rparr>) (pk_placed (pack_all p xs)) = map (\<lambda>s. s\<lparr>sp_lane := l\<rparr>) (pk_placed p @ xs)"
  by (induction xs arbitrary: p) (simp_all add: pack_span_placed)

lemma packed_ok_Nil: "packed_ok \<lparr>pk_laneEnds = [], pk_placed = [], pk_maxLane = 0\<rparr>"
  by (simp add: packed_ok_def)

lemma lane_sort_sorted: "sorted (map sp_startMs (js_sort lane_cmp spans))"
  by (rule sorted_js_sort) (auto simp: lane_cmp_def split: if_splits)

lemma packLanes_all:
  "packLanes spans = (let p = pack_all \<lparr>pk_laneEnds = [], pk_placed = [], pk_maxLane = 0\<rparr> (js_sort lane_cmp spans)
                      in (pk_placed p, pk_maxLane p + 1))"
  by (simp add: packLanes_def pack_all_def)

lemma packLanes_no_overlap:
  assumes "list_all (\<lambda>s. Fin (sp_startMs s) \<le> end_time s) spans"
  shows "sorted_wrt (\<lambda>a b. sp_lane a \<noteq> sp_lane b \<or> end_time a \<le> Fin (sp_startMs b)) (fst (packLanes spans))"
    and "list_all (\<lambda>s. 0 \<le> sp_lane s \<and> sp_lane s < int (snd (packLanes spans))) (fst (packLanes spans))"
    and "map (\<lambda>s. s\<lparr>sp_lane := l\<rparr>) (fst (packLanes spans)) = map (\<lambda>s. s\<lparr>sp_lane := l\<rparr>) (js_sort lane_cmp spans)"
    and "sorted (map sp_startMs (js_sort lane_cmp spans))"
proof -
  let ?p = "pack_all \<lparr>pk_laneEnds = [], pk_placed = [], pk_maxLane = 0\<rparr> (js_sort lane_cmp spans)"
  have ok: "packed_ok ?p" using assms by (intro pack_all_ok packed_ok_Nil) (simp add: list_all_iff)
  show "sorted_wrt (\<lambda>a b. sp_lane a \<noteq> sp_lane b \<or> end_time a \<le> Fin (sp_startMs b)) (fst (packLanes spans))"
    using packed_okD(3) [OF ok] by (simp add: packLanes_all Let_def)
  have "0 \<le> sp_lane x \<and> sp_lane x < int (pk_maxLane ?p + 1)" if "x \<in> set (pk_placed ?p)" for x
    using packed_okD(1) [OF ok that] packed_okD(4) [OF ok] that by (auto split: if_splits)
  then show "list_all (\<lambda>s. 0 \<le> sp_lane s \<and> sp_lane s < int (snd (packLanes spans))) (fst (packLanes spans))"
    by (simp add: packLanes_all Let_def list_all_iff)
  show "map (\<lambda>s. s\<lparr>sp_lane := l\<rparr>) (fst (packLanes spans)) = map (\<lambda>s. s\<lparr>sp_lane := l\<rparr>) (js_sort lane_cmp spans)"
    by (simp add: packLanes_all Let_def pack_all_placed)
  show "sorted (map sp_startMs (js_sort lane_cmp spans))" by (rule lane_sort_sorted)
qed

text \<open>C3: \<open>packLanes\<close> keeps the spans up to their lanes, sorts them by start, gives two spans of one lane no
  common time, and uses as few lanes as can be: for spans of positive length the number it returns is the maximal
  concurrency, no time has more running spans, and some time has as many.\<close>

theorem packLanes_optimal:
  assumes ne: "spans \<noteq> []" and pos: "list_all (\<lambda>s. Fin (sp_startMs s) < end_time s) spans"
  shows "sorted_wrt (\<lambda>a b. sp_lane a \<noteq> sp_lane b \<or> end_time a \<le> Fin (sp_startMs b)) (fst (packLanes spans)) \<and>
         map (\<lambda>s. s\<lparr>sp_lane := l\<rparr>) (fst (packLanes spans)) = map (\<lambda>s. s\<lparr>sp_lane := l\<rparr>) (js_sort lane_cmp spans) \<and>
         sorted (map sp_startMs (js_sort lane_cmp spans)) \<and>
         (\<forall>t. length (filter (open_at t) (fst (packLanes spans))) \<le> snd (packLanes spans)) \<and>
         (\<exists>t. length (filter (open_at t) (fst (packLanes spans))) = snd (packLanes spans))"
proof -
  let ?p = "pack_all \<lparr>pk_laneEnds = [], pk_placed = [], pk_maxLane = 0\<rparr> (js_sort lane_cmp spans)"
  have ne': "js_sort lane_cmp spans \<noteq> []" using ne length_js_sort [of lane_cmp spans] by (metis length_0_conv)
  have le: "list_all (\<lambda>s. Fin (sp_startMs s) \<le> end_time s) spans" using pos by (auto simp: list_all_iff less_imp_le)
  have ok: "packed_ok ?p" using le by (intro pack_all_ok packed_ok_Nil) (auto simp: list_all_iff)
  have placed: "pk_placed ?p \<noteq> []"
    using ne' pack_all_placed [of 0 "\<lparr>pk_laneEnds = [], pk_placed = [], pk_maxLane = 0\<rparr>" "js_sort lane_cmp spans"]
    by (metis append_Nil map_is_Nil_conv packing.select_convs(2))
  with packed_okD(4) [OF ok] have n: "snd (packLanes spans) = length (pk_laneEnds ?p)" by (simp add: packLanes_all Let_def)
  have f: "fst (packLanes spans) = pk_placed ?p" by (simp add: packLanes_all Let_def)
  have "\<exists>t. length (pk_laneEnds ?p) \<le> length (filter (open_at t) (pk_placed ?p))"
    using pos ne' lane_sort_sorted by (intro pack_all_tight packed_ok_Nil) (auto simp: list_all_iff)
  with open_le_lanes [OF ok] have "(\<forall>t. length (filter (open_at t) (fst (packLanes spans))) \<le> snd (packLanes spans)) \<and>
         (\<exists>t. length (filter (open_at t) (fst (packLanes spans))) = snd (packLanes spans))"
    unfolding n f by (meson order_antisym)
  with packLanes_no_overlap [OF le] show ?thesis by blast
qed

theorem packLanes_optimal_witness:
  "\<exists>t. length (filter (open_at t) (fst (packLanes [demoSpan ''b'' 10 (Some 20), demoSpan ''c'' 15 None]))) =
        snd (packLanes [demoSpan ''b'' 10 (Some 20), demoSpan ''c'' 15 None])"
  using packLanes_optimal [of "[demoSpan ''b'' 10 (Some 20), demoSpan ''c'' 15 None]"]
  by (simp add: demoSpan_def end_time_def)

end
