(* ===== verification/Watch.thy ===== *)
theory Watch
  imports PlanLoader Layout
begin

text \<open>
  \<open>frontend/src/rpc/hooks.ts\<close>: the session watch. A message of the server stream is a constructor of \<open>watch_msg\<close>, one per
  case of the oneof; \<open>watch_step\<close> is the body of the dispatch loop. The state of one session holds the module-level
  caches, the local variable \<open>origin\<close> of the loop, the two global stores, and the \<open>stateRef\<close> of every consumer that
  has subscribed, of which the loop writes the one that opened the stream. Every message comes with one reading of the
  clock. The reply of \<open>loadPlanHistory\<close> arrives later, as a step of its own.
\<close>

section \<open>State\<close>

datatype lifecycle = LC_UNKNOWN | LC_LIVE | LC_COMPLETED | LC_ABORTED

definition lifecycleFromPb :: "int \<Rightarrow> lifecycle" where
  "lifecycleFromPb status =
     (if status = 1 then LC_LIVE else if status = 2 then LC_COMPLETED else if status = 3 then LC_ABORTED else LC_UNKNOWN)"

record watch_view =
  wv_connected :: bool
  wv_burst :: bool
  wv_error :: "string option"
  wv_status :: lifecycle
  wv_lastEventAt :: int

record watch_state =
  ws_store :: session_store
  ws_approvals :: approvals_state
  ws_annotations :: annotation_state
  ws_origin :: "int option"       \<comment> \<open>the local variable of the running loop\<close>
  ws_originCache :: "int option"
  ws_status :: "lifecycle option"
  ws_lastEvent :: "int option"
  ws_backfilled :: bool
  ws_loading :: "int option"      \<comment> \<open>a running \<open>loadPlanHistory\<close>, with the session start it was given\<close>
  ws_refs :: "int option"
  ws_streaming :: bool            \<comment> \<open>a controller is registered and not aborted\<close>
  ws_views :: "watch_view list"   \<comment> \<open>one per subscription, in order\<close>
  ws_owner :: nat                 \<comment> \<open>the subscription whose effect runs the loop\<close>
  ws_ticks :: nat

definition emptyWatch :: watch_state where
  "emptyWatch = \<lparr>ws_store = emptyStore, ws_approvals = [], ws_annotations = [], ws_origin = None, ws_originCache = None,
     ws_status = None, ws_lastEvent = None, ws_backfilled = False, ws_loading = None, ws_refs = None, ws_streaming = False, ws_views = [],
     ws_owner = 0, ws_ticks = 0\<rparr>"

definition INACTIVITY_COMPLETED_MS :: int where
  "INACTIVITY_COMPLETED_MS = 30000"

definition sessionIsInactive :: "watch_view \<Rightarrow> int \<Rightarrow> int \<Rightarrow> bool" where
  "sessionIsInactive v nowWallMs inactivityMs =
     (if \<not> wv_burst v then False
      else if wv_status v = LC_COMPLETED \<or> wv_status v = LC_ABORTED then True
      else if \<not> wv_connected v \<and> 0 < wv_lastEventAt v \<and> inactivityMs < nowWallMs - wv_lastEventAt v then True
      else False)"

definition set_view :: "watch_state \<Rightarrow> (watch_view \<Rightarrow> watch_view) \<Rightarrow> watch_state" where
  \<comment> \<open>\<open>stateRef.current = { ...stateRef.current, ... }\<close> in the effect that runs the loop\<close>
  "set_view w f = w\<lparr>ws_views := (ws_views w)[ws_owner w := f (ws_views w ! ws_owner w)]\<rparr>"

definition tick :: "watch_state \<Rightarrow> watch_state" where
  "tick w = w\<lparr>ws_ticks := Suc (ws_ticks w)\<rparr>"

definition map_store :: "(session_store \<Rightarrow> session_store) \<Rightarrow> watch_state \<Rightarrow> watch_state" where
  "map_store f w = w\<lparr>ws_store := f (ws_store w)\<rparr>"

section \<open>Subscribing\<close>

definition subscribe :: "watch_state \<Rightarrow> watch_state" where
  "subscribe w =
     (let prev = or_else (ws_refs w) 0;
          view = \<lparr>wv_connected = (prev \<noteq> 0), wv_burst = False, wv_error = None, wv_status = get_or (ws_status w) LC_UNKNOWN,
                  wv_lastEventAt = or_else (ws_lastEvent w) 0\<rparr>;
          w1 = tick (w\<lparr>ws_views := ws_views w @ [view], ws_refs := Some (prev + 1)\<rparr>)
      in if prev > 0 then w1
         else tick (set_view (w1\<lparr>ws_owner := length (ws_views w), ws_streaming := True, ws_origin := ws_originCache w\<rparr>)
                (\<lambda>v. v\<lparr>wv_connected := True\<rparr>)))"

definition unsubscribe :: "watch_state \<Rightarrow> watch_state" where
  "unsubscribe w =
     (let n = or_else (ws_refs w) 1 - 1
      in if n \<le> 0 then w\<lparr>ws_refs := None, ws_streaming := False\<rparr> else w\<lparr>ws_refs := Some n\<rparr>)"

definition streamFailed :: "string \<Rightarrow> watch_state \<Rightarrow> watch_state" where
  \<comment> \<open>the catch block of the loop\<close>
  "streamFailed msg w =
     (if \<not> ws_streaming w then w else tick (set_view w (\<lambda>v. v\<lparr>wv_error := Some msg, wv_connected := False\<rparr>)))"

section \<open>Lanes\<close>

definition MAX_SAFE_INTEGER :: rat where
  "MAX_SAFE_INTEGER = 9007199254740991"

definition query_agent_spans :: "session_store \<Rightarrow> string \<Rightarrow> span list" where
  "query_agent_spans st agentId = si_queryAgent (ss_spans st) agentId (- MAX_SAFE_INTEGER) (At MAX_SAFE_INTEGER) []"

definition lane_in :: "span list \<Rightarrow> span \<Rightarrow> span" where
  "lane_in placed s = (case find (\<lambda>p. sp_id p = sp_id s) placed of None \<Rightarrow> s | Some p \<Rightarrow> s\<lparr>sp_lane := sp_lane p\<rparr>)"

definition write_lanes :: "session_store \<Rightarrow> span list \<Rightarrow> session_store" where
  \<comment> \<open>\<open>packLanes\<close> writes the lanes into the span objects of the index\<close>
  "write_lanes st spans =
     (let placed = fst (packLanes spans); ix = ss_spans st
      in st\<lparr>ss_spans := ix\<lparr>si_byId := map (\<lambda>(i, s). (i, lane_in placed s)) (si_byId ix)\<rparr>\<rparr>)"

definition repackAgentLanes :: "session_store \<Rightarrow> string \<Rightarrow> session_store" where
  "repackAgentLanes st agentId = (if agentId = '''' then st else write_lanes st (query_agent_spans st agentId))"

definition repackAll :: "session_store \<Rightarrow> session_store" where
  \<comment> \<open>the loop of \<open>burstComplete\<close>\<close>
  "repackAll st = foldl (\<lambda>st a. write_lanes st (query_agent_spans st (ag_id a))) st (ar_list (ss_agents st))"

section \<open>The arms of the dispatch\<close>

definition LEGACY :: string where
  \<comment> \<open>the default argument of \<open>mergeGoldfiveAlias\<close> and \<open>resolveGoldfiveActorId\<close>\<close>
  "LEGACY = GOLDFIVE_ACTOR_ID"

definition merge_if_goldfive :: "string \<Rightarrow> session_store \<Rightarrow> session_store" where
  "merge_if_goldfive agentId st = (if ends_with agentId '':goldfive'' then fst (mergeGoldfiveAlias st LEGACY) else st)"

definition set_status_cache :: "lifecycle \<Rightarrow> watch_state \<Rightarrow> watch_state" where
  "set_status_cache next w =
     (if ws_status w \<noteq> Some next then tick (set_view (w\<lparr>ws_status := Some next\<rparr>) (\<lambda>v. v\<lparr>wv_status := next\<rparr>)) else w)"

definition onSession :: "int \<Rightarrow> timestamp option \<Rightarrow> int \<Rightarrow> watch_state \<Rightarrow> watch_state" where
  "onSession now createdAt status w =
     (let startMs = or_num (case createdAt of None \<Rightarrow> 0 | Some t \<Rightarrow> ts_seconds t * 1000) now;
          w1 = w\<lparr>ws_origin := Some startMs, ws_originCache := Some startMs,
                 ws_store := rebaseRelativeTimestamps ((ws_store w)\<lparr>ss_wallClockStartMs := startMs\<rparr>) startMs,
                 ws_loading := (if ws_backfilled w then ws_loading w else Some startMs),
                 ws_backfilled := True\<rparr>
      in set_status_cache (lifecycleFromPb status) w1)"

definition onSessionEnded :: "int \<Rightarrow> watch_state \<Rightarrow> watch_state" where
  "onSessionEnded finalStatus w =
     (let next = lifecycleFromPb finalStatus
      in set_status_cache (if next = LC_UNKNOWN then LC_COMPLETED else next) w)"

definition onAgent :: "pb_agent \<Rightarrow> session_store \<Rightarrow> session_store" where
  "onAgent a st =
     (let agent = convertAgent a
      in merge_if_goldfive (ag_id agent) (st\<lparr>ss_agents := ar_upsert (ss_agents st) agent\<rparr>))"

definition default_origin :: "watch_state \<Rightarrow> watch_state" where
  \<comment> \<open>\<open>if (!origin) origin = { startMs: 0 }\<close>\<close>
  "default_origin w = (case ws_origin w of None \<Rightarrow> w\<lparr>ws_origin := Some 0\<rparr> | Some n \<Rightarrow> w)"

definition onInitialSpan :: "pb_span \<Rightarrow> watch_state \<Rightarrow> watch_state" where
  "onInitialSpan s w =
     (let w1 = default_origin w;
          span = convertSpan s (or_else (ws_origin w1) 0)
      in map_store (\<lambda>st. merge_if_goldfive (sp_agentId span) (append_span st span)) w1)"

definition onBurstComplete :: "watch_state \<Rightarrow> watch_state" where
  "onBurstComplete w = tick (set_view (map_store repackAll w) (\<lambda>v. v\<lparr>wv_burst := True\<rparr>))"

definition onNewSpan :: "pb_span option \<Rightarrow> watch_state \<Rightarrow> watch_state" where
  "onNewSpan so w =
     (let w1 = default_origin w
      in case so of
           None \<Rightarrow> w1
         | Some s \<Rightarrow>
             let ui = convertSpan s (or_else (ws_origin w1) 0);
                 agentId = sp_agentId ui
             in map_store (\<lambda>st. repackAgentLanes (merge_if_goldfive agentId (append_span st ui)) agentId) w1)"

definition UPDATED_STATUS :: "(int \<times> span_status) list" where
  "UPDATED_STATUS = [(0, SP_PENDING), (1, SP_PENDING), (2, SP_RUNNING), (3, SP_COMPLETED), (4, SP_FAILED), (5, SP_CANCELLED),
     (6, SP_AWAITING_HUMAN)]"

definition ENDED_STATUS :: "(int \<times> span_status) list" where
  "ENDED_STATUS = [(0, SP_COMPLETED), (1, SP_PENDING), (2, SP_RUNNING), (3, SP_COMPLETED), (4, SP_FAILED), (5, SP_CANCELLED),
     (6, SP_AWAITING_HUMAN)]"

definition mutate_span :: "session_store \<Rightarrow> span \<Rightarrow> session_store" where
  \<comment> \<open>the fields of the object behind \<open>sp_id\<close> are assigned, then \<open>store.spans.update(existing)\<close>\<close>
  "mutate_span st s =
     (let ix = ss_spans st
      in st\<lparr>ss_spans := si_update (ix\<lparr>si_byId := AList.update (sp_id s) s (si_byId ix)\<rparr>) s\<rparr>)"

definition onUpdatedSpan ::
  "string \<Rightarrow> int \<Rightarrow> (string, pb_attribute) jsmap \<Rightarrow> pb_payload_ref list \<Rightarrow> session_store \<Rightarrow> session_store" where
  "onUpdatedSpan spanId status attributes payloadRefs st =
     (case si_get (ss_spans st) spanId of
        None \<Rightarrow> st
      | Some existing \<Rightarrow>
          mutate_span st (existing\<lparr>
            sp_status := get_or (table_get UPDATED_STATUS status) (sp_status existing),
            sp_attributes := foldl (\<lambda>m (k, v). AList.update k (convertAttribute v) m) (sp_attributes existing) attributes,
            sp_payloadRefs := (if payloadRefs \<noteq> [] then map convertPayloadRef payloadRefs else sp_payloadRefs existing)\<rparr>))"

definition end_span ::
  "int option \<Rightarrow> timestamp option \<Rightarrow> int \<Rightarrow> pb_error option \<Rightarrow> pb_payload_ref list \<Rightarrow> span \<Rightarrow> span" where
  "end_span org endTime status err payloadRefs existing =
     existing\<lparr>
       sp_endMs := (case (endTime, org) of
                      (Some t, Some startMs) \<Rightarrow> Some (ts_seconds t * 1000 + ts_nanos t div 1000000 - startMs)
                    | _ \<Rightarrow> sp_endMs existing),
       sp_status := get_or (table_get ENDED_STATUS status) (sp_status existing),
       sp_error := (case err of None \<Rightarrow> sp_error existing | Some e \<Rightarrow> Some (convertError e)),
       sp_payloadRefs := (if payloadRefs \<noteq> [] then map convertPayloadRef payloadRefs else sp_payloadRefs existing)\<rparr>"

definition clear_idle_report :: "string \<Rightarrow> session_store \<Rightarrow> session_store" where
  "clear_idle_report agentId st =
     (let hasRunningInvocation = list_ex (\<lambda>s. sp_kind s = INVOCATION \<and> sp_endMs s = None) (query_agent_spans st agentId)
      in if hasRunningInvocation then st else st\<lparr>ss_agents := ar_clearTaskReport (ss_agents st) agentId\<rparr>)"

definition onEndedSpan ::
  "int option \<Rightarrow> string \<Rightarrow> timestamp option \<Rightarrow> int \<Rightarrow> pb_error option \<Rightarrow> pb_payload_ref list \<Rightarrow> session_store \<Rightarrow> session_store" where
  "onEndedSpan org spanId endTime status err payloadRefs st =
     (case si_get (ss_spans st) spanId of
        None \<Rightarrow> st
      | Some existing \<Rightarrow>
          let wasOpen = (sp_endMs existing = None);
              st1 = mutate_span st (end_span org endTime status err payloadRefs existing);
              st2 = (if wasOpen then repackAgentLanes st1 (sp_agentId existing) else st1)
          in if sp_kind existing = INVOCATION then clear_idle_report (sp_agentId existing) st2 else st2)"

definition span_target :: "session_store \<Rightarrow> pb_target option \<Rightarrow> span option" where
  \<comment> \<open>the span whose start a span-targeted annotation takes as its time\<close>
  "span_target st target = (case target of Some (TargetSpan i) \<Rightarrow> si_get (ss_spans st) i | _ \<Rightarrow> None)"

definition onAnnotation :: "pb_annotation \<Rightarrow> watch_state \<Rightarrow> watch_state" where
  "onAnnotation a w =
     (let w1 = default_origin w;
          span = span_target (ws_store w1) (pbn_target a)
      in w1\<lparr>ws_annotations := annotations_upsert (ws_annotations w1)
              (convertAnnotation a (or_else (ws_origin w1) 0) (map_option sp_startMs span))\<rparr>)"

definition onNewAnnotation :: "pb_annotation option \<Rightarrow> watch_state \<Rightarrow> watch_state" where
  "onNewAnnotation ao w = (case ao of None \<Rightarrow> default_origin w | Some a \<Rightarrow> onAnnotation a w)"

definition CONNECTION :: "(int \<times> agent_connection) list" where
  "CONNECTION = [(0, DISCONNECTED), (1, CONNECTED), (2, DISCONNECTED), (3, CRASHED)]"

definition onAgentStatus :: "string \<Rightarrow> int \<Rightarrow> string \<Rightarrow> bool \<Rightarrow> session_store \<Rightarrow> session_store" where
  "onAgentStatus agentId status currentActivity stuck st =
     st\<lparr>ss_agents := ar_setActivityAndStuck
          (ar_setStatus (ss_agents st) agentId (get_or (table_get CONNECTION status) DISCONNECTED)) agentId currentActivity stuck\<rparr>"

definition repack_goldfive :: "session_store \<Rightarrow> session_store" where
  "repack_goldfive st = repackAgentLanes st (resolveGoldfiveActorId st LEGACY)"

definition onGoldfive :: "int \<Rightarrow> string \<Rightarrow> gf_event \<Rightarrow> watch_state \<Rightarrow> watch_state" where
  "onGoldfive now sessionId e w =
     (let (st, ap) = applyGoldfiveEvent now e (ws_store w, ws_approvals w) (or_else (ws_origin w) 0) (Some sessionId)
      in w\<lparr>ws_store := repack_goldfive st, ws_approvals := ap\<rparr>)"

definition onRefineAttempted :: "int \<Rightarrow> hg_refine \<Rightarrow> watch_state \<Rightarrow> watch_state" where
  "onRefineAttempted now r w = map_store (\<lambda>st. applyRefineAttempted now r st (or_else (ws_origin w) 0)) w"

definition onRefineFailed :: "int \<Rightarrow> string \<Rightarrow> hg_refine \<Rightarrow> watch_state \<Rightarrow> watch_state" where
  "onRefineFailed now sessionId r w =
     map_store (\<lambda>st. repack_goldfive (applyRefineFailed now r st (or_else (ws_origin w) 0) (Some sessionId))) w"

definition onUserMessage :: "int \<Rightarrow> string \<Rightarrow> hg_user_message \<Rightarrow> watch_state \<Rightarrow> watch_state" where
  "onUserMessage now sessionId m w =
     map_store (\<lambda>st. repackAgentLanes (applyUserMessage now m st (or_else (ws_origin w) 0) (Some sessionId)) USER_ACTOR_ID) w"

definition onTaskReport :: "int \<Rightarrow> string \<Rightarrow> string \<Rightarrow> timestamp option \<Rightarrow> session_store \<Rightarrow> session_store" where
  "onTaskReport now agentId report recordedAt st =
     (let recordedMs = (case recordedAt of None \<Rightarrow> now | Some t \<Rightarrow> ts_seconds t * 1000 + ts_nanos t div 1000000)
      in st\<lparr>ss_agents := ar_setTaskReport (ss_agents st) agentId report recordedMs\<rparr>)"

definition onContextSample :: "string \<Rightarrow> timestamp option \<Rightarrow> int \<Rightarrow> int \<Rightarrow> session_store \<Rightarrow> session_store" where
  "onContextSample agentId recordedAt tokens limitTokens st =
     (case recordedAt of
        None \<Rightarrow> st
      | Some t \<Rightarrow>
          let wallMs = ts_seconds t * 1000 + ts_nanos t div 1000000;
              sessionStart = ss_wallClockStartMs st;
              tMs = (if sessionStart > 0 then wallMs - sessionStart else wallMs)
          in st\<lparr>ss_contextSeries := cs_append (ss_contextSeries st) agentId
               \<lparr>cw_tMs = tMs, cw_tokens = tokens, cw_limitTokens = limitTokens\<rparr>\<rparr>)"

section \<open>The dispatch loop\<close>

datatype watch_msg =
  MSession "timestamp option" int
  | MSessionEnded int
  | MAgent pb_agent
  | MInitialSpan pb_span
  | MBurstComplete
  | MNewSpan "pb_span option"
  | MUpdatedSpan string int "(string, pb_attribute) jsmap" "pb_payload_ref list"
  | MEndedSpan string "timestamp option" int "pb_error option" "pb_payload_ref list"
  | MInitialAnnotation pb_annotation
  | MNewAnnotation "pb_annotation option"
  | MAgentJoined "pb_agent option"
  | MAgentStatus string int string bool
  | MGoldfive gf_event
  | MRefineAttempted hg_refine
  | MRefineFailed hg_refine
  | MUserMessage hg_user_message
  | MTaskReport string string "timestamp option"
  | MContextSample string "timestamp option" int int
  | MOther   \<comment> \<open>a case without an arm\<close>
  | MUnset   \<comment> \<open>\<open>kind.case\<close> is undefined\<close>

definition touch :: "int \<Rightarrow> watch_state \<Rightarrow> watch_state" where
  "touch now w = set_view (w\<lparr>ws_lastEvent := Some now\<rparr>) (\<lambda>v. v\<lparr>wv_lastEventAt := now\<rparr>)"

fun dispatch :: "int \<Rightarrow> string \<Rightarrow> watch_msg \<Rightarrow> watch_state \<Rightarrow> watch_state" where
  "dispatch now sid (MSession createdAt status) w = onSession now createdAt status w"
| "dispatch now sid (MSessionEnded finalStatus) w = onSessionEnded finalStatus w"
| "dispatch now sid (MAgent a) w = map_store (onAgent a) w"
| "dispatch now sid (MInitialSpan s) w = onInitialSpan s w"
| "dispatch now sid MBurstComplete w = onBurstComplete w"
| "dispatch now sid (MNewSpan s) w = onNewSpan s w"
| "dispatch now sid (MUpdatedSpan i status attrs refs) w = map_store (onUpdatedSpan i status attrs refs) w"
| "dispatch now sid (MEndedSpan i endTime status err refs) w = map_store (onEndedSpan (ws_origin w) i endTime status err refs) w"
| "dispatch now sid (MInitialAnnotation a) w = onAnnotation a w"
| "dispatch now sid (MNewAnnotation a) w = onNewAnnotation a w"
| "dispatch now sid (MAgentJoined None) w = w"
| "dispatch now sid (MAgentJoined (Some a)) w = map_store (onAgent a) w"
| "dispatch now sid (MAgentStatus i status activity stuck) w = map_store (onAgentStatus i status activity stuck) w"
| "dispatch now sid (MGoldfive e) w = onGoldfive now sid e w"
| "dispatch now sid (MRefineAttempted r) w = onRefineAttempted now r w"
| "dispatch now sid (MRefineFailed r) w = onRefineFailed now sid r w"
| "dispatch now sid (MUserMessage m) w = onUserMessage now sid m w"
| "dispatch now sid (MTaskReport i report t) w = map_store (onTaskReport now i report t) w"
| "dispatch now sid (MContextSample i t tokens limit) w = map_store (onContextSample i t tokens limit) w"
| "dispatch now sid MOther w = w"
| "dispatch now sid MUnset w = w"

definition watch_step :: "int \<Rightarrow> string \<Rightarrow> watch_msg \<Rightarrow> watch_state \<Rightarrow> watch_state" where
  \<comment> \<open>one turn of the loop: an update without a case is skipped before anything is written\<close>
  "watch_step now sid m w = (if m = MUnset then w else dispatch now sid m (touch now w))"

definition historyLoaded :: "string \<Rightarrow> history_reply \<Rightarrow> watch_state \<Rightarrow> watch_state" where
  \<comment> \<open>the continuation of the backfill that \<open>onSession\<close> started\<close>
  "historyLoaded sid reply w =
     (case ws_loading w of
        None \<Rightarrow> w
      | Some startMs \<Rightarrow> w\<lparr>ws_store := fst (loadPlanHistory reply sid (ws_store w) startMs), ws_loading := None\<rparr>)"

section \<open>Posting an annotation\<close>

record post_args =
  po_spanTarget :: string
  po_body :: string
  po_kind :: annotation_kind
  po_author :: string

definition post_atMs :: "watch_state \<Rightarrow> post_args \<Rightarrow> int" where
  "post_atMs w a = (case si_get (ss_spans (ws_store w)) (po_spanTarget a) of None \<Rightarrow> 0 | Some s \<Rightarrow> sp_startMs s)"

definition postAnnotation_begin :: "int \<Rightarrow> string \<Rightarrow> string \<Rightarrow> post_args \<Rightarrow> watch_state \<Rightarrow> watch_state" where
  \<comment> \<open>the optimistic insert; \<open>tempId\<close> is \<open>pending-\<close> and a fresh UUID\<close>
  "postAnnotation_begin now sid tempId a w =
     (let span = si_get (ss_spans (ws_store w)) (po_spanTarget a);
          sessionStartMs = ss_wallClockStartMs (ws_store w);
          createdAtMs = (if sessionStartMs > 0 then now - sessionStartMs else 0)
      in w\<lparr>ws_annotations := annotations_upsert (ws_annotations w)
            \<lparr>an_id = tempId, an_sessionId = sid, an_spanId = Some (po_spanTarget a), an_agentId = map_option sp_agentId span,
             an_atMs = post_atMs w a, an_rangeEndMs = None, an_author = po_author a, an_kind = po_kind a, an_body = po_body a,
             an_createdAtMs = createdAtMs, an_deliveredAtMs = None, an_pending = True, an_error = None\<rparr>\<rparr>)"

definition postAnnotation_done :: "string \<Rightarrow> string \<Rightarrow> int \<Rightarrow> pb_annotation option \<Rightarrow> watch_state \<Rightarrow> watch_state" where
  "postAnnotation_done sid tempId atMs resp w =
     (let st1 = annotations_remove (ws_annotations w) sid tempId
      in w\<lparr>ws_annotations := (case resp of
             None \<Rightarrow> st1
           | Some a \<Rightarrow> annotations_upsert st1 (convertAnnotation a (or_else (ws_originCache w) 0) (Some atMs)))\<rparr>)"

definition postAnnotation_failed :: "string \<Rightarrow> string \<Rightarrow> string \<Rightarrow> watch_state \<Rightarrow> watch_state" where
  "postAnnotation_failed sid tempId msg w = w\<lparr>ws_annotations := annotations_markError (ws_annotations w) sid tempId msg\<rparr>"

section \<open>Control events and the session filter\<close>

datatype control_kind =
  CK_PAUSE | CK_RESUME | CK_CANCEL | CK_REWIND_TO | CK_INJECT_MESSAGE | CK_APPROVE | CK_REJECT | CK_INTERCEPT_TRANSFER | CK_STEER
  | CK_UNSPECIFIED

datatype control_payload =
  CP_Steer string string | CP_Rewind string | CP_Approve string string | CP_Reject string string | CP_Inject string string

record control_event =
  ce_id :: string
  ce_agentId :: string
  ce_taskId :: string
  ce_toolCallId :: string
  ce_kind :: control_kind
  ce_payload :: "control_payload option"

record control_args =
  ca_agentId :: string
  ca_toolCallId :: "string option"
  ca_kind :: string
  ca_note :: "string option"
  ca_suggestedAction :: "string option"
  ca_taskId :: "string option"
  ca_targetId :: "string option"
  ca_detail :: "string option"
  ca_role :: "string option"
  ca_text :: "string option"

definition CONTROL_KIND :: "(string \<times> control_kind) list" where
  "CONTROL_KIND = [(''PAUSE'', CK_PAUSE), (''RESUME'', CK_RESUME), (''CANCEL'', CK_CANCEL), (''REWIND_TO'', CK_REWIND_TO),
     (''INJECT_MESSAGE'', CK_INJECT_MESSAGE), (''APPROVE'', CK_APPROVE), (''REJECT'', CK_REJECT),
     (''INTERCEPT_TRANSFER'', CK_INTERCEPT_TRANSFER), (''STEER'', CK_STEER)]"

definition buildControlEvent :: "control_args \<Rightarrow> control_event" where
  "buildControlEvent args =
     (let kind = get_or (map_of CONTROL_KIND (ca_kind args)) CK_UNSPECIFIED;
          opt = (\<lambda>x. get_or x '''');
          payload =
            (if ca_kind args = ''STEER'' then Some (CP_Steer (opt (ca_note args)) (opt (ca_suggestedAction args)))
             else if ca_kind args = ''REWIND_TO'' then Some (CP_Rewind (opt (ca_taskId args)))
             else if ca_kind args = ''APPROVE'' then Some (CP_Approve (opt (ca_targetId args)) (opt (ca_detail args)))
             else if ca_kind args = ''REJECT'' then Some (CP_Reject (opt (ca_targetId args)) (opt (ca_detail args)))
             else if ca_kind args = ''INJECT_MESSAGE'' then Some (CP_Inject (opt (ca_role args)) (opt (ca_text args)))
             else None)
      in \<lparr>ce_id = '''', ce_agentId = ca_agentId args, ce_taskId = '''', ce_toolCallId = opt (ca_toolCallId args), ce_kind = kind,
          ce_payload = payload\<rparr>)"

end
