(* ===== verification/WatchInvariant.thy ===== *)
theory WatchInvariant
  imports Watch
begin

text \<open>
  What the session watch keeps: the reachable states of one session as an inductive relation over subscriptions, stream
  messages, failures, the backfill and posted annotations, the invariant of those states, and the theorems that span
  the components: when a session is inactive, what a second consumer sees, where live spans are packed, and what
  becomes of an optimistic annotation.
\<close>

section \<open>Writing lanes and fields keeps the span index well formed\<close>

lemma map_of_map_snd: "map_of (map (\<lambda>(i, s). (i, g s)) m) k = map_option g (map_of m k)"
  by (induction m) auto

lemma map_ok_map_snd [simp]: "map_ok (map (\<lambda>(i, s). (i, g s)) m) = map_ok m"
  by (simp add: map_ok_def o_def split_beta)

lemma span_ok_same_times:
  assumes ok: "span_ok ix" and g: "\<And>s. sp_id (g s) = sp_id s \<and> sp_agentId (g s) = sp_agentId s \<and> sp_startMs (g s) = sp_startMs s \<and>
    sp_endMs (g s) = sp_endMs s"
  shows "span_ok (ix\<lparr>si_byId := map (\<lambda>(i, s). (i, g s)) (si_byId ix)\<rparr>)"
proof -
  let ?m = "map (\<lambda>(i, s). (i, g s)) (si_byId ix)"
  have end_g: "end_or_start (g s) = end_or_start s" for s using g [of s] by (cases "sp_endMs s") (simp_all add: end_or_start_def)
  have "bucket_ok ?m a b" if b: "map_of (si_agents ix) a = Some b" for a b
  proof -
    note bo = span_okD(6) [OF ok b]
    have "start_of ?m i = start_of (si_byId ix) i" if "i \<in> set (ab_spans b)" for i
      using bo that g by (auto simp: bucket_ok_def start_of_def map_of_map_snd)
    then have "map (start_of ?m) (ab_spans b) = map (start_of (si_byId ix)) (ab_spans b)" by simp
    moreover have "{i. \<exists>s. map_of ?m i = Some s \<and> sp_agentId s = a} = {i. \<exists>s. map_of (si_byId ix) i = Some s \<and> sp_agentId s = a}"
      using g by (auto simp: map_of_map_snd)
    ultimately show ?thesis using bo by (simp only: bucket_ok_def)
  qed
  moreover have "sp_id x = i \<and> map_has (si_agents ix) (sp_agentId x) \<and> end_or_start x \<le> si_globalMaxEndMs ix"
    if x: "map_of ?m i = Some x" for i x
  proof -
    from x obtain s where s: "map_of (si_byId ix) i = Some s" "x = g s" by (auto simp: map_of_map_snd)
    show ?thesis using span_okD(3-5) [OF ok s(1)] g [of s] by (simp add: s(2) end_g)
  qed
  ultimately show ?thesis using span_okD(1,2) [OF ok] by (intro span_okI) simp_all
qed

lemma lane_in_fields: "sp_id (lane_in ps s) = sp_id s \<and> sp_agentId (lane_in ps s) = sp_agentId s \<and>
    sp_startMs (lane_in ps s) = sp_startMs s \<and> sp_endMs (lane_in ps s) = sp_endMs s"
  by (simp add: lane_in_def split: option.split)

lemma store_ok_write_lanes [store_intros]: "store_ok st \<Longrightarrow> store_ok (write_lanes st spans)"
  unfolding write_lanes_def Let_def
  by (intro store_ok_spans span_ok_same_times lane_in_fields) (simp_all add: store_okD)

lemma store_ok_repack [store_intros]: "store_ok st \<Longrightarrow> store_ok (repackAgentLanes st a)"
  by (simp add: repackAgentLanes_def store_ok_write_lanes)

lemma store_ok_repack_all [store_intros]: "store_ok st \<Longrightarrow> store_ok (repackAll st)"
proof -
  have "store_ok st \<Longrightarrow> store_ok (foldl (\<lambda>st a. write_lanes st (query_agent_spans st (ag_id a))) st as)" for as st
    by (induction as arbitrary: st) (simp_all add: store_ok_write_lanes)
  then show "store_ok st \<Longrightarrow> store_ok (repackAll st)" by (simp add: repackAll_def)
qed

lemma update_update: "AList.update k v (AList.update k w m) = AList.update k v m"
  by (induction m) auto

lemma mutate_is_overwrite:
  assumes e: "map_of (si_byId (ss_spans st)) (sp_id s) = Some e" and id: "sp_id e = sp_id s" and s: "overwrite e s = s"
  shows "mutate_span st s = st\<lparr>ss_spans := si_overwrite (ss_spans st) e s\<rparr>"
proof -
  have agent: "sp_agentId e = sp_agentId s" "overwrite s s = s" using arg_cong [OF s, of sp_agentId] by (simp_all add: overwrite_again)
  show ?thesis
    by (cases "map_of (si_agents (ss_spans st)) (sp_agentId s)")
      (simp_all add: mutate_span_def si_update_def si_overwrite_def Let_def update_update s agent id si_emit_def)
qed

lemma store_ok_mutate:
  assumes ok: "store_ok st" and e: "si_get (ss_spans st) i = Some e" and s: "overwrite e s = s" "sp_id s = sp_id e"
  shows "store_ok (mutate_span st s)"
proof -
  have m: "map_of (si_byId (ss_spans st)) i = Some e" using e by (simp add: si_get_def)
  have id: "sp_id e = i" using span_okD(3) [OF store_okD(2) [OF ok] m] .
  with m s have m': "map_of (si_byId (ss_spans st)) (sp_id s) = Some e" by simp
  show ?thesis
    unfolding mutate_is_overwrite [OF m' s(2) [symmetric] s(1)]
    using span_ok_overwrite [OF store_okD(2) [OF ok] m'] by (rule store_ok_spans [OF ok])
qed

section \<open>The arms keep the invariant of the store\<close>

lemma agents_ok_ops [store_intros]:
  "agents_ok r \<Longrightarrow> agents_ok (ar_setStatus r i s)" "agents_ok r \<Longrightarrow> agents_ok (ar_setActivityAndStuck r i c b)"
  "agents_ok r \<Longrightarrow> agents_ok (ar_setTaskReport r i t n)" "agents_ok r \<Longrightarrow> agents_ok (ar_clearTaskReport r i)"
  using agents_ok_step [of r "ASetStatus i s"] agents_ok_step [of r "ASetActivity i c b"]
    agents_ok_step [of r "ASetReport i t n"] agents_ok_step [of r "AClearReport i"] by simp_all

lemma store_ok_merge_if [store_intros]: "store_ok st \<Longrightarrow> store_ok (merge_if_goldfive a st)"
  by (simp add: merge_if_goldfive_def store_ok_merge)

lemma store_ok_onAgent [store_intros]: "store_ok st \<Longrightarrow> store_ok (onAgent a st)"
  by (simp add: onAgent_def Let_def store_ok_merge_if store_ok_agents agents_ok_upsert store_okD)

lemma store_ok_onUpdatedSpan [store_intros]: "store_ok st \<Longrightarrow> store_ok (onUpdatedSpan i status attrs refs st)"
  unfolding onUpdatedSpan_def
  by (cases "si_get (ss_spans st) i") (auto intro!: store_ok_mutate simp: overwrite_def)

lemma store_ok_end [store_intros]: "store_ok st \<Longrightarrow> si_get (ss_spans st) i = Some e \<Longrightarrow>
    store_ok (mutate_span st (end_span org t status err refs e))"
  by (rule store_ok_mutate) (auto simp: overwrite_def end_span_def)

lemma store_ok_clear_idle [store_intros]: "store_ok st \<Longrightarrow> store_ok (clear_idle_report a st)"
  by (simp add: clear_idle_report_def Let_def store_ok_agents agents_ok_ops store_okD)

lemma store_ok_onEndedSpan [store_intros]: "store_ok st \<Longrightarrow> store_ok (onEndedSpan org i t status err refs st)"
  unfolding onEndedSpan_def
  by (cases "si_get (ss_spans st) i") (simp_all add: Let_def store_ok_end store_ok_repack store_ok_clear_idle)

lemma store_ok_onAgentStatus [store_intros]: "store_ok st \<Longrightarrow> store_ok (onAgentStatus i s c b st)"
  by (simp add: onAgentStatus_def store_ok_agents agents_ok_ops store_okD)

lemma store_ok_onTaskReport [store_intros]: "store_ok st \<Longrightarrow> store_ok (onTaskReport now i r t st)"
  by (simp add: onTaskReport_def Let_def store_ok_agents agents_ok_ops store_okD)

lemma store_ok_onContextSample [store_intros]: "store_ok st \<Longrightarrow> store_ok (onContextSample i t n l st)"
  by (simp add: onContextSample_def Let_def store_ok_series store_okD split: option.split)

lemma store_ok_repack_goldfive [store_intros]: "store_ok st \<Longrightarrow> store_ok (repack_goldfive st)"
  by (simp add: repack_goldfive_def store_ok_repack)

lemma history_ok_run: "history_ok h \<Longrightarrow> history_ok (foldl hi_append h rs)"
  by (induction rs arbitrary: h) simp_all

lemma store_ok_load [store_intros]: "store_ok st \<Longrightarrow> store_ok (fst (loadPlanHistory reply sid st start))"
proof -
  assume ok: "store_ok st"
  have "history_ok (fst (foldl (load_one start) s wires))" if "history_ok (fst s)" for s wires
    using that unfolding load_run_history
    by (rule history_ok_run)
  then show ?thesis
    using store_okD(6) [OF ok] by (auto simp: loadPlanHistory_def Let_def split_beta ok split: history_reply.split intro!: store_ok_history [OF ok])
qed

section \<open>Reachable states\<close>

inductive reachable :: "string \<Rightarrow> watch_state \<Rightarrow> bool" for sid where
  start: "reachable sid emptyWatch"
| join: "reachable sid w \<Longrightarrow> reachable sid (subscribe w)"
| leave: "reachable sid w \<Longrightarrow> ws_refs w \<noteq> None \<Longrightarrow> reachable sid (unsubscribe w)"
| message: "reachable sid w \<Longrightarrow> ws_streaming w \<Longrightarrow> reachable sid (watch_step now sid m w)"
| failure: "reachable sid w \<Longrightarrow> reachable sid (streamFailed msg w)"
| backfill: "reachable sid w \<Longrightarrow> reachable sid (historyLoaded sid reply w)"
| post: "reachable sid w \<Longrightarrow> reachable sid (postAnnotation_begin now sid tempId a w)"
| posted: "reachable sid w \<Longrightarrow> reachable sid (postAnnotation_done sid tempId atMs resp w)"
| refused: "reachable sid w \<Longrightarrow> reachable sid (postAnnotation_failed sid tempId msg w)"

text \<open>The bookkeeping of the subscriptions: a count of at least one while the stream is open, an owner among the views.\<close>

definition refs_ok :: "watch_state \<Rightarrow> bool" where
  "refs_ok w =
     (ws_streaming w = (ws_refs w \<noteq> None) \<and> (case ws_refs w of None \<Rightarrow> True | Some n \<Rightarrow> 1 \<le> n) \<and>
      (ws_refs w \<noteq> None \<longrightarrow> ws_owner w < length (ws_views w) \<and>
         wv_status (ws_views w ! ws_owner w) = get_or (ws_status w) LC_UNKNOWN))"

definition watch_ok :: "watch_state \<Rightarrow> bool" where
  "watch_ok w = (store_ok (ws_store w) \<and> approvals_ok (ws_approvals w) \<and> annotations_ok (ws_annotations w))"

lemma watch_okD: "watch_ok w \<Longrightarrow> store_ok (ws_store w)" "watch_ok w \<Longrightarrow> approvals_ok (ws_approvals w)"
  "watch_ok w \<Longrightarrow> annotations_ok (ws_annotations w)"
  by (simp_all add: watch_ok_def)

lemma ws_frame [simp]:
  "ws_store (set_view w f) = ws_store w" "ws_approvals (set_view w f) = ws_approvals w"
  "ws_annotations (set_view w f) = ws_annotations w" "ws_store (tick w) = ws_store w"
  "ws_approvals (tick w) = ws_approvals w" "ws_annotations (tick w) = ws_annotations w"
  "ws_store (map_store g w) = g (ws_store w)" "ws_approvals (map_store g w) = ws_approvals w"
  "ws_annotations (map_store g w) = ws_annotations w"
  "ws_store (default_origin w) = ws_store w" "ws_approvals (default_origin w) = ws_approvals w"
  "ws_annotations (default_origin w) = ws_annotations w"
  "ws_store (set_status_cache l w) = ws_store w" "ws_approvals (set_status_cache l w) = ws_approvals w"
  "ws_annotations (set_status_cache l w) = ws_annotations w"
  by (simp_all add: set_view_def tick_def map_store_def default_origin_def set_status_cache_def split: option.split)

lemma annotations_ok_upsert: "annotations_ok st \<Longrightarrow> annotations_ok (annotations_upsert st a)"
  using annotation_step_ok [of st "AnUpsert a"] by simp

lemma annotations_ok_ops:
  "annotations_ok st \<Longrightarrow> annotations_ok (annotations_remove st s i)"
  "annotations_ok st \<Longrightarrow> annotations_ok (annotations_markError st s i e)"
  using annotation_step_ok [of st "AnRemove s i"] annotation_step_ok [of st "AnError s i e"] by simp_all

lemma approvals_ok_goldfive: "approvals_ok ap \<Longrightarrow> approvals_ok (snd (applyGoldfiveEvent now e (st, ap) start (Some sid)))"
proof (cases sid)
  case Nil
  then show "approvals_ok ap \<Longrightarrow> ?thesis"
    by (cases "gv_payload e") (simp_all add: applyGoldfiveEvent_def with_session_def)
next
  case (Cons c cs)
  show "approvals_ok ap \<Longrightarrow> ?thesis" unfolding Cons goldfive_approvals by (rule approvals_ok_ops)
qed

lemma watch_ok_goldfive: "watch_ok w \<Longrightarrow> watch_ok (onGoldfive now sid e w)"
  using store_ok_goldfive [of "ws_store w"] approvals_ok_goldfive [of "ws_approvals w"]
  by (simp add: onGoldfive_def watch_ok_def Let_def split_beta store_ok_repack_goldfive)

lemma watch_ok_onAnnotation: "watch_ok w \<Longrightarrow> watch_ok (onAnnotation a w)"
  by (simp add: onAnnotation_def watch_ok_def Let_def annotations_ok_upsert)

lemma watch_ok_map_store: "watch_ok w \<Longrightarrow> (\<And>st. store_ok st \<Longrightarrow> store_ok (f st)) \<Longrightarrow> watch_ok (map_store f w)"
  by (simp add: watch_ok_def)

lemma watch_ok_default [simp]: "watch_ok (default_origin w) = watch_ok w"
  by (simp add: watch_ok_def)

lemma watch_ok_onNewSpan: "watch_ok w \<Longrightarrow> watch_ok (onNewSpan so w)"
  by (cases so) (auto simp: onNewSpan_def Let_def intro!: watch_ok_map_store store_intros)

lemma watch_ok_onSession: "watch_ok w \<Longrightarrow> watch_ok (onSession now t s w)"
  by (simp add: onSession_def watch_ok_def Let_def store_ok_rebase store_ok_clock)

lemma watch_ok_dispatch: "watch_ok w \<Longrightarrow> watch_ok (dispatch now sid m w)"
proof (cases m)
  case (MInitialSpan s)
  then show "watch_ok w \<Longrightarrow> ?thesis" by (auto simp: onInitialSpan_def Let_def intro!: watch_ok_map_store store_intros)
next
  case (MNewAnnotation ao)
  then show "watch_ok w \<Longrightarrow> ?thesis" by (cases ao) (simp_all add: onNewAnnotation_def watch_ok_onAnnotation)
next
  case (MAgentJoined ao)
  then show "watch_ok w \<Longrightarrow> ?thesis" by (cases ao) (auto intro!: watch_ok_map_store store_intros)
next
  case MBurstComplete
  then show "watch_ok w \<Longrightarrow> ?thesis" by (simp add: onBurstComplete_def watch_ok_def store_ok_repack_all)
next
  case (MSessionEnded n)
  then show "watch_ok w \<Longrightarrow> ?thesis" by (simp add: onSessionEnded_def watch_ok_def Let_def)
next
  case (MRefineAttempted r)
  then show "watch_ok w \<Longrightarrow> ?thesis" by (auto simp: onRefineAttempted_def intro!: watch_ok_map_store store_intros)
next
  case (MRefineFailed r)
  then show "watch_ok w \<Longrightarrow> ?thesis" by (auto simp: onRefineFailed_def intro!: watch_ok_map_store store_intros)
next
  case (MUserMessage u)
  then show "watch_ok w \<Longrightarrow> ?thesis" by (auto simp: onUserMessage_def intro!: watch_ok_map_store store_intros)
qed (auto simp: watch_ok_goldfive watch_ok_onAnnotation watch_ok_onNewSpan watch_ok_onSession intro!: watch_ok_map_store store_intros)

lemma watch_ok_step: "watch_ok w \<Longrightarrow> watch_ok (watch_step now sid m w)"
proof -
  assume "watch_ok w"
  then have "watch_ok (touch now w)" by (simp add: touch_def watch_ok_def)
  with \<open>watch_ok w\<close> show ?thesis by (simp add: watch_step_def watch_ok_dispatch)
qed

lemma reachable_watch_ok: "reachable sid w \<Longrightarrow> watch_ok w"
proof (induction rule: reachable.induct)
  case start
  show ?case by (simp add: emptyWatch_def watch_ok_def store_ok_empty approvals_ok_def annotations_ok_def annotations_list_def)
next
  case (join w)
  then show ?case by (simp add: subscribe_def watch_ok_def Let_def)
next
  case (leave w)
  then show ?case by (simp add: unsubscribe_def watch_ok_def Let_def)
next
  case (message w now m)
  then show ?case by (simp add: watch_ok_step)
next
  case (failure w msg)
  then show ?case by (simp add: streamFailed_def watch_ok_def)
next
  case (backfill w reply)
  then show ?case by (simp add: historyLoaded_def watch_ok_def store_ok_load split: option.split)
next
  case (post w now tempId a)
  then show ?case by (simp add: postAnnotation_begin_def watch_ok_def Let_def annotations_ok_upsert)
next
  case (posted w tempId atMs resp)
  then show ?case by (simp add: postAnnotation_done_def watch_ok_def Let_def annotations_ok_upsert annotations_ok_ops split: option.split)
next
  case (refused w tempId msg)
  then show ?case by (simp add: postAnnotation_failed_def watch_ok_def annotations_ok_ops)
qed

section \<open>The subscriptions\<close>

definition subs :: "watch_state \<Rightarrow> int option \<times> bool \<times> watch_view list \<times> nat \<times> lifecycle option" where
  "subs w = (ws_refs w, ws_streaming w, ws_views w, ws_owner w, ws_status w)"

lemma refs_ok_subs: "subs w = subs w' \<Longrightarrow> refs_ok w = refs_ok w'"
  by (simp add: subs_def refs_ok_def)

lemma refs_ok_subsI: "refs_ok w \<Longrightarrow> subs w' = subs w \<Longrightarrow> refs_ok w'"
  by (simp add: subs_def refs_ok_def)

lemma subs_simps [simp]:
  "subs (tick w) = subs w" "subs (map_store f w) = subs w" "subs (default_origin w) = subs w" "subs (onInitialSpan s w) = subs w"
  "subs (onNewSpan so w) = subs w" "subs (onAnnotation a w) = subs w" "subs (onNewAnnotation ao w) = subs w"
  "subs (onGoldfive now sid e w) = subs w" "subs (onRefineAttempted now r w) = subs w" "subs (onRefineFailed now sid r w) = subs w"
  "subs (onUserMessage now sid u w) = subs w"
  by (simp_all add: subs_def tick_def map_store_def default_origin_def onInitialSpan_def onNewSpan_def onAnnotation_def
      onNewAnnotation_def onGoldfive_def onRefineAttempted_def onRefineFailed_def onUserMessage_def Let_def split_beta
      split: option.split)

lemma refs_ok_set_view:
  assumes "\<And>v. wv_status (f v) = wv_status v" and "refs_ok w"
  shows "refs_ok (set_view w f)"
  using assms by (auto simp: refs_ok_def set_view_def)

lemma refs_ok_status: "refs_ok w \<Longrightarrow> ws_refs w \<noteq> None \<Longrightarrow> refs_ok (set_status_cache l w)"
  by (auto simp: refs_ok_def set_status_cache_def set_view_def tick_def get_or_def)

lemma subs_touch: "refs_ok w \<Longrightarrow> refs_ok (touch now w)"
proof -
  assume ok: "refs_ok w"
  have "refs_ok (w\<lparr>ws_lastEvent := Some now\<rparr>)" using ok by (simp add: refs_ok_def)
  then show ?thesis unfolding touch_def by (rule refs_ok_set_view [rotated]) simp
qed

lemma refs_ok_dispatch:
  assumes ok: "refs_ok w" and some: "ws_refs w \<noteq> None"
  shows "refs_ok (dispatch now sid m w)"
proof -
  have same: "refs_ok (dispatch now sid m w)" if "subs (dispatch now sid m w) = subs w"
    using refs_ok_subs [OF that] ok by simp
  show ?thesis
proof (cases m)
  case (MSession t s)
  define w1 where "w1 = w\<lparr>ws_origin := Some (or_num (case t of None \<Rightarrow> 0 | Some t \<Rightarrow> ts_seconds t * 1000) now),
      ws_originCache := Some (or_num (case t of None \<Rightarrow> 0 | Some t \<Rightarrow> ts_seconds t * 1000) now),
      ws_store := rebaseRelativeTimestamps ((ws_store w)\<lparr>ss_wallClockStartMs := or_num (case t of None \<Rightarrow> 0 | Some t \<Rightarrow> ts_seconds t * 1000) now\<rparr>)
        (or_num (case t of None \<Rightarrow> 0 | Some t \<Rightarrow> ts_seconds t * 1000) now),
      ws_loading := (if ws_backfilled w then ws_loading w else Some (or_num (case t of None \<Rightarrow> 0 | Some t \<Rightarrow> ts_seconds t * 1000) now)),
      ws_backfilled := True\<rparr>"
  have "refs_ok w1" "ws_refs w1 \<noteq> None" using assms by (simp_all add: w1_def refs_ok_def)
  from refs_ok_status [OF this] show ?thesis by (simp only: MSession dispatch.simps onSession_def Let_def w1_def)
next
  case (MSessionEnded n)
  with refs_ok_status [OF assms] show ?thesis by (simp add: onSessionEnded_def Let_def)
next
  case MBurstComplete
  have "refs_ok (map_store repackAll w)" by (rule refs_ok_subsI [OF ok]) simp
  then have "refs_ok (set_view (map_store repackAll w) (\<lambda>v. v\<lparr>wv_burst := True\<rparr>))"
    by (rule refs_ok_set_view [rotated]) simp
  then have "refs_ok (tick (set_view (map_store repackAll w) (\<lambda>v. v\<lparr>wv_burst := True\<rparr>)))" by (rule refs_ok_subsI) simp
  then show ?thesis by (simp add: MBurstComplete onBurstComplete_def)
next
  case (MAgentJoined ao)
  then show ?thesis by (cases ao) (rule same, simp)+
qed (rule same, simp)+
qed

lemma ws_refs_touch [simp]: "ws_refs (touch now w) = ws_refs w"
  by (simp add: touch_def set_view_def)

lemma reachable_refs_ok: "reachable sid w \<Longrightarrow> refs_ok w"
proof (induction rule: reachable.induct)
  case start
  show ?case by (simp add: emptyWatch_def refs_ok_def)
next
  case (join w)
  show ?case
  proof (cases "ws_refs w")
    case None
    then show ?thesis by (simp add: subscribe_def refs_ok_def Let_def or_else_def tick_def set_view_def nth_append)
  next
    case (Some n)
    with join.IH have "1 \<le> n" by (simp add: refs_ok_def)
    with Some join.IH show ?thesis by (simp add: subscribe_def refs_ok_def Let_def or_else_def tick_def nth_append)
  qed
next
  case (leave w)
  then show ?case by (auto simp: unsubscribe_def refs_ok_def Let_def or_else_def)
next
  case (message w now m)
  then have "ws_refs w \<noteq> None" by (simp add: refs_ok_def)
  with message show ?case by (simp add: watch_step_def refs_ok_dispatch subs_touch)
next
  case (failure w msg)
  have "refs_ok (set_view w (\<lambda>v. v\<lparr>wv_error := Some msg, wv_connected := False\<rparr>))"
    by (rule refs_ok_set_view [OF _ failure.IH]) simp
  then have "refs_ok (tick (set_view w (\<lambda>v. v\<lparr>wv_error := Some msg, wv_connected := False\<rparr>)))"
    by (rule refs_ok_subsI) simp
  with failure.IH show ?case by (simp add: streamFailed_def)
next
  case (backfill w reply)
  show ?case by (rule refs_ok_subsI [OF backfill.IH]) (simp add: historyLoaded_def subs_def split: option.split)
qed (simp_all add: postAnnotation_begin_def postAnnotation_done_def postAnnotation_failed_def refs_ok_def Let_def split: option.split)

text \<open>C1: In every reachable state of a watched session every part of the store is well formed (rows and index of the agents,
  the span buckets, the plans and their revisions, the numbering of the seven logs, the plan history, the context
  series), the annotations and approvals are sorted with one row per key, the stream is open exactly while somebody is
  subscribed, and the view of the consumer that runs the loop shows the cached session status.\<close>

theorem watch_invariant:
  assumes "reachable sid w"
  shows "store_ok (ws_store w) \<and> approvals_ok (ws_approvals w) \<and> annotations_ok (ws_annotations w) \<and>
         ws_streaming w = (ws_refs w \<noteq> None) \<and>
         (if ws_streaming w then ws_owner w < length (ws_views w) \<and>
            wv_status (ws_views w ! ws_owner w) = get_or (ws_status w) LC_UNKNOWN else True)"
  using reachable_watch_ok [OF assms] reachable_refs_ok [OF assms] by (simp add: watch_ok_def refs_ok_def)

lemma reachable_demo: "reachable sid (watch_step 9 sid MBurstComplete (watch_step 5 sid (MSessionEnded 0) (subscribe emptyWatch)))"
proof -
  have one: "reachable sid (subscribe emptyWatch)" by (intro reachable.intros)
  have two: "reachable sid (watch_step 5 sid (MSessionEnded 0) (subscribe emptyWatch))"
    by (rule reachable.message [OF one])
      (simp add: subscribe_def emptyWatch_def Let_def or_else_def tick_def set_view_def)
  show ?thesis
    by (rule reachable.message [OF two])
      (simp add: subscribe_def emptyWatch_def Let_def or_else_def tick_def set_view_def watch_step_def touch_def onSessionEnded_def
        set_status_cache_def)
qed

theorem watch_invariant_witness:
  "(let w = watch_step 9 ''q'' MBurstComplete (watch_step 5 ''q'' (MSessionEnded 0) (subscribe emptyWatch))
    in store_ok (ws_store w) \<and> ws_streaming w = (ws_refs w \<noteq> None))"
  unfolding Let_def using watch_invariant [OF reachable_demo] by blast

section \<open>Who sees what\<close>

definition session_frame :: "watch_msg \<Rightarrow> bool" where
  "session_frame m = (case m of MSession t s \<Rightarrow> True | MSessionEnded s \<Rightarrow> True | _ \<Rightarrow> False)"

definition only_own_view :: "watch_state \<Rightarrow> watch_state \<Rightarrow> bool" where
  \<comment> \<open>\<open>w'\<close> differs from \<open>w\<close> in no view but the owner's\<close>
  "only_own_view w w' = (ws_owner w' = ws_owner w \<and> length (ws_views w') = length (ws_views w) \<and>
     (\<forall>j. j \<noteq> ws_owner w \<longrightarrow> ws_views w' ! j = ws_views w ! j))"

lemma only_own_subs: "subs w' = subs w \<Longrightarrow> only_own_view w w'"
  by (simp add: subs_def only_own_view_def)

lemma only_own_trans: "only_own_view a b \<Longrightarrow> only_own_view b c \<Longrightarrow> only_own_view a c"
  by (simp add: only_own_view_def)

lemma only_own_set_view: "only_own_view w (set_view w f)"
  by (simp add: only_own_view_def set_view_def)

lemma only_own_touch: "only_own_view w (touch now w)"
  by (simp add: only_own_view_def touch_def set_view_def)

lemma only_own_status: "only_own_view w (set_status_cache l w)"
  by (simp add: only_own_view_def set_status_cache_def set_view_def tick_def)

lemma only_own_session: "only_own_view w (onSession now t s w)"
  by (simp add: onSession_def Let_def only_own_view_def set_status_cache_def set_view_def tick_def)

lemma only_own_burst: "only_own_view w (onBurstComplete w)"
  by (simp add: onBurstComplete_def only_own_view_def set_view_def tick_def map_store_def)

lemma quiet_dispatch: "\<not> session_frame m \<Longrightarrow> m \<noteq> MBurstComplete \<Longrightarrow> subs (dispatch now sid m w) = subs w"
proof (cases m)
  case (MAgentJoined ao)
  then show ?thesis by (cases ao) simp_all
qed (simp_all add: session_frame_def)

lemma only_own_step: "only_own_view w (watch_step now sid m w)"
proof (cases "m = MUnset")
  case True
  then show ?thesis by (simp add: watch_step_def only_own_view_def)
next
  case False
  have "only_own_view (touch now w) (dispatch now sid m (touch now w))"
  proof (cases "session_frame m \<or> m = MBurstComplete")
    case True
    then show ?thesis
      by (cases m) (simp_all add: session_frame_def only_own_session only_own_burst only_own_status onSessionEnded_def Let_def)
  next
    case False
    then show ?thesis by (intro only_own_subs quiet_dispatch) auto
  qed
  with False only_own_touch show ?thesis unfolding watch_step_def by (auto intro: only_own_trans)
qed

definition watch_run :: "string \<Rightarrow> (int \<times> watch_msg) list \<Rightarrow> watch_state \<Rightarrow> watch_state" where
  "watch_run sid xs w = foldl (\<lambda>w x. watch_step (fst x) sid (snd x) w) w xs"

lemma watch_run_simps [simp]: "watch_run sid [] w = w" "watch_run sid (x # xs) w = watch_run sid xs (watch_step (fst x) sid (snd x) w)"
  by (simp_all add: watch_run_def)

lemma only_own_run: "only_own_view w (watch_run sid xs w)"
proof (induction xs arbitrary: w)
  case Nil
  show ?case by (simp add: only_own_view_def)
next
  case (Cons x xs)
  show ?case using only_own_trans [OF only_own_step Cons] by simp
qed

text \<open>C16: A consumer that joins while the stream is already open never sees the session settle: no sequence of messages
  changes its view, which starts without the burst, so \<open>sessionIsInactive\<close> is false for it for ever, even after the
  session has ended; the consumer that opened the stream does see the burst.\<close>

theorem joined_view_never_settles:
  assumes r: "reachable sid w" and s: "ws_streaming w"
  shows "(let w' = watch_run sid xs (subscribe w)
          in ws_views w' ! length (ws_views w) = ws_views (subscribe w) ! length (ws_views w) \<and>
             \<not> sessionIsInactive (ws_views w' ! length (ws_views w)) t quiet) \<and>
         wv_burst (ws_views (watch_step now sid MBurstComplete w) ! ws_owner w)"
proof -
  have ok: "refs_ok w" using r by (rule reachable_refs_ok)
  with s obtain n where n: "ws_refs w = Some n" "1 \<le> n" "ws_owner w < length (ws_views w)"
    by (auto simp: refs_ok_def)
  have joined: "ws_owner (subscribe w) = ws_owner w" "\<not> wv_burst (ws_views (subscribe w) ! length (ws_views w))"
    using n by (simp_all add: subscribe_def or_else_def Let_def tick_def nth_append)
  have same: "ws_views (watch_run sid xs (subscribe w)) ! length (ws_views w) = ws_views (subscribe w) ! length (ws_views w)"
    using only_own_run [of "subscribe w" sid xs] joined(1) n(3) by (simp add: only_own_view_def)
  have "wv_burst (ws_views (watch_step now sid MBurstComplete w) ! ws_owner w)"
    using n(3) by (simp add: watch_step_def touch_def onBurstComplete_def set_view_def tick_def map_store_def)
  with same joined(2) show ?thesis by (simp add: Let_def sessionIsInactive_def)
qed

theorem joined_view_never_settles_witness:
  "\<not> sessionIsInactive (ws_views (watch_run ''q'' [(7, MSessionEnded 2), (9, MBurstComplete)] (subscribe (subscribe emptyWatch))) ! 1) 90000 60000"
proof -
  have r: "reachable ''q'' (subscribe emptyWatch)" by (intro reachable.intros)
  have s: "ws_streaming (subscribe emptyWatch)" and l: "length (ws_views (subscribe emptyWatch)) = 1"
    by (simp_all add: subscribe_def emptyWatch_def Let_def or_else_def tick_def set_view_def)
  from joined_view_never_settles [OF r s, of "[(7, MSessionEnded 2), (9, MBurstComplete)]", unfolded Let_def l,
      THEN conjunct1, THEN conjunct2] show ?thesis .
qed

lemma dispatch_refs: "ws_refs (dispatch now sid m w) = ws_refs w"
proof (cases "session_frame m \<or> m = MBurstComplete")
  case True
  then show ?thesis
    by (cases m) (simp_all add: session_frame_def onSession_def onSessionEnded_def onBurstComplete_def set_status_cache_def set_view_def tick_def
        map_store_def Let_def)
next
  case False
  then show ?thesis using quiet_dispatch [of m now sid w] by (simp add: subs_def)
qed

lemma refs_ok_step:
  assumes "refs_ok w" and "ws_refs w \<noteq> None"
  shows "refs_ok (watch_step now sid m w)" and "ws_refs (watch_step now sid m w) \<noteq> None"
proof -
  have "refs_ok (touch now w)" "ws_refs (touch now w) \<noteq> None" using assms by (simp_all add: subs_touch)
  from refs_ok_dispatch [OF this] dispatch_refs [of now sid m "touch now w"] this assms
  show "refs_ok (watch_step now sid m w)" "ws_refs (watch_step now sid m w) \<noteq> None" by (simp_all add: watch_step_def)
qed

definition bursted :: "watch_state \<Rightarrow> bool" where
  \<comment> \<open>the consumer that runs the loop knows that the initial burst is over\<close>
  "bursted w \<longleftrightarrow> wv_burst (ws_views w ! ws_owner w)"

lemma bursted_touch [simp]: "ws_owner w < length (ws_views w) \<Longrightarrow> bursted (touch now w) = bursted w"
  by (simp add: bursted_def touch_def set_view_def)

lemma bursted_status [simp]: "ws_owner w < length (ws_views w) \<Longrightarrow> bursted (set_status_cache l w) = bursted w"
  by (simp add: bursted_def set_status_cache_def set_view_def tick_def)

lemma bursted_dispatch:
  assumes "ws_owner w < length (ws_views w)"
  shows "bursted (dispatch now sid m w) = (bursted w \<or> m = MBurstComplete)"
proof (cases "session_frame m \<or> m = MBurstComplete")
  case True
  then show ?thesis using assms
    by (cases m) (simp_all add: session_frame_def onSession_def onSessionEnded_def onBurstComplete_def Let_def map_store_def
        bursted_def set_status_cache_def set_view_def tick_def)
next
  case False
  then show ?thesis using quiet_dispatch [of m now sid w] by (simp add: subs_def bursted_def)
qed

lemma bursted_step: "ws_owner w < length (ws_views w) \<Longrightarrow> bursted (watch_step now sid m w) = (bursted w \<or> m = MBurstComplete)"
  using bursted_dispatch [of "touch now w" now sid m] bursted_touch [of w now]
  by (simp add: watch_step_def) (auto simp: touch_def set_view_def)

lemma owner_in_views: "refs_ok w \<Longrightarrow> ws_refs w \<noteq> None \<Longrightarrow> ws_owner w < length (ws_views w)"
  by (simp add: refs_ok_def)

lemma bursted_run:
  assumes "refs_ok w" and "ws_refs w \<noteq> None"
  shows "refs_ok (watch_run sid xs w) \<and> ws_refs (watch_run sid xs w) \<noteq> None \<and>
    bursted (watch_run sid xs w) = (bursted w \<or> MBurstComplete \<in> snd ` set xs)"
  using assms
proof (induction xs arbitrary: w)
  case (Cons x xs)
  from Cons.IH [OF refs_ok_step [OF Cons.prems]] bursted_step [OF owner_in_views [OF Cons.prems]] show ?case
    by (auto simp: eq_commute [of MBurstComplete])
qed simp

definition owner_status :: "watch_state \<Rightarrow> lifecycle" where
  "owner_status w = wv_status (ws_views w ! ws_owner w)"

lemma status_step:
  assumes own: "ws_owner w < length (ws_views w)" and q: "\<not> session_frame m"
  shows "owner_status (watch_step now sid m w) = owner_status w"
proof -
  have touched: "owner_status (touch now w) = owner_status w" "ws_owner (touch now w) < length (ws_views (touch now w))"
    using own by (simp_all add: owner_status_def touch_def set_view_def)
  have "owner_status (dispatch now sid m (touch now w)) = owner_status (touch now w)"
  proof (cases "m = MBurstComplete")
    case True
    then show ?thesis using touched(2) by (simp add: onBurstComplete_def owner_status_def set_view_def tick_def map_store_def)
  next
    case False
    with q show ?thesis using quiet_dispatch [of m now sid "touch now w"] by (simp add: subs_def owner_status_def)
  qed
  with touched(1) show ?thesis by (simp add: watch_step_def)
qed

lemma status_run:
  assumes "refs_ok w" and "ws_refs w \<noteq> None" and "list_all (\<lambda>x. \<not> session_frame (snd x)) xs"
  shows "owner_status (watch_run sid xs w) = owner_status w"
  using assms
proof (induction xs arbitrary: w)
  case (Cons x xs)
  then have "\<not> session_frame (snd x)" "list_all (\<lambda>x. \<not> session_frame (snd x)) xs" by simp_all
  with Cons.IH [OF refs_ok_step [OF Cons.prems(1,2)]] status_step [OF owner_in_views [OF Cons.prems(1,2)]] show ?case by simp
qed simp

definition final_status :: "int \<Rightarrow> lifecycle" where
  \<comment> \<open>the status an ended session is given: an unspecified one counts as completed\<close>
  "final_status s = (if lifecycleFromPb s = LC_UNKNOWN then LC_COMPLETED else lifecycleFromPb s)"

lemma ended_status:
  assumes "refs_ok w" and "ws_refs w \<noteq> None"
  shows "owner_status (watch_step now sid (MSessionEnded finalStatus) w) = final_status finalStatus"
proof -
  have "refs_ok (watch_step now sid (MSessionEnded finalStatus) w)" "ws_refs (watch_step now sid (MSessionEnded finalStatus) w) \<noteq> None"
    using refs_ok_step [OF assms] .
  moreover have "ws_status (watch_step now sid (MSessionEnded finalStatus) w) = Some (final_status finalStatus)"
    by (simp add: watch_step_def onSessionEnded_def Let_def final_status_def set_status_cache_def tick_def set_view_def)
  ultimately show ?thesis by (simp add: refs_ok_def owner_status_def get_or_def)
qed

text \<open>C15: When the end of a session is reported with any status but \<open>LIVE\<close>, an absent one included, the consumer that runs the loop
  shows the session as completed or aborted and, once the initial burst is over, treats it as inactive: the end of the burst
  may come before the end of the session, as the server sends them, or after it, with any messages before and messages of
  any other kind after, and whatever the clock says. Until the burst is over it does not.\<close>

theorem ended_session_is_inactive:
  assumes r: "reachable sid w" and s: "ws_streaming w" and final: "finalStatus \<noteq> 1"
    and quiet: "list_all (\<lambda>x. \<not> session_frame (snd x)) ys"
  shows "let w' = watch_run sid (xs @ (now, MSessionEnded finalStatus) # ys) w; v = ws_views w' ! ws_owner w'
         in wv_status v = final_status finalStatus \<and> wv_status v \<in> {LC_COMPLETED, LC_ABORTED} \<and>
            sessionIsInactive v t q = (wv_burst (ws_views w ! ws_owner w) \<or> MBurstComplete \<in> snd ` set (xs @ ys))"
proof -
  have ok: "refs_ok w" "ws_refs w \<noteq> None" using reachable_refs_ok [OF r] s by (simp_all add: refs_ok_def)
  let ?w1 = "watch_run sid xs w" and ?run = "watch_run sid (xs @ (now, MSessionEnded finalStatus) # ys) w"
  have one: "refs_ok ?w1" "ws_refs ?w1 \<noteq> None" using bursted_run [OF ok] by simp_all
  have split: "?run = watch_run sid ys (watch_step now sid (MSessionEnded finalStatus) ?w1)" by (simp add: watch_run_def)
  have "owner_status ?run = final_status finalStatus"
    unfolding split status_run [OF refs_ok_step [OF one] quiet] by (rule ended_status [OF one])
  moreover have "bursted ?run = (bursted w \<or> MBurstComplete \<in> snd ` set (xs @ ys))"
    using bursted_run [OF ok, of sid "xs @ (now, MSessionEnded finalStatus) # ys"] by auto
  moreover have "final_status finalStatus \<in> {LC_COMPLETED, LC_ABORTED}" using final by (simp add: final_status_def lifecycleFromPb_def)
  ultimately show ?thesis by (auto simp: Let_def owner_status_def bursted_def sessionIsInactive_def)
qed

theorem ended_session_is_inactive_witness:
  "let w' = watch_run ''q'' [(7, MBurstComplete), (9, MSessionEnded 0), (11, MUnset)] (subscribe emptyWatch)
   in sessionIsInactive (ws_views w' ! ws_owner w') 12 60000"
proof -
  have r: "reachable ''q'' (subscribe emptyWatch)" by (intro reachable.intros)
  have s: "ws_streaming (subscribe emptyWatch)"
    by (simp add: subscribe_def emptyWatch_def Let_def or_else_def tick_def set_view_def)
  have "list_all (\<lambda>x. \<not> session_frame (snd x)) [(11, MUnset)]" by (simp add: session_frame_def)
  from ended_session_is_inactive [OF r s _ this, of 0 "[(7, MBurstComplete)]" 9 12 60000] show ?thesis
    by (simp add: Let_def del: watch_run_simps)
qed

section \<open>Live spans are packed without overlap\<close>

definition sane_times :: "span \<Rightarrow> bool" where
  \<comment> \<open>no end before the start, and a start that is a safe integer\<close>
  "sane_times s = (Fin (sp_startMs s) \<le> end_time s \<and> \<bar>startR s\<bar> < MAX_SAFE_INTEGER)"

lemma sane_times_lane [simp]: "sane_times (lane_in ps s) = sane_times s"
  by (simp add: sane_times_def lane_in_def split: option.split)

lemma query_agent_spans_all:
  assumes ok: "span_ok (ss_spans st)" and sane: "\<And>s. s \<in> set (si_all (ss_spans st)) \<Longrightarrow> sane_times s"
  shows "set (query_agent_spans st a) = {s \<in> set (si_all (ss_spans st)). sp_agentId s = a} \<and>
    distinct (map sp_id (query_agent_spans st a))"
proof -
  note q = query_agent_ok [OF ok, of a "- MAX_SAFE_INTEGER" "At MAX_SAFE_INTEGER", folded query_agent_spans_def, unfolded Let_def]
  have "wanted (- MAX_SAFE_INTEGER) (At MAX_SAFE_INTEGER) s \<and> - MAX_SAFE_INTEGER - 65536 \<le> startR s"
    if "s \<in> set (si_all (ss_spans st))" for s
    using sane [OF that] by (auto simp: sane_times_def wanted_def MAX_SAFE_INTEGER_def abs_less_iff)
  with q show ?thesis by blast
qed

lemma distinct_js_sort: "distinct (map f xs) \<Longrightarrow> distinct (map f (js_sort cmp xs))"
proof -
  assume "distinct (map f xs)"
  then have "card (set (map f (js_sort cmp xs))) = length (map f (js_sort cmp xs))"
    by (metis distinct_card length_js_sort length_map set_js_sort set_map)
  then show ?thesis by (rule card_distinct)
qed

lemma placed_span:
  assumes d: "distinct (map sp_id spans)" and s: "s \<in> set spans"
  shows "lane_in (fst (packLanes spans)) s \<in> set (fst (packLanes spans))"
proof -
  let ?placed = "fst (packLanes spans)"
  have eq: "map (\<lambda>s. s\<lparr>sp_lane := 0\<rparr>) ?placed = map (\<lambda>s. s\<lparr>sp_lane := 0\<rparr>) (js_sort lane_cmp spans)"
    by (simp add: packLanes_all Let_def pack_all_placed)
  have "s\<lparr>sp_lane := 0\<rparr> \<in> set (map (\<lambda>s. s\<lparr>sp_lane := 0\<rparr>) ?placed)" using s by (simp add: eq)
  then obtain p where p: "p \<in> set ?placed" "p\<lparr>sp_lane := 0\<rparr> = s\<lparr>sp_lane := 0\<rparr>" by auto
  have ids: "map sp_id ?placed = map sp_id (js_sort lane_cmp spans)"
    using arg_cong [OF eq, of "map sp_id"] by (simp add: o_def)
  have "distinct (map sp_id ?placed)" unfolding ids using d by (rule distinct_js_sort)
  moreover have "sp_id p = sp_id s" using arg_cong [OF p(2), of sp_id] by simp
  ultimately have "find (\<lambda>q. sp_id q = sp_id s) ?placed = Some p"
    using row_of_SomeI [of sp_id ?placed p] p(1) by (simp add: row_of_def)
  then have "lane_in ?placed s = s\<lparr>sp_lane := sp_lane p\<rparr>" by (simp add: lane_in_def)
  also have "\<dots> = (s\<lparr>sp_lane := 0\<rparr>)\<lparr>sp_lane := sp_lane p\<rparr>" by simp
  also have "\<dots> = (p\<lparr>sp_lane := 0\<rparr>)\<lparr>sp_lane := sp_lane p\<rparr>" by (simp only: p(2))
  also have "\<dots> = p" by simp
  finally show ?thesis using p(1) by simp
qed

definition apart :: "span \<Rightarrow> span \<Rightarrow> bool" where
  "apart x y = (sp_lane x \<noteq> sp_lane y \<or> end_time x \<le> Fin (sp_startMs y) \<or> end_time y \<le> Fin (sp_startMs x))"

lemma si_all_write_lanes: "si_all (ss_spans (write_lanes st spans)) = map (lane_in (fst (packLanes spans))) (si_all (ss_spans st))"
  by (simp add: write_lanes_def Let_def si_all_def o_def split_beta)

lemma sorted_wrt_pair: "sorted_wrt R xs \<Longrightarrow> x \<in> set xs \<Longrightarrow> y \<in> set xs \<Longrightarrow> x \<noteq> y \<Longrightarrow> R x y \<or> R y x"
  by (induction xs) auto

lemma repack_apart:
  assumes ok: "span_ok (ss_spans st)" and sane: "\<And>s. s \<in> set (si_all (ss_spans st)) \<Longrightarrow> sane_times s" and a: "a \<noteq> ''''"
    and x: "x \<in> set (si_all (ss_spans (repackAgentLanes st a)))" "sp_agentId x = a"
    and y: "y \<in> set (si_all (ss_spans (repackAgentLanes st a)))" "sp_agentId y = a" and ne: "x \<noteq> y"
  shows "apart x y"
proof -
  let ?q = "query_agent_spans st a"
  note q = query_agent_spans_all [OF ok sane, of a]
  have all: "si_all (ss_spans (repackAgentLanes st a)) = map (lane_in (fst (packLanes ?q))) (si_all (ss_spans st))"
    using a by (simp add: repackAgentLanes_def si_all_write_lanes)
  have mem: "z \<in> set (fst (packLanes ?q))"
    if z: "z \<in> set (si_all (ss_spans (repackAgentLanes st a)))" "sp_agentId z = a" for z
  proof -
    from z(1) obtain s where s: "s \<in> set (si_all (ss_spans st))" "z = lane_in (fst (packLanes ?q)) s" unfolding all by auto
    with z(2) lane_in_fields [of "fst (packLanes ?q)" s] have "s \<in> set ?q" using q by simp
    with placed_span q s(2) show ?thesis by blast
  qed
  have "list_all (\<lambda>s. Fin (sp_startMs s) \<le> end_time s) ?q" using q sane by (auto simp: list_all_iff sane_times_def)
  from sorted_wrt_pair [OF packLanes_no_overlap(1) [OF this] mem [OF x] mem [OF y] ne] show ?thesis by (auto simp: apart_def)
qed

text \<open>C2: After a live span has been ingested, no two spans of its agent overlap on one lane, whatever was there before and
  whatever rows were merged, provided that no span ends before it starts and the starts are safe integers; the lanes
  of the rows are what \<open>packLanes\<close> computes from the whole row.\<close>

theorem live_spans_packed:
  assumes r: "reachable sid w" and agent: "pbs_agentId s \<noteq> ''''"
    and sane: "list_all sane_times (si_all (ss_spans (ws_store (watch_step now sid (MNewSpan (Some s)) w))))"
  shows "let row = filter (\<lambda>x. sp_agentId x = pbs_agentId s) (si_all (ss_spans (ws_store (watch_step now sid (MNewSpan (Some s)) w))))
         in list_all (\<lambda>x. list_all (\<lambda>y. if x = y then True else apart x y) row) row"
proof -
  define w1 where "w1 = default_origin (touch now w)"
  define ui where "ui = convertSpan s (or_else (ws_origin w1) 0)"
  define st where "st = merge_if_goldfive (pbs_agentId s) (append_span (ws_store w1) ui)"
  have ui: "sp_agentId ui = pbs_agentId s" by (simp add: ui_def convertSpan_def Let_def)
  have w': "ws_store (watch_step now sid (MNewSpan (Some s)) w) = repackAgentLanes st (pbs_agentId s)"
    by (simp add: watch_step_def onNewSpan_def w1_def [symmetric] ui_def [symmetric] Let_def ui st_def)
  have "store_ok (ws_store w1)"
    using reachable_watch_ok [OF r] by (simp add: w1_def touch_def watch_ok_def)
  then have "store_ok st" by (simp add: st_def store_ok_merge_if store_ok_append_span)
  then have ok: "span_ok (ss_spans st)" by (rule store_okD)
  have "si_all (ss_spans (repackAgentLanes st (pbs_agentId s))) =
      map (lane_in (fst (packLanes (query_agent_spans st (pbs_agentId s))))) (si_all (ss_spans st))"
    using agent by (simp add: repackAgentLanes_def si_all_write_lanes)
  then have "sane_times z" if "z \<in> set (si_all (ss_spans st))" for z
    using sane that unfolding w' by (simp add: list_all_iff)
  from repack_apart [OF ok this agent] show ?thesis unfolding w' by (simp add: list_all_iff Let_def)
qed

definition demoRow :: watch_state where
  "demoRow = watch_step 5 ''q'' (MNewSpan (Some demoPbSpan)) (subscribe emptyWatch)"

theorem live_spans_packed_witness:
  "let row = filter (\<lambda>x. sp_agentId x = ''a'')
       (si_all (ss_spans (ws_store (watch_step 6 ''q'' (MNewSpan (Some (demoPbSpan\<lparr>pbs_id := ''t''\<rparr>))) demoRow))))
   in list_all (\<lambda>x. list_all (\<lambda>y. if x = y then True else apart x y) row) row"
proof -
  have one: "reachable ''q'' (subscribe emptyWatch)" by (intro reachable.intros)
  have s: "ws_streaming (subscribe emptyWatch)"
    by (simp add: subscribe_def emptyWatch_def Let_def or_else_def tick_def set_view_def)
  have r: "reachable ''q'' demoRow" unfolding demoRow_def by (rule reachable.message [OF one s])
  have a: "pbs_agentId (demoPbSpan\<lparr>pbs_id := ''t''\<rparr>) = ''a''" by (simp add: demoPbSpan_def)
  have sane: "list_all sane_times (si_all (ss_spans (ws_store (watch_step 6 ''q'' (MNewSpan (Some (demoPbSpan\<lparr>pbs_id := ''t''\<rparr>))) demoRow))))"
    by code_simp
  show ?thesis using live_spans_packed [OF r _ sane, unfolded a] by simp
qed

section \<open>Optimistic annotations\<close>

definition pending_row :: "int \<Rightarrow> string \<Rightarrow> string \<Rightarrow> post_args \<Rightarrow> watch_state \<Rightarrow> annotation" where
  "pending_row now sid tempId a w =
     \<lparr>an_id = tempId, an_sessionId = sid, an_spanId = Some (po_spanTarget a),
      an_agentId = map_option sp_agentId (si_get (ss_spans (ws_store w)) (po_spanTarget a)), an_atMs = post_atMs w a,
      an_rangeEndMs = None, an_author = po_author a, an_kind = po_kind a, an_body = po_body a,
      an_createdAtMs = (if ss_wallClockStartMs (ws_store w) > 0 then now - ss_wallClockStartMs (ws_store w) else 0),
      an_deliveredAtMs = None, an_pending = True, an_error = None\<rparr>"

lemma begin_upserts: "ws_annotations (postAnnotation_begin now sid tempId a w) = annotations_upsert (ws_annotations w) (pending_row now sid tempId a w)"
  by (simp add: postAnnotation_begin_def pending_row_def Let_def)

lemma annotation_map_ops:
  assumes "annotations_ok st"
  shows "annotation_map (annotations_upsert st a) = annotation_spec (annotation_map st) (AnUpsert a)"
    and "annotation_map (annotations_remove st s i) = annotation_spec (annotation_map st) (AnRemove s i)"
    and "annotation_map (annotations_markError st s i e) = annotation_spec (annotation_map st) (AnError s i e)"
  using annotation_step_refines [OF assms, of "AnUpsert a"] annotation_step_refines [OF assms, of "AnRemove s i"]
    annotation_step_refines [OF assms, of "AnError s i e"] by simp_all

text \<open>C17: Posting an annotation under a fresh temporary id leaves no trace of the optimistic row once the server has answered:
  the session then has exactly the rows it had, with the canonical row in addition (merged into one it already had);
  when the call fails the optimistic row stays, no longer pending and with the error.\<close>

theorem optimistic_annotation_replaced:
  assumes r: "reachable sid' w" and fresh: "annotation_map (ws_annotations w) (sid, tempId) = None"
    and other: "pbn_id resp \<noteq> tempId"
  shows "(let w1 = postAnnotation_begin now sid tempId a w;
              c = convertAnnotation resp (or_else (ws_originCache w) 0) (Some t);
              k = (pbn_sessionId resp, pbn_id resp)
          in annotation_map (ws_annotations (postAnnotation_done sid tempId t (Some resp) w1)) =
               (annotation_map (ws_annotations w))(k \<mapsto>
                  case annotation_map (ws_annotations w) k of None \<Rightarrow> c | Some old \<Rightarrow> spread_annotation old c) \<and>
             annotation_map (ws_annotations (postAnnotation_failed sid tempId msg w1)) =
               (annotation_map (ws_annotations w))((sid, tempId) \<mapsto>
                  (pending_row now sid tempId a w)\<lparr>an_error := Some msg, an_pending := False\<rparr>))"
proof -
  let ?m = "annotation_map (ws_annotations w)" and ?row = "pending_row now sid tempId a w"
  let ?st = "annotations_upsert (ws_annotations w) ?row"
  have ok: "annotations_ok (ws_annotations w)" using reachable_watch_ok [OF r] by (simp add: watch_ok_def)
  have ok1: "annotations_ok ?st" and ok2: "annotations_ok (annotations_remove ?st sid tempId)"
    by (intro annotations_ok_ops annotations_ok_upsert ok)+
  have row: "an_sessionId ?row = sid" "an_id ?row = tempId" by (simp_all add: pending_row_def)
  have one: "annotation_map ?st = ?m((sid, tempId) \<mapsto> ?row)"
    using fresh by (simp add: annotation_map_ops [OF ok] row)
  have two: "annotation_map (annotations_remove ?st sid tempId) = ?m"
    using fresh by (simp add: annotation_map_ops [OF ok1] one fun_upd_idem)
  define c where "c = convertAnnotation resp (or_else (ws_originCache w) 0) (Some t)"
  have c: "an_sessionId c = pbn_sessionId resp" "an_id c = pbn_id resp"
    by (simp_all add: c_def convertAnnotation_def Let_def split_beta)
  have cache: "ws_originCache (postAnnotation_begin now sid tempId a w) = ws_originCache w"
    by (simp add: postAnnotation_begin_def Let_def)
  show ?thesis
    unfolding Let_def c_def [symmetric]
  proof
    show "annotation_map (ws_annotations (postAnnotation_done sid tempId t (Some resp) (postAnnotation_begin now sid tempId a w))) =
        ?m((pbn_sessionId resp, pbn_id resp) \<mapsto>
          case ?m (pbn_sessionId resp, pbn_id resp) of None \<Rightarrow> c | Some old \<Rightarrow> spread_annotation old c)"
      by (simp add: postAnnotation_done_def Let_def begin_upserts cache c_def [symmetric] annotation_map_ops [OF ok2] two c)
    show "annotation_map (ws_annotations (postAnnotation_failed sid tempId msg (postAnnotation_begin now sid tempId a w))) =
        ?m((sid, tempId) \<mapsto> ?row\<lparr>an_error := Some msg, an_pending := False\<rparr>)"
      by (simp add: postAnnotation_failed_def begin_upserts annotation_map_ops [OF ok1] one)
  qed
qed

definition demoWire :: pb_annotation where
  "demoWire = \<lparr>pbn_id = ''ann-1'', pbn_sessionId = ''q'', pbn_target = Some (TargetSpan ''s''), pbn_author = ''user'',
     pbn_createdAt = None, pbn_kind = 1, pbn_body = ''hi'', pbn_deliveredAt = None\<rparr>"

definition demoPost :: post_args where
  "demoPost = \<lparr>po_spanTarget = ''s'', po_body = ''hi'', po_kind = AN_COMMENT, po_author = ''user''\<rparr>"

theorem optimistic_annotation_replaced_witness:
  "annotation_map (ws_annotations (postAnnotation_done ''q'' ''pending-1'' 0 (Some demoWire)
     (postAnnotation_begin 5 ''q'' ''pending-1'' demoPost emptyWatch))) =
   Map.empty ((''q'', ''ann-1'') \<mapsto> convertAnnotation demoWire 0 (Some 0))"
proof -
  have e: "annotation_map (ws_annotations emptyWatch) = Map.empty"
    by (rule ext) (auto simp: emptyWatch_def annotation_map_def annotations_list_def row_of_def)
  have "ws_originCache emptyWatch = None" by (simp add: emptyWatch_def)
  then show ?thesis
    using optimistic_annotation_replaced [OF reachable.start, of "''q''" "''pending-1''" demoWire 5 demoPost 0 "''x''"]
    by (simp add: e Let_def demoWire_def or_else_def)
qed

text \<open>A span that arrives before the first session frame is converted against the origin 0 and is not re-anchored when
  the frame arrives: it keeps its wall-clock start, whatever the session start is.\<close>

theorem early_span_not_rebased:
  "map sp_startMs (si_all (ss_spans (ws_store (watch_run sid [(n1, MInitialSpan s), (n2, MSession created status)] (subscribe emptyWatch))))) =
     [tsToMs (pbs_startTime s)]"
proof -
  let ?w = "watch_step n1 sid (MInitialSpan s) (subscribe emptyWatch)"
  have keep: "ss_spans (ws_store (watch_step n2 sid (MSession created status) w)) = ss_spans (ws_store w)" for w
    by (simp add: watch_step_def onSession_def Let_def rebase_drifts touch_def)
  have merge: "map sp_startMs (si_all (ss_spans (merge_if_goldfive a st))) = map sp_startMs (si_all (ss_spans st))"
    if "ar_get (ss_agents st) LEGACY = None" for a st
    using that by (simp add: merge_if_goldfive_def mergeGoldfiveAlias_def Let_def)
  have org: "or_else (ws_origin (default_origin (touch n1 (subscribe emptyWatch)))) 0 = 0"
    by (simp add: default_origin_def touch_def set_view_def subscribe_def emptyWatch_def tick_def Let_def or_else_def)
  have st: "ws_store (subscribe emptyWatch) = emptyStore" by (simp add: subscribe_def emptyWatch_def Let_def)
  have "ws_store ?w = merge_if_goldfive (sp_agentId (convertSpan s 0)) (append_span emptyStore (convertSpan s 0))"
    by (simp add: watch_step_def onInitialSpan_def org Let_def) (simp add: touch_def st)
  moreover have "ar_get (ss_agents (append_span emptyStore x)) LEGACY = None" for x
    by (simp add: append_span_def emptyStore_def emptyAgents_def ar_get_def)
  ultimately have "map sp_startMs (si_all (ss_spans (ws_store ?w))) = map sp_startMs (si_all (ss_spans (append_span emptyStore (convertSpan s 0))))"
    by (simp add: merge)
  also have "\<dots> = [tsToMs (pbs_startTime s)]"
    by (simp add: append_span_def emptyStore_def si_append_def emptyIndex_def si_insert_def si_all_def Let_def sp_times_convert si_emit_def)
  finally show ?thesis by (simp add: keep)
qed

end
