(* ===== verification/Popovers.thy ===== *)
theory Popovers
  imports Complex_Main Prelude
begin

text \<open>
  The floating popovers of \<open>frontend/src/state/popoverStore.ts\<close>, a map from span id to popover in the order of opening.
  Anchors are canvas coordinates, rational numbers here. \<open>openForSpan\<close> writes the anchor of a popover that is open
  into the object itself, which the previous snapshot shares; no other operation reads an old snapshot.
\<close>

record span_popover =
  po_spanId :: string
  po_pinned :: bool
  po_anchorX :: rat
  po_anchorY :: rat

type_synonym popovers = "(string, span_popover) jsmap"

definition openForSpan :: "popovers \<Rightarrow> string \<Rightarrow> rat \<Rightarrow> rat \<Rightarrow> popovers" where
  "openForSpan ps spanId anchorX anchorY =
     (case map_of ps spanId of
        Some existing \<Rightarrow> AList.update spanId (existing\<lparr>po_anchorX := anchorX, po_anchorY := anchorY\<rparr>) ps
      | None \<Rightarrow>
          AList.update spanId \<lparr>po_spanId = spanId, po_pinned = False, po_anchorX = anchorX, po_anchorY = anchorY\<rparr>
            (filter (\<lambda>(i, p). po_pinned p) ps))"

definition togglePin :: "popovers \<Rightarrow> string \<Rightarrow> popovers" where
  "togglePin ps spanId =
     (case map_of ps spanId of
        None \<Rightarrow> ps
      | Some existing \<Rightarrow> AList.update spanId (existing\<lparr>po_pinned := \<not> po_pinned existing\<rparr>) ps)"

definition closePopover :: "popovers \<Rightarrow> string \<Rightarrow> popovers" where
  "closePopover ps spanId = (if \<not> map_has ps spanId then ps else AList.delete spanId ps)"

definition closeUnpinned :: "popovers \<Rightarrow> popovers" where
  "closeUnpinned ps =
     (let changed = list_ex (\<lambda>(i, p). \<not> po_pinned p) ps; rest = filter (\<lambda>(i, p). po_pinned p) ps
      in if changed then rest else ps)"

definition closeAll :: "popovers \<Rightarrow> popovers" where
  "closeAll ps = []"

datatype popover_op = PoOpen string rat rat | PoToggle string | PoClose string | PoCloseUnpinned | PoCloseAll

fun popover_step :: "popovers \<Rightarrow> popover_op \<Rightarrow> popovers" where
  "popover_step ps (PoOpen s x y) = openForSpan ps s x y"
| "popover_step ps (PoToggle s) = togglePin ps s"
| "popover_step ps (PoClose s) = closePopover ps s"
| "popover_step ps PoCloseUnpinned = closeUnpinned ps"
| "popover_step ps PoCloseAll = closeAll ps"

definition pinned_ids :: "popovers \<Rightarrow> string list" where
  "pinned_ids ps = map fst (filter (\<lambda>(i, p). po_pinned p) ps)"

definition popovers_ok :: "popovers \<Rightarrow> bool" where
  "popovers_ok ps = (map_ok ps \<and> list_all (\<lambda>(i, p). po_spanId p = i) ps)"

lemma popovers_ok_lookup: "popovers_ok ps \<Longrightarrow> map_of ps s = Some p \<Longrightarrow> po_spanId p = s"
  by (auto simp: popovers_ok_def list_all_iff dest: map_of_SomeD)

lemma popovers_ok_update: "popovers_ok ps \<Longrightarrow> po_spanId p = s \<Longrightarrow> popovers_ok (AList.update s p ps)"
proof -
  assume ok: "popovers_ok ps" and p: "po_spanId p = s"
  have "po_spanId q = i" if "(i, q) \<in> set (AList.update s p ps)" for i q
    using subsetD [OF set_update_subset that] ok p by (auto simp: popovers_ok_def list_all_iff)
  with ok show ?thesis by (auto simp: popovers_ok_def list_all_iff)
qed

lemma popovers_ok_filter: "popovers_ok ps \<Longrightarrow> popovers_ok (filter f ps)"
  by (auto simp: popovers_ok_def list_all_iff map_ok_def distinct_map_filter)

lemma popovers_ok_delete: "popovers_ok ps \<Longrightarrow> popovers_ok (AList.delete s ps)"
  by (auto simp: popovers_ok_def list_all_iff set_delete)

lemma popover_step_ok: "popovers_ok ps \<Longrightarrow> popovers_ok (popover_step ps cmd)"
proof (cases cmd)
  case (PoOpen s x y)
  assume ok: "popovers_ok ps"
  show ?thesis
  proof (cases "map_of ps s")
    case None
    then show ?thesis by (simp add: PoOpen openForSpan_def popovers_ok_update popovers_ok_filter [OF ok])
  next
    case (Some p)
    then show ?thesis using popovers_ok_lookup [OF ok Some] by (simp add: PoOpen openForSpan_def popovers_ok_update [OF ok])
  qed
next
  case (PoToggle s)
  assume ok: "popovers_ok ps"
  show ?thesis
  proof (cases "map_of ps s")
    case None
    then show ?thesis by (simp add: PoToggle togglePin_def ok)
  next
    case (Some p)
    then show ?thesis using popovers_ok_lookup [OF ok Some] by (simp add: PoToggle togglePin_def popovers_ok_update [OF ok])
  qed
qed (simp_all add: closePopover_def closeUnpinned_def closeAll_def popovers_ok_delete popovers_ok_filter Let_def,
     simp add: popovers_ok_def)

lemma popovers_reachable_ok: "popovers_ok (foldl popover_step [] ops)"
  by (induction ops rule: rev_induct) (simp_all add: popover_step_ok, simp add: popovers_ok_def)

text \<open>Opening a popover on a span that has none keeps every pinned popover as it was, drops every unpinned one and
  adds the new one unpinned at the click, so that it is the only unpinned popover, in every reachable state.\<close>

theorem open_swaps_unpinned:
  assumes new: "\<not> map_has (foldl popover_step [] ops) s"
  shows "openForSpan (foldl popover_step [] ops) s x y =
           filter (\<lambda>(i, p). po_pinned p) (foldl popover_step [] ops) @
           [(s, \<lparr>po_spanId = s, po_pinned = False, po_anchorX = x, po_anchorY = y\<rparr>)] \<and>
         filter (\<lambda>(i, p). \<not> po_pinned p) (openForSpan (foldl popover_step [] ops) s x y) =
           [(s, \<lparr>po_spanId = s, po_pinned = False, po_anchorX = x, po_anchorY = y\<rparr>)] \<and>
         popovers_ok (openForSpan (foldl popover_step [] ops) s x y)"
proof -
  let ?ps = "foldl popover_step [] ops"
  have none: "map_of ?ps s = None" using new by (simp add: map_has_def)
  have "\<not> map_has (filter (\<lambda>(i, p). po_pinned p) ?ps) s" using new by (auto simp: map_has_iff)
  then have eq: "openForSpan ?ps s x y = filter (\<lambda>(i, p). po_pinned p) ?ps @
      [(s, \<lparr>po_spanId = s, po_pinned = False, po_anchorX = x, po_anchorY = y\<rparr>)]"
    using none by (simp add: openForSpan_def update_new)
  moreover have "popovers_ok (openForSpan ?ps s x y)"
    using popover_step_ok [OF popovers_reachable_ok, of ops "PoOpen s x y"] by simp
  ultimately show ?thesis by (auto simp: filter_empty_conv)
qed

theorem open_swaps_unpinned_witness:
  "map fst (openForSpan (foldl popover_step [] [PoOpen ''a'' 1 2, PoToggle ''a'', PoOpen ''b'' 3 4]) ''c'' 5 6) = [''a'', ''c'']"
  using open_swaps_unpinned [of "[PoOpen ''a'' 1 2, PoToggle ''a'', PoOpen ''b'' 3 4]" "''c''" 5 6]
  by (simp add: openForSpan_def togglePin_def map_has_def)

end
