(* ===== verification/Interventions.thy ===== *)
theory Interventions
  imports Session Wire
begin

text \<open>
  The unified intervention history of a session: the conversion of the server's rows and the marker sizes
  (\<open>frontend/src/lib/interventions.ts\<close>), and the store that fetches them
  (\<open>frontend/src/state/interventionsStore.ts\<close>). A fetch is asynchronous: \<open>refresh\<close> is its synchronous part, up to the
  \<open>await\<close>, and \<open>reply\<close> and \<open>failure\<close> are what the settled promise runs, the \<open>finally\<close> block included; any order of
  these steps can occur. \<open>ic_awaiting\<close> holds, for each outstanding call, the \<open>sessionStartMs\<close> of its closure, and
  \<open>ic_calls\<close> records the calls made, the last one first. The hook that debounces the refreshes is a timer with a deadline.
\<close>

section \<open>Rows\<close>

datatype intervention_source = IS_user | IS_drift | IS_goldfive | IS_cancel | IS_refine | IS_transition

record severity_transition =
  svt_fromSeverity :: string
  svt_toSeverity :: string
  svt_atMs :: int

record drift_observation =
  ob_seq :: nat
  ob_atMs :: int
  ob_severity :: string
  ob_prevSeverity :: string
  ob_lifecycle :: string
  ob_detail :: string
  ob_driftId :: string

record intervention_row =
  iv_key :: string
  iv_atMs :: int
  iv_source :: intervention_source
  iv_kind :: string
  iv_bodyOrReason :: string
  iv_author :: string
  iv_outcome :: string
  iv_planRevisionIndex :: int
  iv_severity :: string
  iv_annotationId :: string
  iv_driftKind :: string
  iv_triggerEventId :: string
  iv_targetAgentId :: string
  iv_driftId :: string
  iv_attemptId :: string
  iv_failureKind :: string
  iv_transitionToStatus :: "string option"
  iv_transitionSource :: "string option"
  iv_transitionTaskId :: "string option"
  iv_conditionId :: "string option"
  iv_currentLifecycle :: "string option"
  iv_observationCount :: "int option"
  iv_severityTransitions :: "severity_transition list option"
  iv_observations :: "drift_observation list option"
  iv_targetPlanId :: "string option"

record pb_severity_transition =
  pst_from :: string
  pst_to :: string
  pst_at :: "timestamp option"

record pb_observation =
  pbo_at :: "timestamp option"
  pbo_severity :: string
  pbo_prevSeverity :: string
  pbo_lifecycle :: string
  pbo_detail :: string
  pbo_driftId :: string

record pb_intervention =
  pbi_key :: string
  pbi_at :: "timestamp option"
  pbi_source :: string
  pbi_kind :: string
  pbi_bodyOrReason :: string
  pbi_author :: string
  pbi_outcome :: string
  pbi_planRevisionIndex :: int
  pbi_severity :: string
  pbi_annotationId :: string
  pbi_driftKind :: string
  pbi_targetAgentId :: string
  pbi_driftId :: string
  pbi_attemptId :: string
  pbi_failureKind :: string
  pbi_transitionToStatus :: string
  pbi_transitionSource :: string
  pbi_transitionTaskId :: string
  pbi_conditionId :: string
  pbi_lifecycle :: string
  pbi_count :: int
  pbi_severityTransitions :: "pb_severity_transition list"
  pbi_observations :: "pb_observation list"
  pbi_targetPlanId :: string

definition KNOWN_SOURCES :: "(string \<times> intervention_source) list" where
  "KNOWN_SOURCES = [(''user'', IS_user), (''drift'', IS_drift), (''goldfive'', IS_goldfive), (''cancel'', IS_cancel),
     (''refine'', IS_refine), (''transition'', IS_transition)]"

definition pbTsToMs :: "timestamp option \<Rightarrow> int" where
  "pbTsToMs t = (case t of None \<Rightarrow> 0 | Some x \<Rightarrow> ts_seconds x * 1000 + ts_nanos x div 1000000)"

definition rebased :: "timestamp option \<Rightarrow> int \<Rightarrow> int" where
  \<comment> \<open>\<open>const a = pbTsToMs(at); a ? a - sessionStartMs : 0\<close>, three times in the converter\<close>
  "rebased t sessionStartMs = (let a = pbTsToMs t in if a \<noteq> 0 then a - sessionStartMs else 0)"

definition or_undefined :: "string \<Rightarrow> string option" where
  "or_undefined s = (if s = '''' then None else Some s)"

definition interventionRowFromPb :: "pb_intervention \<Rightarrow> int \<Rightarrow> intervention_row" where
  "interventionRowFromPb pb sessionStartMs =
     (let source = get_or (map_of KNOWN_SOURCES (pbi_source pb)) IS_goldfive;
          severityTransitions =
            (if 0 < length (pbi_severityTransitions pb)
             then Some (map (\<lambda>st. \<lparr>svt_fromSeverity = pst_from st, svt_toSeverity = pst_to st,
                                   svt_atMs = rebased (pst_at st) sessionStartMs\<rparr>) (pbi_severityTransitions pb))
             else None);
          observations =
            (if 0 < length (pbi_observations pb)
             then Some (map (\<lambda>(i, ob). \<lparr>ob_seq = i, ob_atMs = rebased (pbo_at ob) sessionStartMs,
                                        ob_severity = pbo_severity ob, ob_prevSeverity = pbo_prevSeverity ob,
                                        ob_lifecycle = pbo_lifecycle ob, ob_detail = pbo_detail ob,
                                        ob_driftId = pbo_driftId ob\<rparr>) (enumerate 0 (pbi_observations pb)))
             else None)
      in \<lparr>iv_key = pbi_key pb, iv_atMs = rebased (pbi_at pb) sessionStartMs, iv_source = source, iv_kind = pbi_kind pb,
          iv_bodyOrReason = pbi_bodyOrReason pb, iv_author = pbi_author pb, iv_outcome = pbi_outcome pb,
          iv_planRevisionIndex = pbi_planRevisionIndex pb, iv_severity = pbi_severity pb,
          iv_annotationId = pbi_annotationId pb, iv_driftKind = pbi_driftKind pb, iv_triggerEventId = '''',
          iv_targetAgentId = pbi_targetAgentId pb, iv_driftId = pbi_driftId pb, iv_attemptId = pbi_attemptId pb,
          iv_failureKind = pbi_failureKind pb, iv_transitionToStatus = or_undefined (pbi_transitionToStatus pb),
          iv_transitionSource = or_undefined (pbi_transitionSource pb),
          iv_transitionTaskId = or_undefined (pbi_transitionTaskId pb), iv_conditionId = or_undefined (pbi_conditionId pb),
          iv_currentLifecycle = or_undefined (pbi_lifecycle pb),
          iv_observationCount = (if 1 < pbi_count pb then Some (pbi_count pb) else None),
          iv_severityTransitions = severityTransitions, iv_observations = observations,
          iv_targetPlanId = or_undefined (pbi_targetPlanId pb)\<rparr>)"

section \<open>Marker sizes and colours\<close>

definition SEVERITY_WEIGHT :: "(string \<times> int) list" where
  "SEVERITY_WEIGHT = [(''critical'', 14), (''warning'', 11), (''info'', 9), ('''', 9)]"

definition markerRadiusFor :: "intervention_row \<Rightarrow> int looked_up" where
  \<comment> \<open>\<open>SEVERITY_WEIGHT[row.severity] ?? SEVERITY_WEIGHT.info\<close>: an inherited name is found too\<close>
  "markerRadiusFor row =
     (if iv_source row \<notin> {IS_drift, IS_cancel, IS_refine, IS_transition} then Own 9
      else case object_get SEVERITY_WEIGHT (iv_severity row) of Missing \<Rightarrow> Own 9 | found \<Rightarrow> found)"

fun SOURCE_COLOR :: "intervention_source \<Rightarrow> string" where
  "SOURCE_COLOR IS_user = ''#5b8def''"
| "SOURCE_COLOR IS_drift = ''#f59e0b''"
| "SOURCE_COLOR IS_goldfive = ''#8d9199''"
| "SOURCE_COLOR IS_cancel = ''#e05e4a''"
| "SOURCE_COLOR IS_refine = ''#3a9b8a''"
| "SOURCE_COLOR IS_transition = ''#9b6dd6''"

section \<open>The store\<close>

record interventions =
  ic_bySession :: "(string, intervention_row list) jsmap"
  ic_inflight :: "string list"
  ic_pending :: "(string, int) jsmap"
  ic_awaiting :: "(string, int) jsmap"
  ic_calls :: "(string \<times> int) list"

definition emptyInterventions :: interventions where
  "emptyInterventions = \<lparr>ic_bySession = [], ic_inflight = [], ic_pending = [], ic_awaiting = [], ic_calls = []\<rparr>"

definition interventions_list :: "interventions \<Rightarrow> string \<Rightarrow> intervention_row list" where
  "interventions_list st sessionId = get_or (map_of (ic_bySession st) sessionId) []"

function refresh :: "bool \<Rightarrow> interventions \<Rightarrow> string \<Rightarrow> int \<Rightarrow> interventions" where
  \<comment> \<open>\<open>ok\<close>: there is a client and it has \<open>listInterventions\<close>; otherwise the \<open>finally\<close> block runs at once\<close>
  "refresh ok st sessionId sessionStartMs =
     (if sessionId = '''' then st
      else if sessionId \<in> set (ic_inflight st) then st\<lparr>ic_pending := AList.update sessionId sessionStartMs (ic_pending st)\<rparr>
      else if ok then st\<lparr>ic_inflight := set_add sessionId (ic_inflight st),
                         ic_awaiting := AList.update sessionId sessionStartMs (ic_awaiting st),
                         ic_calls := (sessionId, sessionStartMs) # ic_calls st\<rparr>
      else let st1 = st\<lparr>ic_inflight := removeAll sessionId (set_add sessionId (ic_inflight st))\<rparr>
           in case map_of (ic_pending st1) sessionId of
                None \<Rightarrow> st1
              | Some followUp \<Rightarrow>
                  refresh ok (st1\<lparr>ic_pending := AList.delete sessionId (ic_pending st1)\<rparr>) sessionId followUp)"
  by pat_completeness auto

lemma length_delete_less: "map_of m k = Some v \<Longrightarrow> length (AList.delete k m) < length m"
proof (induction m)
  case (Cons p m)
  have "length (AList.delete k m) \<le> length m" by (rule length_delete_le)
  with Cons show ?case by (cases "fst p = k") (auto split: if_splits)
qed simp

termination refresh
  by (relation "measure (\<lambda>(ok, st, sid, ms). length (ic_pending st))") (auto dest: length_delete_less)

declare refresh.simps [simp del]

definition settle :: "bool \<Rightarrow> interventions \<Rightarrow> string \<Rightarrow> interventions" where
  \<comment> \<open>the \<open>finally\<close> block of an awaited call\<close>
  "settle ok st sessionId =
     (let st1 = st\<lparr>ic_inflight := removeAll sessionId (ic_inflight st), ic_awaiting := AList.delete sessionId (ic_awaiting st)\<rparr>
      in case map_of (ic_pending st1) sessionId of
           None \<Rightarrow> st1
         | Some followUp \<Rightarrow>
             refresh ok (st1\<lparr>ic_pending := AList.delete sessionId (ic_pending st1)\<rparr>) sessionId followUp)"

definition reply :: "bool \<Rightarrow> interventions \<Rightarrow> string \<Rightarrow> pb_intervention list \<Rightarrow> interventions" where
  "reply ok st sessionId ivs =
     (case map_of (ic_awaiting st) sessionId of
        None \<Rightarrow> st
      | Some sessionStartMs \<Rightarrow>
          settle ok (st\<lparr>ic_bySession := AList.update sessionId (map (\<lambda>iv. interventionRowFromPb iv sessionStartMs) ivs)
                          (ic_bySession st)\<rparr>) sessionId)"

definition failure :: "bool \<Rightarrow> interventions \<Rightarrow> string \<Rightarrow> interventions" where
  "failure ok st sessionId = (case map_of (ic_awaiting st) sessionId of None \<Rightarrow> st | Some _ \<Rightarrow> settle ok st sessionId)"

datatype intervention_op = IRefresh string int | IReply string "pb_intervention list" | IFailure string

fun interventions_step :: "bool \<Rightarrow> interventions \<Rightarrow> intervention_op \<Rightarrow> interventions" where
  "interventions_step ok st (IRefresh s ms) = refresh ok st s ms"
| "interventions_step ok st (IReply s ivs) = reply ok st s ivs"
| "interventions_step ok st (IFailure s) = failure ok st s"

section \<open>The invariant\<close>

definition interventions_ok :: "interventions \<Rightarrow> bool" where
  "interventions_ok st \<longleftrightarrow>
     distinct (ic_inflight st) \<and> map_ok (ic_pending st) \<and> map_ok (ic_awaiting st) \<and> map_ok (ic_bySession st) \<and>
     fst ` set (ic_awaiting st) = set (ic_inflight st) \<and> fst ` set (ic_pending st) \<subseteq> set (ic_inflight st) \<and>
     '''' \<notin> set (ic_inflight st)"

lemma pending_in_flight: "interventions_ok st \<Longrightarrow> map_of (ic_pending st) s = Some ms \<Longrightarrow> s \<in> set (ic_inflight st)"
  by (auto simp: interventions_ok_def dest!: map_of_key)

lemma awaiting_in_flight: "interventions_ok st \<Longrightarrow> (map_of (ic_awaiting st) s = None) = (s \<notin> set (ic_inflight st))"
  by (auto simp: interventions_ok_def map_of_eq_None_iff)

lemma refresh_new:
  assumes "interventions_ok st" and "s \<noteq> ''''" and "s \<notin> set (ic_inflight st)"
  shows "refresh ok st s ms =
     (if ok then st\<lparr>ic_inflight := ic_inflight st @ [s], ic_awaiting := AList.update s ms (ic_awaiting st),
                    ic_calls := (s, ms) # ic_calls st\<rparr> else st)"
proof -
  have "map_of (ic_pending st) s = None" using assms pending_in_flight by (cases "map_of (ic_pending st) s") auto
  then show ?thesis using assms by (subst refresh.simps) (simp add: set_add_def)
qed

lemma refresh_busy:
  "s \<in> set (ic_inflight st) \<Longrightarrow> s \<noteq> '''' \<Longrightarrow> refresh ok st s ms = st\<lparr>ic_pending := AList.update s ms (ic_pending st)\<rparr>"
  by (subst refresh.simps) simp

lemma refresh_empty: "refresh ok st '''' ms = st"
  by (subst refresh.simps) simp

lemma interventions_ok_refresh: "interventions_ok st \<Longrightarrow> interventions_ok (refresh ok st s ms)"
proof (cases "s = ''''")
  case False
  assume ok: "interventions_ok st"
  show ?thesis
  proof (cases "s \<in> set (ic_inflight st)")
    case True
    with ok False show ?thesis by (simp add: refresh_busy interventions_ok_def fst_set_update)
  next
    case new: False
    from ok False new show ?thesis
      by (simp add: refresh_new) (auto simp: interventions_ok_def fst_set_update)
  qed
qed (simp add: refresh_empty)

definition released :: "interventions \<Rightarrow> string \<Rightarrow> interventions" where
  "released st s = st\<lparr>ic_inflight := removeAll s (ic_inflight st), ic_awaiting := AList.delete s (ic_awaiting st),
     ic_pending := AList.delete s (ic_pending st)\<rparr>"

lemma interventions_ok_released: "interventions_ok st \<Longrightarrow> interventions_ok (released st s)"
  by (auto simp: interventions_ok_def released_def set_delete distinct_removeAll)

lemma settle_eq:
  assumes ok: "interventions_ok st"
  shows "settle client st s =
     (case map_of (ic_pending st) s of None \<Rightarrow> released st s
      | Some ms \<Rightarrow> refresh client (released st s) s ms)"
proof (cases "map_of (ic_pending st) s")
  case None
  then have "AList.delete s (ic_pending st) = ic_pending st"
    by (simp add: map_of_eq_None_iff delete_id)
  with None show ?thesis by (simp add: settle_def Let_def released_def)
next
  case (Some ms)
  then show ?thesis by (simp add: settle_def Let_def released_def)
qed

lemma interventions_ok_settle: "interventions_ok st \<Longrightarrow> interventions_ok (settle client st s)"
  by (auto simp: settle_eq interventions_ok_released interventions_ok_refresh split: option.split)

lemma interventions_ok_rows:
  "interventions_ok st \<Longrightarrow> interventions_ok (st\<lparr>ic_bySession := AList.update s rows (ic_bySession st)\<rparr>)"
  by (simp add: interventions_ok_def)

lemma interventions_ok_step: "interventions_ok st \<Longrightarrow> interventions_ok (interventions_step ok st op)"
  by (cases op)
    (auto simp: interventions_ok_refresh reply_def failure_def interventions_ok_settle interventions_ok_rows split: option.split)

lemma interventions_ok_run: "interventions_ok (foldl (interventions_step ok) emptyInterventions ops)"
proof -
  have "interventions_ok st \<Longrightarrow> interventions_ok (foldl (interventions_step ok) st ops)" for st
    by (induction ops arbitrary: st) (simp_all add: interventions_ok_step)
  moreover have "interventions_ok emptyInterventions" by (simp add: interventions_ok_def emptyInterventions_def)
  ultimately show ?thesis by blast
qed

section \<open>One session at a time: the protocol of a fetch\<close>

datatype fetch = Idle | Fetching int | Queued int int

fun request :: "int \<Rightarrow> fetch \<Rightarrow> fetch" where
  "request ms Idle = Fetching ms"
| "request ms (Fetching m) = Queued m ms"
| "request ms (Queued m n) = Queued m ms"

fun settled :: "fetch \<Rightarrow> fetch" where
  "settled Idle = Idle"
| "settled (Fetching m) = Idle"
| "settled (Queued m n) = Fetching n"

fun current_call :: "fetch \<Rightarrow> int option" where
  "current_call Idle = None"
| "current_call (Fetching m) = Some m"
| "current_call (Queued m n) = Some m"

fun protocol_step :: "fetch \<times> intervention_row list \<Rightarrow> intervention_op \<Rightarrow> fetch \<times> intervention_row list" where
  "protocol_step (f, rows) (IRefresh s ms) = (request ms f, rows)"
| "protocol_step (f, rows) (IReply s ivs) =
     (settled f, case current_call f of None \<Rightarrow> rows | Some m \<Rightarrow> map (\<lambda>iv. interventionRowFromPb iv m) ivs)"
| "protocol_step (f, rows) (IFailure s) = (settled f, rows)"

fun op_session :: "intervention_op \<Rightarrow> string" where
  "op_session (IRefresh s ms) = s"
| "op_session (IReply s ivs) = s"
| "op_session (IFailure s) = s"

definition fetch_of :: "interventions \<Rightarrow> string \<Rightarrow> fetch" where
  "fetch_of st s =
     (case map_of (ic_awaiting st) s of
        None \<Rightarrow> Idle
      | Some m \<Rightarrow> (case map_of (ic_pending st) s of None \<Rightarrow> Fetching m | Some n \<Rightarrow> Queued m n))"

lemma fetch_of_refresh:
  assumes ok: "interventions_ok st"
  shows "fetch_of (refresh True st s ms) s' = (if s' = s \<and> s \<noteq> '''' then request ms (fetch_of st s) else fetch_of st s')"
proof (cases "s = ''''")
  case True
  then show ?thesis by (simp add: refresh_empty)
next
  case ne: False
  show ?thesis
  proof (cases "s \<in> set (ic_inflight st)")
    case True
    then obtain m where "map_of (ic_awaiting st) s = Some m" using awaiting_in_flight [OF ok, of s] by auto
    with True ne show ?thesis by (simp add: refresh_busy fetch_of_def split: option.split)
  next
    case False
    then have "map_of (ic_awaiting st) s = None" using awaiting_in_flight [OF ok, of s] by simp
    moreover have "map_of (ic_pending st) s = None"
      using False pending_in_flight [OF ok, of s] by (cases "map_of (ic_pending st) s") auto
    ultimately show ?thesis using False ne ok
      by (simp add: refresh_new fetch_of_def split: option.split)
  qed
qed

lemma fetch_of_released: "fetch_of (released st s) s' = (if s' = s then Idle else fetch_of st s')"
  by (simp add: fetch_of_def released_def split: option.split)

lemma rows_refresh [simp]: "ic_bySession (refresh ok st s ms) = ic_bySession st"
  by (induction ok st s ms rule: refresh.induct) (subst refresh.simps, simp add: Let_def split: option.split)

lemma rows_settle [simp]: "ic_bySession (settle ok st s) = ic_bySession st"
  by (simp add: settle_def Let_def split: option.split)

lemma fetch_of_settle:
  assumes ok: "interventions_ok st" and busy: "map_of (ic_awaiting st) s = Some m"
  shows "fetch_of (settle True st s) s' = (if s' = s then settled (fetch_of st s) else fetch_of st s')"
proof -
  have "s \<noteq> ''''" using awaiting_in_flight [OF ok, of s] busy ok by (auto simp: interventions_ok_def)
  with busy show ?thesis
    by (cases "map_of (ic_pending st) s")
      (simp_all add: settle_eq [OF ok] fetch_of_refresh [OF interventions_ok_released [OF ok]] fetch_of_released,
        simp_all add: fetch_of_def)
qed

definition session_view :: "interventions \<Rightarrow> string \<Rightarrow> fetch \<times> intervention_row list" where
  "session_view st s = (fetch_of st s, interventions_list st s)"

lemma fetch_of_rows [simp]: "fetch_of (st\<lparr>ic_bySession := m\<rparr>) s = fetch_of st s"
  by (simp add: fetch_of_def split: option.split)

lemma current_call_fetch: "current_call (fetch_of st s) = map_of (ic_awaiting st) s"
  by (simp add: fetch_of_def split: option.split)

lemma idle_settled: "map_of (ic_awaiting st) s = None \<Longrightarrow> settled (fetch_of st s) = fetch_of st s"
  by (simp add: fetch_of_def)

lemma view_step:
  assumes ok: "interventions_ok st"
  shows "session_view (interventions_step True st op) s =
           (if op_session op = s \<and> s \<noteq> '''' then protocol_step (session_view st s) op else session_view st s)"
proof (cases op)
  case (IRefresh s' ms)
  then show ?thesis using ok by (auto simp: session_view_def interventions_list_def fetch_of_refresh)
next
  case (IReply s' ivs)
  show ?thesis
  proof (cases "map_of (ic_awaiting st) s'")
    case None
    with IReply show ?thesis
      by (auto simp: reply_def session_view_def idle_settled current_call_fetch)
  next
    case (Some m)
    then have ne: "s' \<noteq> ''''" using awaiting_in_flight [OF ok, of s'] ok by (auto simp: interventions_ok_def)
    let ?st = "st\<lparr>ic_bySession := AList.update s' (map (\<lambda>iv. interventionRowFromPb iv m) ivs) (ic_bySession st)\<rparr>"
    have a: "map_of (ic_awaiting ?st) s' = Some m" using Some by simp
    from ne Some IReply show ?thesis
      using fetch_of_settle [OF interventions_ok_rows [OF ok] a, of s]
      by (auto simp: reply_def session_view_def interventions_list_def current_call_fetch get_or_def)
  qed
next
  case (IFailure s')
  show ?thesis
  proof (cases "map_of (ic_awaiting st) s'")
    case None
    with IFailure show ?thesis by (auto simp: failure_def session_view_def idle_settled)
  next
    case (Some m)
    then have ne: "s' \<noteq> ''''" using awaiting_in_flight [OF ok, of s'] ok by (auto simp: interventions_ok_def)
    with Some IFailure fetch_of_settle [OF ok Some, of s] show ?thesis
      by (auto simp: failure_def session_view_def interventions_list_def)
  qed
qed

text \<open>C20: The store of the intervention history refines, for each session on its own, the protocol of one fetch at a time: a
  request during a fetch is remembered, the latest one replacing the earlier, and runs when the fetch settles; a reply
  replaces the rows, converted with the origin of the call it answers; a failure leaves them. Sessions do not interfere.\<close>

theorem interventions_refine_protocol:
  "session_view (foldl (interventions_step True) emptyInterventions ops) s =
     foldl protocol_step (Idle, []) (filter (\<lambda>op. op_session op = s \<and> s \<noteq> '''') ops)"
proof -
  have "session_view (foldl (interventions_step True) st ops) s =
      foldl protocol_step (session_view st s) (filter (\<lambda>op. op_session op = s \<and> s \<noteq> '''') ops)" if "interventions_ok st" for st
    using that
  proof (induction ops arbitrary: st)
    case (Cons op ops)
    then show ?case using Cons.IH [OF interventions_ok_step [OF Cons.prems]] view_step [OF Cons.prems] by simp
  qed simp
  then show ?thesis
    using interventions_ok_run [of True "[]"]
    by (simp add: session_view_def fetch_of_def emptyInterventions_def interventions_list_def get_or_def)
qed

section \<open>No request is lost, and a burst costs two calls\<close>

fun last_request :: "string \<Rightarrow> intervention_op list \<Rightarrow> int option" where
  "last_request s [] = None"
| "last_request s (op # ops) =
     (case last_request s ops of
        Some ms \<Rightarrow> Some ms
      | None \<Rightarrow> (case op of IRefresh s' ms \<Rightarrow> if s' = s \<and> s \<noteq> '''' then Some ms else None | _ \<Rightarrow> None))"

lemma last_request_snoc:
  "last_request s (ops @ [op]) =
     (case op of IRefresh s' ms \<Rightarrow> if s' = s \<and> s \<noteq> '''' then Some ms else last_request s ops | _ \<Rightarrow> last_request s ops)"
  by (induction ops) (auto split: intervention_op.splits option.splits)

definition latest_wanted :: "interventions \<Rightarrow> string \<Rightarrow> int option" where
  "latest_wanted st s = (case map_of (ic_pending st) s of Some ms \<Rightarrow> Some ms | None \<Rightarrow> map_of (ic_calls st) s)"

definition calls_for :: "interventions \<Rightarrow> string \<Rightarrow> nat" where
  "calls_for st s = length (filter (\<lambda>c. fst c = s) (ic_calls st))"

lemma latest_wanted_refresh:
  assumes ok: "interventions_ok st"
  shows "latest_wanted (refresh True st s ms) s' = (if s' = s \<and> s \<noteq> '''' then Some ms else latest_wanted st s')"
proof (cases "s \<in> set (ic_inflight st)")
  case True
  with ok have "s \<noteq> ''''" by (auto simp: interventions_ok_def)
  with True show ?thesis by (simp add: refresh_busy latest_wanted_def split: option.split)
next
  case False
  then have "map_of (ic_pending st) s = None"
    using pending_in_flight [OF ok, of s] by (cases "map_of (ic_pending st) s") auto
  with False ok show ?thesis
    by (cases "s = ''''") (simp_all add: refresh_empty refresh_new latest_wanted_def split: option.split)
qed

lemma latest_wanted_settle:
  assumes ok: "interventions_ok st" and busy: "map_of (ic_awaiting st) s = Some m"
  shows "latest_wanted (settle True st s) s' = latest_wanted st s'"
proof -
  have ne: "s \<noteq> ''''" using awaiting_in_flight [OF ok, of s] busy ok by (auto simp: interventions_ok_def)
  show ?thesis
  proof (cases "map_of (ic_pending st) s")
    case None
    then show ?thesis by (simp add: settle_eq [OF ok] latest_wanted_def released_def split: option.split)
  next
    case (Some ms)
    have "latest_wanted (released st s) s' = latest_wanted st s'" if "s' \<noteq> s"
      using that by (simp add: latest_wanted_def released_def split: option.split)
    with Some ne show ?thesis
      by (simp add: settle_eq [OF ok] latest_wanted_refresh [OF interventions_ok_released [OF ok]])
        (simp add: latest_wanted_def)
  qed
qed

lemma latest_wanted_rows [simp]: "latest_wanted (st\<lparr>ic_bySession := m\<rparr>) s = latest_wanted st s"
  by (simp add: latest_wanted_def split: option.split)

lemma latest_wanted_step:
  assumes ok: "interventions_ok st"
  shows "latest_wanted (interventions_step True st op) s =
    (case op of IRefresh s' ms \<Rightarrow> if s' = s \<and> s \<noteq> '''' then Some ms else latest_wanted st s | _ \<Rightarrow> latest_wanted st s)"
proof (cases op)
  case (IReply s' ivs)
  show ?thesis
  proof (cases "map_of (ic_awaiting st) s'")
    case (Some m)
    then have "map_of (ic_awaiting (st\<lparr>ic_bySession := r\<rparr>)) s' = Some m" for r by simp
    note settle = latest_wanted_settle [OF interventions_ok_rows [OF ok] this]
    with Some IReply show ?thesis by (simp add: reply_def)
  qed (use IReply in \<open>simp add: reply_def\<close>)
next
  case (IFailure s')
  then show ?thesis using latest_wanted_settle [OF ok] by (simp add: failure_def split: option.split)
qed (use latest_wanted_refresh [OF ok] in auto)

definition settles :: "string \<Rightarrow> intervention_op list \<Rightarrow> nat" where
  "settles s ops = length (filter (\<lambda>op. case op of IRefresh _ _ \<Rightarrow> False | _ \<Rightarrow> op_session op = s) ops)"

lemma calls_refresh:
  assumes ok: "interventions_ok st"
  shows "calls_for (refresh True st s ms) s' =
    calls_for st s' + (if s' = s \<and> s \<noteq> '''' \<and> s \<notin> set (ic_inflight st) then 1 else 0)"
  using ok by (cases "s = ''''"; cases "s \<in> set (ic_inflight st)") (auto simp: refresh_empty refresh_busy refresh_new calls_for_def)

definition calls_bounded :: "interventions \<Rightarrow> string \<Rightarrow> nat \<Rightarrow> bool" where
  "calls_bounded st s n \<longleftrightarrow> calls_for st s \<le> n + (if s \<in> set (ic_inflight st) then 1 else 0)"

lemma inflight_refresh:
  assumes ok: "interventions_ok st"
  shows "s' \<in> set (ic_inflight (refresh True st s ms)) \<longleftrightarrow> s' \<in> set (ic_inflight st) \<or> s' = s \<and> s \<noteq> ''''"
  using ok by (cases "s = ''''"; cases "s \<in> set (ic_inflight st)") (auto simp: refresh_empty refresh_busy refresh_new)

lemma bounded_refresh: "interventions_ok st \<Longrightarrow> calls_bounded st s' n \<Longrightarrow> calls_bounded (refresh True st s ms) s' n"
  by (auto simp: calls_bounded_def calls_refresh inflight_refresh split: if_splits)

lemma bounded_released:
  "calls_bounded st s' n \<Longrightarrow> calls_bounded (released st s) s' (if s' = s then Suc n else n)"
  by (auto simp: calls_bounded_def released_def calls_for_def split: if_splits)

lemma bounded_settle:
  assumes ok: "interventions_ok st" and b: "calls_bounded st s' n"
  shows "calls_bounded (settle True st s) s' (if s' = s then Suc n else n)"
  using bounded_released [OF b, of s]
  by (cases "map_of (ic_pending st) s")
    (simp_all add: settle_eq [OF ok] bounded_refresh [OF interventions_ok_released [OF ok]])

lemma bounded_mono: "calls_bounded st s n \<Longrightarrow> n \<le> m \<Longrightarrow> calls_bounded st s m"
  by (simp add: calls_bounded_def)

lemma bounded_step:
  assumes ok: "interventions_ok st" and b: "calls_bounded st s n"
  shows "calls_bounded (interventions_step True st op) s (n + settles s [op])"
proof (cases op)
  case (IRefresh s' ms)
  then show ?thesis using bounded_refresh [OF ok b] by (simp add: settles_def)
next
  case (IReply s' ivs)
  have n: "n + settles s [op] = (if s = s' then Suc n else n)" using IReply by (simp add: settles_def)
  show ?thesis
  proof (cases "map_of (ic_awaiting st) s'")
    case None
    with IReply have "interventions_step True st op = st" by (simp add: reply_def)
    then show ?thesis using bounded_mono [OF b] by simp
  next
    case (Some m)
    let ?st = "st\<lparr>ic_bySession := AList.update s' (map (\<lambda>iv. interventionRowFromPb iv m) ivs) (ic_bySession st)\<rparr>"
    have "calls_bounded ?st s n" using b by (simp add: calls_bounded_def calls_for_def)
    from bounded_settle [OF interventions_ok_rows [OF ok] this, of s'] Some IReply show ?thesis
      unfolding n by (simp add: reply_def)
  qed
next
  case (IFailure s')
  have n: "n + settles s [op] = (if s = s' then Suc n else n)" using IFailure by (simp add: settles_def)
  show ?thesis
  proof (cases "map_of (ic_awaiting st) s'")
    case None
    with IFailure have "interventions_step True st op = st" by (simp add: failure_def)
    then show ?thesis using bounded_mono [OF b] by simp
  next
    case (Some m)
    with bounded_settle [OF ok b, of s'] IFailure show ?thesis unfolding n by (simp add: failure_def)
  qed
qed

lemma settles_snoc: "settles s (ops @ [op]) = settles s ops + settles s [op]"
  by (simp add: settles_def)

text \<open>C21: No request is lost and a burst is collapsed. For every session, the origin asked for last is the one waiting for the
  next call or, with none waiting, that of the last call made; and however many requests came, at most one call more was
  made than calls have settled.\<close>

theorem interventions_keep_last_request:
  "let st = foldl (interventions_step True) emptyInterventions ops
   in latest_wanted st s = last_request s ops \<and> calls_for st s \<le> Suc (settles s ops)"
proof -
  define run where "run ops = foldl (interventions_step True) emptyInterventions ops" for ops
  have ok: "interventions_ok (run ops)" for ops unfolding run_def by (rule interventions_ok_run)
  have snoc: "run (ops @ [op]) = interventions_step True (run ops) op" for ops op by (simp add: run_def)
  have "latest_wanted (run ops) s = last_request s ops \<and> calls_bounded (run ops) s (settles s ops)"
  proof (induction ops rule: rev_induct)
    case Nil
    show ?case by (simp add: run_def latest_wanted_def emptyInterventions_def calls_bounded_def calls_for_def)
  next
    case (snoc op ops)
    show ?case unfolding \<open>\<And>ops op. run (ops @ [op]) = interventions_step True (run ops) op\<close>
      using snoc latest_wanted_step [OF ok, of ops op s] bounded_step [OF ok, of ops s _ op]
      by (auto simp: last_request_snoc settles_snoc split: intervention_op.split)
  qed
  then show ?thesis by (auto simp: Let_def run_def calls_bounded_def split: if_splits)
qed

section \<open>The hook that keeps the rows fresh\<close>

record intervention_hook =
  ih_store :: interventions
  ih_timer :: "int option"

definition hook_trigger :: "bool \<Rightarrow> string \<Rightarrow> int \<Rightarrow> intervention_hook \<Rightarrow> intervention_hook" where
  "hook_trigger ok sessionId wallClockStartMs h = h\<lparr>ih_store := refresh ok (ih_store h) sessionId wallClockStartMs\<rparr>"

definition hook_mount :: "bool \<Rightarrow> string \<Rightarrow> int \<Rightarrow> interventions \<Rightarrow> intervention_hook" where
  \<comment> \<open>the effect body: fetch once, no timer; the nine subscriptions all call \<open>debounced\<close>\<close>
  "hook_mount ok sessionId wallClockStartMs st =
     (let h = \<lparr>ih_store = st, ih_timer = None\<rparr>
      in if sessionId = '''' then h else hook_trigger ok sessionId wallClockStartMs h)"

definition hook_debounced :: "int \<Rightarrow> intervention_hook \<Rightarrow> intervention_hook" where
  \<comment> \<open>\<open>clearTimeout\<close> and \<open>setTimeout(trigger, 300)\<close> at the time \<open>now\<close>\<close>
  "hook_debounced now h = h\<lparr>ih_timer := Some (now + 300)\<rparr>"

definition hook_time :: "bool \<Rightarrow> string \<Rightarrow> int \<Rightarrow> int \<Rightarrow> intervention_hook \<Rightarrow> intervention_hook" where
  \<comment> \<open>the event loop at the time \<open>now\<close> fires a timer that is due\<close>
  "hook_time ok sessionId wallClockStartMs now h =
     (case ih_timer h of
        Some due \<Rightarrow> if due \<le> now then hook_trigger ok sessionId wallClockStartMs (h\<lparr>ih_timer := None\<rparr>) else h
      | None \<Rightarrow> h)"

definition hook_unmount :: "intervention_hook \<Rightarrow> intervention_hook" where
  "hook_unmount h = h\<lparr>ih_timer := None\<rparr>"

definition hook_notified :: "bool \<Rightarrow> string \<Rightarrow> int \<Rightarrow> int list \<Rightarrow> intervention_hook \<Rightarrow> intervention_hook" where
  \<comment> \<open>notifications at the given times; before each one the event loop has had its turn\<close>
  "hook_notified ok sid wall ts h = foldl (\<lambda>h t. hook_debounced t (hook_time ok sid wall t h)) h ts"

fun close_together :: "int \<Rightarrow> int list \<Rightarrow> bool" where
  "close_together t [] = True"
| "close_together t (u # us) = (u < t + 300 \<and> close_together u us)"

lemma burst_keeps_store:
  "ih_timer h = Some (t + 300) \<Longrightarrow> close_together t ts \<Longrightarrow>
   ih_store (hook_notified ok sid wall ts h) = ih_store h \<and>
   ih_timer (hook_notified ok sid wall ts h) = Some (last (t # ts) + 300)"
proof (induction ts arbitrary: t h)
  case (Cons u us)
  have "hook_time ok sid wall u h = h" using Cons.prems by (simp add: hook_time_def)
  moreover have "hook_notified ok sid wall us (hook_debounced u h) = hook_notified ok sid wall (u # us) h"
    using calculation by (simp add: hook_notified_def)
  ultimately show ?case using Cons.IH [of "hook_debounced u h" u] Cons.prems(2) by (simp add: hook_debounced_def)
qed (simp add: hook_notified_def)

text \<open>A burst of notifications that follow each other within 300 ms triggers nothing while it lasts and one refresh
  300 ms after its last notification; unmounting drops the pending one.\<close>

lemma burst_refreshes_once:
  assumes "ih_timer h = None" and "close_together t ts"
  shows "let h' = hook_notified ok sid wall (t # ts) h
         in ih_store h' = ih_store h \<and>
            hook_time ok sid wall (last (t # ts) + 300) h' = hook_trigger ok sid wall (h'\<lparr>ih_timer := None\<rparr>) \<and>
            hook_time ok sid wall now (hook_unmount h') = hook_unmount h'"
proof -
  have "hook_notified ok sid wall (t # ts) h = hook_notified ok sid wall ts (hook_debounced t h)"
    using assms(1) by (simp add: hook_notified_def hook_time_def)
  then have timer: "ih_timer (hook_notified ok sid wall (t # ts) h) = Some (last (t # ts) + 300)"
    and store: "ih_store (hook_notified ok sid wall (t # ts) h) = ih_store h"
    using burst_keeps_store [of "hook_debounced t h" t ts ok sid wall] assms(2) by (simp_all add: hook_debounced_def)
  show ?thesis unfolding Let_def hook_time_def timer by (simp add: store hook_unmount_def)
qed

section \<open>Conversion of a row\<close>

text \<open>The converter keeps the number and order of the observations, numbers them from 0, and moves every time that is
  present by the same offset.\<close>

lemma observations_of_row:
  "iv_observations (interventionRowFromPb pb s) =
     (if pbi_observations pb = [] then None
      else Some (map (\<lambda>i. let ob = pbi_observations pb ! i in
        \<lparr>ob_seq = i, ob_atMs = rebased (pbo_at ob) s, ob_severity = pbo_severity ob, ob_prevSeverity = pbo_prevSeverity ob,
         ob_lifecycle = pbo_lifecycle ob, ob_detail = pbo_detail ob, ob_driftId = pbo_driftId ob\<rparr>)
        [0..<length (pbi_observations pb)]))"
proof -
  have "map (\<lambda>(i, ob). f i ob) (enumerate 0 obs) = map (\<lambda>i. f i (obs ! i)) [0..<length obs]"
    for f :: "nat \<Rightarrow> pb_observation \<Rightarrow> drift_observation" and obs
    by (rule nth_equalityI) (simp_all add: nth_enumerate_eq)
  then show ?thesis by (simp add: interventionRowFromPb_def Let_def)
qed

text \<open>A severity that is the name of a property every object inherits has no numeric marker size.\<close>

lemma marker_of_inherited_severity:
  "iv_source row = IS_drift \<Longrightarrow> iv_severity row = ''constructor'' \<Longrightarrow> markerRadiusFor row = Inherited ''constructor''"
  by (simp add: markerRadiusFor_def object_get_def SEVERITY_WEIGHT_def object_prototype_keys_def)

end
