(* ===== verification/Viewports.thy ===== *)
theory Viewports
  imports Complex_Main Prelude
begin

text \<open>
  The viewport arithmetic of the three time and canvas views: the Gantt (\<open>frontend/src/gantt/viewport.ts\<close>, with the writers
  of the viewport in \<open>gantt/renderer.ts\<close> and \<open>components/Gantt/Minimap.tsx\<close>), the sequence diagram (\<open>components/shell/views/graphViewport.ts\<close>) and the zicato Gantt (\<open>components/zicato/ganttViewport.ts\<close>).
  Numbers are rationals: the rounding of floating point is not modelled, and no divisor of the code is 0 under the
  hypotheses stated (a zoom factor of 0 is written out, elsewhere JavaScript would yield an infinity or NaN). The
  exponential of the wheel factor is not modelled: the factor is an argument.
\<close>

section \<open>The Gantt viewport\<close>

definition ZOOM_MIN_MS :: rat where "ZOOM_MIN_MS = 30000"
definition ZOOM_MAX_MS :: rat where "ZOOM_MAX_MS = 6 * 3600000"
definition GUTTER_WIDTH_PX :: rat where "GUTTER_WIDTH_PX = 200"

record viewport_state =
  vs_endMs :: rat
  vs_windowMs :: rat
  vs_liveFollow :: bool
  vs_replay :: bool

definition defaultViewport :: viewport_state where
  "defaultViewport =
     (let windowMs = 5 * 60 * 1000
      in \<lparr>vs_endMs = windowMs, vs_windowMs = windowMs, vs_liveFollow = True, vs_replay = False\<rparr>)"

definition viewportStart :: "viewport_state \<Rightarrow> rat" where
  "viewportStart v = vs_endMs v - vs_windowMs v"

definition clampEnd :: "viewport_state \<Rightarrow> rat \<Rightarrow> rat" where
  "clampEnd v endMs = max (vs_windowMs v) endMs"

definition msToPx :: "viewport_state \<Rightarrow> rat \<Rightarrow> rat \<Rightarrow> rat" where
  "msToPx v widthPx ms =
     (let widthAvailable = widthPx - GUTTER_WIDTH_PX
      in GUTTER_WIDTH_PX + ((ms - viewportStart v) / vs_windowMs v) * widthAvailable)"

definition pxToMs :: "viewport_state \<Rightarrow> rat \<Rightarrow> rat \<Rightarrow> rat" where
  "pxToMs v widthPx px =
     (let widthAvailable = widthPx - GUTTER_WIDTH_PX
      in viewportStart v + ((px - GUTTER_WIDTH_PX) / widthAvailable) * vs_windowMs v)"

definition pan :: "viewport_state \<Rightarrow> rat \<Rightarrow> viewport_state" where
  "pan v fraction =
     (let nextEnd = vs_endMs v + vs_windowMs v * fraction
      in v\<lparr>vs_endMs := clampEnd v nextEnd, vs_liveFollow := False\<rparr>)"

definition zoomAround :: "viewport_state \<Rightarrow> rat \<Rightarrow> rat \<Rightarrow> viewport_state" where
  "zoomAround v focusMs factor =
     (let newWindow = max ZOOM_MIN_MS (if factor = 0 then ZOOM_MAX_MS else min ZOOM_MAX_MS (vs_windowMs v / factor));
          frac = (focusMs - viewportStart v) / vs_windowMs v;
          newStart = focusMs - frac * newWindow;
          newEnd = max newWindow (newStart + newWindow)
      in v\<lparr>vs_windowMs := newWindow, vs_endMs := newEnd, vs_liveFollow := False\<rparr>)"

definition advanceLive :: "viewport_state \<Rightarrow> rat \<Rightarrow> viewport_state" where
  "advanceLive v nowMs =
     (if \<not> vs_liveFollow v \<or> vs_replay v then v
      else let targetEnd = clampEnd v (nowMs + vs_windowMs v * (2 / 10))
           in if targetEnd = vs_endMs v then v else v\<lparr>vs_endMs := targetEnd\<rparr>)"

definition returnToLive :: "viewport_state \<Rightarrow> rat \<Rightarrow> viewport_state" where
  "returnToLive v nowMs = advanceLive (v\<lparr>vs_liveFollow := True\<rparr>) nowMs"

definition zoomMiddle :: "viewport_state \<Rightarrow> rat \<Rightarrow> viewport_state" where
  \<comment> \<open>\<open>zoomBy\<close> of the renderer\<close>
  "zoomMiddle v factor = zoomAround v (viewportStart v + vs_windowMs v / 2) factor"

definition setLiveFollow :: "viewport_state \<Rightarrow> rat \<Rightarrow> bool \<Rightarrow> viewport_state" where
  "setLiveFollow v nowMs enabled =
     (if enabled then returnToLive v nowMs
      else if vs_liveFollow v then v\<lparr>vs_liveFollow := False\<rparr> else v)"

definition fitAll :: "viewport_state \<Rightarrow> rat \<Rightarrow> rat \<Rightarrow> viewport_state" where
  \<comment> \<open>\<open>spanEndMs\<close> is \<open>spans.maxEndMs()\<close>\<close>
  "fitAll v spanEndMs nowMs =
     (let maxEnd = (if 0 < spanEndMs then spanEndMs else max nowMs 1);
          window = min ZOOM_MAX_MS (max ZOOM_MIN_MS (maxEnd * (105 / 100)));
          endMs = max window maxEnd
      in v\<lparr>vs_endMs := endMs, vs_windowMs := window, vs_liveFollow := False\<rparr>)"

definition jumpToLastActivity :: "viewport_state \<Rightarrow> rat \<Rightarrow> viewport_state" where
  "jumpToLastActivity v maxEnd =
     (if maxEnd \<le> 0 then v
      else let windowMs = vs_windowMs v;
               endMs = max windowMs (maxEnd + windowMs * (2 / 10))
           in v\<lparr>vs_endMs := endMs, vs_liveFollow := False\<rparr>)"

definition minimapSeek :: "viewport_state \<Rightarrow> rat \<Rightarrow> rat \<Rightarrow> rat \<Rightarrow> viewport_state" where
  \<comment> \<open>\<open>seekToPointerX\<close> of the minimap: \<open>xCanvas\<close> is the pointer on its canvas, the other two the range of the session\<close>
  "minimapSeek v xCanvas totalStartMs totalEndMs =
     (let drawW = 240 - 2 * 5;
          xFrac = max 0 (min 1 ((xCanvas - 5) / drawW));
          totalDuration = totalEndMs - totalStartMs
      in if totalDuration \<le> 0 then v
         else let targetMs = totalStartMs + xFrac * totalDuration; half = vs_windowMs v / 2
              in v\<lparr>vs_endMs := targetMs + half, vs_liveFollow := False\<rparr>)"

definition minimapZoom :: "viewport_state \<Rightarrow> rat \<Rightarrow> viewport_state" where
  \<comment> \<open>\<open>handleZoom\<close> of the minimap, which has limits of its own\<close>
  "minimapZoom v factor =
     (let midMs = vs_endMs v - vs_windowMs v / 2;
          newWindowMs = max 5000 (min 3600000 (vs_windowMs v * factor))
      in v\<lparr>vs_windowMs := newWindowMs, vs_endMs := midMs + newWindowMs / 2, vs_liveFollow := False\<rparr>)"

datatype viewport_op =
  VPan rat | VZoom rat rat | VZoomMiddle rat | VAdvance rat | VReturn rat | VLiveFollow rat bool | VFitAll rat rat | VJump rat
  | VMinimapSeek rat rat rat | VMinimapZoom rat

fun viewport_step :: "viewport_state \<Rightarrow> viewport_op \<Rightarrow> viewport_state" where
  \<comment> \<open>every call of the code that writes the viewport of the Gantt\<close>
  "viewport_step v (VPan fraction) = pan v fraction"
| "viewport_step v (VZoom focusMs factor) = zoomAround v focusMs factor"
| "viewport_step v (VZoomMiddle factor) = zoomMiddle v factor"
| "viewport_step v (VAdvance nowMs) = advanceLive v nowMs"
| "viewport_step v (VReturn nowMs) = returnToLive v nowMs"
| "viewport_step v (VLiveFollow nowMs enabled) = setLiveFollow v nowMs enabled"
| "viewport_step v (VFitAll spanEndMs nowMs) = fitAll v spanEndMs nowMs"
| "viewport_step v (VJump maxEnd) = jumpToLastActivity v maxEnd"
| "viewport_step v (VMinimapSeek x t0 t1) = minimapSeek v x t0 t1"
| "viewport_step v (VMinimapZoom factor) = minimapZoom v factor"

fun from_minimap :: "viewport_op \<Rightarrow> bool" where
  "from_minimap (VMinimapSeek x t0 t1) = True"
| "from_minimap (VMinimapZoom factor) = True"
| "from_minimap _ = False"

fun sane_range :: "viewport_op \<Rightarrow> bool" where
  \<comment> \<open>no span before the start of the session in the range that the minimap shows\<close>
  "sane_range (VMinimapSeek x t0 t1) = (0 \<le> t0)"
| "sane_range _ = True"

definition viewport_ok :: "viewport_state \<Rightarrow> bool" where
  "viewport_ok v \<longleftrightarrow> 5000 \<le> vs_windowMs v \<and> vs_windowMs v \<le> ZOOM_MAX_MS \<and> \<not> vs_replay v"

definition viewport_clamped :: "viewport_state \<Rightarrow> bool" where
  \<comment> \<open>what \<open>viewport.ts\<close> itself keeps\<close>
  "viewport_clamped v \<longleftrightarrow> ZOOM_MIN_MS \<le> vs_windowMs v \<and> 0 \<le> viewportStart v"

definition viewport_middle :: "viewport_state \<Rightarrow> rat" where
  "viewport_middle v = viewportStart v + vs_windowMs v / 2"

lemmas viewport_ops =
  pan_def zoomAround_def zoomMiddle_def advanceLive_def returnToLive_def setLiveFollow_def fitAll_def jumpToLastActivity_def
  minimapSeek_def minimapZoom_def Let_def

lemma viewport_ok_step: "viewport_ok v \<Longrightarrow> viewport_ok (viewport_step v op)"
  by (cases op) (auto simp: viewport_ok_def viewport_ops ZOOM_MIN_MS_def ZOOM_MAX_MS_def)

lemma viewport_clamped_step:
  "viewport_ok v \<Longrightarrow> viewport_clamped v \<Longrightarrow> \<not> from_minimap op \<Longrightarrow> viewport_clamped (viewport_step v op)"
  by (cases op) (auto simp: viewport_ok_def viewport_clamped_def viewport_ops viewportStart_def clampEnd_def ZOOM_MIN_MS_def ZOOM_MAX_MS_def)

lemma viewport_step_clamps:
  "\<not> from_minimap op \<Longrightarrow>
     0 \<le> viewportStart (viewport_step v op) \<or> viewport_middle (viewport_step v op) = viewport_middle v"
  by (cases op) (auto simp: viewport_ops viewport_middle_def viewportStart_def clampEnd_def)

lemma viewport_middle_step:
  assumes ok: "viewport_ok v" and mid: "0 \<le> viewport_middle v" and range: "sane_range op"
  shows "0 \<le> viewport_middle (viewport_step v op)"
proof -
  have "0 < vs_windowMs (viewport_step v op)" using viewport_ok_step [OF ok, of op] by (simp add: viewport_ok_def)
  then have start: "0 \<le> viewport_middle (viewport_step v op)" if "0 \<le> viewportStart (viewport_step v op)"
    using that by (simp add: viewport_middle_def)
  show ?thesis
  proof (cases op)
    case (VMinimapSeek x t0 t1)
    define target where "target = t0 + max 0 (min 1 ((x - 5) / (240 - 2 * 5))) * (t1 - t0)"
    have "0 \<le> target" if "0 < t1 - t0"
      unfolding target_def using that range VMinimapSeek by (intro add_nonneg_nonneg mult_nonneg_nonneg) auto
    moreover have "viewport_middle (viewport_step v op) = (if t1 - t0 \<le> 0 then viewport_middle v else target)"
      unfolding VMinimapSeek viewport_step.simps minimapSeek_def Let_def target_def [symmetric]
      by (simp add: viewport_middle_def viewportStart_def)
    ultimately show ?thesis using mid by simp
  next
    case (VMinimapZoom factor)
    have "viewport_middle (viewport_step v op) = viewport_middle v"
      unfolding VMinimapZoom by (simp add: minimapZoom_def Let_def viewport_middle_def viewportStart_def)
    with mid show ?thesis by simp
  qed (use viewport_step_clamps [of op v] start mid in auto)
qed

lemma defaultViewport_ok: "viewport_ok defaultViewport" "viewport_clamped defaultViewport" "0 \<le> viewport_middle defaultViewport"
  by (simp_all add: viewport_ok_def viewport_clamped_def viewport_middle_def defaultViewport_def Let_def viewportStart_def
      ZOOM_MIN_MS_def ZOOM_MAX_MS_def)

lemma viewport_ok_run: "viewport_ok (foldl viewport_step defaultViewport ops)"
  by (induction ops rule: rev_induct) (simp_all add: viewport_ok_step defaultViewport_ok)

lemma viewport_clamped_run:
  "list_all (\<lambda>op. \<not> from_minimap op) ops \<Longrightarrow> viewport_clamped (foldl viewport_step defaultViewport ops)"
  by (induction ops rule: rev_induct) (simp_all add: viewport_clamped_step viewport_ok_run defaultViewport_ok)

lemma viewport_middle_run:
  "list_all sane_range ops \<Longrightarrow> 0 \<le> viewport_middle (foldl viewport_step defaultViewport ops)"
  by (induction ops rule: rev_induct) (simp_all add: viewport_middle_step viewport_ok_run defaultViewport_ok)

lemma pxToMs_msToPx:
  assumes "viewport_ok v" and "widthPx \<noteq> GUTTER_WIDTH_PX"
  shows "pxToMs v widthPx (msToPx v widthPx ms) = ms" and "msToPx v widthPx (pxToMs v widthPx px) = px"
  using assms by (simp_all add: pxToMs_def msToPx_def Let_def viewport_ok_def)

lemma msToPx_inj:
  assumes "viewport_ok v" and "GUTTER_WIDTH_PX < widthPx"
  shows "msToPx v widthPx a < msToPx v widthPx b \<longleftrightarrow> a < b"
proof -
  have "0 < vs_windowMs v" using assms(1) by (simp add: viewport_ok_def)
  with assms(2) show ?thesis by (simp add: msToPx_def Let_def divide_less_cancel mult_less_cancel_right)
qed


text \<open>The minimap disagrees with \<open>viewport.ts\<close>: seeking to the start of a session shows the time before it, zooming out from a window
  of more than one hour narrows it, and zooming in goes below the minimum of the Gantt.\<close>

theorem minimap_breaks_viewport_limits:
  "viewportStart (minimapSeek defaultViewport 0 0 600000) = - 150000 \<and>
   vs_windowMs (minimapZoom (fitAll defaultViewport 18000000 0) 2) = 3600000 \<and> vs_windowMs (fitAll defaultViewport 18000000 0) = 18900000 \<and>
   vs_windowMs (foldl minimapZoom defaultViewport [1 / 2, 1 / 2, 1 / 2, 1 / 2, 1 / 2, 1 / 2]) = 5000"
  by (simp add: minimapSeek_def minimapZoom_def fitAll_def defaultViewport_def Let_def viewportStart_def ZOOM_MIN_MS_def ZOOM_MAX_MS_def)

text \<open>Zooming keeps the focus where it is on the screen unless that would show a time before the session start.\<close>

lemma zoomAround_keeps_focus:
  assumes "viewport_ok v" and "0 \<le> viewportStart (zoomAround v focusMs factor)"
    and free: "vs_windowMs (zoomAround v focusMs factor) < vs_endMs (zoomAround v focusMs factor)"
  shows "msToPx (zoomAround v focusMs factor) widthPx focusMs = msToPx v widthPx focusMs"
proof -
  define w where "w = max ZOOM_MIN_MS (if factor = 0 then ZOOM_MAX_MS else min ZOOM_MAX_MS (vs_windowMs v / factor))"
  have w: "0 < w" by (simp add: w_def ZOOM_MIN_MS_def)
  have win: "vs_windowMs (zoomAround v focusMs factor) = w"
    and fin: "vs_endMs (zoomAround v focusMs factor) =
      max w (focusMs - (focusMs - viewportStart v) / vs_windowMs v * w + w)"
    by (simp_all add: zoomAround_def Let_def w_def)
  have "vs_endMs (zoomAround v focusMs factor) = focusMs - (focusMs - viewportStart v) / vs_windowMs v * w + w"
    using free unfolding win fin by (simp add: max_def split: if_splits)
  then have "viewportStart (zoomAround v focusMs factor) = focusMs - (focusMs - viewportStart v) / vs_windowMs v * w"
    using win by (simp add: viewportStart_def)
  then show ?thesis using w by (simp add: msToPx_def Let_def win)
qed

text \<open>A followed viewport has the current time at most four fifths across.\<close>

lemma advanceLive_cursor:
  assumes ok: "viewport_ok v" and live: "vs_liveFollow v" "\<not> vs_replay v" and w: "GUTTER_WIDTH_PX < widthPx"
  shows "msToPx (advanceLive v nowMs) widthPx nowMs \<le> GUTTER_WIDTH_PX + 8 / 10 * (widthPx - GUTTER_WIDTH_PX)"
proof -
  have pos: "0 < vs_windowMs v" using ok by (simp add: viewport_ok_def)
  have fin: "vs_endMs (advanceLive v nowMs) = clampEnd v (nowMs + vs_windowMs v * (2 / 10))"
    and win: "vs_windowMs (advanceLive v nowMs) = vs_windowMs v"
    using live by (auto simp: advanceLive_def Let_def)
  have "nowMs - viewportStart (advanceLive v nowMs) \<le> 8 / 10 * vs_windowMs v"
    using max.cobounded2 [of "nowMs + vs_windowMs v * (2 / 10)" "vs_windowMs v"]
    unfolding viewportStart_def fin win clampEnd_def by linarith
  then have "(nowMs - viewportStart (advanceLive v nowMs)) / vs_windowMs v \<le> 8 / 10"
    using pos by (simp add: divide_le_eq)
  then show ?thesis using w unfolding msToPx_def Let_def win by (intro add_left_mono mult_right_mono) simp_all
qed
section \<open>The sequence diagram\<close>

record viewport =
  vp_scale :: rat
  vp_tx :: rat
  vp_ty :: rat

record size =
  sz_w :: rat
  sz_h :: rat

record rect =
  rc_x :: rat
  rc_y :: rat
  rc_w :: rat
  rc_h :: rat

definition MIN_SCALE :: rat where "MIN_SCALE = 1 / 4"
definition MAX_SCALE :: rat where "MAX_SCALE = 4"

definition DEFAULT_VIEWPORT :: viewport where
  "DEFAULT_VIEWPORT = \<lparr>vp_scale = 1, vp_tx = 0, vp_ty = 0\<rparr>"

definition clampScale :: "rat \<Rightarrow> rat" where
  "clampScale s = max MIN_SCALE (min MAX_SCALE s)"

definition zoomAt :: "viewport \<Rightarrow> rat \<Rightarrow> rat \<Rightarrow> rat \<Rightarrow> viewport" where
  "zoomAt vp factor cx cy =
     (let nxt = clampScale (vp_scale vp * factor) in
      if nxt = vp_scale vp then vp
      else let k = nxt / vp_scale vp
           in \<lparr>vp_scale = nxt, vp_tx = cx - (cx - vp_tx vp) * k, vp_ty = cy - (cy - vp_ty vp) * k\<rparr>)"

definition panBy :: "viewport \<Rightarrow> rat \<Rightarrow> rat \<Rightarrow> viewport" where
  "panBy vp dx dy = \<lparr>vp_scale = vp_scale vp, vp_tx = vp_tx vp + dx, vp_ty = vp_ty vp + dy\<rparr>"

definition fitRect :: "rect \<Rightarrow> size \<Rightarrow> rat \<Rightarrow> rat option \<Rightarrow> rat option \<Rightarrow> viewport" where
  \<comment> \<open>\<open>minScale\<close> and \<open>maxScale\<close> are the optional fields of \<open>opts\<close>\<close>
  "fitRect content container padding minScale maxScale =
     (let availW = max 1 (sz_w container - padding * 2);
          availH = max 1 (sz_h container - padding * 2);
          bw = max 1 (rc_w content);
          bh = max 1 (rc_h content);
          scale0 = clampScale (min (availW / bw) (availH / bh));
          scale1 = (case maxScale of None \<Rightarrow> scale0 | Some m \<Rightarrow> min scale0 m);
          scale = (case minScale of None \<Rightarrow> scale1 | Some m \<Rightarrow> max scale1 m)
      in \<lparr>vp_scale = scale, vp_tx = padding + (availW - bw * scale) / 2 - rc_x content * scale,
          vp_ty = padding + (availH - bh * scale) / 2 - rc_y content * scale\<rparr>)"

definition containerToContent :: "viewport \<Rightarrow> rat \<Rightarrow> rat \<Rightarrow> rat \<times> rat" where
  "containerToContent vp cx cy = ((cx - vp_tx vp) / vp_scale vp, (cy - vp_ty vp) / vp_scale vp)"

definition visibleContentRect :: "viewport \<Rightarrow> size \<Rightarrow> rect" where
  "visibleContentRect vp container =
     \<lparr>rc_x = - vp_tx vp / vp_scale vp, rc_y = - vp_ty vp / vp_scale vp,
      rc_w = sz_w container / vp_scale vp, rc_h = sz_h container / vp_scale vp\<rparr>"

definition centerOn :: "viewport \<Rightarrow> rat \<Rightarrow> rat \<Rightarrow> size \<Rightarrow> viewport" where
  "centerOn vp contentX contentY container =
     \<lparr>vp_scale = vp_scale vp, vp_tx = sz_w container / 2 - contentX * vp_scale vp,
      vp_ty = sz_h container / 2 - contentY * vp_scale vp\<rparr>"

definition minimapViewportRect :: "rect \<Rightarrow> rect \<Rightarrow> size \<Rightarrow> rect" where
  "minimapViewportRect visible contentBounds minimap =
     (let sx = sz_w minimap / max 1 (rc_w contentBounds);
          sy = sz_h minimap / max 1 (rc_h contentBounds)
      in \<lparr>rc_x = (rc_x visible - rc_x contentBounds) * sx, rc_y = (rc_y visible - rc_y contentBounds) * sy,
          rc_w = rc_w visible * sx, rc_h = rc_h visible * sy\<rparr>)"

definition minimapPointToContent :: "rat \<Rightarrow> rat \<Rightarrow> rect \<Rightarrow> size \<Rightarrow> rat \<times> rat" where
  "minimapPointToContent mx my contentBounds minimap =
     (let sx = rc_w contentBounds / max 1 (sz_w minimap);
          sy = rc_h contentBounds / max 1 (sz_h minimap)
      in (rc_x contentBounds + mx * sx, rc_y contentBounds + my * sy))"

datatype zoom_direction = ZoomIn | ZoomOut | ZoomReset

definition zoomStep :: "viewport \<Rightarrow> zoom_direction \<Rightarrow> size \<Rightarrow> viewport" where
  "zoomStep vp direction container =
     (if direction = ZoomReset then \<lparr>vp_scale = 1, vp_tx = 0, vp_ty = 0\<rparr>
      else let factor = (if direction = ZoomIn then 5 / 4 else 1 / (5 / 4))
           in zoomAt vp factor (sz_w container / 2) (sz_h container / 2))"

lemma clampScale_bounds: "1 / 4 \<le> clampScale s \<and> clampScale s \<le> 4"
  by (simp add: clampScale_def MIN_SCALE_def MAX_SCALE_def)

lemma clampScale_pos: "0 < clampScale s"
  using clampScale_bounds [of s] by linarith

lemma zoomAt_anchor:
  assumes "0 < vp_scale vp"
  shows "containerToContent (zoomAt vp factor cx cy) cx cy = containerToContent vp cx cy"
proof (cases "clampScale (vp_scale vp * factor) = vp_scale vp")
  case False
  have "0 < clampScale (vp_scale vp * factor)" by (rule clampScale_pos)
  with assms False show ?thesis by (simp add: zoomAt_def Let_def containerToContent_def)
qed (simp add: zoomAt_def)

lemma zoomAt_scale: "0 < vp_scale vp \<Longrightarrow> 0 < vp_scale (zoomAt vp factor cx cy)"
  using clampScale_pos by (simp add: zoomAt_def Let_def)

definition to_container :: "viewport \<Rightarrow> rat \<times> rat \<Rightarrow> rat \<times> rat" where
  \<comment> \<open>the affine of the header comment: \<open>container = content * scale + (tx, ty)\<close>\<close>
  "to_container vp p = (fst p * vp_scale vp + vp_tx vp, snd p * vp_scale vp + vp_ty vp)"

lemma to_container_inverse:
  "0 < vp_scale vp \<Longrightarrow> to_container vp (containerToContent vp cx cy) = (cx, cy)"
  "0 < vp_scale vp \<Longrightarrow> containerToContent vp (fst (to_container vp p)) (snd (to_container vp p)) = p"
  by (simp_all add: to_container_def containerToContent_def prod_eq_iff)

datatype graph_op = GZoom rat rat rat | GPan rat rat | GStep zoom_direction size | GCenter rat rat size
  | GFit rect size rat

fun graph_step :: "viewport \<Rightarrow> graph_op \<Rightarrow> viewport" where
  "graph_step vp (GZoom factor cx cy) = zoomAt vp factor cx cy"
| "graph_step vp (GPan dx dy) = panBy vp dx dy"
| "graph_step vp (GStep direction container) = zoomStep vp direction container"
| "graph_step vp (GCenter x y container) = centerOn vp x y container"
| "graph_step vp (GFit content container padding) = fitRect content container padding None None"

definition graph_ok :: "viewport \<Rightarrow> bool" where
  "graph_ok vp \<longleftrightarrow> 1 / 4 \<le> vp_scale vp \<and> vp_scale vp \<le> 4"

lemma zoomAt_ok: "graph_ok vp \<Longrightarrow> graph_ok (zoomAt vp factor cx cy)"
  using clampScale_bounds by (simp add: graph_ok_def zoomAt_def Let_def)

lemma graph_ok_step: "graph_ok vp \<Longrightarrow> graph_ok (graph_step vp op)"
  using clampScale_bounds
  by (cases op) (simp_all add: zoomAt_ok panBy_def zoomStep_def Let_def centerOn_def fitRect_def, simp_all add: graph_ok_def)

lemma graph_ok_run: "graph_ok (foldl graph_step DEFAULT_VIEWPORT ops)"
proof -
  have "graph_ok vp \<Longrightarrow> graph_ok (foldl graph_step vp ops)" for vp
    by (induction ops arbitrary: vp) (simp_all add: graph_ok_step)
  moreover have "graph_ok DEFAULT_VIEWPORT" by (simp add: graph_ok_def DEFAULT_VIEWPORT_def)
  ultimately show ?thesis by blast
qed

text \<open>In every viewport of the sequence diagram reached by zooming, panning, centring and fitting the scale stays between 1/4 and
  4, the inverse of the affine is exact both ways, zooming keeps the content point under the cursor, and the visible
  rectangle spans exactly the corners of the container.\<close>

theorem graph_viewport_affine:
  "let vp = foldl graph_step DEFAULT_VIEWPORT ops
   in 1 / 4 \<le> vp_scale vp \<and> vp_scale vp \<le> 4 \<and>
      to_container vp (containerToContent vp cx cy) = (cx, cy) \<and>
      containerToContent vp (fst (to_container vp p)) (snd (to_container vp p)) = p \<and>
      containerToContent (zoomAt vp factor cx cy) cx cy = containerToContent vp cx cy \<and>
      to_container vp (rc_x (visibleContentRect vp c), rc_y (visibleContentRect vp c)) = (0, 0) \<and>
      to_container vp (rc_x (visibleContentRect vp c) + rc_w (visibleContentRect vp c),
                       rc_y (visibleContentRect vp c) + rc_h (visibleContentRect vp c)) = (sz_w c, sz_h c)"
proof -
  define vp where "vp = foldl graph_step DEFAULT_VIEWPORT ops"
  have ok: "1 / 4 \<le> vp_scale vp" "vp_scale vp \<le> 4" using graph_ok_run [of ops] by (simp_all add: vp_def graph_ok_def)
  then have pos: "0 < vp_scale vp" by linarith
  then show ?thesis unfolding Let_def vp_def [symmetric]
    using ok by (intro conjI) (simp_all add: to_container_inverse zoomAt_anchor, simp_all add: to_container_def visibleContentRect_def field_simps)
qed

text \<open>Fitting centres the content, whatever the scale that results: the middle of the content is the middle of the padded
  container.\<close>

lemma fitRect_centres:
  assumes "1 \<le> rc_w r" "1 \<le> rc_h r" "1 \<le> sz_w c - padding * 2" "1 \<le> sz_h c - padding * 2"
  shows "to_container (fitRect r c padding lo hi) (rc_x r + rc_w r / 2, rc_y r + rc_h r / 2) = (sz_w c / 2, sz_h c / 2)"
  using assms by (simp add: to_container_def fitRect_def Let_def max_absorb2) (simp add: field_simps)

section \<open>The zicato Gantt\<close>

record gantt_view =
  gv_t0 :: rat
  gv_t1 :: rat

record gantt_domain =
  gd_lo :: rat
  gd_hi :: rat

definition minWindow :: "gantt_domain \<Rightarrow> rat" where
  "minWindow d = max 1 ((gd_hi d - gd_lo d) / 200)"

definition fitView :: "gantt_domain \<Rightarrow> gantt_view" where
  "fitView d = \<lparr>gv_t0 = gd_lo d, gv_t1 = gd_hi d\<rparr>"

definition lower :: "rat option \<Rightarrow> rat \<Rightarrow> rat option" where
  \<comment> \<open>\<open>if (t < lo) lo = t\<close>; \<open>None\<close> is the infinity the scan starts with\<close>
  "lower lo t = (case lo of None \<Rightarrow> Some t | Some x \<Rightarrow> if t < x then Some t else Some x)"

definition higher :: "rat option \<Rightarrow> rat \<Rightarrow> rat option" where
  "higher hi t = (case hi of None \<Rightarrow> Some t | Some x \<Rightarrow> if x < t then Some t else Some x)"

definition contentDomain :: "(rat \<times> rat) list \<Rightarrow> rat \<Rightarrow> gantt_domain" where
  "contentDomain spans fallbackHi =
     (let (lo, hi) = foldl (\<lambda>(lo, hi) (t0, t1). (lower lo t0, higher hi t1)) (None, None) spans
      in case (lo, hi) of
           (Some l, Some h) \<Rightarrow>
             if h \<le> l then \<lparr>gd_lo = 0, gd_hi = (if 0 < fallbackHi then fallbackHi else 30)\<rparr>
             else \<lparr>gd_lo = l, gd_hi = h\<rparr>
         | _ \<Rightarrow> \<lparr>gd_lo = 0, gd_hi = (if 0 < fallbackHi then fallbackHi else 30)\<rparr>)"

definition slide_in :: "rat \<Rightarrow> rat \<Rightarrow> rat \<Rightarrow> gantt_domain \<Rightarrow> gantt_view" where
  \<comment> \<open>the three tests that end both \<open>zoomView\<close> and \<open>panView\<close>, for the window \<open>t0, t1\<close> of width \<open>w\<close>\<close>
  "slide_in t0 t1 w d =
     (let (t0, t1) = (if t0 < gd_lo d then (gd_lo d, gd_lo d + w) else (t0, t1));
          (t0, t1) = (if gd_hi d < t1 then (gd_hi d - w, gd_hi d) else (t0, t1));
          t0 = (if t0 < gd_lo d then gd_lo d else t0)
      in \<lparr>gv_t0 = t0, gv_t1 = t1\<rparr>)"

definition zoomView :: "gantt_view \<Rightarrow> rat \<Rightarrow> rat \<Rightarrow> gantt_domain \<Rightarrow> gantt_view" where
  "zoomView v factor focusT d =
     (let oldW = gv_t1 v - gv_t0 v in
      if oldW \<le> 0 then fitView d
      else let frac = min 1 (max 0 ((focusT - gv_t0 v) / oldW));
               minW = minWindow d;
               maxW = gd_hi d - gd_lo d;
               newW = min maxW (max minW (oldW * factor));
               t0 = focusT - frac * newW
           in slide_in t0 (t0 + newW) newW d)"

definition panView :: "gantt_view \<Rightarrow> rat \<Rightarrow> gantt_domain \<Rightarrow> gantt_view" where
  "panView v dt d =
     (let w = min (gd_hi d - gd_lo d) (gv_t1 v - gv_t0 v);
          t0 = gv_t0 v + dt
      in slide_in t0 (t0 + w) w d)"

definition isFit :: "gantt_view \<Rightarrow> gantt_domain \<Rightarrow> bool" where
  "isFit v d =
     (let span = gd_hi d - gd_lo d;
          eps = max (1 / 1000000) (span * (1 / 10000))
      in \<bar>gv_t0 v - gd_lo d\<bar> \<le> eps \<and> \<bar>gv_t1 v - gd_hi d\<bar> \<le> eps)"

definition clampWindow :: "rat \<Rightarrow> rat \<Rightarrow> gantt_domain \<Rightarrow> gantt_view" where
  "clampWindow a b d =
     (let t0 = max (gd_lo d) (min a b);
          t1 = min (gd_hi d) (max a b);
          minW = minWindow d in
      if t1 - t0 < minW
      then let c = (t0 + t1) / 2;
               t0 = max (gd_lo d) (c - minW / 2);
               t1 = min (gd_hi d) (t0 + minW);
               t0 = max (gd_lo d) (t1 - minW)
           in \<lparr>gv_t0 = t0, gv_t1 = t1\<rparr>
      else \<lparr>gv_t0 = t0, gv_t1 = t1\<rparr>)"

definition view_ok :: "gantt_domain \<Rightarrow> gantt_view \<Rightarrow> bool" where
  \<comment> \<open>inside the domain and not narrower than the minimal window, or than the domain when that is narrower\<close>
  "view_ok d v \<longleftrightarrow> gd_lo d \<le> gv_t0 v \<and> gv_t1 v \<le> gd_hi d \<and> min (gd_hi d - gd_lo d) (minWindow d) \<le> gv_t1 v - gv_t0 v"

lemma contentDomain_ok: "gd_lo (contentDomain spans hi) < gd_hi (contentDomain spans hi)"
  by (simp add: contentDomain_def split: prod.split option.split)

lemma slide_in_spec:
  assumes "w \<le> gd_hi d - gd_lo d" and "0 \<le> w"
  shows "let v = slide_in t0 (t0 + w) w d in gd_lo d \<le> gv_t0 v \<and> gv_t1 v \<le> gd_hi d \<and> gv_t1 v - gv_t0 v = w"
  using assms by (simp add: slide_in_def Let_def)

lemma view_ok_slide:
  "w \<le> gd_hi d - gd_lo d \<Longrightarrow> min (gd_hi d - gd_lo d) (minWindow d) \<le> w \<Longrightarrow> gd_lo d < gd_hi d \<Longrightarrow> view_ok d (slide_in t0 (t0 + w) w d)"
proof -
  assume w: "w \<le> gd_hi d - gd_lo d" "min (gd_hi d - gd_lo d) (minWindow d) \<le> w" and d: "gd_lo d < gd_hi d"
  have "0 \<le> w" using w(2) d by (auto simp: minWindow_def min_def max_def split: if_splits)
  from slide_in_spec [OF w(1) this, of t0] w(2) show ?thesis by (simp add: view_ok_def Let_def)
qed

lemma view_ok_fit: "view_ok d (fitView d)"
  by (simp add: view_ok_def fitView_def)

lemma view_ok_zoom: "gd_lo d < gd_hi d \<Longrightarrow> view_ok d (zoomView v factor focusT d)"
  by (auto simp: zoomView_def Let_def view_ok_fit intro!: view_ok_slide)

lemma view_ok_pan: "gd_lo d < gd_hi d \<Longrightarrow> view_ok d v \<Longrightarrow> view_ok d (panView v dt d)"
  unfolding panView_def Let_def by (rule view_ok_slide) (auto simp: view_ok_def)

lemma widened_window:
  fixes lo hi m s :: rat
  assumes "lo \<le> s" and "lo < hi" and "0 < m"
  shows "min (hi - lo) m \<le> min hi (s + m) - max lo (min hi (s + m) - m)"
  using assms by (simp add: min_def max_def)

lemma view_ok_clamp:
  assumes d: "gd_lo d < gd_hi d"
  shows "view_ok d (clampWindow a b d)"
proof -
  have m: "0 < minWindow d" by (simp add: minWindow_def)
  show ?thesis
  proof (cases "min (gd_hi d) (max a b) - max (gd_lo d) (min a b) < minWindow d")
    case True
    then show ?thesis using widened_window [OF _ d m] by (simp add: clampWindow_def Let_def view_ok_def)
  next
    case False
    then show ?thesis by (simp add: clampWindow_def Let_def view_ok_def min.coboundedI2)
  qed
qed

datatype gantt_op = GaZoom rat rat | GaPan rat | GaClamp rat rat | GaFit

fun gantt_step :: "gantt_domain \<Rightarrow> gantt_view \<Rightarrow> gantt_op \<Rightarrow> gantt_view" where
  "gantt_step d v (GaZoom factor focusT) = zoomView v factor focusT d"
| "gantt_step d v (GaPan dt) = panView v dt d"
| "gantt_step d v (GaClamp a b) = clampWindow a b d"
| "gantt_step d v GaFit = fitView d"

text \<open>Whatever the spans, the content domain is not empty, and every window reached in it by zooming, panning, brushing and
  fitting lies inside it and is at least as wide as the minimal window (or as the domain, when that is narrower).\<close>

theorem zicato_window_in_domain:
  "let d = contentDomain spans fallbackHi; v = foldl (gantt_step d) (fitView d) ops
   in gd_lo d < gd_hi d \<and> gd_lo d \<le> gv_t0 v \<and> gv_t0 v < gv_t1 v \<and> gv_t1 v \<le> gd_hi d \<and>
      min (gd_hi d - gd_lo d) (max 1 ((gd_hi d - gd_lo d) / 200)) \<le> gv_t1 v - gv_t0 v"
proof -
  define d where "d = contentDomain spans fallbackHi"
  have d: "gd_lo d < gd_hi d" unfolding d_def by (rule contentDomain_ok)
  have step: "view_ok d v \<Longrightarrow> view_ok d (gantt_step d v op)" for v op
    by (cases op) (simp_all add: view_ok_zoom view_ok_pan view_ok_clamp view_ok_fit d)
  have "view_ok d v \<Longrightarrow> view_ok d (foldl (gantt_step d) v ops)" for v
    by (induction ops arbitrary: v) (simp_all add: step)
  from this [OF view_ok_fit] have v: "view_ok d (foldl (gantt_step d) (fitView d) ops)" .
  have "0 < min (gd_hi d - gd_lo d) (minWindow d)" using d by (simp add: minWindow_def)
  with v d show ?thesis unfolding Let_def d_def [symmetric] view_ok_def minWindow_def by linarith
qed

text \<open>Panning keeps the width of the window.\<close>

lemma panView_width:
  "gd_lo d < gd_hi d \<Longrightarrow> view_ok d v \<Longrightarrow> gv_t1 (panView v dt d) - gv_t0 (panView v dt d) = gv_t1 v - gv_t0 v"
proof -
  assume d: "gd_lo d < gd_hi d" and v: "view_ok d v"
  have w: "min (gd_hi d - gd_lo d) (gv_t1 v - gv_t0 v) = gv_t1 v - gv_t0 v" using v by (simp add: view_ok_def)
  have "0 \<le> gv_t1 v - gv_t0 v" using v d by (auto simp: view_ok_def minWindow_def min_def max_def split: if_splits)
  then show ?thesis
    using slide_in_spec [of "gv_t1 v - gv_t0 v" d "gv_t0 v + dt"] v unfolding panView_def Let_def w
    by (simp add: view_ok_def)
qed

end
