(* ===== verification/UiStore.thy ===== *)
theory UiStore
  imports Viewports
begin

text \<open>
  The state of the browser console, \<open>frontend/src/state/uiStore.ts\<close>: what is selected, which panels are open, and the
  settings that survive a reload in \<open>localStorage\<close>. The storage is part of the state; its reads and writes may throw
  (privacy mode, quota), which the code catches. The handles of mounted components are modelled by their presence and the
  commands sent to them, the last one first. \<open>JSON.parse\<close> and \<open>JSON.stringify\<close> on a viewport are parameters.
\<close>

section \<open>Local storage\<close>

record local_storage =
  ls_readable :: bool
  ls_writable :: bool
  ls_items :: "(string, string) jsmap"

definition getItem :: "local_storage \<Rightarrow> string \<Rightarrow> string option option" where
  \<comment> \<open>the outer \<open>None\<close> is an exception\<close>
  "getItem ls k = (if ls_readable ls then Some (map_of (ls_items ls) k) else None)"

definition setItem :: "local_storage \<Rightarrow> string \<Rightarrow> string \<Rightarrow> local_storage" where
  \<comment> \<open>in a \<open>try\<close> whose \<open>catch\<close> ignores the exception\<close>
  "setItem ls k v = (if ls_writable ls then ls\<lparr>ls_items := AList.update k v (ls_items ls)\<rparr> else ls)"

definition removeItem :: "local_storage \<Rightarrow> string \<Rightarrow> local_storage" where
  "removeItem ls k = (if ls_writable ls then ls\<lparr>ls_items := AList.delete k (ls_items ls)\<rparr> else ls)"

section \<open>The settings and their keys\<close>

datatype nav_section = NavSessions | NavActivity | NavGraph | NavTrajectory | NavAnnotations | NavSettings
datatype task_plan_mode = PreStrip | Ghost | Hybrid
datatype ui_mode = Md3 | Zicato
datatype task_plan_view = Cumulative | Latest

datatype zicato_theme = Monokai | SolarizedDark | SolarizedLight | GoogleLight | GoogleDark | LunariaLight | LunariaEclipse
  | BelafonteDay | BelafonteNight | Paper | Zenburn | SelenizedBlack | Relaxed | Espresso | Dracula | Ubuntu

definition ZICATO_THEME_IDS :: "(string \<times> zicato_theme) list" where
  "ZICATO_THEME_IDS =
     [(''monokai'', Monokai), (''solarized-dark'', SolarizedDark), (''solarized-light'', SolarizedLight),
      (''google-light'', GoogleLight), (''google-dark'', GoogleDark), (''lunaria-light'', LunariaLight),
      (''lunaria-eclipse'', LunariaEclipse), (''belafonte-day'', BelafonteDay), (''belafonte-night'', BelafonteNight),
      (''paper'', Paper), (''zenburn'', Zenburn), (''selenized-black'', SelenizedBlack), (''relaxed'', Relaxed),
      (''espresso'', Espresso), (''dracula'', Dracula), (''ubuntu'', Ubuntu)]"

fun theme_id :: "zicato_theme \<Rightarrow> string" where
  "theme_id Monokai = ''monokai''" | "theme_id SolarizedDark = ''solarized-dark''"
| "theme_id SolarizedLight = ''solarized-light''" | "theme_id GoogleLight = ''google-light''"
| "theme_id GoogleDark = ''google-dark''" | "theme_id LunariaLight = ''lunaria-light''"
| "theme_id LunariaEclipse = ''lunaria-eclipse''" | "theme_id BelafonteDay = ''belafonte-day''"
| "theme_id BelafonteNight = ''belafonte-night''" | "theme_id Paper = ''paper''" | "theme_id Zenburn = ''zenburn''"
| "theme_id SelenizedBlack = ''selenized-black''" | "theme_id Relaxed = ''relaxed''" | "theme_id Espresso = ''espresso''"
| "theme_id Dracula = ''dracula''" | "theme_id Ubuntu = ''ubuntu''"

definition TASK_PLAN_MODE_KEY :: string where "TASK_PLAN_MODE_KEY = ''harmonograf.taskPlanMode''"
definition TASK_PLAN_VISIBLE_KEY :: string where "TASK_PLAN_VISIBLE_KEY = ''harmonograf.taskPlanVisible''"
definition TASK_PLAN_VIEW_KEY :: string where "TASK_PLAN_VIEW_KEY = ''harmonograf.taskPlanView''"
definition GRAPH_VIEWPORT_KEY :: string where "GRAPH_VIEWPORT_KEY = ''harmonograf.graphViewport''"
definition CONTEXT_OVERLAY_VISIBLE_KEY :: string where "CONTEXT_OVERLAY_VISIBLE_KEY = ''harmonograf.contextOverlayVisible''"
definition INTERVENTION_BANDS_VISIBLE_KEY :: string where
  "INTERVENTION_BANDS_VISIBLE_KEY = ''harmonograf.interventionBandsVisible''"
definition TRAJECTORY_LEGACY_EXPANDED_KEY :: string where
  "TRAJECTORY_LEGACY_EXPANDED_KEY = ''harmonograf.trajectoryLegacyExpanded''"
definition UI_MODE_KEY :: string where "UI_MODE_KEY = ''harmonograf.uiMode''"
definition ZICATO_THEME_KEY :: string where "ZICATO_THEME_KEY = ''harmonograf.zicatoTheme''"
definition TRAJECTORY_SELECTED_PLAN_ID_KEY :: string where
  "TRAJECTORY_SELECTED_PLAN_ID_KEY = ''harmonograf.trajectorySelectedPlanId''"

lemmas storage_keys = TASK_PLAN_MODE_KEY_def TASK_PLAN_VISIBLE_KEY_def TASK_PLAN_VIEW_KEY_def GRAPH_VIEWPORT_KEY_def
  CONTEXT_OVERLAY_VISIBLE_KEY_def INTERVENTION_BANDS_VISIBLE_KEY_def TRAJECTORY_LEGACY_EXPANDED_KEY_def UI_MODE_KEY_def
  ZICATO_THEME_KEY_def TRAJECTORY_SELECTED_PLAN_ID_KEY_def

fun mode_id :: "task_plan_mode \<Rightarrow> string" where
  "mode_id PreStrip = ''pre-strip''" | "mode_id Ghost = ''ghost''" | "mode_id Hybrid = ''hybrid''"

fun view_id :: "task_plan_view \<Rightarrow> string" where
  "view_id Cumulative = ''cumulative''" | "view_id Latest = ''latest''"

fun ui_mode_id :: "ui_mode \<Rightarrow> string" where
  "ui_mode_id Md3 = ''md3''" | "ui_mode_id Zicato = ''zicato''"

definition bool_id :: "bool \<Rightarrow> string" where
  "bool_id v = (if v then ''true'' else ''false'')"

section \<open>Readers and writers\<close>

record json_viewport =
  \<comment> \<open>what \<open>JSON.parse\<close> returns for an object: each field a finite number, or anything else\<close>
  jv_scale :: "rat option"
  jv_tx :: "rat option"
  jv_ty :: "rat option"

definition readGraphViewport :: "(string \<Rightarrow> json_viewport option) \<Rightarrow> local_storage \<Rightarrow> viewport option" where
  \<comment> \<open>\<open>jp raw\<close> is \<open>None\<close> when \<open>JSON.parse\<close> throws or its value is not an object\<close>
  "readGraphViewport jp ls =
     (case getItem ls GRAPH_VIEWPORT_KEY of
        Some (Some raw) \<Rightarrow>
          if raw = '''' then None
          else (case jp raw of
                  None \<Rightarrow> None
                | Some parsed \<Rightarrow>
                    (case (jv_scale parsed, jv_tx parsed, jv_ty parsed) of
                       (Some scale, Some tx, Some ty) \<Rightarrow> Some \<lparr>vp_scale = clampScale scale, vp_tx = tx, vp_ty = ty\<rparr>
                     | _ \<Rightarrow> None))
      | _ \<Rightarrow> None)"

definition writeGraphViewport :: "(viewport \<Rightarrow> string) \<Rightarrow> viewport option \<Rightarrow> local_storage \<Rightarrow> local_storage" where
  "writeGraphViewport js vp ls =
     (case vp of None \<Rightarrow> removeItem ls GRAPH_VIEWPORT_KEY | Some v \<Rightarrow> setItem ls GRAPH_VIEWPORT_KEY (js v))"

definition readTaskPlanMode :: "local_storage \<Rightarrow> task_plan_mode" where
  "readTaskPlanMode ls =
     (let v = getItem ls TASK_PLAN_MODE_KEY in
      if v = Some (Some ''pre-strip'') then PreStrip
      else if v = Some (Some ''ghost'') then Ghost
      else if v = Some (Some ''hybrid'') then Hybrid
      else PreStrip)"

definition readTaskPlanVisible :: "local_storage \<Rightarrow> bool" where
  "readTaskPlanVisible ls =
     (let v = getItem ls TASK_PLAN_VISIBLE_KEY in
      if v = Some (Some ''true'') then True else if v = Some (Some ''false'') then False else True)"

definition writeTaskPlanMode :: "task_plan_mode \<Rightarrow> local_storage \<Rightarrow> local_storage" where
  "writeTaskPlanMode m ls = setItem ls TASK_PLAN_MODE_KEY (mode_id m)"

definition writeTaskPlanVisible :: "bool \<Rightarrow> local_storage \<Rightarrow> local_storage" where
  "writeTaskPlanVisible v ls = setItem ls TASK_PLAN_VISIBLE_KEY (bool_id v)"

definition readTaskPlanView :: "local_storage \<Rightarrow> task_plan_view" where
  "readTaskPlanView ls =
     (let v = getItem ls TASK_PLAN_VIEW_KEY in
      if v = Some (Some ''cumulative'') then Cumulative
      else if v = Some (Some ''latest'') then Latest
      else Cumulative)"

definition writeTaskPlanView :: "task_plan_view \<Rightarrow> local_storage \<Rightarrow> local_storage" where
  "writeTaskPlanView v ls = setItem ls TASK_PLAN_VIEW_KEY (view_id v)"

definition readContextOverlayVisible :: "local_storage \<Rightarrow> bool" where
  "readContextOverlayVisible ls =
     (let v = getItem ls CONTEXT_OVERLAY_VISIBLE_KEY in
      if v = Some (Some ''true'') then True else if v = Some (Some ''false'') then False else True)"

definition writeContextOverlayVisible :: "bool \<Rightarrow> local_storage \<Rightarrow> local_storage" where
  "writeContextOverlayVisible v ls = setItem ls CONTEXT_OVERLAY_VISIBLE_KEY (bool_id v)"

definition readInterventionBandsVisible :: "local_storage \<Rightarrow> bool" where
  "readInterventionBandsVisible ls =
     (let v = getItem ls INTERVENTION_BANDS_VISIBLE_KEY in
      if v = Some (Some ''true'') then True else if v = Some (Some ''false'') then False else True)"

definition writeInterventionBandsVisible :: "bool \<Rightarrow> local_storage \<Rightarrow> local_storage" where
  "writeInterventionBandsVisible v ls = setItem ls INTERVENTION_BANDS_VISIBLE_KEY (bool_id v)"

definition readTrajectoryLegacyExpanded :: "local_storage \<Rightarrow> bool" where
  "readTrajectoryLegacyExpanded ls =
     (let v = getItem ls TRAJECTORY_LEGACY_EXPANDED_KEY in
      if v = Some (Some ''true'') then True else if v = Some (Some ''false'') then False else False)"

definition writeTrajectoryLegacyExpanded :: "bool \<Rightarrow> local_storage \<Rightarrow> local_storage" where
  "writeTrajectoryLegacyExpanded v ls = setItem ls TRAJECTORY_LEGACY_EXPANDED_KEY (bool_id v)"

definition readUiMode :: "local_storage \<Rightarrow> ui_mode" where
  "readUiMode ls =
     (let v = getItem ls UI_MODE_KEY in
      if v = Some (Some ''md3'') then Md3 else if v = Some (Some ''zicato'') then Zicato else Zicato)"

definition writeUiMode :: "ui_mode \<Rightarrow> local_storage \<Rightarrow> local_storage" where
  "writeUiMode m ls = setItem ls UI_MODE_KEY (ui_mode_id m)"

definition readZicatoTheme :: "local_storage \<Rightarrow> zicato_theme" where
  "readZicatoTheme ls =
     (case getItem ls ZICATO_THEME_KEY of
        Some (Some v) \<Rightarrow> (case map_of ZICATO_THEME_IDS v of Some t \<Rightarrow> t | None \<Rightarrow> Monokai)
      | _ \<Rightarrow> Monokai)"

definition writeZicatoTheme :: "zicato_theme \<Rightarrow> local_storage \<Rightarrow> local_storage" where
  "writeZicatoTheme t ls = setItem ls ZICATO_THEME_KEY (theme_id t)"

definition readTrajectorySelectedPlanId :: "local_storage \<Rightarrow> string option" where
  "readTrajectorySelectedPlanId ls =
     (case getItem ls TRAJECTORY_SELECTED_PLAN_ID_KEY of
        Some (Some v) \<Rightarrow> if 0 < length v then Some v else None
      | _ \<Rightarrow> None)"

definition writeTrajectorySelectedPlanId :: "string option \<Rightarrow> local_storage \<Rightarrow> local_storage" where
  "writeTrajectorySelectedPlanId planId ls =
     (case planId of
        None \<Rightarrow> removeItem ls TRAJECTORY_SELECTED_PLAN_ID_KEY
      | Some p \<Rightarrow> if length p = 0 then removeItem ls TRAJECTORY_SELECTED_PLAN_ID_KEY
                  else setItem ls TRAJECTORY_SELECTED_PLAN_ID_KEY p)"

section \<open>The store\<close>

datatype drawer_tab = TabSummary | TabTask | TabPayload | TabTimeline | TabLinks | TabAnnotations | TabControl
datatype drawer_task_subtab = SubOverview | SubTrajectory

datatype renderer_command = SetHiddenAgents "string list" | ZoomBy rat | SetLiveFollow bool
  | SetContextOverlayVisible bool | SetInterventionBandsVisible bool | FreezeAt "int option"

record ui_state =
  ui_currentSessionId :: "string option"
  ui_selectedSpanId :: "string option"
  ui_selectedTaskId :: "string option"
  ui_drawerOpen :: bool
  ui_drawerRequestedTab :: "drawer_tab option"
  ui_drawerRequestedTaskSubtab :: "drawer_task_subtab option"
  ui_navSection :: nav_section
  ui_navRailOpen :: bool
  ui_sessionPickerOpen :: bool
  ui_helpOpen :: bool
  ui_legendOpen :: bool
  ui_focusedAgentId :: "string option"
  ui_hiddenAgentIds :: "string list"
  ui_zoomSeconds :: rat
  ui_liveFollow :: bool
  ui_activeRenderer :: bool
  ui_liveActivityCollapsed :: bool
  ui_agentsPaused :: bool
  ui_pausedAt :: "int option"
  ui_uiMode :: ui_mode
  ui_zicatoTheme :: zicato_theme
  ui_taskPlanMode :: task_plan_mode
  ui_taskPlanVisible :: bool
  ui_taskPlanView :: task_plan_view
  ui_contextOverlayVisible :: bool
  ui_interventionBandsVisible :: bool
  ui_trajectoryLegacyExpanded :: bool
  ui_selectedRevision :: "int option"
  ui_trajectorySelectedPlanId :: "string option"
  ui_graphViewport :: "viewport option"
  ui_graphActions :: bool
  ui_storage :: local_storage
  ui_commands :: "renderer_command list"

definition ZOOM_STEP :: rat where "ZOOM_STEP = 3 / 2"
definition ZOOM_MIN :: rat where "ZOOM_MIN = 30"
definition ZOOM_MAX :: rat where "ZOOM_MAX = 6 * 60 * 60"

definition js_round :: "rat \<Rightarrow> rat" where
  \<comment> \<open>\<open>Math.round\<close>: halves go up\<close>
  "js_round x = of_int \<lfloor>x + 1 / 2\<rfloor>"

definition initialUi :: "(string \<Rightarrow> json_viewport option) \<Rightarrow> local_storage \<Rightarrow> ui_state" where
  \<comment> \<open>the initializer that \<open>create\<close> runs when the page loads\<close>
  "initialUi jp ls =
     \<lparr>ui_currentSessionId = None, ui_selectedSpanId = None, ui_selectedTaskId = None, ui_drawerOpen = False,
      ui_drawerRequestedTab = None, ui_drawerRequestedTaskSubtab = None, ui_navSection = NavSessions, ui_navRailOpen = True,
      ui_sessionPickerOpen = False, ui_helpOpen = False, ui_legendOpen = False, ui_focusedAgentId = None,
      ui_hiddenAgentIds = [], ui_zoomSeconds = 300, ui_liveFollow = True, ui_activeRenderer = False,
      ui_liveActivityCollapsed = False, ui_agentsPaused = False, ui_pausedAt = None, ui_uiMode = readUiMode ls,
      ui_zicatoTheme = readZicatoTheme ls, ui_taskPlanMode = readTaskPlanMode ls, ui_taskPlanVisible = readTaskPlanVisible ls,
      ui_taskPlanView = readTaskPlanView ls, ui_contextOverlayVisible = readContextOverlayVisible ls,
      ui_interventionBandsVisible = readInterventionBandsVisible ls,
      ui_trajectoryLegacyExpanded = readTrajectoryLegacyExpanded ls, ui_selectedRevision = None,
      ui_trajectorySelectedPlanId = readTrajectorySelectedPlanId ls, ui_graphViewport = readGraphViewport jp ls,
      ui_graphActions = False, ui_storage = ls, ui_commands = []\<rparr>"

definition tell_renderer :: "renderer_command \<Rightarrow> ui_state \<Rightarrow> ui_state" where
  \<comment> \<open>\<open>s.activeRenderer?.command(...)\<close>\<close>
  "tell_renderer c s = (if ui_activeRenderer s then s\<lparr>ui_commands := c # ui_commands s\<rparr> else s)"

definition with_storage :: "(local_storage \<Rightarrow> local_storage) \<Rightarrow> ui_state \<Rightarrow> ui_state" where
  "with_storage f s = s\<lparr>ui_storage := f (ui_storage s)\<rparr>"

definition setCurrentSession :: "string option \<Rightarrow> ui_state \<Rightarrow> ui_state" where
  "setCurrentSession i s = s\<lparr>ui_currentSessionId := i\<rparr>"

definition selectSpan :: "string option \<Rightarrow> ui_state \<Rightarrow> ui_state" where
  "selectSpan i s = s\<lparr>ui_selectedSpanId := i, ui_drawerOpen := (i \<noteq> None)\<rparr>"

definition selectTask :: "string option \<Rightarrow> ui_state \<Rightarrow> ui_state" where
  "selectTask i s = s\<lparr>ui_selectedTaskId := i\<rparr>"

definition clearTaskSelection :: "ui_state \<Rightarrow> ui_state" where
  "clearTaskSelection s = s\<lparr>ui_selectedTaskId := None\<rparr>"

definition closeDrawer :: "ui_state \<Rightarrow> ui_state" where
  "closeDrawer s = s\<lparr>ui_drawerOpen := False, ui_selectedSpanId := None, ui_selectedTaskId := None,
     ui_drawerRequestedTab := None, ui_drawerRequestedTaskSubtab := None\<rparr>"

definition openDrawerOnTrajectory :: "string \<Rightarrow> ui_state \<Rightarrow> ui_state" where
  "openDrawerOnTrajectory spanId s = s\<lparr>ui_selectedSpanId := Some spanId, ui_drawerOpen := True,
     ui_drawerRequestedTab := Some TabTask, ui_drawerRequestedTaskSubtab := Some SubTrajectory\<rparr>"

definition consumeDrawerRequestedTab :: "ui_state \<Rightarrow> ui_state" where
  "consumeDrawerRequestedTab s = s\<lparr>ui_drawerRequestedTab := None, ui_drawerRequestedTaskSubtab := None\<rparr>"

definition toggleAgentHidden :: "string \<Rightarrow> ui_state \<Rightarrow> ui_state" where
  "toggleAgentHidden i s =
     (let next = (if i \<in> set (ui_hiddenAgentIds s) then removeAll i (ui_hiddenAgentIds s) else set_add i (ui_hiddenAgentIds s))
      in (tell_renderer (SetHiddenAgents next) s)\<lparr>ui_hiddenAgentIds := next\<rparr>)"

definition showAllAgents :: "ui_state \<Rightarrow> ui_state" where
  "showAllAgents s =
     (if length (ui_hiddenAgentIds s) = 0 then s
      else (tell_renderer (SetHiddenAgents []) s)\<lparr>ui_hiddenAgentIds := []\<rparr>)"

definition zoomIn :: "ui_state \<Rightarrow> ui_state" where
  "zoomIn s = (tell_renderer (ZoomBy ZOOM_STEP) s)\<lparr>ui_zoomSeconds := max ZOOM_MIN (js_round (ui_zoomSeconds s / ZOOM_STEP))\<rparr>"

definition zoomOut :: "ui_state \<Rightarrow> ui_state" where
  "zoomOut s =
     (tell_renderer (ZoomBy (1 / ZOOM_STEP)) s)\<lparr>ui_zoomSeconds := min ZOOM_MAX (js_round (ui_zoomSeconds s * ZOOM_STEP))\<rparr>"

definition setZoom :: "rat \<Rightarrow> ui_state \<Rightarrow> ui_state" where
  "setZoom sec s = s\<lparr>ui_zoomSeconds := min ZOOM_MAX (max ZOOM_MIN sec)\<rparr>"

definition jumpToLive :: "ui_state \<Rightarrow> ui_state" where
  "jumpToLive s = (tell_renderer (SetLiveFollow True) s)\<lparr>ui_liveFollow := True\<rparr>"

definition toggleLiveFollow :: "ui_state \<Rightarrow> ui_state" where
  "toggleLiveFollow s =
     (let next = \<not> ui_liveFollow s in (tell_renderer (SetLiveFollow next) s)\<lparr>ui_liveFollow := next\<rparr>)"

definition setAgentsPaused :: "bool \<Rightarrow> int option \<Rightarrow> int \<Rightarrow> int \<Rightarrow> ui_state \<Rightarrow> ui_state" where
  \<comment> \<open>\<open>rendererNow\<close> and \<open>dateNow\<close> are what the two clocks return\<close>
  "setAgentsPaused paused ts rendererNow dateNow s =
     (let resolved = (if paused
                      then Some (case ts of Some t \<Rightarrow> t
                                 | None \<Rightarrow> if ui_activeRenderer s then rendererNow else dateNow)
                      else None);
          s1 = tell_renderer (FreezeAt resolved) s;
          s2 = (if paused then tell_renderer (SetLiveFollow False) s1 else s1)
      in s2\<lparr>ui_agentsPaused := paused, ui_pausedAt := resolved, ui_liveFollow := (if paused then False else ui_liveFollow s)\<rparr>)"

definition setUiMode :: "ui_mode \<Rightarrow> ui_state \<Rightarrow> ui_state" where
  "setUiMode m s = (with_storage (writeUiMode m) s)\<lparr>ui_uiMode := m\<rparr>"

definition toggleUiMode :: "ui_state \<Rightarrow> ui_state" where
  "toggleUiMode s =
     (let next = (if ui_uiMode s = Md3 then Zicato else Md3) in (with_storage (writeUiMode next) s)\<lparr>ui_uiMode := next\<rparr>)"

definition setZicatoTheme :: "zicato_theme \<Rightarrow> ui_state \<Rightarrow> ui_state" where
  "setZicatoTheme t s = (with_storage (writeZicatoTheme t) s)\<lparr>ui_zicatoTheme := t\<rparr>"

definition setGraphViewport :: "(viewport \<Rightarrow> string) \<Rightarrow> viewport option \<Rightarrow> ui_state \<Rightarrow> ui_state" where
  "setGraphViewport js vp s = (with_storage (writeGraphViewport js vp) s)\<lparr>ui_graphViewport := vp\<rparr>"

definition setTaskPlanMode :: "task_plan_mode \<Rightarrow> ui_state \<Rightarrow> ui_state" where
  "setTaskPlanMode m s = (with_storage (writeTaskPlanMode m) s)\<lparr>ui_taskPlanMode := m\<rparr>"

definition toggleTaskPlanVisible :: "ui_state \<Rightarrow> ui_state" where
  "toggleTaskPlanVisible s =
     (let next = \<not> ui_taskPlanVisible s in (with_storage (writeTaskPlanVisible next) s)\<lparr>ui_taskPlanVisible := next\<rparr>)"

definition setTaskPlanView :: "task_plan_view \<Rightarrow> ui_state \<Rightarrow> ui_state" where
  "setTaskPlanView v s = (with_storage (writeTaskPlanView v) s)\<lparr>ui_taskPlanView := v\<rparr>"

definition toggleContextOverlayVisible :: "ui_state \<Rightarrow> ui_state" where
  "toggleContextOverlayVisible s =
     (let next = \<not> ui_contextOverlayVisible s
      in (tell_renderer (SetContextOverlayVisible next) (with_storage (writeContextOverlayVisible next) s))
           \<lparr>ui_contextOverlayVisible := next\<rparr>)"

definition toggleInterventionBandsVisible :: "ui_state \<Rightarrow> ui_state" where
  "toggleInterventionBandsVisible s =
     (let next = \<not> ui_interventionBandsVisible s
      in (tell_renderer (SetInterventionBandsVisible next) (with_storage (writeInterventionBandsVisible next) s))
           \<lparr>ui_interventionBandsVisible := next\<rparr>)"

definition toggleTrajectoryLegacyExpanded :: "ui_state \<Rightarrow> ui_state" where
  "toggleTrajectoryLegacyExpanded s =
     (let next = \<not> ui_trajectoryLegacyExpanded s
      in (with_storage (writeTrajectoryLegacyExpanded next) s)\<lparr>ui_trajectoryLegacyExpanded := next\<rparr>)"

definition setTrajectorySelectedPlanId :: "string option \<Rightarrow> ui_state \<Rightarrow> ui_state" where
  "setTrajectorySelectedPlanId planId s =
     (with_storage (writeTrajectorySelectedPlanId planId) s)\<lparr>ui_trajectorySelectedPlanId := planId\<rparr>"

datatype ui_op =
  USetCurrentSession "string option" | USelectSpan "string option" | USelectTask "string option" | UClearTaskSelection
  | UCloseDrawer | UOpenDrawerOnTrajectory string | UConsumeTab | USetNavSection nav_section | UToggleNavRail
  | USessionPicker bool | UToggleHelp | UCloseHelp | USetLegend bool | UToggleLegend | USetFocusedAgent "string option"
  | UToggleAgentHidden string | UShowAllAgents | USetAgentsPaused bool "int option" int int | UZoomIn | UZoomOut
  | USetZoom rat | UJumpToLive | UToggleLiveFollow | USetActiveRenderer bool | UToggleLiveActivity | USetUiMode ui_mode
  | UToggleUiMode | USetZicatoTheme zicato_theme | USetTaskPlanMode task_plan_mode | UToggleTaskPlanVisible
  | USetTaskPlanView task_plan_view | UToggleContextOverlay | UToggleInterventionBands | UToggleLegacy
  | USetSelectedRevision "int option" | USetTrajectoryPlan "string option" | USetGraphViewport "viewport option"
  | USetGraphActions bool

fun ui_step :: "(viewport \<Rightarrow> string) \<Rightarrow> ui_state \<Rightarrow> ui_op \<Rightarrow> ui_state" where
  "ui_step js s (USetCurrentSession i) = setCurrentSession i s"
| "ui_step js s (USelectSpan i) = selectSpan i s"
| "ui_step js s (USelectTask i) = selectTask i s"
| "ui_step js s UClearTaskSelection = clearTaskSelection s"
| "ui_step js s UCloseDrawer = closeDrawer s"
| "ui_step js s (UOpenDrawerOnTrajectory i) = openDrawerOnTrajectory i s"
| "ui_step js s UConsumeTab = consumeDrawerRequestedTab s"
| "ui_step js s (USetNavSection n) = s\<lparr>ui_navSection := n\<rparr>"
| "ui_step js s UToggleNavRail = s\<lparr>ui_navRailOpen := \<not> ui_navRailOpen s\<rparr>"
| "ui_step js s (USessionPicker b) = s\<lparr>ui_sessionPickerOpen := b\<rparr>"
| "ui_step js s UToggleHelp = s\<lparr>ui_helpOpen := \<not> ui_helpOpen s\<rparr>"
| "ui_step js s UCloseHelp = s\<lparr>ui_helpOpen := False\<rparr>"
| "ui_step js s (USetLegend b) = s\<lparr>ui_legendOpen := b\<rparr>"
| "ui_step js s UToggleLegend = s\<lparr>ui_legendOpen := \<not> ui_legendOpen s\<rparr>"
| "ui_step js s (USetFocusedAgent i) = s\<lparr>ui_focusedAgentId := i\<rparr>"
| "ui_step js s (UToggleAgentHidden i) = toggleAgentHidden i s"
| "ui_step js s UShowAllAgents = showAllAgents s"
| "ui_step js s (USetAgentsPaused p ts rn dn) = setAgentsPaused p ts rn dn s"
| "ui_step js s UZoomIn = zoomIn s"
| "ui_step js s UZoomOut = zoomOut s"
| "ui_step js s (USetZoom z) = setZoom z s"
| "ui_step js s UJumpToLive = jumpToLive s"
| "ui_step js s UToggleLiveFollow = toggleLiveFollow s"
| "ui_step js s (USetActiveRenderer b) = s\<lparr>ui_activeRenderer := b\<rparr>"
| "ui_step js s UToggleLiveActivity = s\<lparr>ui_liveActivityCollapsed := \<not> ui_liveActivityCollapsed s\<rparr>"
| "ui_step js s (USetUiMode m) = setUiMode m s"
| "ui_step js s UToggleUiMode = toggleUiMode s"
| "ui_step js s (USetZicatoTheme t) = setZicatoTheme t s"
| "ui_step js s (USetTaskPlanMode m) = setTaskPlanMode m s"
| "ui_step js s UToggleTaskPlanVisible = toggleTaskPlanVisible s"
| "ui_step js s (USetTaskPlanView v) = setTaskPlanView v s"
| "ui_step js s UToggleContextOverlay = toggleContextOverlayVisible s"
| "ui_step js s UToggleInterventionBands = toggleInterventionBandsVisible s"
| "ui_step js s UToggleLegacy = toggleTrajectoryLegacyExpanded s"
| "ui_step js s (USetSelectedRevision r) = s\<lparr>ui_selectedRevision := r\<rparr>"
| "ui_step js s (USetTrajectoryPlan p) = setTrajectorySelectedPlanId p s"
| "ui_step js s (USetGraphViewport vp) = setGraphViewport js vp s"
| "ui_step js s (USetGraphActions b) = s\<lparr>ui_graphActions := b\<rparr>"

section \<open>What holds of every reachable state\<close>

lemma tell_renderer_fields [simp]:
  "ui_storage (tell_renderer c s) = ui_storage s" "ui_drawerOpen (tell_renderer c s) = ui_drawerOpen s"
  "ui_selectedSpanId (tell_renderer c s) = ui_selectedSpanId s" "ui_agentsPaused (tell_renderer c s) = ui_agentsPaused s"
  "ui_pausedAt (tell_renderer c s) = ui_pausedAt s" "ui_zoomSeconds (tell_renderer c s) = ui_zoomSeconds s"
  "ui_hiddenAgentIds (tell_renderer c s) = ui_hiddenAgentIds s" "ui_uiMode (tell_renderer c s) = ui_uiMode s"
  "ui_zicatoTheme (tell_renderer c s) = ui_zicatoTheme s" "ui_taskPlanMode (tell_renderer c s) = ui_taskPlanMode s"
  "ui_taskPlanVisible (tell_renderer c s) = ui_taskPlanVisible s" "ui_taskPlanView (tell_renderer c s) = ui_taskPlanView s"
  "ui_contextOverlayVisible (tell_renderer c s) = ui_contextOverlayVisible s"
  "ui_interventionBandsVisible (tell_renderer c s) = ui_interventionBandsVisible s"
  "ui_trajectoryLegacyExpanded (tell_renderer c s) = ui_trajectoryLegacyExpanded s"
  "ui_trajectorySelectedPlanId (tell_renderer c s) = ui_trajectorySelectedPlanId s"
  "ui_graphViewport (tell_renderer c s) = ui_graphViewport s"
  by (simp_all add: tell_renderer_def)

lemmas ui_ops = setCurrentSession_def selectSpan_def selectTask_def clearTaskSelection_def closeDrawer_def
  openDrawerOnTrajectory_def consumeDrawerRequestedTab_def toggleAgentHidden_def showAllAgents_def zoomIn_def zoomOut_def
  setZoom_def jumpToLive_def toggleLiveFollow_def setAgentsPaused_def setUiMode_def toggleUiMode_def setZicatoTheme_def
  setGraphViewport_def setTaskPlanMode_def toggleTaskPlanVisible_def setTaskPlanView_def toggleContextOverlayVisible_def
  toggleInterventionBandsVisible_def toggleTrajectoryLegacyExpanded_def setTrajectorySelectedPlanId_def with_storage_def Let_def

definition ui_ok :: "ui_state \<Rightarrow> bool" where
  "ui_ok s \<longleftrightarrow> ui_drawerOpen s = (ui_selectedSpanId s \<noteq> None) \<and> ui_agentsPaused s = (ui_pausedAt s \<noteq> None) \<and>
     30 \<le> ui_zoomSeconds s \<and> ui_zoomSeconds s \<le> 21600 \<and> distinct (ui_hiddenAgentIds s)"

lemma js_round_bounds: "x - 1 / 2 \<le> js_round x" "js_round x \<le> x + 1 / 2"
proof -
  have "of_int \<lfloor>x + 1 / 2\<rfloor> \<le> x + 1 / 2" by (rule of_int_floor_le)
  moreover have "x + 1 / 2 < of_int \<lfloor>x + 1 / 2\<rfloor> + 1" by linarith
  ultimately show "x - 1 / 2 \<le> js_round x" "js_round x \<le> x + 1 / 2" unfolding js_round_def by linarith+
qed

lemma zoom_in_bounds: "30 \<le> z \<Longrightarrow> z \<le> 21600 \<Longrightarrow> 30 \<le> max ZOOM_MIN (js_round (z / ZOOM_STEP)) \<and> max ZOOM_MIN (js_round (z / ZOOM_STEP)) \<le> 21600"
  using js_round_bounds [of "z / ZOOM_STEP"] by (simp add: ZOOM_MIN_def ZOOM_STEP_def)

lemma zoom_out_bounds: "30 \<le> z \<Longrightarrow> z \<le> 21600 \<Longrightarrow> 30 \<le> min ZOOM_MAX (js_round (z * ZOOM_STEP)) \<and> min ZOOM_MAX (js_round (z * ZOOM_STEP)) \<le> 21600"
  using js_round_bounds [of "z * ZOOM_STEP"] by (simp add: ZOOM_MAX_def ZOOM_STEP_def)

lemma set_zoom_bounds: "30 \<le> min ZOOM_MAX (max ZOOM_MIN z) \<and> min ZOOM_MAX (max ZOOM_MIN z) \<le> 21600"
  by (simp add: ZOOM_MIN_def ZOOM_MAX_def)

lemma ui_ok_step: "ui_ok s \<Longrightarrow> ui_ok (ui_step js s op)"
  using zoom_in_bounds [of "ui_zoomSeconds s"] zoom_out_bounds [of "ui_zoomSeconds s"] set_zoom_bounds
  by (cases op) (auto simp: ui_ok_def ui_ops distinct_removeAll)

text \<open>In every state of the console the drawer is open exactly while a span is selected, the agents are paused exactly while a
  pause time is held, the zoom window lies between 30 s and 6 h, and no agent is hidden twice.\<close>

theorem ui_state_invariant:
  "let s = foldl (ui_step js) (initialUi jp ls) ops
   in ui_drawerOpen s = (ui_selectedSpanId s \<noteq> None) \<and> ui_agentsPaused s = (ui_pausedAt s \<noteq> None) \<and>
      30 \<le> ui_zoomSeconds s \<and> ui_zoomSeconds s \<le> 21600 \<and> distinct (ui_hiddenAgentIds s)"
proof -
  have "ui_ok s \<Longrightarrow> ui_ok (foldl (ui_step js) s ops)" for s
    by (induction ops arbitrary: s) (simp_all add: ui_ok_step)
  moreover have "ui_ok (initialUi jp ls)" by (simp add: ui_ok_def initialUi_def)
  ultimately show ?thesis by (simp add: ui_ok_def Let_def)
qed

section \<open>The settings survive a reload\<close>

lemma getItem_setItem:
  "ls_readable ls \<Longrightarrow> ls_writable ls \<Longrightarrow> getItem (setItem ls k v) k' = (if k' = k then Some (Some v) else getItem ls k')"
  by (simp add: getItem_def setItem_def)

lemma getItem_removeItem:
  "ls_readable ls \<Longrightarrow> ls_writable ls \<Longrightarrow> getItem (removeItem ls k) k' = (if k' = k then Some None else getItem ls k')"
  by (simp add: getItem_def removeItem_def)

lemma storage_flags [simp]:
  "ls_readable (setItem ls k v) = ls_readable ls" "ls_writable (setItem ls k v) = ls_writable ls"
  "ls_readable (removeItem ls k) = ls_readable ls" "ls_writable (removeItem ls k) = ls_writable ls"
  by (simp_all add: setItem_def removeItem_def)

lemma distinct_keys:
  "distinct [TASK_PLAN_MODE_KEY, TASK_PLAN_VISIBLE_KEY, TASK_PLAN_VIEW_KEY, GRAPH_VIEWPORT_KEY, CONTEXT_OVERLAY_VISIBLE_KEY,
     INTERVENTION_BANDS_VISIBLE_KEY, TRAJECTORY_LEGACY_EXPANDED_KEY, UI_MODE_KEY, ZICATO_THEME_KEY,
     TRAJECTORY_SELECTED_PLAN_ID_KEY]"
  unfolding storage_keys by simp

lemma distinct_keys_reversed:
  "distinct [TRAJECTORY_SELECTED_PLAN_ID_KEY, ZICATO_THEME_KEY, UI_MODE_KEY, TRAJECTORY_LEGACY_EXPANDED_KEY,
     INTERVENTION_BANDS_VISIBLE_KEY, CONTEXT_OVERLAY_VISIBLE_KEY, GRAPH_VIEWPORT_KEY, TASK_PLAN_VIEW_KEY,
     TASK_PLAN_VISIBLE_KEY, TASK_PLAN_MODE_KEY]"
  using distinct_keys by auto

lemmas keys_differ = distinct_keys [simplified] distinct_keys_reversed [simplified]

lemma theme_lookup: "map_of ZICATO_THEME_IDS (theme_id t) = Some t"
  by (cases t) (simp_all add: ZICATO_THEME_IDS_def)

lemmas readers = readTaskPlanMode_def readTaskPlanVisible_def readTaskPlanView_def readGraphViewport_def
  readContextOverlayVisible_def readInterventionBandsVisible_def readTrajectoryLegacyExpanded_def readUiMode_def
  readZicatoTheme_def readTrajectorySelectedPlanId_def

definition stored_viewport :: "viewport option \<Rightarrow> viewport option" where
  "stored_viewport vp = map_option (\<lambda>v. v\<lparr>vp_scale := clampScale (vp_scale v)\<rparr>) vp"

definition saved :: "(string \<Rightarrow> json_viewport option) \<Rightarrow> ui_state \<Rightarrow> bool" where
  \<comment> \<open>a page that loads now reads the settings of this state\<close>
  "saved jp s \<longleftrightarrow>
     readUiMode (ui_storage s) = ui_uiMode s \<and> readZicatoTheme (ui_storage s) = ui_zicatoTheme s \<and>
     readTaskPlanMode (ui_storage s) = ui_taskPlanMode s \<and> readTaskPlanVisible (ui_storage s) = ui_taskPlanVisible s \<and>
     readTaskPlanView (ui_storage s) = ui_taskPlanView s \<and>
     readContextOverlayVisible (ui_storage s) = ui_contextOverlayVisible s \<and>
     readInterventionBandsVisible (ui_storage s) = ui_interventionBandsVisible s \<and>
     readTrajectoryLegacyExpanded (ui_storage s) = ui_trajectoryLegacyExpanded s \<and>
     readTrajectorySelectedPlanId (ui_storage s) = (if ui_trajectorySelectedPlanId s = Some '''' then None else ui_trajectorySelectedPlanId s) \<and>
     readGraphViewport jp (ui_storage s) = stored_viewport (ui_graphViewport s)"

lemma bool_id_iff [simp]: "bool_id v = ''true'' \<longleftrightarrow> v" "bool_id v = ''false'' \<longleftrightarrow> \<not> v"
  by (simp_all add: bool_id_def)

lemma mode_id_iff [simp]:
  "mode_id m = ''pre-strip'' \<longleftrightarrow> m = PreStrip" "mode_id m = ''ghost'' \<longleftrightarrow> m = Ghost" "mode_id m = ''hybrid'' \<longleftrightarrow> m = Hybrid"
  by (cases m; simp)+

lemma view_id_iff [simp]: "view_id v = ''cumulative'' \<longleftrightarrow> v = Cumulative" "view_id v = ''latest'' \<longleftrightarrow> v = Latest"
  by (cases v; simp)+

lemma ui_mode_id_iff [simp]: "ui_mode_id m = ''md3'' \<longleftrightarrow> m = Md3" "ui_mode_id m = ''zicato'' \<longleftrightarrow> m = Zicato"
  by (cases m; simp)+

definition json_roundtrip :: "(viewport \<Rightarrow> string) \<Rightarrow> (string \<Rightarrow> json_viewport option) \<Rightarrow> bool" where
  \<comment> \<open>\<open>JSON.parse\<close> inverts \<open>JSON.stringify\<close> on an object of three finite numbers\<close>
  "json_roundtrip js jp \<longleftrightarrow>
     (\<forall>v. js v \<noteq> '''' \<and> jp (js v) = Some \<lparr>jv_scale = Some (vp_scale v), jv_tx = Some (vp_tx v), jv_ty = Some (vp_ty v)\<rparr>)"

definition storage_works :: "ui_state \<Rightarrow> bool" where
  "storage_works s \<longleftrightarrow> ls_readable (ui_storage s) \<and> ls_writable (ui_storage s)"

lemma saved_frame:
  "saved jp s \<Longrightarrow> ui_storage s' = ui_storage s \<Longrightarrow> ui_uiMode s' = ui_uiMode s \<Longrightarrow> ui_zicatoTheme s' = ui_zicatoTheme s \<Longrightarrow>
   ui_taskPlanMode s' = ui_taskPlanMode s \<Longrightarrow> ui_taskPlanVisible s' = ui_taskPlanVisible s \<Longrightarrow>
   ui_taskPlanView s' = ui_taskPlanView s \<Longrightarrow> ui_contextOverlayVisible s' = ui_contextOverlayVisible s \<Longrightarrow>
   ui_interventionBandsVisible s' = ui_interventionBandsVisible s \<Longrightarrow>
   ui_trajectoryLegacyExpanded s' = ui_trajectoryLegacyExpanded s \<Longrightarrow>
   ui_trajectorySelectedPlanId s' = ui_trajectorySelectedPlanId s \<Longrightarrow> ui_graphViewport s' = ui_graphViewport s \<Longrightarrow> saved jp s'"
  by (simp add: saved_def)

lemma read_back:
  assumes "ls_readable ls" "ls_writable ls"
  shows "readUiMode (writeUiMode m ls) = m" "readZicatoTheme (writeZicatoTheme t ls) = t"
    "readTaskPlanMode (writeTaskPlanMode tm ls) = tm" "readTaskPlanVisible (writeTaskPlanVisible b ls) = b"
    "readTaskPlanView (writeTaskPlanView tv ls) = tv" "readContextOverlayVisible (writeContextOverlayVisible b ls) = b"
    "readInterventionBandsVisible (writeInterventionBandsVisible b ls) = b"
    "readTrajectoryLegacyExpanded (writeTrajectoryLegacyExpanded b ls) = b"
    "readTrajectorySelectedPlanId (writeTrajectorySelectedPlanId p ls) = (if p = Some '''' then None else p)"
proof -
  note rw = getItem_setItem [OF assms] getItem_removeItem [OF assms] readers Let_def
  show "readUiMode (writeUiMode m ls) = m" by (cases m) (simp_all add: rw writeUiMode_def)
  show "readZicatoTheme (writeZicatoTheme t ls) = t" by (simp add: rw writeZicatoTheme_def theme_lookup)
  show "readTaskPlanMode (writeTaskPlanMode tm ls) = tm" by (cases tm) (simp_all add: rw writeTaskPlanMode_def)
  show "readTaskPlanView (writeTaskPlanView tv ls) = tv" by (cases tv) (simp_all add: rw writeTaskPlanView_def)
  show "readTaskPlanVisible (writeTaskPlanVisible b ls) = b" by (simp add: rw writeTaskPlanVisible_def)
  show "readContextOverlayVisible (writeContextOverlayVisible b ls) = b" by (simp add: rw writeContextOverlayVisible_def)
  show "readInterventionBandsVisible (writeInterventionBandsVisible b ls) = b" by (simp add: rw writeInterventionBandsVisible_def)
  show "readTrajectoryLegacyExpanded (writeTrajectoryLegacyExpanded b ls) = b" by (simp add: rw writeTrajectoryLegacyExpanded_def)
  show "readTrajectorySelectedPlanId (writeTrajectorySelectedPlanId p ls) = (if p = Some '''' then None else p)"
    by (cases p) (simp_all add: rw writeTrajectorySelectedPlanId_def)
qed

lemma viewport_read_back:
  assumes "ls_readable ls" "ls_writable ls" and js: "json_roundtrip js jp"
  shows "readGraphViewport jp (writeGraphViewport js vp ls) = stored_viewport vp"
  using js by (cases vp) (simp_all add: getItem_setItem [OF assms(1,2)] getItem_removeItem [OF assms(1,2)] readGraphViewport_def
      writeGraphViewport_def stored_viewport_def json_roundtrip_def)

definition same_reads :: "string \<Rightarrow> local_storage \<Rightarrow> local_storage \<Rightarrow> bool" where
  \<comment> \<open>the two storages agree on every key but one\<close>
  "same_reads k ls ls' \<longleftrightarrow> (\<forall>k'. k' \<noteq> k \<longrightarrow> getItem ls' k' = getItem ls k')"

lemma other_reads:
  assumes "same_reads k ls ls'"
  shows "k \<noteq> UI_MODE_KEY \<Longrightarrow> readUiMode ls' = readUiMode ls" "k \<noteq> ZICATO_THEME_KEY \<Longrightarrow> readZicatoTheme ls' = readZicatoTheme ls"
    "k \<noteq> TASK_PLAN_MODE_KEY \<Longrightarrow> readTaskPlanMode ls' = readTaskPlanMode ls"
    "k \<noteq> TASK_PLAN_VISIBLE_KEY \<Longrightarrow> readTaskPlanVisible ls' = readTaskPlanVisible ls"
    "k \<noteq> TASK_PLAN_VIEW_KEY \<Longrightarrow> readTaskPlanView ls' = readTaskPlanView ls"
    "k \<noteq> CONTEXT_OVERLAY_VISIBLE_KEY \<Longrightarrow> readContextOverlayVisible ls' = readContextOverlayVisible ls"
    "k \<noteq> INTERVENTION_BANDS_VISIBLE_KEY \<Longrightarrow> readInterventionBandsVisible ls' = readInterventionBandsVisible ls"
    "k \<noteq> TRAJECTORY_LEGACY_EXPANDED_KEY \<Longrightarrow> readTrajectoryLegacyExpanded ls' = readTrajectoryLegacyExpanded ls"
    "k \<noteq> TRAJECTORY_SELECTED_PLAN_ID_KEY \<Longrightarrow> readTrajectorySelectedPlanId ls' = readTrajectorySelectedPlanId ls"
    "k \<noteq> GRAPH_VIEWPORT_KEY \<Longrightarrow> readGraphViewport jp ls' = readGraphViewport jp ls"
  using assms by (simp_all add: same_reads_def readers)

lemma same_reads_write:
  assumes "ls_readable ls" "ls_writable ls"
  shows "same_reads UI_MODE_KEY ls (writeUiMode m ls)" "same_reads ZICATO_THEME_KEY ls (writeZicatoTheme t ls)"
    "same_reads TASK_PLAN_MODE_KEY ls (writeTaskPlanMode tm ls)"
    "same_reads TASK_PLAN_VISIBLE_KEY ls (writeTaskPlanVisible b ls)"
    "same_reads TASK_PLAN_VIEW_KEY ls (writeTaskPlanView tv ls)"
    "same_reads CONTEXT_OVERLAY_VISIBLE_KEY ls (writeContextOverlayVisible b ls)"
    "same_reads INTERVENTION_BANDS_VISIBLE_KEY ls (writeInterventionBandsVisible b ls)"
    "same_reads TRAJECTORY_LEGACY_EXPANDED_KEY ls (writeTrajectoryLegacyExpanded b ls)"
    "same_reads TRAJECTORY_SELECTED_PLAN_ID_KEY ls (writeTrajectorySelectedPlanId p ls)"
    "same_reads GRAPH_VIEWPORT_KEY ls (writeGraphViewport js vp ls)"
  using getItem_setItem [OF assms] getItem_removeItem [OF assms]
  by (simp_all add: same_reads_def writeUiMode_def writeZicatoTheme_def writeTaskPlanMode_def writeTaskPlanVisible_def
      writeTaskPlanView_def writeContextOverlayVisible_def writeInterventionBandsVisible_def
      writeTrajectoryLegacyExpanded_def writeTrajectorySelectedPlanId_def writeGraphViewport_def split: option.split)

lemma write_flags [simp]:
  "ls_readable (writeUiMode m ls) = ls_readable ls" "ls_writable (writeUiMode m ls) = ls_writable ls"
  "ls_readable (writeZicatoTheme t ls) = ls_readable ls" "ls_writable (writeZicatoTheme t ls) = ls_writable ls"
  "ls_readable (writeTaskPlanMode tm ls) = ls_readable ls" "ls_writable (writeTaskPlanMode tm ls) = ls_writable ls"
  "ls_readable (writeTaskPlanVisible b ls) = ls_readable ls" "ls_writable (writeTaskPlanVisible b ls) = ls_writable ls"
  "ls_readable (writeTaskPlanView tv ls) = ls_readable ls" "ls_writable (writeTaskPlanView tv ls) = ls_writable ls"
  "ls_readable (writeContextOverlayVisible b ls) = ls_readable ls" "ls_writable (writeContextOverlayVisible b ls) = ls_writable ls"
  "ls_readable (writeInterventionBandsVisible b ls) = ls_readable ls" "ls_writable (writeInterventionBandsVisible b ls) = ls_writable ls"
  "ls_readable (writeTrajectoryLegacyExpanded b ls) = ls_readable ls" "ls_writable (writeTrajectoryLegacyExpanded b ls) = ls_writable ls"
  "ls_readable (writeTrajectorySelectedPlanId p ls) = ls_readable ls" "ls_writable (writeTrajectorySelectedPlanId p ls) = ls_writable ls"
  "ls_readable (writeGraphViewport js vp ls) = ls_readable ls" "ls_writable (writeGraphViewport js vp ls) = ls_writable ls"
  by (simp_all add: writeUiMode_def writeZicatoTheme_def writeTaskPlanMode_def writeTaskPlanVisible_def
      writeTaskPlanView_def writeContextOverlayVisible_def writeInterventionBandsVisible_def
      writeTrajectoryLegacyExpanded_def writeTrajectorySelectedPlanId_def writeGraphViewport_def split: option.split)

lemma works_step: "storage_works (ui_step js s op) = storage_works s"
  by (cases op) (simp_all add: storage_works_def ui_ops)

lemma saved_step:
  assumes s: "saved jp s" and w: "storage_works s" and js: "json_roundtrip js jp"
  shows "saved jp (ui_step js s op)"
proof -
  note works = w [unfolded storage_works_def, THEN conjunct1] w [unfolded storage_works_def, THEN conjunct2]
  note read = read_back [OF works] viewport_read_back [OF works js]

  note other = same_reads_write [OF works, THEN other_reads(1)] same_reads_write [OF works, THEN other_reads(2)]
    same_reads_write [OF works, THEN other_reads(3)] same_reads_write [OF works, THEN other_reads(4)]
    same_reads_write [OF works, THEN other_reads(5)] same_reads_write [OF works, THEN other_reads(6)]
    same_reads_write [OF works, THEN other_reads(7)] same_reads_write [OF works, THEN other_reads(8)]
    same_reads_write [OF works, THEN other_reads(9)] same_reads_write [OF works, THEN other_reads(10)]
  show ?thesis
    using s by (cases op) (simp_all add: saved_def ui_ops read other keys_differ)
qed

lemma storage_unwritable:
  "\<not> ls_writable (ui_storage s) \<Longrightarrow> ui_storage (ui_step js s op) = ui_storage s"
  by (cases op) (simp_all add: ui_ops writeUiMode_def writeZicatoTheme_def writeTaskPlanMode_def writeTaskPlanVisible_def
      writeTaskPlanView_def writeContextOverlayVisible_def writeInterventionBandsVisible_def
      writeTrajectoryLegacyExpanded_def writeTrajectorySelectedPlanId_def writeGraphViewport_def setItem_def removeItem_def
      split: option.split)

lemma saved_initial: "saved jp (initialUi jp ls)"
proof -
  have "readTrajectorySelectedPlanId ls \<noteq> Some ''''"
    by (auto simp: readTrajectorySelectedPlanId_def split: option.split)
  moreover have "stored_viewport (readGraphViewport jp ls) = readGraphViewport jp ls"
  proof -
    have "clampScale (clampScale x) = clampScale x" for x
      using clampScale_bounds [of x] by (simp add: clampScale_def MIN_SCALE_def MAX_SCALE_def)
    then show ?thesis by (auto simp: stored_viewport_def readGraphViewport_def split: option.split)
  qed
  ultimately show ?thesis by (simp add: saved_def initialUi_def)
qed

text \<open>C18: The ten persisted settings survive a reload. When the storage can be read and written, a page that loads after any run of
  the console reads the settings of its last state (the scale of the diagram within its bounds, an empty plan selection
  as none); when writes fail, it reads those of the first page.\<close>

theorem settings_survive_reload:
  assumes "json_roundtrip js jp"
  shows "let s = foldl (ui_step js) (initialUi jp ls) ops; s' = initialUi jp (ui_storage s) in
     (if ls_readable ls \<and> ls_writable ls
      then ui_uiMode s' = ui_uiMode s \<and> ui_zicatoTheme s' = ui_zicatoTheme s \<and> ui_taskPlanMode s' = ui_taskPlanMode s \<and>
           ui_taskPlanVisible s' = ui_taskPlanVisible s \<and> ui_taskPlanView s' = ui_taskPlanView s \<and>
           ui_contextOverlayVisible s' = ui_contextOverlayVisible s \<and>
           ui_interventionBandsVisible s' = ui_interventionBandsVisible s \<and>
           ui_trajectoryLegacyExpanded s' = ui_trajectoryLegacyExpanded s \<and>
           ui_trajectorySelectedPlanId s' = (if ui_trajectorySelectedPlanId s = Some '''' then None else ui_trajectorySelectedPlanId s) \<and>
           ui_graphViewport s' = map_option (\<lambda>v. v\<lparr>vp_scale := clampScale (vp_scale v)\<rparr>) (ui_graphViewport s)
      else if \<not> ls_writable ls then s' = initialUi jp ls else True)"
proof -
  have "saved jp s \<Longrightarrow> storage_works s \<Longrightarrow> saved jp (foldl (ui_step js) s ops)" for s
    by (induction ops arbitrary: s) (simp_all add: saved_step works_step assms)
  moreover have "storage_works (initialUi jp ls) = (ls_readable ls \<and> ls_writable ls)"
    by (simp add: storage_works_def initialUi_def)
  moreover have "\<not> ls_writable (ui_storage s) \<Longrightarrow> ui_storage (foldl (ui_step js) s ops) = ui_storage s" for s
    by (induction ops arbitrary: s) (simp_all add: storage_unwritable)
  from this [of "initialUi jp ls"] have "\<not> ls_writable ls \<Longrightarrow> ui_storage (foldl (ui_step js) (initialUi jp ls) ops) = ls"
    by (simp add: initialUi_def)
  ultimately show ?thesis
    using saved_initial [of jp ls] unfolding Let_def
    by (auto simp: saved_def stored_viewport_def initialUi_def [of jp "ui_storage s" for s])
qed

section \<open>A codec of three numbers, and a run of the console\<close>

fun split_on :: "char \<Rightarrow> string \<Rightarrow> string list" where
  \<comment> \<open>\<open>s.split(c)\<close> for a one-character separator\<close>
  "split_on c [] = [[]]"
| "split_on c (x # xs) = (if x = c then [] # split_on c xs else (x # hd (split_on c xs)) # tl (split_on c xs))"

lemma split_on_none: "c \<notin> set a \<Longrightarrow> split_on c a = [a]"
  by (induction a) auto

lemma split_on_append: "c \<notin> set a \<Longrightarrow> split_on c (a @ c # b) = a # split_on c b"
  by (induction a) auto

definition parse_int :: "string \<Rightarrow> int" where
  "parse_int s = (if s \<noteq> [] \<and> hd s = CHR ''-'' then - int (dec_value (tl s)) else int (dec_value s))"

lemma parse_js_int: "parse_int (js_int i) = i"
proof (cases "i < 0")
  case False
  have "hd (digits10 (nat i)) \<noteq> CHR ''-''" using digits10_no_minus [of "nat i"] by (metis digits10_neq_Nil hd_in_set)
  with False show ?thesis by (simp add: parse_int_def js_int_def)
qed (simp add: parse_int_def js_int_def)

lemma digits10_no_comma: "CHR '','' \<notin> set (digits10 n)"
proof (induction n rule: digits10.induct)
  case (1 n)
  have d: "CHR '','' \<noteq> char_of (48 + k)" if "k < 10" for k :: nat
  proof
    assume "CHR '','' = char_of (48 + k)"
    then have "of_char (CHR '','') = (of_char (char_of (48 + k)) :: nat)" by simp
    with that show False by (simp add: take_bit_nat_eq_self)
  qed
  show ?case
  proof (cases "n < 10")
    case True
    then show ?thesis by (simp add: digits10.simps [of n] d)
  next
    case False
    then show ?thesis using "1.IH" by (subst digits10.simps) (simp add: d)
  qed
qed

lemma js_int_no_comma: "CHR '','' \<notin> set (js_int i)"
  using digits10_no_comma by (simp add: js_int_def)

definition demo_stringify :: "viewport \<Rightarrow> string" where
  "demo_stringify v =
     (let (a, b) = quotient_of (vp_scale v); (c, d) = quotient_of (vp_tx v); (e, f) = quotient_of (vp_ty v)
      in js_int a @ '','' @ js_int b @ '','' @ js_int c @ '','' @ js_int d @ '','' @ js_int e @ '','' @ js_int f)"

definition demo_parse :: "string \<Rightarrow> json_viewport option" where
  "demo_parse s =
     (case map parse_int (split_on (CHR '','') s) of
        [a, b, c, d, e, f] \<Rightarrow> Some \<lparr>jv_scale = Some (Fract a b), jv_tx = Some (Fract c d), jv_ty = Some (Fract e f)\<rparr>
      | _ \<Rightarrow> None)"

lemma quotient_Fract: "quotient_of r = (a, b) \<Longrightarrow> Fract a b = r"
  by (metis Fract_of_int_quotient quotient_of_div)

lemma demo_json: "json_roundtrip demo_stringify demo_parse"
  unfolding json_roundtrip_def
proof (intro allI conjI)
  fix v :: viewport
  obtain a b c d e f where q: "quotient_of (vp_scale v) = (a, b)" "quotient_of (vp_tx v) = (c, d)" "quotient_of (vp_ty v) = (e, f)"
    by (metis surj_pair)
  have eq: "demo_stringify v =
      js_int a @ '','' @ js_int b @ '','' @ js_int c @ '','' @ js_int d @ '','' @ js_int e @ '','' @ js_int f"
    by (simp add: demo_stringify_def q)
  show "demo_stringify v \<noteq> ''''" by (simp add: eq)
  show "demo_parse (demo_stringify v) = Some \<lparr>jv_scale = Some (vp_scale v), jv_tx = Some (vp_tx v), jv_ty = Some (vp_ty v)\<rparr>"
    by (simp add: eq demo_parse_def split_on_append split_on_none js_int_no_comma parse_js_int quotient_Fract q)
qed

theorem settings_survive_reload_witness:
  "let ops = [UToggleUiMode, USetZicatoTheme Dracula, UToggleContextOverlay, USetTrajectoryPlan (Some ''p1''),
              USetGraphViewport (Some \<lparr>vp_scale = 9, vp_tx = 1 / 2, vp_ty = - 3\<rparr>)];
       s = foldl (ui_step demo_stringify) (initialUi demo_parse \<lparr>ls_readable = True, ls_writable = True, ls_items = []\<rparr>) ops;
       s' = initialUi demo_parse (ui_storage s)
   in ui_uiMode s' = Md3 \<and> ui_zicatoTheme s' = Dracula \<and> \<not> ui_contextOverlayVisible s' \<and>
      ui_trajectorySelectedPlanId s' = Some ''p1'' \<and> ui_graphViewport s' = Some \<lparr>vp_scale = 4, vp_tx = 1 / 2, vp_ty = - 3\<rparr>"
proof -
  define ls where "ls = \<lparr>ls_readable = True, ls_writable = True, ls_items = []\<rparr>"
  define ops where "ops = [UToggleUiMode, USetZicatoTheme Dracula, UToggleContextOverlay, USetTrajectoryPlan (Some ''p1''),
    USetGraphViewport (Some \<lparr>vp_scale = 9, vp_tx = 1 / 2, vp_ty = - 3\<rparr>)]"
  define s where "s = foldl (ui_step demo_stringify) (initialUi demo_parse ls) ops"
  have flags: "ls_readable ls" "ls_writable ls" by (simp_all add: ls_def)
  have first: "ui_uiMode (initialUi demo_parse ls) = Zicato" "ui_contextOverlayVisible (initialUi demo_parse ls)"
    by (simp_all add: initialUi_def readUiMode_def readContextOverlayVisible_def getItem_def ls_def)
  have c: "clampScale 9 = 4" by (simp add: clampScale_def MIN_SCALE_def MAX_SCALE_def)
  have "ui_uiMode s = Md3" "ui_zicatoTheme s = Dracula" "\<not> ui_contextOverlayVisible s"
    "ui_trajectorySelectedPlanId s = Some ''p1''" "ui_graphViewport s = Some \<lparr>vp_scale = 9, vp_tx = 1 / 2, vp_ty = - 3\<rparr>"
    unfolding s_def ops_def by (simp_all add: ui_ops first)
  with settings_survive_reload [OF demo_json, of ls ops, unfolded Let_def s_def [symmetric]] flags c
  show ?thesis unfolding Let_def ops_def [symmetric] ls_def [symmetric] s_def [symmetric] by simp
qed

end
