(* ===== verification/Shortcuts.thy ===== *)
theory Shortcuts
  imports UiStore WatchInvariant
begin

text \<open>
  The keyboard shortcuts, \<open>frontend/src/lib/shortcuts.ts\<close>: the matching of key combinations, the navigation between the
  spans and the agents of the current session, the table of bindings and the global key handler. \<open>getSessionStore\<close> is
  the function \<open>stores\<close>, \<open>localeCompare\<close> the comparison \<open>collate\<close>, and \<open>isMac()\<close> the flag \<open>mac\<close>.
\<close>

section \<open>Matching a combination\<close>

record key_target =
  kt_tagName :: string
  kt_isContentEditable :: bool

record key_event =
  ke_key :: string
  ke_metaKey :: bool
  ke_ctrlKey :: bool
  ke_shiftKey :: bool
  ke_altKey :: bool
  ke_target :: "key_target option"

definition comboMatches :: "bool \<Rightarrow> string \<Rightarrow> key_event \<Rightarrow> bool" where
  "comboMatches mac combo e =
     (let all = split_on (CHR ''+'') (to_lower combo);
          key = last all;
          parts = butlast all;
          wantMod = (''mod'' \<in> set parts);
          wantShift = (''shift'' \<in> set parts);
          wantAlt = (''alt'' \<in> set parts);
          modPressed = (if mac then ke_metaKey e else ke_ctrlKey e) in
      if wantMod \<noteq> modPressed then False
      else if wantShift \<noteq> ke_shiftKey e then False
      else if wantAlt \<noteq> ke_altKey e then False
      else to_lower (ke_key e) = key)"

section \<open>Navigation\<close>

definition span_cmp :: "(string \<Rightarrow> string \<Rightarrow> int) \<Rightarrow> span \<Rightarrow> span \<Rightarrow> int" where
  "span_cmp collate a b =
     (let d = sp_startMs a - sp_startMs b in if d \<noteq> 0 then d else collate (sp_id a) (sp_id b))"

definition listAllSpans :: "(string \<Rightarrow> string \<Rightarrow> int) \<Rightarrow> (string \<Rightarrow> session_store option) \<Rightarrow> string \<Rightarrow> span list" where
  "listAllSpans collate stores sessionId =
     (case stores sessionId of
        None \<Rightarrow> []
      | Some st \<Rightarrow> js_sort (span_cmp collate) (concat (map (\<lambda>a. query_agent_spans st (ag_id a)) (ar_list (ss_agents st)))))"

fun find_index :: "('a \<Rightarrow> bool) \<Rightarrow> 'a list \<Rightarrow> nat option" where
  \<comment> \<open>\<open>findIndex\<close>; \<open>None\<close> is the -1\<close>
  "find_index p [] = None"
| "find_index p (x # xs) = (if p x then Some 0 else map_option Suc (find_index p xs))"

definition neighborSpan ::
  "(string \<Rightarrow> string \<Rightarrow> int) \<Rightarrow> (string \<Rightarrow> session_store option) \<Rightarrow> string \<Rightarrow> string option \<Rightarrow> int \<Rightarrow> string option" where
  \<comment> \<open>\<open>delta\<close> is 1 or -1; a current id that is null or empty is falsy\<close>
  "neighborSpan collate stores sessionId currentId delta =
     (let spans = listAllSpans collate stores sessionId in
      if length spans = 0 then None
      else if currentId = None \<or> currentId = Some '''' then Some (sp_id (spans ! (if 0 < delta then 0 else length spans - 1)))
      else case find_index (\<lambda>s. Some (sp_id s) = currentId) spans of
             None \<Rightarrow> Some (sp_id (spans ! 0))
           | Some idx \<Rightarrow>
               let next = int idx + delta
               in if next < 0 \<or> int (length spans) \<le> next then None else Some (sp_id (spans ! nat next)))"

definition neighborAgent :: "(string \<Rightarrow> session_store option) \<Rightarrow> string \<Rightarrow> string option \<Rightarrow> int \<Rightarrow> string option" where
  "neighborAgent stores sessionId currentId delta =
     (case stores sessionId of
        None \<Rightarrow> None
      | Some st \<Rightarrow>
          let agents = ar_list (ss_agents st) in
          if length agents = 0 then None
          else if currentId = None \<or> currentId = Some '''' then Some (ag_id (agents ! (if 0 < delta then 0 else length agents - 1)))
          else case find_index (\<lambda>a. Some (ag_id a) = currentId) agents of
                 None \<Rightarrow> Some (ag_id (agents ! 0))
               | Some idx \<Rightarrow>
                   let next = max 0 (min (int (length agents) - 1) (int idx + delta))
                   in Some (ag_id (agents ! nat next)))"

section \<open>The table and the handler\<close>

datatype shortcut =
  SessionPicker | TogglePause | PanLeft | PanRight | GraphZoomIn | GraphZoomInPlus | GraphZoomOut | GraphZoomReset
  | ZoomInPlus | ZoomInEq | ZoomOutKey | FitKey | LiveKey | AnnotateKey | SteerKey | NextSpan | PrevSpan | PrevAgent | NextAgent
  | FirstAgent | LastAgent | SearchKey | HelpKey | ThinkingTrajectory | EscapeKey

definition defaultShortcuts :: "(shortcut \<times> string) list" where
  \<comment> \<open>each binding with its \<open>combo\<close>, in the order of the table\<close>
  "defaultShortcuts =
     [(SessionPicker, ''mod+k''), (TogglePause, '' ''), (PanLeft, ''arrowleft''), (PanRight, ''arrowright''),
      (GraphZoomIn, ''mod+=''), (GraphZoomInPlus, ''mod++''), (GraphZoomOut, ''mod+-''), (GraphZoomReset, ''mod+0''),
      (ZoomInPlus, ''+''), (ZoomInEq, ''=''), (ZoomOutKey, ''-''), (FitKey, ''f''), (LiveKey, ''l''), (AnnotateKey, ''a''),
      (SteerKey, ''s''), (NextSpan, ''j''), (PrevSpan, ''k''), (PrevAgent, ''[''), (NextAgent, '']''), (FirstAgent, ''g''),
      (LastAgent, ''shift+g''), (SearchKey, ''/''), (HelpKey, ''shift+?''), (ThinkingTrajectory, ''t''), (EscapeKey, ''escape'')]"

datatype graph_command = GraphIn | GraphOut | GraphReset

definition graph_action :: "graph_command \<Rightarrow> ui_state \<Rightarrow> ui_state \<times> graph_command list" where
  "graph_action c s = (s, if ui_navSection s = NavGraph \<and> ui_graphActions s then [c] else [])"

definition truthy :: "string option \<Rightarrow> bool" where
  "truthy x = (x \<noteq> None \<and> x \<noteq> Some '''')"

definition handle_shortcut ::
  "(string \<Rightarrow> string \<Rightarrow> int) \<Rightarrow> (string \<Rightarrow> session_store option) \<Rightarrow> shortcut \<Rightarrow> ui_state \<Rightarrow> ui_state \<times> graph_command list" where
  "handle_shortcut collate stores b s =
     (let session = (case ui_currentSessionId s of Some i \<Rightarrow> if i = '''' then None else Some i | None \<Rightarrow> None);
          agents = (case session of Some i \<Rightarrow> (case stores i of Some st \<Rightarrow> ar_list (ss_agents st) | None \<Rightarrow> []) | None \<Rightarrow> [])
      in case b of
           SessionPicker \<Rightarrow> (s\<lparr>ui_sessionPickerOpen := True\<rparr>, [])
         | TogglePause \<Rightarrow> (toggleLiveFollow s, [])
         | PanLeft \<Rightarrow> (s, [])
         | PanRight \<Rightarrow> (s, [])
         | GraphZoomIn \<Rightarrow> graph_action GraphIn s
         | GraphZoomInPlus \<Rightarrow> graph_action GraphIn s
         | GraphZoomOut \<Rightarrow> graph_action GraphOut s
         | GraphZoomReset \<Rightarrow> graph_action GraphReset s
         | ZoomInPlus \<Rightarrow> (zoomIn s, [])
         | ZoomInEq \<Rightarrow> (zoomIn s, [])
         | ZoomOutKey \<Rightarrow> (zoomOut s, [])
         | FitKey \<Rightarrow> (setZoom (60 * 60) s, [])
         | LiveKey \<Rightarrow> (jumpToLive s, [])
         | AnnotateKey \<Rightarrow> (s, [])
         | SteerKey \<Rightarrow> (s, [])
         | NextSpan \<Rightarrow>
             (case session of None \<Rightarrow> (s, [])
              | Some i \<Rightarrow> let next = neighborSpan collate stores i (ui_selectedSpanId s) 1
                          in (if truthy next then selectSpan next s else s, []))
         | PrevSpan \<Rightarrow>
             (case session of None \<Rightarrow> (s, [])
              | Some i \<Rightarrow> let next = neighborSpan collate stores i (ui_selectedSpanId s) (-1)
                          in (if truthy next then selectSpan next s else s, []))
         | PrevAgent \<Rightarrow>
             (case session of None \<Rightarrow> (s, [])
              | Some i \<Rightarrow> (s\<lparr>ui_focusedAgentId := neighborAgent stores i (ui_focusedAgentId s) (-1)\<rparr>, []))
         | NextAgent \<Rightarrow>
             (case session of None \<Rightarrow> (s, [])
              | Some i \<Rightarrow> (s\<lparr>ui_focusedAgentId := neighborAgent stores i (ui_focusedAgentId s) 1\<rparr>, []))
         | FirstAgent \<Rightarrow> ((case agents of [] \<Rightarrow> s | a # _ \<Rightarrow> s\<lparr>ui_focusedAgentId := Some (ag_id a)\<rparr>), [])
         | LastAgent \<Rightarrow> ((if agents = [] then s else s\<lparr>ui_focusedAgentId := Some (ag_id (last agents))\<rparr>), [])
         | SearchKey \<Rightarrow> (s\<lparr>ui_sessionPickerOpen := True\<rparr>, [])
         | HelpKey \<Rightarrow> (s\<lparr>ui_helpOpen := \<not> ui_helpOpen s\<rparr>, [])
         | ThinkingTrajectory \<Rightarrow>
             (case session of None \<Rightarrow> (s, [])
              | Some i \<Rightarrow>
                  let spanId = (case ui_selectedSpanId s of Some x \<Rightarrow> Some x
                                | None \<Rightarrow> (case listAllSpans collate stores i of [] \<Rightarrow> None | x # _ \<Rightarrow> Some (sp_id x)))
                  in (if truthy spanId then openDrawerOnTrajectory (the spanId) s else s, []))
         | EscapeKey \<Rightarrow>
             (if ui_helpOpen s then s\<lparr>ui_helpOpen := False\<rparr>
              else if ui_sessionPickerOpen s then s\<lparr>ui_sessionPickerOpen := False\<rparr>
              else closeDrawer s, []))"

definition editable :: "key_target option \<Rightarrow> bool" where
  "editable t =
     (case t of
        None \<Rightarrow> False
      | Some x \<Rightarrow> kt_tagName x = ''INPUT'' \<or> kt_tagName x = ''TEXTAREA'' \<or> kt_isContentEditable x \<or>
                  kt_tagName x = ''MD-FILLED-TEXT-FIELD'' \<or> kt_tagName x = ''MD-OUTLINED-TEXT-FIELD'')"

definition shortcut_for :: "bool \<Rightarrow> key_event \<Rightarrow> shortcut option" where
  \<comment> \<open>the binding \<open>onKey\<close> runs, after its guard for editable targets\<close>
  "shortcut_for mac e =
     (if editable (ke_target e) \<and>
         (ke_key e \<noteq> ''Escape'' \<and> \<not> (to_lower (ke_key e) = ''k'' \<and> (ke_metaKey e \<or> ke_ctrlKey e))) then None
      else map_option fst (find (\<lambda>b. comboMatches mac (snd b) e) defaultShortcuts))"

definition onKey ::
  "bool \<Rightarrow> (string \<Rightarrow> string \<Rightarrow> int) \<Rightarrow> (string \<Rightarrow> session_store option) \<Rightarrow> key_event \<Rightarrow> ui_state \<Rightarrow> (ui_state \<times> graph_command list) option" where
  \<comment> \<open>\<open>None\<close>: the event is left to the browser; otherwise its default is prevented\<close>
  "onKey mac collate stores e s = map_option (\<lambda>b. handle_shortcut collate stores b s) (shortcut_for mac e)"

section \<open>Which bindings can fire\<close>

definition combo_spec :: "string \<Rightarrow> bool \<times> bool \<times> bool \<times> string" where
  "combo_spec combo =
     (let all = split_on (CHR ''+'') (to_lower combo)
      in (''mod'' \<in> set (butlast all), ''shift'' \<in> set (butlast all), ''alt'' \<in> set (butlast all), last all))"

definition event_spec :: "bool \<Rightarrow> key_event \<Rightarrow> bool \<times> bool \<times> bool \<times> string" where
  "event_spec mac e = (if mac then ke_metaKey e else ke_ctrlKey e, ke_shiftKey e, ke_altKey e, to_lower (ke_key e))"

lemma comboMatches_iff: "comboMatches mac combo e \<longleftrightarrow> event_spec mac e = combo_spec combo"
  by (auto simp: comboMatches_def combo_spec_def event_spec_def Let_def)

lemma combo_specs:
  "map (\<lambda>b. (fst b, combo_spec (snd b))) defaultShortcuts =
     [(SessionPicker, True, False, False, ''k''), (TogglePause, False, False, False, '' ''),
      (PanLeft, False, False, False, ''arrowleft''), (PanRight, False, False, False, ''arrowright''),
      (GraphZoomIn, True, False, False, ''=''), (GraphZoomInPlus, True, False, False, ''''),
      (GraphZoomOut, True, False, False, ''-''), (GraphZoomReset, True, False, False, ''0''),
      (ZoomInPlus, False, False, False, ''''), (ZoomInEq, False, False, False, ''=''), (ZoomOutKey, False, False, False, ''-''),
      (FitKey, False, False, False, ''f''), (LiveKey, False, False, False, ''l''), (AnnotateKey, False, False, False, ''a''),
      (SteerKey, False, False, False, ''s''), (NextSpan, False, False, False, ''j''), (PrevSpan, False, False, False, ''k''),
      (PrevAgent, False, False, False, ''[''), (NextAgent, False, False, False, '']''), (FirstAgent, False, False, False, ''g''),
      (LastAgent, False, True, False, ''g''), (SearchKey, False, False, False, ''/''), (HelpKey, False, True, False, ''?''),
      (ThinkingTrajectory, False, False, False, ''t''), (EscapeKey, False, False, False, ''escape'')]"
  by code_simp

definition spec_table :: "(shortcut \<times> bool \<times> bool \<times> bool \<times> string) list" where
  "spec_table = map (\<lambda>b. (fst b, combo_spec (snd b))) defaultShortcuts"

lemmas spec_table_eq = combo_specs [folded spec_table_def]

lemma distinct_specs: "distinct (map snd spec_table)"
  unfolding spec_table_eq by simp

lemma find_spec: "map_option fst (find (\<lambda>b. comboMatches mac (snd b) e) bs) =
    map_option fst (find (\<lambda>p. snd p = event_spec mac e) (map (\<lambda>b. (fst b, combo_spec (snd b))) bs))"
  by (induction bs) (auto simp: comboMatches_iff)

lemma find_distinct:
  "distinct (map snd ps) \<Longrightarrow> map_option fst (find (\<lambda>p. snd p = k) ps) = Some b \<longleftrightarrow> (b, k) \<in> set ps"
proof (induction ps)
  case (Cons p ps)
  then show ?case by (cases p) (force simp: image_iff)
qed simp

lemma shortcut_for_iff:
  "shortcut_for mac e = Some b \<longleftrightarrow>
     (b, event_spec mac e) \<in> set spec_table \<and>
     \<not> (editable (ke_target e) \<and> (ke_key e \<noteq> ''Escape'' \<and> \<not> (to_lower (ke_key e) = ''k'' \<and> (ke_metaKey e \<or> ke_ctrlKey e))))"
  using find_distinct [OF distinct_specs] by (simp add: shortcut_for_def find_spec spec_table_def)

definition press :: "bool \<Rightarrow> bool \<Rightarrow> bool \<Rightarrow> string \<Rightarrow> key_target option \<Rightarrow> key_event" where
  "press meta ctrl shift k t = \<lparr>ke_key = k, ke_metaKey = meta, ke_ctrlKey = ctrl, ke_shiftKey = shift, ke_altKey = False, ke_target = t\<rparr>"

text \<open>C19: The bindings that some key press can trigger are exactly those of the table but two: \<open>mod++\<close> and \<open>+\<close> match no press, because
  splitting their combination at the plus sign leaves the empty key. No press matches two bindings.\<close>

theorem reachable_shortcuts:
  "{b. \<exists>e. ke_key e \<noteq> [] \<and> shortcut_for mac e = Some b} = set (map fst defaultShortcuts) - {GraphZoomInPlus, ZoomInPlus} \<and>
   length (filter (\<lambda>b. comboMatches mac (snd b) e) defaultShortcuts) \<le> 1"
proof
  show "{b. \<exists>e. ke_key e \<noteq> [] \<and> shortcut_for mac e = Some b} = set (map fst defaultShortcuts) - {GraphZoomInPlus, ZoomInPlus}"
    (is "?L = ?R")
  proof
    show "?L \<subseteq> ?R"
    proof
      fix b assume "b \<in> ?L"
      then obtain e where e: "ke_key e \<noteq> []" "shortcut_for mac e = Some b" by blast
      then have spec: "(b, event_spec mac e) \<in> set spec_table" by (simp add: shortcut_for_iff)
      then have "b \<in> set (map fst defaultShortcuts)" by (force simp: spec_table_def)
      moreover have "b \<noteq> GraphZoomInPlus \<and> b \<noteq> ZoomInPlus" using spec e(1) by (auto simp: spec_table_eq event_spec_def)
      ultimately show "b \<in> ?R" by simp
    qed
  next
    have press: "b \<in> ?L" if "(b, m, sh, False, k) \<in> set spec_table" "k \<noteq> []" "to_lower k = k" for b m sh k
      using that by (auto simp: shortcut_for_iff event_spec_def press_def editable_def
          intro!: exI [of _ "press (mac \<and> m) (\<not> mac \<and> m) sh k None"])
    have ok: "list_all (\<lambda>(b, m, sh, al, k). b = GraphZoomInPlus \<or> b = ZoomInPlus \<or> \<not> al \<and> k \<noteq> [] \<and> to_lower k = k) spec_table"
      unfolding spec_table_eq by code_simp
    have "fst p \<in> ?L" if "p \<in> set spec_table" "fst p \<notin> {GraphZoomInPlus, ZoomInPlus}" for p
    proof -
      obtain b m sh al k where p: "p = (b, m, sh, al, k)" by (cases p) auto
      from ok that(1) have "b = GraphZoomInPlus \<or> b = ZoomInPlus \<or> \<not> al \<and> k \<noteq> [] \<and> to_lower k = k"
        unfolding list_all_iff p by (rule bspec [elim_format]) simp
      with that(2) have "\<not> al" "k \<noteq> []" "to_lower k = k" unfolding p by simp_all
      with press [of b m sh k] that(1) show "fst p \<in> ?L" unfolding p by simp
    qed
    note fires = this
    show "?R \<subseteq> ?L"
    proof
      fix b assume "b \<in> ?R"
      then have "b \<in> fst ` set defaultShortcuts" and b: "b \<notin> {GraphZoomInPlus, ZoomInPlus}" by auto
      then have "b \<in> fst ` set spec_table" unfolding spec_table_def set_map image_image by simp
      then obtain p where "p \<in> set spec_table" "fst p = b" by (rule imageE) simp
      with fires [of p] b show "b \<in> ?L" by simp
    qed
  qed
  have "length (filter (\<lambda>p. snd p = k) ps) \<le> 1" if "distinct (map snd ps)" for k and ps :: "(shortcut \<times> bool \<times> bool \<times> bool \<times> string) list"
    using that by (induction ps) (auto simp: filter_empty_conv image_iff)
  from this [OF distinct_specs, of "event_spec mac e"]
  have "length (filter (\<lambda>b. event_spec mac e = combo_spec (snd b)) defaultShortcuts) \<le> 1"
    by (simp add: spec_table_def filter_map o_def eq_commute)
  then show "length (filter (\<lambda>b. comboMatches mac (snd b) e) defaultShortcuts) \<le> 1"
    by (simp add: comboMatches_iff)
qed

lemma lower_keys: "to_lower ''k'' = ''k''" "to_lower ''Escape'' = ''escape''"
  by code_simp+

text \<open>In a text field three bindings can fire: the session picker and escape, as intended, and the step to the previous span,
  because the guard lets \<open>k\<close> pass with either modifier while the bindings look at one of them only.\<close>

theorem shortcuts_in_text_fields:
  "{b. \<exists>e. editable (ke_target e) \<and> shortcut_for mac e = Some b} = {SessionPicker, PrevSpan, EscapeKey}"
proof
  show "{b. \<exists>e. editable (ke_target e) \<and> shortcut_for mac e = Some b} \<subseteq> {SessionPicker, PrevSpan, EscapeKey}"
  proof
    fix b assume "b \<in> {b. \<exists>e. editable (ke_target e) \<and> shortcut_for mac e = Some b}"
    then obtain e where e: "editable (ke_target e)" "shortcut_for mac e = Some b" by blast
    then have spec: "(b, event_spec mac e) \<in> set spec_table"
      and "ke_key e = ''Escape'' \<or> to_lower (ke_key e) = ''k''" by (auto simp: shortcut_for_iff)
    then have "to_lower (ke_key e) = ''escape'' \<or> to_lower (ke_key e) = ''k''" using lower_keys by auto
    with spec show "b \<in> {SessionPicker, PrevSpan, EscapeKey}" by (auto simp: spec_table_eq event_spec_def)
  qed
next
  let ?t = "Some \<lparr>kt_tagName = ''INPUT'', kt_isContentEditable = False\<rparr>"
  have "shortcut_for mac (press mac (\<not> mac) False ''k'' ?t) = Some SessionPicker"
    "shortcut_for mac (press (\<not> mac) mac False ''k'' ?t) = Some PrevSpan"
    "shortcut_for mac (press False False False ''Escape'' ?t) = Some EscapeKey"
    by (cases mac; simp add: shortcut_for_iff spec_table_eq event_spec_def press_def editable_def lower_keys)+
  moreover have "editable (ke_target (press m c s k ?t))" for m c s k by (simp add: press_def editable_def)
  ultimately show "{SessionPicker, PrevSpan, EscapeKey} \<subseteq> {b. \<exists>e. editable (ke_target e) \<and> shortcut_for mac e = Some b}"
    by blast
qed

section \<open>Stepping through the spans\<close>

lemma find_index_nth:
  "distinct (map f xs) \<Longrightarrow> j < length xs \<Longrightarrow> find_index (\<lambda>x. Some (f x) = Some (f (xs ! j))) xs = Some j"
proof (induction xs arbitrary: j)
  case (Cons x xs)
  show ?case
  proof (cases j)
    case (Suc k)
    with Cons.prems have "f x \<noteq> f (xs ! k)" by auto
    with Suc Cons show ?thesis by auto
  qed simp
qed simp
definition walkable :: "span list \<Rightarrow> bool" where
  "walkable spans \<longleftrightarrow> spans \<noteq> [] \<and> distinct (map sp_id spans) \<and> '''' \<notin> set (map sp_id spans)"

lemma walkable_named: "walkable xs \<Longrightarrow> j < length xs \<Longrightarrow> sp_id (xs ! j) \<noteq> ''''"
  unfolding walkable_def by (metis length_map nth_map nth_mem)

lemma neighborSpan_at:
  assumes w: "walkable (listAllSpans collate stores i)" and j: "j < length (listAllSpans collate stores i)"
  shows "neighborSpan collate stores i (Some (sp_id (listAllSpans collate stores i ! j))) delta =
    (if int j + delta < 0 \<or> int (length (listAllSpans collate stores i)) \<le> int j + delta then None
     else Some (sp_id (listAllSpans collate stores i ! nat (int j + delta))))"
proof -
  have "sp_id (listAllSpans collate stores i ! j) \<noteq> ''''" using w j by (rule walkable_named)
  then show ?thesis
    using find_index_nth [of sp_id "listAllSpans collate stores i" j] w j
    by (simp add: neighborSpan_def Let_def walkable_def)
qed

lemma named_truthy: "walkable xs \<Longrightarrow> j < length xs \<Longrightarrow> truthy (Some (sp_id (xs ! j)))"
  using walkable_named by (simp add: truthy_def)

lemma step_session [simp]:
  "ui_currentSessionId (fst (handle_shortcut collate stores NextSpan s)) = ui_currentSessionId s"
  "ui_currentSessionId (fst (handle_shortcut collate stores PrevSpan s)) = ui_currentSessionId s"
  by (simp_all add: handle_shortcut_def Let_def selectSpan_def split: option.split)

lemma next_span_from:
  assumes w: "walkable (listAllSpans collate stores i)" and s: "ui_currentSessionId s = Some i" "i \<noteq> ''''"
    and j: "j < length (listAllSpans collate stores i)"
    and sel: "ui_selectedSpanId s = Some (sp_id (listAllSpans collate stores i ! j))"
  shows "ui_selectedSpanId (fst (handle_shortcut collate stores NextSpan s)) =
      Some (sp_id (listAllSpans collate stores i ! min (Suc j) (length (listAllSpans collate stores i) - 1)))"
    and "ui_selectedSpanId (fst (handle_shortcut collate stores PrevSpan s)) =
      Some (sp_id (listAllSpans collate stores i ! (j - 1)))"
proof -
  have "neighborSpan collate stores i (ui_selectedSpanId s) 1 =
      (if Suc j < length (listAllSpans collate stores i) then Some (sp_id (listAllSpans collate stores i ! Suc j)) else None)"
    unfolding sel neighborSpan_at [OF w j] by (auto simp: nat_add_distrib)
  then show "ui_selectedSpanId (fst (handle_shortcut collate stores NextSpan s)) =
      Some (sp_id (listAllSpans collate stores i ! min (Suc j) (length (listAllSpans collate stores i) - 1)))"
  proof (cases "Suc j = length (listAllSpans collate stores i)")
    case True
    with \<open>neighborSpan collate stores i (ui_selectedSpanId s) 1 = _\<close>
    have "neighborSpan collate stores i (ui_selectedSpanId s) 1 = None" by simp
    moreover have "min (Suc j) (length (listAllSpans collate stores i) - 1) = j" unfolding True [symmetric] by simp
    ultimately show ?thesis using s sel by (simp add: handle_shortcut_def Let_def truthy_def)
  next
    case False
    then have "Suc j < length (listAllSpans collate stores i)" using j by simp
    moreover from this have "min (Suc j) (length (listAllSpans collate stores i) - 1) = Suc j" by simp
    ultimately show ?thesis
      using s named_truthy [OF w, of "Suc j"] \<open>neighborSpan collate stores i (ui_selectedSpanId s) 1 = _\<close>
      by (simp add: handle_shortcut_def Let_def selectSpan_def)
  qed
  have "neighborSpan collate stores i (ui_selectedSpanId s) (-1) =
      (if 0 < j then Some (sp_id (listAllSpans collate stores i ! (j - 1))) else None)"
    unfolding sel neighborSpan_at [OF w j] using j by (auto simp: nat_diff_distrib')
  then show "ui_selectedSpanId (fst (handle_shortcut collate stores PrevSpan s)) =
      Some (sp_id (listAllSpans collate stores i ! (j - 1)))"
    using s j sel named_truthy [OF w, of "j - 1"]
    by (cases j) (auto simp: handle_shortcut_def Let_def selectSpan_def truthy_def)
qed

lemma next_span_first:
  assumes w: "walkable (listAllSpans collate stores i)" and s: "ui_currentSessionId s = Some i" "i \<noteq> ''''"
    and sel: "ui_selectedSpanId s = None"
  shows "ui_selectedSpanId (fst (handle_shortcut collate stores NextSpan s)) = Some (sp_id (listAllSpans collate stores i ! 0))"
proof -
  have "neighborSpan collate stores i None 1 = Some (sp_id (listAllSpans collate stores i ! 0))"
    using w by (simp add: neighborSpan_def walkable_def)
  then show ?thesis using s sel named_truthy [OF w, of 0] w
    by (simp add: handle_shortcut_def Let_def selectSpan_def walkable_def)
qed

section \<open>The spans of a session in order\<close>

definition is_collation :: "(string \<Rightarrow> string \<Rightarrow> int) \<Rightarrow> bool" where
  \<comment> \<open>what \<open>localeCompare\<close> is relied on for: a total order that may identify strings\<close>
  "is_collation collate \<longleftrightarrow>
     (\<forall>a b. collate a b \<le> 0 \<or> collate b a \<le> 0) \<and> (\<forall>a b c. collate a b \<le> 0 \<longrightarrow> collate b c \<le> 0 \<longrightarrow> collate a c \<le> 0)"

definition span_before :: "(string \<Rightarrow> string \<Rightarrow> int) \<Rightarrow> span \<Rightarrow> span \<Rightarrow> bool" where
  "span_before collate a b \<longleftrightarrow>
     sp_startMs a < sp_startMs b \<or> sp_startMs a = sp_startMs b \<and> collate (sp_id a) (sp_id b) \<le> 0"

definition shown_ids :: "session_store \<Rightarrow> string set" where
  \<comment> \<open>the agents that have a row\<close>
  "shown_ids st = ag_id ` set (ar_list (ss_agents st))"

lemma listAllSpans_sorted:
  assumes "is_collation collate"
  shows "sorted_wrt (span_before collate) (listAllSpans collate stores i)"
proof (cases "stores i")
  case (Some st)
  have "transp (span_before collate)" using assms by (auto simp: transp_def span_before_def is_collation_def)
  then show ?thesis unfolding listAllSpans_def Some option.case using assms
    by (intro js_sort_wrt [where S = UNIV]) (auto simp: span_cmp_def span_before_def Let_def is_collation_def split: if_splits)
qed (simp add: listAllSpans_def)

lemma listAllSpans_all:
  assumes st: "stores i = Some st" and rows: "agents_ok (ss_agents st)" and ok: "span_ok (ss_spans st)"
    and sane: "list_all sane_times (si_all (ss_spans st))"
  shows "set (listAllSpans collate stores i) = {s \<in> set (si_all (ss_spans st)). sp_agentId s \<in> shown_ids st}"
    and "distinct (map sp_id (listAllSpans collate stores i))"
proof -
  define q where "q = query_agent_spans st"
  have one: "set (q a) = {s \<in> set (si_all (ss_spans st)). sp_agentId s = a}" "distinct (map sp_id (q a))" for a
    using query_agent_spans_all [OF ok, of a] sane by (simp_all add: q_def list_all_iff)
  have inj: "s = t" if "s \<in> set (si_all (ss_spans st))" "t \<in> set (si_all (ss_spans st))" "sp_id s = sp_id t" for s t
  proof -
    have "distinct (map fst (si_byId (ss_spans st)))" using ok by (simp add: span_ok_def map_ok_def)
    moreover have "fst p = sp_id (snd p)" if "p \<in> set (si_byId (ss_spans st))" for p
      using ok that map_of_is_SomeI [OF \<open>distinct (map fst (si_byId (ss_spans st)))\<close>, of "fst p" "snd p"]
      unfolding span_ok_def by (metis prod.collapse)
    ultimately show ?thesis using that by (auto simp: si_all_def distinct_map inj_on_def)
  qed
  have dist: "distinct (map sp_id (concat (map q as)))" if "distinct as" for as
    using that
  proof (induction as)
    case (Cons a as)
    have "sp_id s \<noteq> sp_id t" if s: "s \<in> set (q a)" and t: "t \<in> set (concat (map q as))" for s t
    proof
      assume "sp_id s = sp_id t"
      moreover obtain b where "b \<in> set as" "t \<in> set (q b)" using t by auto
      ultimately have "b = a" using s inj [of s t] one(1) by auto
      with \<open>b \<in> set as\<close> Cons.prems show False by simp
    qed
    then have "set (map sp_id (q a)) \<inter> set (map sp_id (concat (map q as))) = {}" by fastforce
    with Cons one(2) [of a] show ?case by simp
  qed simp
  have all: "listAllSpans collate stores i = js_sort (span_cmp collate) (concat (map q (map ag_id (ar_list (ss_agents st)))))"
    by (simp add: listAllSpans_def st q_def comp_def)
  show "set (listAllSpans collate stores i) = {s \<in> set (si_all (ss_spans st)). sp_agentId s \<in> shown_ids st}"
    using one(1) by (auto simp: all shown_ids_def)
  have "distinct (map ag_id (ar_list (ss_agents st)))" using rows by (simp add: ar_list_ids agents_ok_def)
  from distinct_js_sort [OF dist [OF this]] show "distinct (map sp_id (listAllSpans collate stores i))" by (simp only: all)
qed

lemma no_span_kept:
  assumes "listAllSpans collate stores i = []" and "ui_currentSessionId s = Some i" and "ui_selectedSpanId s = None"
  shows "ui_selectedSpanId (fst (handle_shortcut collate stores NextSpan s)) = None"
  using assms by (simp add: handle_shortcut_def neighborSpan_def Let_def truthy_def)

lemma next_span_run:
  assumes w: "walkable (listAllSpans collate stores i)" and s: "ui_currentSessionId s = Some i" "i \<noteq> ''''"
    and sel: "ui_selectedSpanId s = None"
  shows "ui_currentSessionId (((\<lambda>s. fst (handle_shortcut collate stores NextSpan s)) ^^ Suc n) s) = Some i \<and>
    ui_selectedSpanId (((\<lambda>s. fst (handle_shortcut collate stores NextSpan s)) ^^ Suc n) s) =
      Some (sp_id (listAllSpans collate stores i ! min n (length (listAllSpans collate stores i) - 1)))"
proof (induction n)
  case 0
  show ?case using next_span_first [OF w s sel] s by simp
next
  case (Suc n)
  define spans where "spans = listAllSpans collate stores i"
  define s' where "s' = ((\<lambda>s. fst (handle_shortcut collate stores NextSpan s)) ^^ Suc n) s"
  have "spans \<noteq> []" using w by (simp add: walkable_def spans_def)
  then have j: "min n (length spans - 1) < length spans" by (simp add: min_less_iff_disj)
  have cur: "ui_currentSessionId s' = Some i" "ui_selectedSpanId s' = Some (sp_id (spans ! min n (length spans - 1)))"
    using Suc by (simp_all only: s'_def spans_def)
  have "ui_selectedSpanId (fst (handle_shortcut collate stores NextSpan s')) =
      Some (sp_id (spans ! min (Suc (min n (length spans - 1))) (length spans - 1)))"
    using next_span_from(1) [OF w cur(1) s(2) j [unfolded spans_def] cur(2) [unfolded spans_def]] by (simp only: spans_def)
  moreover have "min (Suc (min n (length spans - 1))) (length spans - 1) = min (Suc n) (length spans - 1)" by auto
  ultimately show ?case using cur(1) by (simp add: s'_def [symmetric, simplified] spans_def)
qed

text \<open>C30: From no selection, the next-span key visits every stored span of the agents that have a row, each once, by start time and then
  by the collation of the ids, and stays on the last one; the previous-span key goes back one span. With no such span
  nothing is selected.\<close>

theorem next_span_visits_all:
  assumes "stores i = Some st" and "agents_ok (ss_agents st)" and "span_ok (ss_spans st)"
    and "list_all sane_times (si_all (ss_spans st))" and "'''' \<notin> sp_id ` set (si_all (ss_spans st))" and "is_collation collate"
    and "ui_currentSessionId s = Some i" and "i \<noteq> ''''" and "ui_selectedSpanId s = None"
  shows "\<exists>spans. set spans = {s \<in> set (si_all (ss_spans st)). sp_agentId s \<in> shown_ids st} \<and> distinct (map sp_id spans) \<and>
           sorted_wrt (span_before collate) spans \<and>
           (\<forall>n. let k = min n (length spans - 1); s' = ((\<lambda>s. fst (handle_shortcut collate stores NextSpan s)) ^^ Suc n) s
                in if spans = [] then ui_selectedSpanId s' = None
                   else ui_selectedSpanId s' = Some (sp_id (spans ! k)) \<and>
                        ui_selectedSpanId (fst (handle_shortcut collate stores PrevSpan s')) = Some (sp_id (spans ! (k - 1))))"
proof -
  define spans where "spans = listAllSpans collate stores i"
  define run where "run n = ((\<lambda>s. fst (handle_shortcut collate stores NextSpan s)) ^^ Suc n) s" for n
  note all = listAllSpans_all [where stores = stores and i = i and collate = collate, OF assms(1-4), folded spans_def]
  have none: "ui_selectedSpanId (run n) = None" if "spans = []" for n
  proof -
    have "ui_currentSessionId (((\<lambda>s. fst (handle_shortcut collate stores NextSpan s)) ^^ m) s) = Some i \<and>
        ui_selectedSpanId (((\<lambda>s. fst (handle_shortcut collate stores NextSpan s)) ^^ m) s) = None" for m
      by (induction m) (use no_span_kept that spans_def assms(7,9) in auto)
    then show ?thesis unfolding run_def by blast
  qed
  have some: "ui_selectedSpanId (run n) = Some (sp_id (spans ! min n (length spans - 1))) \<and>
      ui_selectedSpanId (fst (handle_shortcut collate stores PrevSpan (run n))) = Some (sp_id (spans ! (min n (length spans - 1) - 1)))"
    if ne: "spans \<noteq> []" for n
  proof -
    have w: "walkable (listAllSpans collate stores i)"
      using ne all assms(5) by (auto simp: walkable_def spans_def)
    note at = next_span_run [OF w assms(7-9), of n, folded run_def spans_def]
    have "min n (length spans - 1) < length spans" using ne by (simp add: min_less_iff_disj)
    with next_span_from(2) [OF w _ assms(8), folded spans_def, of "run n" "min n (length spans - 1)"] at show ?thesis by blast
  qed
  show ?thesis
    using all listAllSpans_sorted [OF assms(6), of stores i] none some
    unfolding Let_def run_def spans_def [symmetric] by (intro exI [of _ spans]) auto
qed

definition demoRows :: session_store where
  "demoRows = emptyStore
     \<lparr>ss_agents := ar_upsert emptyAgents (demoAgent ''a'' 7),
      ss_spans := foldl si_append emptyIndex [demoSpan ''y'' 20 None, demoSpan ''x'' 10 (Some 15), demoSpan ''z'' 30 None]\<rparr>"

definition demoUi :: ui_state where
  "demoUi = (initialUi demo_parse \<lparr>ls_readable = True, ls_writable = True, ls_items = []\<rparr>)\<lparr>ui_currentSessionId := Some ''q''\<rparr>"

definition by_length :: "string \<Rightarrow> string \<Rightarrow> int" where
  "by_length a b = int (length a) - int (length b)"

lemma demo_spans: "si_all (ss_spans demoRows) = [demoSpan ''y'' 20 None, demoSpan ''x'' 10 (Some 15), demoSpan ''z'' 30 None]"
  by code_simp

lemma demo_shown: "ar_agents (ss_agents demoRows) = [''a'']"
  by code_simp

theorem next_span_visits_all_witness:
  "let stores = (\<lambda>k. if k = ''q'' then Some demoRows else None);
       s' = ((\<lambda>s. fst (handle_shortcut by_length stores NextSpan s)) ^^ Suc 4) demoUi
   in ui_selectedSpanId s' = Some ''z'' \<and>
      ui_selectedSpanId (fst (handle_shortcut by_length stores PrevSpan s')) = Some ''y''"
proof -
  let ?stores = "\<lambda>k. if k = ''q'' then Some demoRows else None"
  have st: "?stores ''q'' = Some demoRows" by simp
  have rows: "agents_ok (ss_agents demoRows)" unfolding demoRows_def by (simp add: agents_ok_upsert demoAgent_def placeholderAgent_def)
  have ok: "span_ok (ss_spans demoRows)" unfolding demoRows_def by (simp add: span_ok_append span_ok_empty)
  have sane: "list_all sane_times (si_all (ss_spans demoRows))" unfolding demo_spans by code_simp
  have named: "'''' \<notin> sp_id ` set (si_all (ss_spans demoRows))" unfolding demo_spans by (simp add: demoSpan_def)
  have coll: "is_collation by_length" by (auto simp: is_collation_def by_length_def)
  have ui: "ui_currentSessionId demoUi = Some ''q''" "''q'' \<noteq> ''''" "ui_selectedSpanId demoUi = None"
    by (simp_all add: demoUi_def initialUi_def)
  have shown: "shown_ids demoRows = {''a''}"
    using arg_cong [OF ar_list_ids [OF rows], of set] by (simp add: shown_ids_def demo_shown)
  have set_eq: "{s \<in> set [demoSpan ''y'' 20 None, demoSpan ''x'' 10 (Some 15), demoSpan ''z'' 30 None]. sp_agentId s \<in> {''a''}} =
      {demoSpan ''y'' 20 None, demoSpan ''x'' 10 (Some 15), demoSpan ''z'' 30 None}"
    by (auto simp: demoSpan_def)
  obtain spans where spans: "set spans = {demoSpan ''y'' 20 None, demoSpan ''x'' 10 (Some 15), demoSpan ''z'' 30 None}"
      "distinct (map sp_id spans)" "sorted_wrt (span_before by_length) spans"
    and run: "\<forall>n. let k = min n (length spans - 1); s' = ((\<lambda>s. fst (handle_shortcut by_length ?stores NextSpan s)) ^^ Suc n) demoUi
      in if spans = [] then ui_selectedSpanId s' = None
         else ui_selectedSpanId s' = Some (sp_id (spans ! k)) \<and>
              ui_selectedSpanId (fst (handle_shortcut by_length ?stores PrevSpan s')) = Some (sp_id (spans ! (k - 1)))"
    using next_span_visits_all [where stores = ?stores, OF st rows ok sane named coll ui, unfolded demo_spans shown set_eq] by blast
  define key where "key = (\<lambda>s :: span. (sp_startMs s, sp_id s))"
  have keys: "set (map key spans) = set [(10, ''x''), (20, ''y''), (30, ''z'')]" by (auto simp: spans(1) key_def demoSpan_def)
  have "sorted (map fst (map key spans))"
    unfolding map_map sorted_map by (rule sorted_wrt_mono_rel [OF _ spans(3)]) (auto simp: span_before_def key_def)
  moreover have "distinct (map fst (map key spans))"
  proof -
    have "distinct (map key spans)"
      using spans(2) by (auto simp: distinct_map inj_on_def key_def)
    moreover have "inj_on fst (set (map key spans))" unfolding keys by (simp add: inj_on_def)
    ultimately show ?thesis by (simp only: distinct_map)
  qed
  moreover have "set (map fst (map key spans)) = {10, 20, 30}" using arg_cong [OF keys, of "image fst"] by (simp add: image_image)
  ultimately have "map fst (map key spans) = [10, 20, 30]" by (intro sorted_distinct_set_unique) auto
  then obtain x y z where xyz: "spans = [x, y, z]" "fst (key x) = 10" "fst (key y) = 20" "fst (key z) = 30"
    by (auto simp: map_eq_Cons_conv)
  define a b c where "a = sp_id x" and "b = sp_id y" and "c = sp_id z"
  have abc: "map key spans = [(10, a), (20, b), (30, c)]" using xyz by (simp add: key_def a_def b_def c_def)
  have "(10, a) \<in> set (map key spans)" "(20, b) \<in> set (map key spans)" "(30, c) \<in> set (map key spans)" by (simp_all only: abc) simp_all
  then have "a = ''x''" "b = ''y''" "c = ''z''" unfolding keys by simp_all
  then have "map sp_id spans = [''x'', ''y'', ''z'']" using arg_cong [OF abc, of "map snd"] by (simp add: key_def comp_def)
  then obtain a b c where "spans = [a, b, c]" "sp_id a = ''x''" "sp_id b = ''y''" "sp_id c = ''z''" by (auto simp: map_eq_Cons_conv)
  then show ?thesis using run [rule_format, of 4] by (simp add: Let_def del: funpow.simps)
qed

end
