(* ===== verification/Stages.thy ===== *)
theory Stages
  imports GanttTypes "HOL-Library.Multiset"
begin

text \<open>
  \<open>frontend/src/gantt/stages.ts\<close>: the layering of a plan's tasks into stages. The loop is Kahn's algorithm over an
  explicit work queue; \<open>kahn_step\<close> is one iteration of its \<open>while\<close>, \<open>relax\<close> one iteration of the inner \<open>for\<close>. The
  tasks a cycle leaves without a stage are \<open>unresolved_tasks\<close>; the console warning about them is not modelled. The
  theorems compare the result with the longest chain of dependencies, written as a reference function.
\<close>

section \<open>The algorithm\<close>

record kahn =
  kn_stageOf :: "(string, nat) jsmap"
  kn_indeg :: "(string, int) jsmap"
  kn_queue :: "string list"
  kn_head :: nat

definition known_edges :: "task_plan \<Rightarrow> (string \<times> string) list" where
  \<comment> \<open>the edges the second loop does not skip\<close>
  "known_edges plan =
     (let byId = foldl (\<lambda>m t. AList.update (tk_id t) t m) [] (tp_tasks plan)
      in map (\<lambda>e. (te_fromTaskId e, te_toTaskId e))
           (filter (\<lambda>e. \<not> (\<not> map_has byId (te_fromTaskId e) \<or> \<not> map_has byId (te_toTaskId e))) (tp_edges plan)))"

definition outgoing :: "(string \<times> string) list \<Rightarrow> string \<Rightarrow> string list" where
  "outgoing es i = map snd (filter (\<lambda>e. fst e = i) es)"

definition incoming :: "(string \<times> string) list \<Rightarrow> string \<Rightarrow> string list" where
  "incoming es i = map fst (filter (\<lambda>e. snd e = i) es)"

definition get_num :: "(string, 'n::zero) jsmap \<Rightarrow> string \<Rightarrow> 'n" where
  \<comment> \<open>\<open>m.get(k) ?? 0\<close>, and the \<open>m.get(k)!\<close> of the loop below, whose keys are always present (\<open>kahn_reads_present\<close>)\<close>
  "get_num m k = (case map_of m k of None \<Rightarrow> 0 | Some n \<Rightarrow> n)"

definition kahn_init :: "task_plan \<Rightarrow> kahn" where
  "kahn_init plan =
     (let indeg = foldl (\<lambda>m t. AList.update (tk_id t) (int (length (incoming (known_edges plan) (tk_id t)))) m) [] (tp_tasks plan)
      in foldl (\<lambda>st t. if get_num (kn_indeg st) (tk_id t) = 0
                       then st\<lparr>kn_stageOf := AList.update (tk_id t) 0 (kn_stageOf st), kn_queue := kn_queue st @ [tk_id t]\<rparr>
                       else st)
           \<lparr>kn_stageOf = [], kn_indeg = indeg, kn_queue = [], kn_head = 0\<rparr> (tp_tasks plan))"

definition relax :: "nat \<Rightarrow> kahn \<Rightarrow> string \<Rightarrow> kahn" where
  "relax s st nxt =
     (let candidate = s + 1;
          stageOf = (case map_of (kn_stageOf st) nxt of
                       None \<Rightarrow> AList.update nxt candidate (kn_stageOf st)
                     | Some prev \<Rightarrow> if prev < candidate then AList.update nxt candidate (kn_stageOf st) else kn_stageOf st);
          d = get_num (kn_indeg st) nxt - 1
      in st\<lparr>kn_stageOf := stageOf, kn_indeg := AList.update nxt d (kn_indeg st),
            kn_queue := (if d = 0 then kn_queue st @ [nxt] else kn_queue st)\<rparr>)"

definition kahn_step :: "(string \<times> string) list \<Rightarrow> kahn \<Rightarrow> kahn" where
  "kahn_step es st =
     (let i = kn_queue st ! kn_head st
      in foldl (relax (get_num (kn_stageOf st) i)) (st\<lparr>kn_head := kn_head st + 1\<rparr>) (outgoing es i))"

definition positives :: "kahn \<Rightarrow> string set" where
  "positives st = {k \<in> fst ` set (kn_indeg st). 0 < get_num (kn_indeg st) k}"

definition work_left :: "kahn \<Rightarrow> int" where
  "work_left st = int (length (kn_queue st)) - int (kn_head st) + int (card (positives st))"

lemma finite_positives [simp]: "finite (positives st)"
  by (simp add: positives_def)

lemma get_num_update [simp]: "get_num (AList.update k v m) k' = (if k' = k then v else get_num m k')"
  by (simp add: get_num_def)

lemma positives_eq: "positives st = {k. 0 < get_num (kn_indeg st) k}"
proof -
  have "k \<in> fst ` set (kn_indeg st)" if "0 < get_num (kn_indeg st) k" for k
    using that by (cases "map_of (kn_indeg st) k") (simp_all add: get_num_def map_of_key)
  then show ?thesis by (auto simp: positives_def)
qed

lemma indeg_relax: "get_num (kn_indeg (relax s st n)) k = get_num (kn_indeg st) k - (if k = n then 1 else 0)"
  by (simp add: relax_def Let_def)

lemma queue_relax: "kn_queue (relax s st n) = kn_queue st @ (if get_num (kn_indeg st) n = 1 then [n] else [])"
  by (simp add: relax_def Let_def)

lemma head_relax [simp]: "kn_head (relax s st n) = kn_head st"
  by (simp add: relax_def Let_def)

lemma positives_relax:
  "positives (relax s st n) = (if get_num (kn_indeg st) n = 1 then positives st - {n} else positives st)"
  by (auto simp: positives_eq indeg_relax)

lemma work_left_relax: "work_left (relax s st n) \<le> work_left st"
proof (cases "get_num (kn_indeg st) n = 1")
  case True
  then have "n \<in> positives st" by (simp add: positives_eq)
  then have "card (positives st) = Suc (card (positives st - {n}))"
    by (rule card.remove [OF finite_positives])
  with True show ?thesis by (simp add: work_left_def positives_relax queue_relax)
next
  case False
  then show ?thesis by (simp add: work_left_def positives_relax queue_relax)
qed

lemma work_left_relax_all: "work_left (foldl (relax s) st ns) \<le> work_left st"
proof (induction ns arbitrary: st)
  case (Cons n ns)
  show ?case using order_trans [OF Cons.IH [of "relax s st n"] work_left_relax] by simp
qed simp

lemma head_relax_all [simp]: "kn_head (foldl (relax s) st ns) = kn_head st"
  by (induction ns arbitrary: st) simp_all

lemma work_left_step: "work_left (kahn_step es st) < work_left st"
  using work_left_relax_all [of "get_num (kn_stageOf st) (kn_queue st ! kn_head st)" "st\<lparr>kn_head := kn_head st + 1\<rparr>"
      "outgoing es (kn_queue st ! kn_head st)"]
  by (simp add: kahn_step_def Let_def work_left_def positives_def)

function kahn_loop :: "(string \<times> string) list \<Rightarrow> kahn \<Rightarrow> kahn" where
  "kahn_loop es st = (if kn_head st < length (kn_queue st) then kahn_loop es (kahn_step es st) else st)"
  by pat_completeness auto
termination
proof (relation "measure (\<lambda>(es, st). nat (work_left st))", goal_cases)
  case (2 es st)
  then have "0 < work_left st" by (simp add: work_left_def)
  with work_left_step [of es st] show ?case by simp
qed simp

declare kahn_loop.simps [simp del]

definition unresolved_tasks :: "task_plan \<Rightarrow> kahn \<Rightarrow> task list" where
  "unresolved_tasks plan st = filter (\<lambda>t. \<not> map_has (kn_stageOf st) (tk_id t)) (tp_tasks plan)"

definition stage_map :: "task_plan \<Rightarrow> (string, nat) jsmap" where
  "stage_map plan =
     (let st = kahn_loop (known_edges plan) (kahn_init plan)
      in foldl (\<lambda>m t. AList.update (tk_id t) 0 m) (kn_stageOf st) (unresolved_tasks plan st))"

definition push_stage :: "(string, nat) jsmap \<Rightarrow> task list list option \<Rightarrow> task \<Rightarrow> task list list option" where
  \<comment> \<open>\<open>stages[stageOf.get(t.id)!].push(t)\<close>: a task without a stage, or one beyond the last row, makes the call throw (\<open>None\<close>)\<close>
  "push_stage stageOf acc t =
     (case acc of
        None \<Rightarrow> None
      | Some ss \<Rightarrow>
          (case map_of stageOf (tk_id t) of
             None \<Rightarrow> None
           | Some k \<Rightarrow> if k < length ss then Some (ss[k := ss ! k @ [t]]) else None))"

definition computeStages :: "task_plan \<Rightarrow> task list list option" where
  "computeStages plan =
     (if tp_tasks plan = [] then Some []
      else let stageOf = stage_map plan;
               maxStage = foldl (\<lambda>m (k, s). if m < s then s else m) 0 stageOf
           in foldl (push_stage stageOf) (Some (replicate (maxStage + 1) [])) (tp_tasks plan))"

section \<open>Every task is in one stage\<close>

lemma maxStage_fold:
  fixes a :: nat
  shows "a \<le> foldl (\<lambda>m (k, s). if m < s then s else m) a xs \<and>
         (\<forall>p\<in>set xs. snd p \<le> foldl (\<lambda>m (k, s). if m < s then s else m) a xs)"
proof (induction xs arbitrary: a)
  case (Cons p xs)
  obtain k s where p: "p = (k, s)" by (cases p)
  show ?case using Cons [of "if a < s then s else a"] by (auto simp: p split: if_splits)
qed simp

lemma maxStage_attained:
  fixes a :: nat
  shows "foldl (\<lambda>m (k, s). if m < s then s else m) a xs \<in> insert a (snd ` set xs)"
proof (induction xs arbitrary: a)
  case (Cons p xs)
  then show ?case by (cases p) (auto split: if_splits)
qed simp

lemma has_fold_update: "map_has (foldl (\<lambda>m t. AList.update (f t) (g t) m) m0 ts) k \<longleftrightarrow> map_has m0 k \<or> k \<in> f ` set ts"
  by (induction ts arbitrary: m0) auto

lemma stage_map_has: "t \<in> set (tp_tasks plan) \<Longrightarrow> map_has (stage_map plan) (tk_id t)"
  by (auto simp: stage_map_def unresolved_tasks_def Let_def has_fold_update)

lemma push_stages:
  assumes "\<forall>t\<in>set ts. map_of m (tk_id t) = Some (f t) \<and> f t < n"
  shows "foldl (push_stage m) (Some (map g [0..<n])) ts = Some (map (\<lambda>k. g k @ filter (\<lambda>t. f t = k) ts) [0..<n])"
  using assms
proof (induction ts arbitrary: g)
  case (Cons t ts)
  have "(map g [0..<n])[f t := map g [0..<n] ! f t @ [t]] = map (g(f t := g (f t) @ [t])) [0..<n]"
    using Cons.prems by (intro nth_equalityI) (auto simp: nth_list_update)
  then have "push_stage m (Some (map g [0..<n])) t = Some (map (g(f t := g (f t) @ [t])) [0..<n])"
    using Cons.prems by (simp add: push_stage_def)
  then have "foldl (push_stage m) (Some (map g [0..<n])) (t # ts) =
      Some (map (\<lambda>k. (g(f t := g (f t) @ [t])) k @ filter (\<lambda>t. f t = k) ts) [0..<n])"
    using Cons by simp
  also have "\<dots> = Some (map (\<lambda>k. g k @ filter (\<lambda>t. f t = k) (t # ts)) [0..<n])"
    by (simp only: option.inject) (intro map_cong, auto)
  finally show ?case .
qed simp

definition stage_at :: "task_plan \<Rightarrow> string \<Rightarrow> nat" where
  "stage_at plan i = get_num (stage_map plan) i"

definition stage_count :: "task_plan \<Rightarrow> nat" where
  "stage_count plan = Suc (foldl (\<lambda>m (k, s). if m < s then s else m) 0 (stage_map plan))"

lemma stage_at_less: "stage_at plan i < stage_count plan"
  using maxStage_fold [of 0 "stage_map plan"]
  by (auto simp: stage_at_def stage_count_def get_num_def less_Suc_eq_le split: option.split dest!: map_of_SomeD)

lemma stage_at_map: "t \<in> set (tp_tasks plan) \<Longrightarrow> map_of (stage_map plan) (tk_id t) = Some (stage_at plan (tk_id t))"
  using stage_map_has [of t plan] by (auto simp: map_has_def stage_at_def get_num_def)

lemma computeStages_eq:
  "computeStages plan =
     Some (if tp_tasks plan = [] then []
           else map (\<lambda>k. filter (\<lambda>t. stage_at plan (tk_id t) = k) (tp_tasks plan)) [0..<stage_count plan])"
proof -
  have r: "replicate n [] = map (\<lambda>k. []) [0..<n]" for n by (simp add: map_replicate_const)
  show ?thesis
    using push_stages [of "tp_tasks plan" "stage_map plan" "\<lambda>t. stage_at plan (tk_id t)" "stage_count plan" "\<lambda>k. []"]
      stage_at_less stage_at_map
    unfolding computeStages_def Let_def r Suc_eq_plus1 [symmetric] stage_count_def [symmetric] by simp
qed

lemma mset_buckets: "\<forall>t\<in>set ts. f t < n \<Longrightarrow> mset (concat (map (\<lambda>k. filter (\<lambda>t. f t = k) ts) [0..<n])) = mset ts"
proof (induction n arbitrary: ts)
  case (Suc n)
  have "mset (concat (map (\<lambda>k. filter (\<lambda>t. f t = k) ts) [0..<n])) =
        mset (concat (map (\<lambda>k. filter (\<lambda>t. f t = k) (filter (\<lambda>t. f t < n) ts)) [0..<n]))"
    by (intro arg_cong [where f = "\<lambda>x. mset (concat x)"] map_cong) (auto intro!: filter_cong)
  also have "\<dots> = mset (filter (\<lambda>t. f t < n) ts)" by (rule Suc.IH) simp
  finally have low: "mset (concat (map (\<lambda>k. filter (\<lambda>t. f t = k) ts) [0..<n])) = mset (filter (\<lambda>t. f t < n) ts)" .
  have top: "filter (\<lambda>t. f t = n) ts = filter (\<lambda>t. \<not> f t < n) ts"
    using Suc.prems by (intro filter_cong) (auto simp: less_Suc_eq)
  have "mset (concat (map (\<lambda>k. filter (\<lambda>t. f t = k) ts) [0..<Suc n])) =
        mset (filter (\<lambda>t. f t < n) ts) + mset (filter (\<lambda>t. \<not> f t < n) ts)"
    unfolding top [symmetric] low [symmetric] by simp
  also have "\<dots> = mset ts" unfolding mset_filter by (rule multiset_partition [symmetric])
  finally show ?case .
qed simp

text \<open>The \<open>!\<close> reads of the loop: every id in the queue has a stage and every task that a dependency ends in has a count.\<close>

definition reads_ok :: "(string \<times> string) list \<Rightarrow> kahn \<Rightarrow> bool" where
  "reads_ok es st \<longleftrightarrow>
     list_all (map_has (kn_stageOf st)) (kn_queue st) \<and> list_all (map_has (kn_indeg st)) (map snd es)"

lemma reads_ok_relax: "reads_ok es st \<Longrightarrow> reads_ok es (relax s st n)"
  by (auto simp: reads_ok_def list_all_iff relax_def Let_def map_has_def split: option.split)

lemma reads_ok_relax_all: "reads_ok es st \<Longrightarrow> reads_ok es (foldl (relax s) st ns)"
  by (induction ns arbitrary: st) (simp_all add: reads_ok_relax)

lemma reads_ok_step: "reads_ok es st \<Longrightarrow> reads_ok es (kahn_step es st)"
  unfolding kahn_step_def Let_def by (rule reads_ok_relax_all) (simp add: reads_ok_def)

lemma reads_ok_init: "reads_ok (known_edges plan) (kahn_init plan)"
proof -
  define enter where "enter = (\<lambda>(st :: kahn) (t :: task). if get_num (kn_indeg st) (tk_id t) = 0
      then st\<lparr>kn_stageOf := AList.update (tk_id t) 0 (kn_stageOf st), kn_queue := kn_queue st @ [tk_id t]\<rparr> else st)"
  have step: "reads_ok es st \<Longrightarrow> reads_ok es (foldl enter st ts)" for es st ts
    by (induction ts arbitrary: st) (auto simp: enter_def reads_ok_def list_all_iff)
  define indeg where "indeg = foldl (\<lambda>m t. AList.update (tk_id t) (int (length (incoming (known_edges plan) (tk_id t)))) m) [] (tp_tasks plan)"
  have "map_has indeg (snd e)" if "e \<in> set (known_edges plan)" for e
    using that by (auto simp: known_edges_def indeg_def has_fold_update)
  then have "reads_ok (known_edges plan) \<lparr>kn_stageOf = [], kn_indeg = indeg, kn_queue = [], kn_head = 0\<rparr>"
    by (simp add: reads_ok_def list_all_iff)
  from step [OF this, of "tp_tasks plan"] show ?thesis by (simp add: kahn_init_def enter_def indeg_def)
qed

lemma kahn_reads_present: "reads_ok (known_edges plan) ((kahn_step (known_edges plan) ^^ n) (kahn_init plan))"
  by (induction n) (simp_all add: reads_ok_init reads_ok_step)

text \<open>C24: The layering ends for every plan, with cycles, unknown edge ends and repeated ids too, and never indexes a row that does not
  exist or reads a missing entry: it puts every task into exactly one stage, within a stage the tasks keep the plan's order,
  and the tasks a cycle leaves without a stage are in the first one.\<close>

theorem stages_partition_tasks:
  "reads_ok (known_edges plan) ((kahn_step (known_edges plan) ^^ n) (kahn_init plan)) \<and>
   (case computeStages plan of
      None \<Rightarrow> False
    | Some stages \<Rightarrow>
        mset (concat stages) = mset (tp_tasks plan) \<and>
        (\<exists>stage. stages = map (\<lambda>k. filter (\<lambda>t. stage (tk_id t) = k) (tp_tasks plan)) [0..<length stages]) \<and>
        subseq (unresolved_tasks plan (kahn_loop (known_edges plan) (kahn_init plan))) (concat (take 1 stages)))"
proof (cases "tp_tasks plan = []")
  case False
  define un where "un = unresolved_tasks plan (kahn_loop (known_edges plan) (kahn_init plan))"
  have zero: "stage_at plan (tk_id t) = 0" if "t \<in> set un" for t
  proof -
    define m where "m = kn_stageOf (kahn_loop (known_edges plan) (kahn_init plan))"
    have "map_of (foldl (\<lambda>m t. AList.update (tk_id t) 0 m) m us) i \<in> {None, Some 0}"
      if "map_of m i \<in> {None, Some 0}" for us :: "task list" and m :: "(string, nat) jsmap" and i
      using that by (induction us arbitrary: m) (auto simp: update_conv)
    from this [of m "tk_id t" un] have zero: "map_of m (tk_id t) = None \<Longrightarrow>
        map_of (foldl (\<lambda>m t. AList.update (tk_id t) 0 m) m un) (tk_id t) \<in> {None, Some 0}" by simp
    have "map_of m (tk_id t) = None" using that by (simp add: un_def unresolved_tasks_def m_def map_has_def)
    with zero show ?thesis unfolding stage_at_def stage_map_def Let_def m_def [symmetric] un_def [symmetric] get_num_def
      by (auto split: option.split)
  qed
  have "concat (take 1 (map (\<lambda>k. filter (\<lambda>t. stage_at plan (tk_id t) = k) (tp_tasks plan)) [0..<stage_count plan])) =
      filter (\<lambda>t. stage_at plan (tk_id t) = 0) (tp_tasks plan)"
    by (simp add: stage_count_def take_map upt_conv_Cons del: upt_Suc)
  moreover have "subseq un (filter (\<lambda>t. stage_at plan (tk_id t) = 0) (tp_tasks plan))"
  proof -
    have "un = filter (\<lambda>t. t \<in> set un) (tp_tasks plan)" by (auto simp: un_def unresolved_tasks_def intro!: filter_cong)
    moreover have "filter (\<lambda>t. t \<in> set un) (filter (\<lambda>t. stage_at plan (tk_id t) = 0) (tp_tasks plan)) =
        filter (\<lambda>t. t \<in> set un) (tp_tasks plan)"
      using zero unfolding filter_filter by (intro filter_cong) auto
    ultimately have "un = filter (\<lambda>t. t \<in> set un) (filter (\<lambda>t. stage_at plan (tk_id t) = 0) (tp_tasks plan))" by simp
    then show ?thesis by (metis subseq_filter_left)
  qed
  moreover have "mset (concat (map (\<lambda>k. filter (\<lambda>t. stage_at plan (tk_id t) = k) (tp_tasks plan)) [0..<stage_count plan])) =
      mset (tp_tasks plan)"
    using mset_buckets [of "tp_tasks plan" "\<lambda>t. stage_at plan (tk_id t)" "stage_count plan"] stage_at_less by blast
  ultimately show ?thesis using False
    by (auto simp: computeStages_eq kahn_reads_present un_def [symmetric] intro: exI [of _ "stage_at plan"])
qed (simp add: computeStages_def kahn_reads_present unresolved_tasks_def)

section \<open>The invariant of the loop\<close>

definition top_of :: "(string \<Rightarrow> nat) \<Rightarrow> string set \<Rightarrow> nat" where
  \<comment> \<open>one more than the largest stage of the dependencies, 0 without any\<close>
  "top_of f P = Max (insert 0 (Suc ` f ` P))"

lemma top_of_insert: "finite P \<Longrightarrow> top_of f (insert i P) = max (Suc (f i)) (top_of f P)"
  unfolding top_of_def image_insert by (subst insert_commute) (simp add: Max_insert)

lemma top_of_empty [simp]: "top_of f {} = 0"
  by (simp add: top_of_def)

lemma top_of_cong: "(\<And>u. u \<in> P \<Longrightarrow> f u = g u) \<Longrightarrow> top_of f P = top_of g P"
  unfolding top_of_def by (simp cong: image_cong)

definition preds :: "(string \<times> string) multiset \<Rightarrow> string \<Rightarrow> string set" where
  "preds D v = fst ` {e. e \<in># D \<and> snd e = v}"

lemma finite_preds [simp]: "finite (preds D v)"
proof -
  have "{e. e \<in># D \<and> snd e = v} \<subseteq> set_mset D" by auto
  then show ?thesis unfolding preds_def using finite_subset finite_set_mset by blast
qed

lemma preds_add: "preds (add_mset (i, n) D) v = (if v = n then insert i (preds D v) else preds D v)"
  by (auto simp: preds_def image_iff)

definition edges_into :: "string \<Rightarrow> (string \<times> string) multiset \<Rightarrow> nat" where
  "edges_into v R = size {#e \<in># R. snd e = v#}"

lemma edges_into_add: "edges_into v (add_mset (i, n) R) = (if v = n then Suc (edges_into v R) else edges_into v R)"
  by (simp add: edges_into_def)

lemma edges_into_zero: "edges_into v R = 0 \<longleftrightarrow> (\<forall>e\<in>#R. snd e \<noteq> v)"
  unfolding edges_into_def by (induction R) auto

definition stage_num :: "kahn \<Rightarrow> string \<Rightarrow> nat" where
  "stage_num st = get_num (kn_stageOf st)"

definition kahn_inv ::
  "string set \<Rightarrow> (string \<times> string) multiset \<Rightarrow> (string \<times> string) multiset \<Rightarrow> kahn \<Rightarrow> bool" where
  \<comment> \<open>the edges of \<open>D\<close> have been relaxed, those of \<open>R\<close> have not\<close>
  "kahn_inv V D R st \<longleftrightarrow>
     distinct (kn_queue st) \<and> set (kn_queue st) \<subseteq> V \<and>
     (\<forall>v\<in>V. get_num (kn_indeg st) v = int (edges_into v R)) \<and>
     (\<forall>v\<in>V. v \<in> set (kn_queue st) \<longleftrightarrow> edges_into v R = 0) \<and>
     (\<forall>e\<in>#D. fst e \<in> set (kn_queue st)) \<and>
     (\<forall>v\<in>V. stage_num st v = top_of (stage_num st) (preds D v))"

lemma stage_num_relax:
  "stage_num (relax s st n) v = (if v = n then max (stage_num st n) (Suc s) else stage_num st v)"
  by (auto simp: stage_num_def relax_def Let_def get_num_def split: option.split)

lemma kahn_inv_relax:
  assumes inv: "kahn_inv V D (add_mset (i, n) R) st" and n: "n \<in> V" and i: "i \<in> set (kn_queue st)"
  shows "kahn_inv V (add_mset (i, n) D) R (relax (stage_num st i) st n)" and "i \<noteq> n"
proof -
  have new: "n \<notin> set (kn_queue st)" using inv n by (auto simp: kahn_inv_def edges_into_add)
  then show ne: "i \<noteq> n" using i by auto
  have q: "set (kn_queue (relax (stage_num st i) st n)) = set (kn_queue st) \<union> (if edges_into n R = 0 then {n} else {})"
    and d: "distinct (kn_queue (relax (stage_num st i) st n))"
    using inv n new by (auto simp: queue_relax kahn_inv_def edges_into_add)
  have old: "u \<noteq> n" if "u \<in> preds D v" for u v
    using that inv new by (auto simp: preds_def kahn_inv_def)
  have stage: "stage_num (relax (stage_num st i) st n) v =
      top_of (stage_num (relax (stage_num st i) st n)) (preds (add_mset (i, n) D) v)" if "v \<in> V" for v
  proof -
    have c: "top_of (stage_num (relax (stage_num st i) st n)) (preds D w) = top_of (stage_num st) (preds D w)" for w
      by (rule top_of_cong) (simp add: stage_num_relax old)
    have "stage_num st v = top_of (stage_num st) (preds D v)" using inv that by (simp add: kahn_inv_def)
    then show ?thesis using ne
      by (cases "v = n") (simp_all add: preds_add top_of_insert c, simp_all add: stage_num_relax max.commute)
  qed
  show "kahn_inv V (add_mset (i, n) D) R (relax (stage_num st i) st n)"
    using inv n i q d stage unfolding kahn_inv_def
    by (auto simp: indeg_relax edges_into_add)
qed

lemma kahn_inv_relax_all:
  assumes "kahn_inv V D (mset (map (Pair i) ns) + R) st" and "set ns \<subseteq> V" and "i \<in> set (kn_queue st)"
  shows "kahn_inv V (D + mset (map (Pair i) ns)) R (foldl (relax (stage_num st i)) st ns)"
  using assms
proof (induction ns arbitrary: D st)
  case (Cons n ns)
  let ?st = "relax (stage_num st i) st n"
  have inv: "kahn_inv V D (add_mset (i, n) (mset (map (Pair i) ns) + R)) st" using Cons.prems(1) by simp
  have n: "n \<in> V" using Cons.prems(2) by simp
  note step = kahn_inv_relax [OF inv n Cons.prems(3)]
  have same: "stage_num ?st i = stage_num st i" using step(2) by (simp add: stage_num_relax)
  have "kahn_inv V (add_mset (i, n) D + mset (map (Pair i) ns)) R (foldl (relax (stage_num ?st i)) ?st ns)"
    using step(1) Cons.prems(2,3) by (intro Cons.IH) (auto simp: queue_relax)
  then show ?case unfolding same by simp
qed simp

definition loop_inv :: "string set \<Rightarrow> (string \<times> string) list \<Rightarrow> kahn \<Rightarrow> bool" where
  "loop_inv V es st \<longleftrightarrow>
     kn_head st \<le> length (kn_queue st) \<and>
     kahn_inv V {#e \<in># mset es. fst e \<in> set (take (kn_head st) (kn_queue st))#}
       {#e \<in># mset es. fst e \<notin> set (take (kn_head st) (kn_queue st))#} st"

lemma queue_relax_all: "\<exists>q. kn_queue (foldl (relax s) st ns) = kn_queue st @ q"
proof (induction ns arbitrary: st)
  case (Cons n ns)
  obtain q where "kn_queue (foldl (relax s) (relax s st n) ns) = kn_queue (relax s st n) @ q" using Cons by blast
  then show ?case unfolding foldl_Cons queue_relax append_assoc by blast
qed simp

lemma outgoing_edges: "mset (map (Pair i) (outgoing es i)) = {#e \<in># mset es. fst e = i#}"
proof -
  have "map (Pair i) (map snd (filter (\<lambda>e. fst e = i) es)) = filter (\<lambda>e. fst e = i) es"
    by (induction es) auto
  then show ?thesis by (metis mset_filter outgoing_def)
qed

lemma filter_in_insert:
  "i \<notin> T \<Longrightarrow> {#e \<in># M. fst e \<in> insert i T#} = {#e \<in># M. fst e \<in> T#} + {#e \<in># M. fst e = i#}"
  by (induction M) auto

lemma filter_notin_insert:
  "i \<notin> T \<Longrightarrow> {#e \<in># M. fst e \<notin> T#} = {#e \<in># M. fst e = i#} + {#e \<in># M. fst e \<notin> insert i T#}"
  by (induction M) auto

lemma loop_inv_step:
  assumes inv: "loop_inv V es st" and more: "kn_head st < length (kn_queue st)" and sub: "snd ` set es \<subseteq> V"
  shows "loop_inv V es (kahn_step es st)"
proof -
  define i where "i = kn_queue st ! kn_head st"
  define st0 where "st0 = st\<lparr>kn_head := kn_head st + 1\<rparr>"
  define T where "T = set (take (kn_head st) (kn_queue st))"
  have take: "take (Suc (kn_head st)) (kn_queue st) = take (kn_head st) (kn_queue st) @ [i]"
    using more by (simp add: i_def take_Suc_conv_app_nth)
  have "distinct (kn_queue st)" using inv unfolding loop_inv_def kahn_inv_def by blast
  then have "distinct (take (kn_head st) (kn_queue st) @ [i])" unfolding take [symmetric] by (rule distinct_take)
  then have new: "i \<notin> T" by (simp add: T_def)
  note split1 = filter_notin_insert [OF new, of "mset es"] and split2 = filter_in_insert [OF new, of "mset es"]
  have same: "kahn_inv V D R st0 = kahn_inv V D R st" for D R
    by (simp add: kahn_inv_def stage_num_def st0_def)
  have "kahn_inv V {#e \<in># mset es. fst e \<in> T#} {#e \<in># mset es. fst e \<notin> T#} st0"
    using inv unfolding same loop_inv_def T_def by (rule conjunct2)
  then have "kahn_inv V {#e \<in># mset es. fst e \<in> T#} (mset (map (Pair i) (outgoing es i)) + {#e \<in># mset es. fst e \<notin> insert i T#}) st0"
    unfolding outgoing_edges split1 [symmetric] .
  moreover have "set (outgoing es i) \<subseteq> V" using sub by (auto simp: outgoing_def)
  moreover have "i \<in> set (kn_queue st0)" using more by (simp add: i_def st0_def)
  ultimately have "kahn_inv V ({#e \<in># mset es. fst e \<in> T#} + mset (map (Pair i) (outgoing es i)))
      {#e \<in># mset es. fst e \<notin> insert i T#} (foldl (relax (stage_num st0 i)) st0 (outgoing es i))"
    by (rule kahn_inv_relax_all)
  moreover have step: "kahn_step es st = foldl (relax (stage_num st0 i)) st0 (outgoing es i)"
    by (simp add: kahn_step_def Let_def i_def st0_def stage_num_def)
  moreover obtain q where "kn_queue (kahn_step es st) = kn_queue st @ q"
    unfolding step using queue_relax_all [of "stage_num st0 i" st0] by (auto simp: st0_def)
  moreover have "kn_head (kahn_step es st) = Suc (kn_head st)" by (simp add: step) (simp add: st0_def)
  moreover have "set (take (Suc (kn_head st)) (kn_queue st @ q)) = insert i T"
    using more by (simp add: take T_def)
  ultimately show ?thesis using more unfolding loop_inv_def outgoing_edges split2 [symmetric]
    by simp
qed

lemma loop_inv_loop: "loop_inv V es st \<Longrightarrow> snd ` set es \<subseteq> V \<Longrightarrow> loop_inv V es (kahn_loop es st)"
proof (induction es st rule: kahn_loop.induct)
  case (1 es st)
  show ?case
    using "1.IH" loop_inv_step [OF "1.prems"(1) _ "1.prems"(2)] "1.prems" by (subst kahn_loop.simps) simp
qed

lemma kahn_loop_done: "\<not> kn_head (kahn_loop es st) < length (kn_queue (kahn_loop es st))"
proof (induction es st rule: kahn_loop.induct)
  case (1 es st)
  then show ?case by (subst (1 2) kahn_loop.simps) simp
qed

section \<open>The stage is the longest chain of dependencies\<close>

definition task_ids :: "task_plan \<Rightarrow> string set" where
  "task_ids plan = tk_id ` set (tp_tasks plan)"

lemma num_fold_update:
  "get_num (foldl (\<lambda>m t. AList.update (f t) (h (f t)) m) m0 ts) k = (if k \<in> f ` set ts then h k else get_num m0 k)"
  by (induction ts arbitrary: m0) auto

lemma known_edges_eq:
  "known_edges plan = map (\<lambda>e. (te_fromTaskId e, te_toTaskId e))
     (filter (\<lambda>e. te_fromTaskId e \<in> task_ids plan \<and> te_toTaskId e \<in> task_ids plan) (tp_edges plan))"
  by (simp add: known_edges_def has_fold_update task_ids_def)

lemma known_edges_ids: "e \<in> set (known_edges plan) \<Longrightarrow> fst e \<in> task_ids plan \<and> snd e \<in> task_ids plan"
  by (auto simp: known_edges_eq)

definition dependencies :: "task_plan \<Rightarrow> string \<Rightarrow> string list" where
  \<comment> \<open>the tasks of the plan that an edge puts before \<open>i\<close>\<close>
  "dependencies plan i =
     map te_fromTaskId (filter (\<lambda>e. te_toTaskId e = i \<and> te_fromTaskId e \<in> tk_id ` set (tp_tasks plan)) (tp_edges plan))"

fun longest_chain :: "task_plan \<Rightarrow> nat \<Rightarrow> string \<Rightarrow> nat" where
  \<comment> \<open>the length of the longest chain of at most \<open>n\<close> edges that ends in \<open>i\<close>\<close>
  "longest_chain plan 0 i = 0"
| "longest_chain plan (Suc n) i = foldr max (map (\<lambda>u. Suc (longest_chain plan n u)) (dependencies plan i)) 0"

lemma preds_dependencies: "v \<in> task_ids plan \<Longrightarrow> preds (mset (known_edges plan)) v = set (dependencies plan v)"
  unfolding preds_def known_edges_eq dependencies_def task_ids_def [symmetric] by force

lemma foldr_max_top: "foldr max (map (\<lambda>u. Suc (f u)) us) 0 = top_of f (set us)"
  by (induction us) (simp_all add: top_of_insert)

definition stage_keys_ok :: "string set \<Rightarrow> kahn \<Rightarrow> bool" where
  "stage_keys_ok V st \<longleftrightarrow> map_ok (kn_stageOf st) \<and> fst ` set (kn_stageOf st) \<subseteq> V"

lemma stage_keys_relax_all: "stage_keys_ok V st \<Longrightarrow> set ns \<subseteq> V \<Longrightarrow> stage_keys_ok V (foldl (relax s) st ns)"
proof (induction ns arbitrary: st)
  case (Cons n ns)
  have "stage_keys_ok V (relax s st n)"
    using Cons.prems by (simp add: stage_keys_ok_def relax_def Let_def fst_set_update split: option.split)
  with Cons show ?case by simp
qed simp

lemma stage_keys_loop: "stage_keys_ok V st \<Longrightarrow> snd ` set es \<subseteq> V \<Longrightarrow> stage_keys_ok V (kahn_loop es st)"
proof (induction es st rule: kahn_loop.induct)
  case (1 es st)
  have "stage_keys_ok V (kahn_step es st)" unfolding kahn_step_def Let_def
    using "1.prems" by (intro stage_keys_relax_all) (auto simp: stage_keys_ok_def outgoing_def)
  with "1" show ?case by (subst kahn_loop.simps) simp
qed

lemma queue_fold:
  "kn_queue (foldl (\<lambda>st t. if get_num (kn_indeg st) (tk_id t) = 0
      then st\<lparr>kn_stageOf := AList.update (tk_id t) 0 (kn_stageOf st), kn_queue := kn_queue st @ [tk_id t]\<rparr> else st) st ts) =
    kn_queue st @ filter (\<lambda>i. get_num (kn_indeg st) i = 0) (map tk_id ts)"
  by (induction ts arbitrary: st) auto

lemma rest_fold:
  fixes ts :: "task list"
  defines "run st \<equiv> foldl (\<lambda>st t. if get_num (kn_indeg st) (tk_id t) = 0
      then st\<lparr>kn_stageOf := AList.update (tk_id t) 0 (kn_stageOf st), kn_queue := kn_queue st @ [tk_id t]\<rparr> else st) st ts"
  shows "kn_indeg (run st) = kn_indeg st" and "kn_head (run st) = kn_head st"
    and "(\<forall>i. stage_num st i = 0) \<Longrightarrow> stage_num (run st) i = 0"
    and "stage_keys_ok V st \<Longrightarrow> tk_id ` set ts \<subseteq> V \<Longrightarrow> stage_keys_ok V (run st)"
  unfolding run_def
  by (induction ts arbitrary: st) (auto simp: stage_num_def stage_keys_ok_def fst_set_update)

lemma edges_into_incoming: "edges_into v (mset es) = length (incoming es v)"
  by (simp add: edges_into_def incoming_def flip: mset_filter)

lemma init_indeg: "v \<in> task_ids plan \<Longrightarrow> get_num (kn_indeg (kahn_init plan)) v = int (edges_into v (mset (known_edges plan)))"
  by (simp add: kahn_init_def rest_fold(1) num_fold_update [of tk_id "\<lambda>i. int (length (incoming (known_edges plan) i))"]
      edges_into_incoming task_ids_def)

lemma init_queue:
  "kn_queue (kahn_init plan) = filter (\<lambda>i. edges_into i (mset (known_edges plan)) = 0) (map tk_id (tp_tasks plan))"
  unfolding kahn_init_def Let_def queue_fold
  by (auto intro!: filter_cong simp: num_fold_update [of tk_id "\<lambda>i. int (length (incoming (known_edges plan) i))"] edges_into_incoming)

lemma init_stage: "stage_num (kahn_init plan) v = 0"
  unfolding kahn_init_def Let_def by (rule rest_fold(3)) (simp add: stage_num_def get_num_def)

lemma init_keys: "stage_keys_ok (task_ids plan) (kahn_init plan)"
  unfolding kahn_init_def Let_def by (rule rest_fold(4)) (simp_all add: stage_keys_ok_def task_ids_def)

lemma init_inv:
  assumes "distinct (map tk_id (tp_tasks plan))"
  shows "loop_inv (task_ids plan) (known_edges plan) (kahn_init plan)"
proof -
  have "kn_head (kahn_init plan) = 0" by (simp add: kahn_init_def rest_fold(2))
  then show ?thesis
    using assms by (auto simp: loop_inv_def kahn_inv_def init_queue init_indeg init_stage preds_def task_ids_def)
qed

lemma stage_at_num:
  "stage_at plan v = stage_num (kahn_loop (known_edges plan) (kahn_init plan)) v"
proof -
  have "get_num (foldl (\<lambda>m t. AList.update (tk_id t) 0 m) m us) v = get_num m v"
    if "\<forall>t\<in>set us. \<not> map_has m (tk_id t)" for m :: "(string, nat) jsmap" and us :: "task list"
    using num_fold_update [of tk_id "\<lambda>i. 0" m us v] that by (auto simp: get_num_def map_has_def)
  then show ?thesis by (simp add: stage_at_def stage_map_def stage_num_def unresolved_tasks_def Let_def)
qed

lemma stage_map_keys: "map_ok (stage_map plan) \<and> fst ` set (stage_map plan) \<subseteq> task_ids plan"
proof -
  have fold: "map_ok m \<and> fst ` set m \<subseteq> V \<Longrightarrow> tk_id ` set us \<subseteq> V \<Longrightarrow>
      map_ok (foldl (\<lambda>m t. AList.update (tk_id t) 0 m) m us) \<and> fst ` set (foldl (\<lambda>m t. AList.update (tk_id t) 0 m) m us) \<subseteq> V"
    for m :: "(string, nat) jsmap" and us :: "task list" and V
    by (induction us arbitrary: m) (auto simp: fst_set_update)
  have "stage_keys_ok (task_ids plan) (kahn_loop (known_edges plan) (kahn_init plan))"
    using known_edges_ids by (intro stage_keys_loop init_keys) auto
  then show ?thesis unfolding stage_map_def Let_def
    by (intro fold) (auto simp: stage_keys_ok_def unresolved_tasks_def task_ids_def)
qed

lemma all_queued:
  assumes inv: "loop_inv V es st" and fin: "\<not> kn_head st < length (kn_queue st)"
    and wf: "wf (set es)" and V: "\<forall>e\<in>set es. fst e \<in> V"
  shows "v \<in> V \<Longrightarrow> v \<in> set (kn_queue st)"
proof (induction v rule: wf_induct_rule [OF wf])
  case (1 v)
  have inv': "kahn_inv V {#e \<in># mset es. fst e \<in> set (kn_queue st)#} {#e \<in># mset es. fst e \<notin> set (kn_queue st)#} st"
    using inv fin by (simp add: loop_inv_def)
  have "snd e \<noteq> v" if e: "e \<in> set es" "fst e \<notin> set (kn_queue st)" for e
  proof
    assume "snd e = v"
    then have "(fst e, v) \<in> set es" using e by (metis prod.collapse)
    with "1.IH" V e show False by blast
  qed
  then have "edges_into v {#e \<in># mset es. fst e \<notin> set (kn_queue st)#} = 0" by (auto simp: edges_into_zero)
  then show ?case using inv' "1.prems" by (auto simp: kahn_inv_def)
qed

lemma stage_recurrence:
  assumes d: "distinct (map tk_id (tp_tasks plan))" and ac: "acyclic (set (known_edges plan))" and v: "v \<in> task_ids plan"
  shows "stage_at plan v = top_of (stage_at plan) (set (dependencies plan v))"
proof -
  define st where "st = kahn_loop (known_edges plan) (kahn_init plan)"
  have inv: "loop_inv (task_ids plan) (known_edges plan) st"
    unfolding st_def using init_inv [OF d] known_edges_ids by (intro loop_inv_loop) auto
  have fin: "\<not> kn_head st < length (kn_queue st)" unfolding st_def by (rule kahn_loop_done)
  have "wf (set (known_edges plan))" using ac by (simp add: finite_acyclic_wf)
  then have all: "u \<in> set (kn_queue st)" if "u \<in> task_ids plan" for u
    using all_queued [OF inv fin _ _ that] known_edges_ids by auto
  then have "{#e \<in># mset (known_edges plan). fst e \<in> set (kn_queue st)#} = mset (known_edges plan)"
    using known_edges_ids by (auto simp: filter_mset_eq_conv)
  then have "kahn_inv (task_ids plan) (mset (known_edges plan)) {#e \<in># mset (known_edges plan). fst e \<notin> set (kn_queue st)#} st"
    using inv fin by (simp add: loop_inv_def)
  then have "stage_num st v = top_of (stage_num st) (preds (mset (known_edges plan)) v)"
    using v unfolding kahn_inv_def by blast
  moreover have "stage_at plan = stage_num st" by (rule ext) (simp add: stage_at_num st_def)
  ultimately show ?thesis using v by (simp add: preds_dependencies)
qed

lemma stage_below:
  assumes rec: "\<And>v. v \<in> V \<Longrightarrow> s v = top_of s (P v)" and closed: "\<And>v. v \<in> V \<Longrightarrow> P v \<subseteq> V"
    and fin: "\<And>v. finite (P v)"
  shows "v \<in> V \<Longrightarrow> k \<le> s v \<Longrightarrow> \<exists>w\<in>V. s w = k"
proof (induction "s v" arbitrary: v rule: less_induct)
  case less
  show ?case
  proof (cases "k = s v")
    case False
    have "top_of s (P v) \<in> insert 0 (Suc ` s ` P v)" unfolding top_of_def using fin by (intro Max_in) auto
    with rec [OF less.prems(1)] False less.prems(2) obtain u where u: "u \<in> P v" "s v = Suc (s u)" by auto
    with closed [OF less.prems(1)] False less.prems(2) show ?thesis by (intro less.hyps [of u]) auto
  qed (use less.prems in blast)
qed

lemma stage_attained:
  assumes d: "distinct (map tk_id (tp_tasks plan))" and ac: "acyclic (set (known_edges plan))" and v: "v \<in> task_ids plan"
    and k: "k \<le> stage_at plan v"
  shows "\<exists>w\<in>task_ids plan. stage_at plan w = k"
proof (rule stage_below [where V = "task_ids plan" and s = "stage_at plan" and P = "\<lambda>w. set (dependencies plan w)", OF _ _ _ v k])
qed (use stage_recurrence [OF d ac] in \<open>auto simp: dependencies_def task_ids_def\<close>)

lemma stage_is_chain:
  assumes d: "distinct (map tk_id (tp_tasks plan))" and ac: "acyclic (set (known_edges plan))"
  shows "v \<in> task_ids plan \<Longrightarrow> stage_at plan v \<le> n \<Longrightarrow> longest_chain plan n v = stage_at plan v"
proof (induction n arbitrary: v)
  case (Suc n)
  have rec: "stage_at plan v = top_of (stage_at plan) (set (dependencies plan v))"
    by (rule stage_recurrence [OF d ac Suc.prems(1)])
  have "longest_chain plan n u = stage_at plan u" if u: "u \<in> set (dependencies plan v)" for u
  proof (rule Suc.IH)
    show "u \<in> task_ids plan" using u by (auto simp: dependencies_def task_ids_def)
    have "Suc (stage_at plan u) \<le> top_of (stage_at plan) (set (dependencies plan v))"
      unfolding top_of_def using u by (intro Max_ge) auto
    then show "stage_at plan u \<le> n" using rec Suc.prems(2) by simp
  qed
  then have "top_of (longest_chain plan n) (set (dependencies plan v)) = stage_at plan v"
    unfolding rec by (rule top_of_cong)
  then show ?case by (simp add: foldr_max_top)
qed simp

lemma stage_at_bound:
  assumes d: "distinct (map tk_id (tp_tasks plan))" and ac: "acyclic (set (known_edges plan))" and v: "v \<in> task_ids plan"
  shows "stage_at plan v \<le> length (tp_tasks plan)"
proof -
  have "{0..stage_at plan v} \<subseteq> stage_at plan ` task_ids plan"
    using stage_attained [OF d ac v] by (fastforce simp: image_iff)
  then have "Suc (stage_at plan v) \<le> card (stage_at plan ` task_ids plan)"
    using card_mono [of "stage_at plan ` task_ids plan" "{0..stage_at plan v}"] by (simp add: task_ids_def)
  also have "\<dots> \<le> card (set (tp_tasks plan))"
    unfolding task_ids_def image_image by (rule card_image_le) simp
  also have "\<dots> \<le> length (tp_tasks plan)" by (rule card_length)
  finally show ?thesis by simp
qed

text \<open>C23: In a plan with distinct task ids and no cycle of dependencies, the stage of a task is the length of the longest chain
  of dependencies that leads to it, and no stage is empty.\<close>

theorem stages_are_longest_chains:
  assumes "distinct (map tk_id (tp_tasks plan))" and "acyclic (set (known_edges plan))"
  shows "\<exists>stages. computeStages plan = Some stages \<and>
           stages = map (\<lambda>k. filter (\<lambda>t. longest_chain plan (length (tp_tasks plan)) (tk_id t) = k) (tp_tasks plan))
             [0..<length stages] \<and>
           [] \<notin> set stages"
proof (cases "tp_tasks plan = []")
  case True
  then show ?thesis by (simp add: computeStages_def)
next
  case False
  have eq: "longest_chain plan (length (tp_tasks plan)) (tk_id t) = stage_at plan (tk_id t)" if "t \<in> set (tp_tasks plan)" for t
    using that stage_at_bound [OF assms] by (intro stage_is_chain [OF assms]) (auto simp: task_ids_def)
  have "\<exists>t\<in>set (tp_tasks plan). stage_at plan (tk_id t) = k" if k: "k < stage_count plan" for k
  proof -
    obtain t where t: "t \<in> set (tp_tasks plan)" using False by (cases "tp_tasks plan") auto
    obtain v where v: "v \<in> task_ids plan" and top: "k \<le> stage_at plan v"
    proof (cases "k = 0")
      case True
      with t that show ?thesis by (auto simp: task_ids_def)
    next
      case False
      with k maxStage_attained [of 0 "stage_map plan"] obtain i s where s: "(i, s) \<in> set (stage_map plan)" "k \<le> s"
        by (fastforce simp: stage_count_def)
      then have "stage_at plan i = s" "i \<in> task_ids plan"
        using stage_map_keys [of plan] by (force simp: stage_at_def get_num_def map_ok_def)+
      with s that show ?thesis by blast
    qed
    from stage_attained [OF assms v top] show ?thesis by (auto simp: task_ids_def)
  qed
  then have "[] \<noteq> filter (\<lambda>t. stage_at plan (tk_id t) = k) (tp_tasks plan)" if "k < stage_count plan" for k
    using that by (metis (mono_tags, lifting) filter_empty_conv)
  moreover have "filter (\<lambda>t. stage_at plan (tk_id t) = k) (tp_tasks plan) =
      filter (\<lambda>t. longest_chain plan (length (tp_tasks plan)) (tk_id t) = k) (tp_tasks plan)" for k
    using eq by (auto intro: filter_cong)
  ultimately show ?thesis using False by (auto simp: computeStages_eq)
qed

definition demoStageTask :: "string \<Rightarrow> task" where
  "demoStageTask i = \<lparr>tk_id = i, tk_title = i, tk_description = '''', tk_assigneeAgentId = '''', tk_status = TS_PENDING,
     tk_predictedStartMs = 0, tk_predictedDurationMs = 0, tk_boundSpanId = '''', tk_cancelReason = None, tk_supersedes = '''',
     tk_discovered = None\<rparr>"

definition demoStagePlan :: "string list \<Rightarrow> (string \<times> string) list \<Rightarrow> task_plan" where
  "demoStagePlan ids es = \<lparr>tp_id = ''p'', tp_invocationSpanId = '''', tp_plannerAgentId = '''', tp_createdAtMs = 0, tp_summary = '''',
     tp_tasks = map demoStageTask ids, tp_edges = map (\<lambda>(u, v). \<lparr>te_fromTaskId = u, te_toTaskId = v\<rparr>) es,
     tp_revisionReason = '''', tp_revisionKind = None, tp_revisionSeverity = None, tp_revisionIndex = None,
     tp_triggerEventId = None\<rparr>"

lemma acyclic_rank: "\<forall>(u, v)\<in>r. (rank u :: nat) < rank v \<Longrightarrow> acyclic r"
proof -
  assume "\<forall>(u, v)\<in>r. rank u < rank v"
  then have "r \<subseteq> measure rank" by auto
  then show ?thesis by (meson acyclic_subset wf_acyclic wf_measure)
qed

theorem stages_are_longest_chains_witness:
  "let plan = demoStagePlan [''d'', ''a'', ''b'', ''c''] [(''a'', ''b''), (''b'', ''c''), (''a'', ''c''), (''c'', ''d''), (''x'', ''a'')]
   in computeStages plan = Some (map (\<lambda>k. filter (\<lambda>t. longest_chain plan 4 (tk_id t) = k) (tp_tasks plan)) [0..<4]) \<and>
      map_option (map (map tk_id)) (computeStages plan) = Some [[''a''], [''b''], [''c''], [''d'']]"
proof -
  define plan where
    "plan = demoStagePlan [''d'', ''a'', ''b'', ''c''] [(''a'', ''b''), (''b'', ''c''), (''a'', ''c''), (''c'', ''d''), (''x'', ''a'')]"
  have stages: "map_option (map (map tk_id)) (computeStages plan) = Some [[''a''], [''b''], [''c''], [''d'']]"
    unfolding plan_def by code_simp
  then have l: "length ss = 4" if "computeStages plan = Some ss" for ss using that by (auto dest: arg_cong [where f = length])
  have d: "distinct (map tk_id (tp_tasks plan))" and n: "length (tp_tasks plan) = 4"
    by (simp_all add: plan_def demoStagePlan_def demoStageTask_def)
  have "set (known_edges plan) \<subseteq> {(''a'', ''b''), (''b'', ''c''), (''a'', ''c''), (''c'', ''d'')}"
    by (auto simp: known_edges_eq plan_def demoStagePlan_def demoStageTask_def task_ids_def)
  then have ac: "acyclic (set (known_edges plan))"
    by (intro acyclic_rank [of _ "\<lambda>i. if i = ''a'' then 0 else if i = ''b'' then 1 else if i = ''c'' then 2 else 3"]) auto
  show ?thesis
    using stages_are_longest_chains [OF d ac, unfolded n] l stages unfolding plan_def [symmetric] Let_def by metis
qed

text \<open>With a cycle, a task of the cycle that an acyclic task feeds is not collapsed into stage 0.\<close>

theorem cycle_keeps_stage:
  "map_option (map (map tk_id)) (computeStages (demoStagePlan [''r'', ''a'', ''b''] [(''r'', ''a''), (''a'', ''b''), (''b'', ''a'')])) =
     Some [[''r'', ''b''], [''a'']]"
  by code_simp

end
