(* ===== verification/ZicatoPlan.thy ===== *)
theory ZicatoPlan
  imports Stages PlanHistory "HOL-Library.Sublist"
begin

text \<open>
  The plan figure of the zicato console, \<open>frontend/src/components/zicato/adapter.ts\<close>: the columns of the plan graph
  (\<open>topoDepths\<close>), its critical path (\<open>criticalEdgeSet\<close>), the nodes, edges and strata (\<open>buildPlan\<close>) and the
  fingerprint. The walk that reads the critical path back is a loop that need not end, so it is a
  \<open>partial_function (option)\<close>: \<open>None\<close> is a call that does not return.
\<close>

section \<open>Columns\<close>

record topo =
  td_depth :: "(string, nat) jsmap"
  td_indeg :: "(string, int) jsmap"
  td_queue :: "string list"

definition get_list :: "(string, 'a list) jsmap \<Rightarrow> string \<Rightarrow> 'a list" where
  "get_list m k = (case map_of m k of None \<Rightarrow> [] | Some xs \<Rightarrow> xs)"

definition topo_edge ::
    "(string, string list) jsmap \<times> (string, int) jsmap \<Rightarrow> task_edge \<Rightarrow> (string, string list) jsmap \<times> (string, int) jsmap" where
  "topo_edge s e =
     (let (adj, indeg) = s in
      if \<not> map_has adj (te_fromTaskId e) \<or> \<not> map_has indeg (te_toTaskId e) then (adj, indeg)
      else (AList.update (te_fromTaskId e) (get_list adj (te_fromTaskId e) @ [te_toTaskId e]) adj,
            AList.update (te_toTaskId e) (get_num indeg (te_toTaskId e) + 1) indeg))"

definition topo_graph :: "string list \<Rightarrow> task_edge list \<Rightarrow> (string, string list) jsmap \<times> (string, int) jsmap" where
  "topo_graph ids edges =
     foldl topo_edge (foldl (\<lambda>(adj, indeg) i. (AList.update i [] adj, AList.update i 0 indeg)) ([], []) ids) edges"

definition topo_init :: "string list \<Rightarrow> (string, int) jsmap \<Rightarrow> topo" where
  "topo_init ids indeg =
     foldl (\<lambda>st i. if get_num (td_indeg st) i = 0
                   then st\<lparr>td_depth := AList.update i 0 (td_depth st), td_queue := td_queue st @ [i]\<rparr> else st)
       \<lparr>td_depth = [], td_indeg = indeg, td_queue = []\<rparr> ids"

definition topo_relax :: "nat \<Rightarrow> topo \<Rightarrow> string \<Rightarrow> topo" where
  \<comment> \<open>the inner loop; \<open>(depth.get(next) ?? -1) < nd\<close>\<close>
  "topo_relax cd st nxt =
     (let nd = cd + 1;
          indegNext = get_num (td_indeg st) nxt - 1
      in \<lparr>td_depth = (case map_of (td_depth st) nxt of
                        None \<Rightarrow> AList.update nxt nd (td_depth st)
                      | Some d \<Rightarrow> if d < nd then AList.update nxt nd (td_depth st) else td_depth st),
          td_indeg = AList.update nxt indegNext (td_indeg st),
          td_queue = (if indegNext = 0 then td_queue st @ [nxt] else td_queue st)\<rparr>)"

definition topo_step :: "(string, string list) jsmap \<Rightarrow> topo \<Rightarrow> topo" where
  "topo_step adj st =
     (let cur = hd (td_queue st)
      in foldl (topo_relax (get_num (td_depth st) cur)) (st\<lparr>td_queue := tl (td_queue st)\<rparr>) (get_list adj cur))"

definition topo_kahn :: "topo \<Rightarrow> string list \<Rightarrow> kahn" where
  \<comment> \<open>the state of \<open>computeStages\<close> whose queue has the processed ids \<open>before\<close> in front\<close>
  "topo_kahn st before = \<lparr>kn_stageOf = td_depth st, kn_indeg = td_indeg st, kn_queue = before @ td_queue st, kn_head = length before\<rparr>"

lemma topo_kahn_relax: "topo_kahn (topo_relax s st n) b = relax s (topo_kahn st b) n"
  by (simp add: topo_kahn_def topo_relax_def relax_def Let_def split: option.split)

lemma topo_kahn_relax_all: "topo_kahn (foldl (topo_relax s) st ns) b = foldl (relax s) (topo_kahn st b) ns"
  by (induction ns arbitrary: st) (simp_all add: topo_kahn_relax)

lemma topo_kahn_step:
  assumes "td_queue st \<noteq> []" and "\<And>i. get_list adj i = outgoing es i"
  shows "topo_kahn (topo_step adj st) (b @ [hd (td_queue st)]) = kahn_step es (topo_kahn st b)"
proof -
  have hd: "kn_queue (topo_kahn st b) ! kn_head (topo_kahn st b) = hd (td_queue st)"
    using assms(1) by (simp add: topo_kahn_def nth_append hd_conv_nth)
  have "topo_kahn (st\<lparr>td_queue := tl (td_queue st)\<rparr>) (b @ [hd (td_queue st)]) =
      (topo_kahn st b)\<lparr>kn_head := kn_head (topo_kahn st b) + 1\<rparr>"
    using assms(1) by (simp add: topo_kahn_def)
  then show ?thesis
    unfolding topo_step_def kahn_step_def Let_def hd topo_kahn_relax_all by (simp add: assms(2)) (simp add: topo_kahn_def)
qed

definition topo_work :: "topo \<Rightarrow> nat" where
  "topo_work st = nat (work_left (topo_kahn st []))"

lemma topo_work_relax_all: "topo_work (foldl (topo_relax s) st ns) \<le> topo_work st"
  unfolding topo_work_def topo_kahn_relax_all using work_left_relax_all by (rule nat_mono)

function topo_loop :: "(string, string list) jsmap \<Rightarrow> topo \<Rightarrow> topo" where
  "topo_loop adj st = (if td_queue st \<noteq> [] then topo_loop adj (topo_step adj st) else st)"
  by pat_completeness auto
termination
proof (relation "measure (\<lambda>(adj, st). topo_work st)", goal_cases)
  case (2 adj st)
  have "topo_work (topo_step adj st) \<le> topo_work (st\<lparr>td_queue := tl (td_queue st)\<rparr>)"
    unfolding topo_step_def Let_def by (rule topo_work_relax_all)
  also have "\<dots> < topo_work st"
    using 2 by (cases "td_queue st") (simp_all add: topo_work_def topo_kahn_def work_left_def positives_def)
  finally show ?case by simp
qed simp

declare topo_loop.simps [simp del]

definition topoDepths :: "string list \<Rightarrow> task_edge list \<Rightarrow> (string, nat) jsmap" where
  "topoDepths ids edges =
     (let (adj, indeg) = topo_graph ids edges;
          st = topo_loop adj (topo_init ids indeg)
      in foldl (\<lambda>depth i. if \<not> map_has depth i then AList.update i 0 depth else depth) (td_depth st) ids)"

subsection \<open>The columns are the stages of the Gantt view\<close>

lemma alist_by_keys: "map_ok m \<Longrightarrow> m = map (\<lambda>k. (k, the (map_of m k))) (map fst m)"
proof (rule nth_equalityI)
  fix i assume ok: "map_ok m" and i: "i < length m"
  then have "map_of m (fst (m ! i)) = Some (snd (m ! i))"
    by (intro map_of_is_SomeI) (simp_all add: map_ok_def)
  with i show "m ! i = map (\<lambda>k. (k, the (map_of m k))) (map fst m) ! i" by simp
qed simp

lemma alist_eqI:
  assumes "map_ok m" "map_ok m'" "map fst m = map fst m'" "\<And>k. map_of m k = map_of m' k"
  shows "m = m'"
  by (subst alist_by_keys [OF assms(1)], subst alist_by_keys [OF assms(2)]) (simp only: assms(3,4))

lemma map_ok_fold_update: "map_ok m \<Longrightarrow> map_ok (foldl (\<lambda>m x. AList.update (f x) (g x) m) m xs)"
  by (induction xs arbitrary: m) simp_all

lemma keys_fold_update:
  "map fst m = map fst m' \<Longrightarrow>
   map fst (foldl (\<lambda>m x. AList.update (f x) (g x) m) m xs) = map fst (foldl (\<lambda>m x. AList.update (f x) (h x) m) m' xs)"
  by (induction xs arbitrary: m m') (simp_all add: update_keys)

lemma topo_edges:
  assumes "\<And>i. map_has adj i \<longleftrightarrow> i \<in> V" "\<And>i. map_has indeg i \<longleftrightarrow> i \<in> V" "map_ok indeg"
    and "foldl topo_edge (adj, indeg) edges = (adj', indeg')"
    and "es = map (\<lambda>e. (te_fromTaskId e, te_toTaskId e)) (filter (\<lambda>e. te_fromTaskId e \<in> V \<and> te_toTaskId e \<in> V) edges)"
  shows "get_list adj' i = get_list adj i @ outgoing es i \<and> get_num indeg' i = get_num indeg i + int (length (incoming es i)) \<and>
    map fst indeg' = map fst indeg \<and> map_ok indeg'"
  using assms
proof (induction edges arbitrary: adj indeg es)
  case Nil
  then show ?case by (simp add: outgoing_def incoming_def)
next
  case (Cons e edges)
  define es' where
    "es' = map (\<lambda>e. (te_fromTaskId e, te_toTaskId e)) (filter (\<lambda>e. te_fromTaskId e \<in> V \<and> te_toTaskId e \<in> V) edges)"
  show ?case
  proof (cases "te_fromTaskId e \<in> V \<and> te_toTaskId e \<in> V")
    case False
    then have "topo_edge (adj, indeg) e = (adj, indeg)" using Cons.prems(1,2) by (simp add: topo_edge_def)
    then have "foldl topo_edge (adj, indeg) edges = (adj', indeg')" using Cons.prems(4) by simp
    moreover have "es = es'" using False by (auto simp: Cons.prems(5) es'_def)
    ultimately show ?thesis using Cons.IH [OF Cons.prems(1-3) _ es'_def] by simp
  next
    case True
    define adj1 where "adj1 = AList.update (te_fromTaskId e) (get_list adj (te_fromTaskId e) @ [te_toTaskId e]) adj"
    define indeg1 where "indeg1 = AList.update (te_toTaskId e) (get_num indeg (te_toTaskId e) + 1) indeg"
    have "topo_edge (adj, indeg) e = (adj1, indeg1)"
      using Cons.prems(1,2) True by (simp add: topo_edge_def adj1_def indeg1_def)
    then have "foldl topo_edge (adj1, indeg1) edges = (adj', indeg')" using Cons.prems(4) by simp
    moreover have "map_has adj1 j \<longleftrightarrow> j \<in> V" "map_has indeg1 j \<longleftrightarrow> j \<in> V" "map_ok indeg1" for j
      using Cons.prems True by (auto simp: adj1_def indeg1_def)
    ultimately have "get_list adj' i = get_list adj1 i @ outgoing es' i \<and>
        get_num indeg' i = get_num indeg1 i + int (length (incoming es' i)) \<and> map fst indeg' = map fst indeg1 \<and> map_ok indeg'"
      using es'_def by (intro Cons.IH)
    moreover have "get_list adj1 i @ outgoing es' i = get_list adj i @ outgoing es i"
      using True by (simp add: Cons.prems(5) es'_def adj1_def get_list_def outgoing_def)
    moreover have "get_num indeg1 i + int (length (incoming es' i)) = get_num indeg i + int (length (incoming es i))"
      using True by (simp add: Cons.prems(5) es'_def indeg1_def incoming_def)
    moreover have "map fst indeg1 = map fst indeg"
      using Cons.prems(2) True by (simp add: indeg1_def keys_update_old)
    ultimately show ?thesis by simp
  qed
qed

lemma topo_nodes:
  "foldl (\<lambda>(adj, indeg) i. (AList.update i [] adj, AList.update i 0 indeg)) (m, n) ids =
     (foldl (\<lambda>a i. AList.update i [] a) m ids, foldl (\<lambda>a i. AList.update i 0 a) n ids)"
  by (induction ids arbitrary: m n) simp_all

lemma list_fold_update: "get_list (foldl (\<lambda>a i. AList.update i [] a) m ids) k = (if k \<in> set ids then [] else get_list m k)"
  by (induction ids arbitrary: m) (auto simp: get_list_def)

lemma topo_graph_spec:
  assumes "topo_graph (map tk_id (tp_tasks plan)) (tp_edges plan) = (adj, indeg)"
  shows "get_list adj i = outgoing (known_edges plan) i" and "indeg = kn_indeg (kahn_init plan)"
proof -
  define adj0 :: "(string, string list) jsmap" where
    "adj0 = foldl (\<lambda>a i. AList.update i [] a) [] (map tk_id (tp_tasks plan))"
  define indeg0 :: "(string, int) jsmap" where
    "indeg0 = foldl (\<lambda>a i. AList.update i 0 a) [] (map tk_id (tp_tasks plan))"
  have keys: "map_has adj0 i \<longleftrightarrow> i \<in> task_ids plan" "map_has indeg0 i \<longleftrightarrow> i \<in> task_ids plan" for i
    using has_fold_update [of "\<lambda>x. x" "\<lambda>_. []" "[]" "map tk_id (tp_tasks plan)"]
      has_fold_update [of "\<lambda>x. x" "\<lambda>_. 0" "[]" "map tk_id (tp_tasks plan)"]
    by (simp_all add: adj0_def indeg0_def task_ids_def)
  have ok: "map_ok indeg0" unfolding indeg0_def by (rule map_ok_fold_update) simp
  have fold: "foldl topo_edge (adj0, indeg0) (tp_edges plan) = (adj, indeg)"
    using assms by (simp add: topo_graph_def topo_nodes adj0_def indeg0_def)
  note spec = topo_edges [OF keys ok fold known_edges_eq]
  have zero: "get_list adj0 i = []" "get_num indeg0 i = 0" for i
    using num_fold_update [of "\<lambda>x. x" "\<lambda>_. 0 :: int" "[]" "map tk_id (tp_tasks plan)" i]
    by (simp_all add: adj0_def indeg0_def list_fold_update) (simp_all add: get_list_def get_num_def)
  from spec zero show "get_list adj i = outgoing (known_edges plan) i" by simp
  define kind where "kind = foldl (\<lambda>m t. AList.update (tk_id t) (int (length (incoming (known_edges plan) (tk_id t)))) m) [] (tp_tasks plan)"
  have kn: "kn_indeg (kahn_init plan) = kind"
    unfolding kahn_init_def Let_def kind_def by (simp add: rest_fold(1))
  have "map fst indeg = map fst kind"
  proof -
    have "map fst indeg = map fst indeg0" using spec by blast
    also have "indeg0 = foldl (\<lambda>a t. AList.update (tk_id t) 0 a) [] (tp_tasks plan)"
      by (simp add: indeg0_def foldl_map)
    also have "map fst \<dots> = map fst kind" unfolding kind_def by (rule keys_fold_update) simp
    finally show ?thesis .
  qed
  moreover have "map_of indeg k = map_of kind k" for k
  proof -
    have iff: "map_has indeg k \<longleftrightarrow> map_has kind k" using calculation by (simp add: map_has_iff flip: set_map)
    have "get_num kind k = (if k \<in> task_ids plan then int (length (incoming (known_edges plan) k)) else 0)"
      using num_fold_update [of tk_id "\<lambda>i. int (length (incoming (known_edges plan) i))" "[]" "tp_tasks plan" k]
      by (simp add: kind_def task_ids_def) (simp add: get_num_def)
    moreover have "incoming (known_edges plan) k = []" if "k \<notin> task_ids plan"
      using that by (auto simp: incoming_def filter_empty_conv dest: known_edges_ids)
    ultimately have "get_num indeg k = get_num kind k" using spec zero by auto
    with iff show ?thesis by (auto simp: map_has_def get_num_def split: option.splits)
  qed
  moreover have "map_ok kind" unfolding kind_def by (rule map_ok_fold_update) simp
  ultimately show "indeg = kn_indeg (kahn_init plan)" unfolding kn using spec by (intro alist_eqI) auto
qed

lemma topo_kahn_init:
  assumes "topo_graph (map tk_id (tp_tasks plan)) (tp_edges plan) = (adj, indeg)"
  shows "topo_kahn (topo_init (map tk_id (tp_tasks plan)) indeg) [] = kahn_init plan"
proof -
  have run: "topo_kahn (foldl (\<lambda>st i. if get_num (td_indeg st) i = 0
          then st\<lparr>td_depth := AList.update i 0 (td_depth st), td_queue := td_queue st @ [i]\<rparr> else st) st (map tk_id ts)) [] =
      foldl (\<lambda>st t. if get_num (kn_indeg st) (tk_id t) = 0
          then st\<lparr>kn_stageOf := AList.update (tk_id t) 0 (kn_stageOf st), kn_queue := kn_queue st @ [tk_id t]\<rparr> else st)
        (topo_kahn st []) ts" for st and ts :: "task list"
    by (induction ts arbitrary: st) (simp_all add: topo_kahn_def)
  have indeg: "indeg = foldl (\<lambda>m t. AList.update (tk_id t) (int (length (incoming (known_edges plan) (tk_id t)))) m) [] (tp_tasks plan)"
    unfolding topo_graph_spec(2) [OF assms] kahn_init_def Let_def by (simp add: rest_fold(1))
  show ?thesis
    unfolding topo_init_def run unfolding kahn_init_def Let_def indeg by (simp add: topo_kahn_def)
qed

lemma topo_kahn_loop:
  assumes "\<And>i. get_list adj i = outgoing es i"
  shows "td_depth (topo_loop adj st) = kn_stageOf (kahn_loop es (topo_kahn st b))"
  using assms
proof (induction adj st arbitrary: b rule: topo_loop.induct)
  case (1 adj st)
  show ?case
  proof (cases "td_queue st = []")
    case True
    then show ?thesis by (subst topo_loop.simps, subst kahn_loop.simps) (simp add: topo_kahn_def)
  next
    case False
    then have "kn_head (topo_kahn st b) < length (kn_queue (topo_kahn st b))" by (simp add: topo_kahn_def)
    then have "kahn_loop es (topo_kahn st b) = kahn_loop es (kahn_step es (topo_kahn st b))"
      by (subst kahn_loop.simps) simp
    then show ?thesis
      using "1.IH" [OF False "1.prems", of "b @ [hd (td_queue st)]"] topo_kahn_step [OF False "1.prems"] False
      by (subst topo_loop.simps) simp
  qed
qed

lemma fill_zero:
  "map_of (foldl (\<lambda>depth i. if \<not> map_has depth i then AList.update i 0 depth else depth) m (map f xs)) k =
   (case map_of m k of None \<Rightarrow> if k \<in> f ` set xs then Some 0 else None | Some d \<Rightarrow> Some d)"
  by (induction xs arbitrary: m) (auto simp: map_has_def split: option.splits)

lemma fill_missing:
  "map_of (foldl (\<lambda>m t. AList.update (f t) 0 m) m xs) k = (if k \<in> f ` set xs then Some 0 else map_of m k)"
  by (induction xs arbitrary: m) auto

text \<open>The depth is the stage that \<open>computeStages\<close> gives the task, whatever the plan: repeated ids, unknown endpoints and cycles
  included.\<close>

lemma columns_are_stages:
  "map_of (topoDepths (map tk_id (tp_tasks plan)) (tp_edges plan)) = map_of (stage_map plan)"
proof (rule ext)
  fix k
  obtain adj indeg where g: "topo_graph (map tk_id (tp_tasks plan)) (tp_edges plan) = (adj, indeg)" by fastforce
  define m where "m = kn_stageOf (kahn_loop (known_edges plan) (kahn_init plan))"
  have "td_depth (topo_loop adj (topo_init (map tk_id (tp_tasks plan)) indeg)) = m"
    using topo_kahn_loop [OF topo_graph_spec(1) [OF g], of "topo_init (map tk_id (tp_tasks plan)) indeg" "[]"]
    by (simp add: m_def topo_kahn_init [OF g])
  then have "map_of (topoDepths (map tk_id (tp_tasks plan)) (tp_edges plan)) k =
      (case map_of m k of None \<Rightarrow> if k \<in> tk_id ` set (tp_tasks plan) then Some 0 else None | Some d \<Rightarrow> Some d)"
    unfolding topoDepths_def g by (simp add: fill_zero)
  also have "\<dots> = map_of (stage_map plan) k"
    unfolding stage_map_def unresolved_tasks_def Let_def fill_missing m_def [symmetric]
    by (auto simp: map_has_def split: option.splits)
  finally show "map_of (topoDepths (map tk_id (tp_tasks plan)) (tp_edges plan)) k = map_of (stage_map plan) k" .
qed

section \<open>The critical path\<close>

definition arrow :: string where
  \<comment> \<open>the one character U+2192\<close>
  "arrow = [CHR 0x1A]"

definition crit_key :: "string \<Rightarrow> string \<Rightarrow> string" where
  "crit_key u v = u @ arrow @ v"

type_synonym crit_best = "(string, nat \<times> string option) jsmap"

definition crit_graph :: "string list \<Rightarrow> task_edge list \<Rightarrow> (string, string list) jsmap" where
  "crit_graph ids edges =
     foldl (\<lambda>adj e. if map_has adj (te_fromTaskId e)
                    then AList.update (te_fromTaskId e) (get_list adj (te_fromTaskId e) @ [te_toTaskId e]) adj else adj)
       (foldl (\<lambda>adj i. AList.update i [] adj) [] ids) edges"

definition crit_relax :: "string \<Rightarrow> nat \<Rightarrow> crit_best \<Rightarrow> string \<Rightarrow> crit_best" where
  "crit_relax i len best nxt =
     (let cand = len + 1 in
      case map_of best nxt of
        None \<Rightarrow> best
      | Some nb \<Rightarrow> if fst nb < cand then AList.update nxt (cand, Some i) best else best)"

definition crit_visit ::
    "(string, string list) jsmap \<Rightarrow> crit_best \<times> string option \<times> int \<Rightarrow> string \<Rightarrow> crit_best \<times> string option \<times> int" where
  \<comment> \<open>\<open>cur\<close> is read before the inner loop, which replaces map entries and never writes into \<open>cur\<close>\<close>
  "crit_visit adj s i =
     (let (best, endId, endLen) = s;
          len = fst (the (map_of best i));
          best' = foldl (crit_relax i len) best (get_list adj i)
      in if int len > endLen then (best', Some i, int len) else (best', endId, endLen))"

definition crit_scan :: "string list \<Rightarrow> task_edge list \<Rightarrow> crit_best \<times> string option \<times> int" where
  "crit_scan ids edges =
     (let adj = crit_graph ids edges;
          order = sort_key (get_num (topoDepths ids edges)) ids
      in foldl (crit_visit adj) (foldl (\<lambda>b i. AList.update i (0, None) b) [] order, None, -1) order)"

partial_function (option) crit_walk :: "crit_best \<Rightarrow> string option \<Rightarrow> string list \<Rightarrow> string list option" where
  \<comment> \<open>\<open>while (walk)\<close>: a null or empty \<open>walk\<close> ends the loop; the result is the set \<open>out\<close>\<close>
  "crit_walk best walk out =
     (if walk = None \<or> walk = Some '''' then Some out
      else (case map_of best (the walk) of
              None \<Rightarrow> Some out
            | Some node \<Rightarrow>
                (case snd node of
                   None \<Rightarrow> Some out
                 | Some prev \<Rightarrow> crit_walk best (Some prev) (set_add (crit_key prev (the walk)) out))))"

declare crit_walk.simps [code]

definition criticalEdgeSet :: "string list \<Rightarrow> task_edge list \<Rightarrow> string list option" where
  "criticalEdgeSet ids edges =
     (let (best, endId, endLen) = crit_scan ids edges in crit_walk best endId [])"

subsection \<open>On an acyclic plan it is a longest chain\<close>

lemma crit_graph_spec:
  "i \<in> set ids \<Longrightarrow> get_list (crit_graph ids edges) i = map te_toTaskId (filter (\<lambda>e. te_fromTaskId e = i) edges)"
proof -
  have "get_list (foldl (\<lambda>adj e. if map_has adj (te_fromTaskId e)
          then AList.update (te_fromTaskId e) (get_list adj (te_fromTaskId e) @ [te_toTaskId e]) adj else adj) adj edges) i =
      get_list adj i @ map te_toTaskId (filter (\<lambda>e. te_fromTaskId e = i) edges)"
    if "map_has adj i" for adj
    using that by (induction edges arbitrary: adj) (auto simp: get_list_def)
  moreover assume "i \<in> set ids"
  moreover have "map_has (foldl (\<lambda>adj i. AList.update i ([] :: string list) adj) [] ids) i \<longleftrightarrow> i \<in> set ids"
    using has_fold_update [of "\<lambda>x. x" "\<lambda>_. [] :: string list" "[]" ids i] by simp
  moreover have "get_list (foldl (\<lambda>adj i. AList.update i ([] :: string list) adj) [] ids) i = []"
    using list_fold_update [of "[] :: (string, string list) jsmap" ids i] by (simp add: get_list_def)
  ultimately show ?thesis unfolding crit_graph_def by simp
qed

definition best_len :: "crit_best \<Rightarrow> string \<Rightarrow> nat" where
  "best_len best v = fst (the (map_of best v))"

definition best_prev :: "crit_best \<Rightarrow> string \<Rightarrow> string option" where
  "best_prev best v = snd (the (map_of best v))"

definition best_ok :: "string set \<Rightarrow> (string \<times> string) set \<Rightarrow> crit_best \<Rightarrow> bool" where
  \<comment> \<open>\<open>D\<close> holds the edges relaxed so far\<close>
  "best_ok V D best \<longleftrightarrow>
     (\<forall>v. map_has best v \<longleftrightarrow> v \<in> V) \<and>
     (\<forall>v\<in>V. best_len best v = top_of (best_len best) {u. (u, v) \<in> D}) \<and>
     (\<forall>v\<in>V. case best_prev best v of None \<Rightarrow> best_len best v = 0
                | Some u \<Rightarrow> (u, v) \<in> D \<and> best_len best v = Suc (best_len best u))"

lemma crit_relax_len:
  "map_has best n \<Longrightarrow> best_len (crit_relax i l best n) = (best_len best)(n := max (Suc l) (best_len best n))"
  by (auto simp: crit_relax_def best_len_def map_has_def fun_eq_iff max_def split: option.split)

lemma crit_relax_prev:
  "map_has best n \<Longrightarrow> best_prev (crit_relax i l best n) =
     (if best_len best n < Suc l then (best_prev best)(n := Some i) else best_prev best)"
  by (auto simp: crit_relax_def best_prev_def best_len_def map_has_def fun_eq_iff split: option.split)

lemma crit_relax_has: "map_has (crit_relax i l best n) v = map_has best v"
  by (auto simp: crit_relax_def map_has_def Let_def split: option.split)

lemma crit_relax_unknown: "\<not> map_has best n \<Longrightarrow> crit_relax i l best n = best"
  by (simp add: crit_relax_def map_has_def split: option.split)

lemma best_ok_relax:
  assumes ok: "best_ok V D best" and V: "i \<in> V" "n \<in> V" and new: "i \<noteq> n" "n \<notin> fst ` D" and fin: "finite D"
  shows "best_ok V (insert (i, n) D) (crit_relax i (best_len best i) best n)"
    and "v \<noteq> n \<Longrightarrow> best_len (crit_relax i (best_len best i) best n) v = best_len best v"
proof -
  define best' where "best' = crit_relax i (best_len best i) best n"
  have n: "map_has best n" using ok V(2) unfolding best_ok_def by blast
  note len = crit_relax_len [OF n, of i "best_len best i", folded best'_def]
  note prev = crit_relax_prev [OF n, of i "best_len best i", folded best'_def]
  have "best_len best' v = top_of (best_len best') {u. (u, v) \<in> insert (i, n) D}" if v: "v \<in> V" for v
  proof -
    have old: "best_len best v = top_of (best_len best) {u. (u, v) \<in> D}" using ok v unfolding best_ok_def by blast
    have same: "top_of (best_len best') {u. (u, v) \<in> D} = top_of (best_len best) {u. (u, v) \<in> D}" for v
      using new(2) by (intro top_of_cong) (force simp: len)
    have fin': "finite {u. (u, v) \<in> D}"
      using fin by (rule finite_surj [where f = fst]) force
    show ?thesis
    proof (cases "v = n")
      case True
      then have "{u. (u, v) \<in> insert (i, n) D} = insert i {u. (u, v) \<in> D}" by auto
      then have "top_of (best_len best') {u. (u, v) \<in> insert (i, n) D} = max (Suc (best_len best' i)) (top_of (best_len best) {u. (u, v) \<in> D})"
        by (simp only: top_of_insert [OF fin'] same)
      with True new(1) old show ?thesis by (simp add: len)
    next
      case False
      then have "{u. (u, v) \<in> insert (i, n) D} = {u. (u, v) \<in> D}" by auto
      with False old show ?thesis by (simp only: same) (simp add: len)
    qed
  qed
  moreover have "case best_prev best' v of None \<Rightarrow> best_len best' v = 0
      | Some u \<Rightarrow> (u, v) \<in> insert (i, n) D \<and> best_len best' v = Suc (best_len best' u)" if v: "v \<in> V" for v
  proof -
    have old: "case best_prev best v of None \<Rightarrow> best_len best v = 0
        | Some u \<Rightarrow> (u, v) \<in> D \<and> best_len best v = Suc (best_len best u)" using ok v unfolding best_ok_def by blast
    have "u \<noteq> n" if "(u, w) \<in> D" for u w using new(2) that by force
    with old new(1) show ?thesis by (auto simp: len prev max_def split: option.splits)
  qed
  ultimately show "best_ok V (insert (i, n) D) (crit_relax i (best_len best i) best n)"
    using ok unfolding best_ok_def best'_def [symmetric] by (simp add: best'_def crit_relax_has)
  show "best_len (crit_relax i (best_len best i) best n) v = best_len best v" if "v \<noteq> n"
    using that by (simp add: len best'_def [symmetric])
qed

lemma best_ok_relax_all:
  assumes "best_ok V D best" "i \<in> V" "\<forall>n\<in>set ns \<inter> V. n \<noteq> i \<and> n \<notin> fst ` D" "finite D" "l = best_len best i"
  shows "best_ok V (D \<union> Pair i ` (set ns \<inter> V)) (foldl (crit_relax i l) best ns) \<and>
    (\<forall>v. v \<notin> set ns \<longrightarrow> best_len (foldl (crit_relax i l) best ns) v = best_len best v)"
  using assms
proof (induction ns arbitrary: best D)
  case (Cons n ns)
  show ?case
  proof (cases "n \<in> V")
    case True
    define best' where "best' = crit_relax i l best n"
    have new: "i \<noteq> n" "n \<notin> fst ` D" using Cons.prems(3) True by auto
    note step = best_ok_relax [OF Cons.prems(1,2) True new Cons.prems(4), folded Cons.prems(5), folded best'_def]
    have "best_ok V (insert (i, n) D \<union> Pair i ` (set ns \<inter> V)) (foldl (crit_relax i l) best' ns) \<and>
      (\<forall>v. v \<notin> set ns \<longrightarrow> best_len (foldl (crit_relax i l) best' ns) v = best_len best' v)"
      using step(1) step(2) [OF new(1)] Cons.prems by (intro Cons.IH) auto
    moreover have "insert (i, n) D \<union> Pair i ` (set ns \<inter> V) = D \<union> Pair i ` (set (n # ns) \<inter> V)" using True by auto
    ultimately show ?thesis using step(2) by (auto simp: best'_def)
  next
    case False
    then have "\<not> map_has best n" using Cons.prems(1) by (simp add: best_ok_def)
    then have "crit_relax i l best n = best" by (rule crit_relax_unknown)
    with Cons False show ?thesis by simp
  qed
qed simp

definition scan_ok :: "string set \<Rightarrow> (string \<times> string) set \<Rightarrow> (string \<Rightarrow> nat) \<Rightarrow> string list \<Rightarrow> crit_best \<times> string option \<times> int \<Rightarrow> bool" where
  "scan_ok V E d seen s \<longleftrightarrow>
     (case s of (best, endId, endLen) \<Rightarrow>
        best_ok V {e \<in> E. fst e \<in> set seen} best \<and>
        (case endId of None \<Rightarrow> seen = [] \<and> endLen = -1
         | Some w \<Rightarrow> w \<in> set seen \<and> endLen = int (d w) \<and> (\<forall>v\<in>set seen. d v \<le> d w)))"

lemma best_len_depth:
  assumes ok: "best_ok V {e \<in> E. fst e \<in> T} best" and E: "E \<subseteq> V \<times> V"
    and d: "\<And>v. v \<in> V \<Longrightarrow> d v = top_of d {u. (u, v) \<in> E}" and less: "\<And>u v. (u, v) \<in> E \<Longrightarrow> d u < d v"
  shows "v \<in> V \<Longrightarrow> (\<And>u. u \<in> V \<Longrightarrow> d u < d v \<Longrightarrow> u \<in> T) \<Longrightarrow> best_len best v = d v"
proof (induction "d v" arbitrary: v rule: less_induct)
  case less
  have preds: "{u. (u, v) \<in> {e \<in> E. fst e \<in> T}} = {u. (u, v) \<in> E}"
    using E assms(4) less.prems(2) by fastforce
  have "best_len best u = d u" if "(u, v) \<in> E" for u
    using that E assms(4) [OF that] less.prems(2) by (intro less.hyps) auto
  then have "top_of (best_len best) {u. (u, v) \<in> E} = top_of d {u. (u, v) \<in> E}" by (intro top_of_cong) simp
  moreover have "best_len best v = top_of (best_len best) {u. (u, v) \<in> {e \<in> E. fst e \<in> T}}"
    using ok less.prems(1) unfolding best_ok_def by blast
  ultimately show ?case using d [OF less.prems(1)] by (simp only: preds)
qed

lemma scan_ok_visit:
  assumes ok: "scan_ok V E d seen s" and E: "E \<subseteq> V \<times> V" "finite E" and i: "i \<in> V" "i \<notin> set seen"
    and d: "\<And>v. v \<in> V \<Longrightarrow> d v = top_of d {u. (u, v) \<in> E}" and less: "\<And>u v. (u, v) \<in> E \<Longrightarrow> d u < d v"
    and before: "\<And>u. u \<in> V \<Longrightarrow> d u < d i \<Longrightarrow> u \<in> set seen" and after: "\<And>u. u \<in> set seen \<Longrightarrow> d u \<le> d i"
    and adj: "set (get_list adj i) \<inter> V = {n. (i, n) \<in> E}"
  shows "scan_ok V E d (seen @ [i]) (crit_visit adj s i)"
proof -
  obtain best endId endLen where s: "s = (best, endId, endLen)" by (cases s)
  define best' where "best' = foldl (crit_relax i (best_len best i)) best (get_list adj i)"
  have bok: "best_ok V {e \<in> E. fst e \<in> set seen} best" using ok by (simp add: scan_ok_def s)
  have len: "best_len best i = d i"
    by (rule best_len_depth [OF bok E(1) d less i(1) before])
  have "\<forall>n\<in>set (get_list adj i) \<inter> V. n \<noteq> i \<and> n \<notin> fst ` {e \<in> E. fst e \<in> set seen}"
    unfolding adj using less after by fastforce
  with bok i(1) E(2) have "best_ok V ({e \<in> E. fst e \<in> set seen} \<union> Pair i ` (set (get_list adj i) \<inter> V)) best'"
    unfolding best'_def by (intro best_ok_relax_all [THEN conjunct1]) auto
  moreover have "{e \<in> E. fst e \<in> set seen} \<union> Pair i ` {n. (i, n) \<in> E} = {e \<in> E. fst e \<in> set (seen @ [i])}" by auto
  ultimately have "best_ok V {e \<in> E. fst e \<in> set (seen @ [i])} best'" unfolding adj by simp
  moreover have "crit_visit adj s i = (if int (d i) > endLen then (best', Some i, int (d i)) else (best', endId, endLen))"
    unfolding len [symmetric] by (simp add: crit_visit_def s best'_def best_len_def Let_def)
  ultimately show ?thesis using ok after by (auto simp: scan_ok_def s split: option.splits)
qed

lemma scan_ok_all:
  assumes E: "E \<subseteq> V \<times> V" "finite E"
    and d: "\<And>v. v \<in> V \<Longrightarrow> d v = top_of d {u. (u, v) \<in> E}" and less: "\<And>u v. (u, v) \<in> E \<Longrightarrow> d u < d v"
    and adj: "\<And>i. i \<in> V \<Longrightarrow> set (get_list adj i) \<inter> V = {n. (i, n) \<in> E}"
  shows "scan_ok V E d seen s \<Longrightarrow> set (seen @ xs) = V \<Longrightarrow> distinct (seen @ xs) \<Longrightarrow> sorted (map d (seen @ xs)) \<Longrightarrow>
    scan_ok V E d (seen @ xs) (foldl (crit_visit adj) s xs)"
proof (induction xs arbitrary: seen s)
  case (Cons i xs)
  have "scan_ok V E d (seen @ [i]) (crit_visit adj s i)"
  proof (rule scan_ok_visit [OF Cons.prems(1) E _ _ d less])
    show "i \<in> V" "i \<notin> set seen" "set (get_list adj i) \<inter> V = {n. (i, n) \<in> E}" using Cons.prems adj by auto
    show "u \<in> set seen" if "u \<in> V" "d u < d i" for u
      using that Cons.prems(2,4) by (fastforce simp: sorted_append)
    show "d u \<le> d i" if "u \<in> set seen" for u
      using that Cons.prems(4) by (auto simp: sorted_append)
  qed
  from Cons.IH [OF this] Cons.prems show ?case by simp
qed simp

lemma map2_keys_snoc: "p \<noteq> [] \<Longrightarrow> map2 f (p @ [v]) (tl (p @ [v])) = map2 f p (tl p) @ [f (last p) v]"
proof (induction p)
  case (Cons x p)
  then show ?case by (cases p) auto
qed simp

lemma crit_walk_path:
  assumes ok: "best_ok V E best" and E: "E \<subseteq> V \<times> V" and len: "\<And>v. v \<in> V \<Longrightarrow> best_len best v = d v" and ne: "'''' \<notin> V"
  shows "v \<in> V \<Longrightarrow> d v = k \<Longrightarrow>
    \<exists>p out'. crit_walk best (Some v) out = Some out' \<and> p \<noteq> [] \<and> last p = v \<and> map d p = [0..<Suc k] \<and> set p \<subseteq> V \<and>
      successively (\<lambda>u v. (u, v) \<in> E) p \<and> set out' = set out \<union> set (map2 crit_key p (tl p))"
proof (induction k arbitrary: v out)
  case 0
  have "best_prev best v = None"
    using ok 0 len [of v] unfolding best_ok_def by (auto split: option.splits)
  moreover have "map_has best v" using ok 0(1) unfolding best_ok_def by blast
  moreover from this obtain b where "map_of best v = Some b" unfolding map_has_def by blast
  ultimately have "crit_walk best (Some v) out = Some out"
    by (subst crit_walk.simps) (simp add: best_prev_def)
  with 0 show ?case by (intro exI [of _ "[v]"] exI [of _ out]) simp
next
  case (Suc k)
  have node: "case best_prev best v of None \<Rightarrow> best_len best v = 0
      | Some u \<Rightarrow> (u, v) \<in> E \<and> best_len best v = Suc (best_len best u)"
    using ok Suc.prems(1) unfolding best_ok_def by blast
  then obtain u where prev: "best_prev best v = Some u"
    using len [OF Suc.prems(1)] Suc.prems(2) by (cases "best_prev best v") simp_all
  with node have e: "(u, v) \<in> E" and "best_len best v = Suc (best_len best u)" by simp_all
  then have u: "u \<in> V" "d u = k" using E Suc.prems len by auto
  from Suc.IH [OF u, of "set_add (crit_key u v) out"] obtain p out' where p: "crit_walk best (Some u) (set_add (crit_key u v) out) = Some out'" "p \<noteq> []"
      "last p = u" "map d p = [0..<Suc k]" "set p \<subseteq> V" "successively (\<lambda>u v. (u, v) \<in> E) p"
      "set out' = set (set_add (crit_key u v) out) \<union> set (map2 crit_key p (tl p))" by blast
  have "map_has best v" using ok Suc.prems(1) unfolding best_ok_def by blast
  then obtain b where b: "map_of best v = Some b" "snd b = Some u"
    using prev unfolding map_has_def best_prev_def by force
  have "v \<noteq> ''''" using ne Suc.prems by blast
  then have "crit_walk best (Some v) out = Some out'"
    using b p(1) by (subst crit_walk.simps) simp
  moreover have "map d (p @ [v]) = [0..<Suc (Suc k)]" using p(4) Suc.prems(2) by simp
  moreover have "successively (\<lambda>u v. (u, v) \<in> E) (p @ [v])" using p(2,3,6) e by (simp add: successively_append_iff)
  moreover have "set out' = set out \<union> set (map2 crit_key (p @ [v]) (tl (p @ [v])))"
    unfolding map2_keys_snoc [OF p(2)] p(3,7) by auto
  ultimately show ?case using p(5) Suc.prems(1) by (intro exI [of _ "p @ [v]"] exI [of _ out']) auto
qed

lemma criticalEdgeSet_scan:
  assumes dist: "distinct (map tk_id (tp_tasks plan))" and ac: "acyclic (set (known_edges plan))"
  shows "\<exists>best endId endLen. crit_scan (map tk_id (tp_tasks plan)) (tp_edges plan) = (best, endId, endLen) \<and>
    best_ok (task_ids plan) (set (known_edges plan)) best \<and>
    (\<forall>v\<in>task_ids plan. best_len best v = stage_at plan v) \<and>
    (case endId of None \<Rightarrow> tp_tasks plan = []
     | Some w \<Rightarrow> w \<in> task_ids plan \<and> (\<forall>v\<in>task_ids plan. stage_at plan v \<le> stage_at plan w))"
proof -
  define ids where "ids = map tk_id (tp_tasks plan)"
  define V where "V = task_ids plan"
  define E where "E = set (known_edges plan)"
  define d where "d = stage_at plan"
  define adj where "adj = crit_graph ids (tp_edges plan)"
  define order where "order = sort_key d ids"
  define start :: crit_best where "start = foldl (\<lambda>b i. AList.update i (0, None) b) [] order"
  have V: "set order = V" by (simp add: order_def ids_def V_def task_ids_def)
  have depth: "get_num (topoDepths ids (tp_edges plan)) = d"
    unfolding d_def stage_at_def get_num_def ids_def columns_are_stages by (rule refl)
  have E: "E \<subseteq> V \<times> V" "finite E" using known_edges_ids by (auto simp: E_def V_def)
  have preds: "{u. (u, v) \<in> E} = set (dependencies plan v)" if "v \<in> V" for v
    using preds_dependencies [OF that [unfolded V_def]] unfolding E_def preds_def by force
  have rec: "d v = top_of d {u. (u, v) \<in> E}" if "v \<in> V" for v
    using stage_recurrence [OF dist ac that [unfolded V_def]] preds [OF that] by (simp add: d_def)
  have less: "d u < d v" if "(u, v) \<in> E" for u v
  proof -
    have "v \<in> V" using E that by blast
    moreover have "Suc (d u) \<le> top_of d {u. (u, v) \<in> E}"
      unfolding top_of_def using that preds [OF calculation] by (intro Max_ge) auto
    ultimately show ?thesis using rec by simp
  qed
  have adj: "set (get_list adj i) \<inter> V = {n. (i, n) \<in> E}" if "i \<in> V" for i
    using that by (auto simp: adj_def crit_graph_spec ids_def V_def E_def task_ids_def known_edges_eq image_iff)
  have start_has: "map_has start v \<longleftrightarrow> v \<in> V" for v
    using has_fold_update [of "\<lambda>x. x" "\<lambda>_. (0, None)" "[]" order v] V by (simp add: start_def)
  have start_of: "map_of start v = Some (0, None)" if "v \<in> V" for v
  proof -
    have "map_of (foldl (\<lambda>b i. AList.update i x b) m xs) v = (if v \<in> set xs then Some x else map_of m v)"
      for x and m :: crit_best and xs
      by (induction xs arbitrary: m) auto
    with that V show ?thesis by (simp add: start_def)
  qed
  have "best_ok V {} start" using start_has start_of by (simp add: best_ok_def best_len_def best_prev_def)
  then have "scan_ok V E d [] (start, None, -1)" by (simp add: scan_ok_def)
  moreover have "set ([] @ order) = V" "distinct ([] @ order)" "sorted (map d ([] @ order))"
    using V dist by (simp_all add: order_def ids_def)
  ultimately have "scan_ok V E d ([] @ order) (foldl (crit_visit adj) (start, None, -1) order)"
    by - (rule scan_ok_all [OF E rec less adj]; assumption)
  moreover have scan: "crit_scan ids (tp_edges plan) = foldl (crit_visit adj) (start, None, -1) order"
    by (simp add: crit_scan_def depth adj_def order_def start_def Let_def)
  ultimately have fin: "scan_ok V E d order (crit_scan ids (tp_edges plan))" by simp
  obtain best endId endLen where s: "crit_scan ids (tp_edges plan) = (best, endId, endLen)" by (cases "crit_scan ids (tp_edges plan)")
  have all: "{e \<in> E. fst e \<in> set order} = E" using E V by auto
  have ok: "best_ok V E best" using fin unfolding s scan_ok_def all by simp
  have "best_len best v = d v" if "v \<in> V" for v
    by (rule best_len_depth [where T = V and E = E, OF _ E(1) rec less that]) (use ok all V in auto)
  moreover have "case endId of None \<Rightarrow> tp_tasks plan = [] | Some w \<Rightarrow> w \<in> V \<and> (\<forall>v\<in>V. d v \<le> d w)"
    using fin V unfolding s scan_ok_def by (auto simp: V_def task_ids_def split: option.splits)
  ultimately show ?thesis using s ok unfolding ids_def V_def E_def d_def by blast
qed

lemma stage_count_attained:
  assumes "u \<in> task_ids plan"
  shows "\<exists>v\<in>task_ids plan. stage_count plan = Suc (stage_at plan v)"
proof -
  consider "stage_count plan = Suc 0" | i s where "(i, s) \<in> set (stage_map plan)" "stage_count plan = Suc s"
    using maxStage_attained [of 0 "stage_map plan"] by (fastforce simp: stage_count_def)
  then show ?thesis
  proof cases
    case 1
    with stage_at_less [of plan u] assms show ?thesis by (intro bexI [of _ u]) simp_all
  next
    case 2
    then have "stage_at plan i = s" "i \<in> task_ids plan"
      using stage_map_keys [of plan] by (force simp: stage_at_def get_num_def map_ok_def)+
    with 2 show ?thesis by blast
  qed
qed

text \<open>C25: On a plan with distinct non-empty task ids and no cycle of dependencies, the search for the critical path returns, and
  the edges it marks are those of a chain of dependencies with one task in every stage, so that no chain is longer.\<close>

theorem critical_path_spans_stages:
  assumes "distinct (map tk_id (tp_tasks plan))" and "acyclic (set (known_edges plan))" and "'''' \<notin> task_ids plan"
  shows "\<exists>p out. criticalEdgeSet (map tk_id (tp_tasks plan)) (tp_edges plan) = Some out \<and>
    (case computeStages plan of None \<Rightarrow> False | Some stages \<Rightarrow> list_all2 (\<lambda>i ts. i \<in> tk_id ` set ts) p stages) \<and>
    successively (\<lambda>u v. (u, v) \<in> set (known_edges plan)) p \<and>
    set out = set (map2 crit_key p (tl p))"
proof -
  obtain best endId endLen where s: "crit_scan (map tk_id (tp_tasks plan)) (tp_edges plan) = (best, endId, endLen)"
    and ok: "best_ok (task_ids plan) (set (known_edges plan)) best"
    and len: "\<And>v. v \<in> task_ids plan \<Longrightarrow> best_len best v = stage_at plan v"
    and fin: "case endId of None \<Rightarrow> tp_tasks plan = []
     | Some w \<Rightarrow> w \<in> task_ids plan \<and> (\<forall>v\<in>task_ids plan. stage_at plan v \<le> stage_at plan w)"
    using criticalEdgeSet_scan [OF assms(1,2)] by blast
  have E: "set (known_edges plan) \<subseteq> task_ids plan \<times> task_ids plan" using known_edges_ids by auto
  show ?thesis
  proof (cases endId)
    case None
    with fin s have "criticalEdgeSet (map tk_id (tp_tasks plan)) (tp_edges plan) = Some []" "computeStages plan = Some []"
      by (simp_all add: criticalEdgeSet_def computeStages_def crit_walk.simps)
    then show ?thesis by (intro exI [of _ "[]"]) simp
  next
    case (Some w)
    with fin have w: "w \<in> task_ids plan" "\<And>v. v \<in> task_ids plan \<Longrightarrow> stage_at plan v \<le> stage_at plan w" by auto
    obtain p out where p: "crit_walk best (Some w) [] = Some out" "map (stage_at plan) p = [0..<Suc (stage_at plan w)]"
        "set p \<subseteq> task_ids plan" "successively (\<lambda>u v. (u, v) \<in> set (known_edges plan)) p"
        "set out = set [] \<union> set (map2 crit_key p (tl p))"
      using crit_walk_path [OF ok E len assms(3) w(1) refl, of "[]"] by blast
    have count: "stage_count plan = Suc (stage_at plan w)"
    proof -
      obtain v where "v \<in> task_ids plan" "stage_count plan = Suc (stage_at plan v)"
        using stage_count_attained [OF w(1)] by blast
      with w(2) [of v] stage_at_less [of plan w] show ?thesis by simp
    qed
    have "tp_tasks plan \<noteq> []" using w(1) by (auto simp: task_ids_def)
    then have stages: "computeStages plan = Some (map (\<lambda>k. filter (\<lambda>t. stage_at plan (tk_id t) = k) (tp_tasks plan)) [0..<Suc (stage_at plan w)])"
      by (simp only: computeStages_eq count if_False)
    have n: "length p = Suc (stage_at plan w)" using arg_cong [OF p(2), of length] by simp
    have "list_all2 (\<lambda>i ts. i \<in> tk_id ` set ts) p
        (map (\<lambda>k. filter (\<lambda>t. stage_at plan (tk_id t) = k) (tp_tasks plan)) [0..<Suc (stage_at plan w)])"
      unfolding list_all2_conv_all_nth
    proof (intro conjI allI impI)
      fix k assume k: "k < length p"
      then have "stage_at plan (p ! k) = k"
        using nth_map [OF k, of "stage_at plan"] n unfolding p(2) by (simp del: upt_Suc)
      moreover have "p ! k \<in> task_ids plan" using k p(3) by (meson nth_mem subsetD)
      ultimately show "p ! k \<in> tk_id ` set (map (\<lambda>k. filter (\<lambda>t. stage_at plan (tk_id t) = k) (tp_tasks plan)) [0..<Suc (stage_at plan w)] ! k)"
        using k n by (auto simp: task_ids_def simp del: upt_Suc)
    qed (simp add: n)
    moreover have "criticalEdgeSet (map tk_id (tp_tasks plan)) (tp_edges plan) = Some out"
      using p(1) by (simp add: criticalEdgeSet_def s Some)
    ultimately show ?thesis using p(4,5) by (auto simp: stages simp del: upt_Suc)
  qed
qed

theorem critical_path_spans_stages_witness:
  "criticalEdgeSet [''a'', ''b'', ''c'', ''d''] (map (\<lambda>(u, v). \<lparr>te_fromTaskId = u, te_toTaskId = v\<rparr>)
       [(''a'', ''c''), (''a'', ''b''), (''b'', ''c''), (''c'', ''x'')]) =
     Some [crit_key ''b'' ''c'', crit_key ''a'' ''b''] \<and>
   (\<exists>p. (case computeStages (demoStagePlan [''a'', ''b'', ''c'', ''d''] [(''a'', ''c''), (''a'', ''b''), (''b'', ''c''), (''c'', ''x'')]) of
           None \<Rightarrow> False | Some stages \<Rightarrow> list_all2 (\<lambda>i ts. i \<in> tk_id ` set ts) p stages) \<and>
      {crit_key ''b'' ''c'', crit_key ''a'' ''b''} = set (map2 crit_key p (tl p)))"
proof -
  define plan where
    "plan = demoStagePlan [''a'', ''b'', ''c'', ''d''] [(''a'', ''c''), (''a'', ''b''), (''b'', ''c''), (''c'', ''x'')]"
  have ids: "map tk_id (tp_tasks plan) = [''a'', ''b'', ''c'', ''d'']"
    and edges: "tp_edges plan = map (\<lambda>(u, v). \<lparr>te_fromTaskId = u, te_toTaskId = v\<rparr>)
       [(''a'', ''c''), (''a'', ''b''), (''b'', ''c''), (''c'', ''x'')]"
    by (simp_all add: plan_def demoStagePlan_def demoStageTask_def)
  have run: "criticalEdgeSet [''a'', ''b'', ''c'', ''d''] (map (\<lambda>(u, v). \<lparr>te_fromTaskId = u, te_toTaskId = v\<rparr>)
       [(''a'', ''c''), (''a'', ''b''), (''b'', ''c''), (''c'', ''x'')]) =
     Some [crit_key ''b'' ''c'', crit_key ''a'' ''b'']"
    by code_simp
  have "set (known_edges plan) \<subseteq> {(''a'', ''c''), (''a'', ''b''), (''b'', ''c'')}"
    by (auto simp: known_edges_eq plan_def demoStagePlan_def demoStageTask_def task_ids_def)
  then have ac: "acyclic (set (known_edges plan))"
    by (intro acyclic_rank [of _ "\<lambda>i. if i = ''a'' then 0 else if i = ''b'' then 1 else 2"]) auto
  have d: "distinct (map tk_id (tp_tasks plan))" unfolding ids by simp
  have "task_ids plan = set (map tk_id (tp_tasks plan))" by (simp add: task_ids_def)
  then have ne: "'''' \<notin> task_ids plan" unfolding ids by simp
  show ?thesis
    using critical_path_spans_stages [OF d ac ne, unfolded ids edges run] run unfolding plan_def by auto
qed

section \<open>The plan figure\<close>

datatype node_state = ND_done | ND_running | ND_pending | ND_added | ND_ghost

record z_plan_node =
  zn_tid :: string
  zn_title :: string
  zn_x :: int
  zn_y :: int
  zn_st :: node_state

record z_plan_edge =
  zpe_from :: string
  zpe_to :: string
  zpe_crit :: bool

record z_stratum =
  zs_v :: int
  zs_has :: "string list"
  zs_added :: "string list"
  zs_seam :: string
  zs_live :: bool

record z_plan =
  zp_nodes :: "z_plan_node list"
  zp_edges :: "z_plan_edge list"
  zp_strata :: "z_stratum list"
  zp_rem :: "nat list"
  zp_planId :: "string option"

definition EMPTY_PLAN :: z_plan where
  "EMPTY_PLAN = \<lparr>zp_nodes = [], zp_edges = [], zp_strata = [], zp_rem = [], zp_planId = None\<rparr>"

definition DAG_LX :: "int list" where
  "DAG_LX = [80, 300, 520, 740]"

definition DAG_LY :: "nat \<Rightarrow> int" where
  "DAG_LY v = 92 + int v * 44"

definition js_includes :: "string \<Rightarrow> string \<Rightarrow> bool" where
  "js_includes s t = sublist t s"

definition dashed :: "string \<Rightarrow> string" where
  \<comment> \<open>\<open>replace(/_/g, '-')\<close>\<close>
  "dashed s = map (\<lambda>c. if c = CHR ''_'' then CHR ''-'' else c) s"

definition seamLabel :: "string \<Rightarrow> string" where
  "seamLabel kind =
     (let k = to_lower kind in
      if k = '''' then ''''
      else if js_includes k ''off_topic'' \<or> js_includes k ''off-topic'' then ''goal-drift''
      else if js_includes k ''scope'' then ''scope-creep''
      else if js_includes k ''tool'' then ''tool-misuse''
      else if js_includes k ''user_steer'' \<or> js_includes k ''user-steer'' then ''user-steer''
      else dashed k)"

definition nodeState :: "task \<Rightarrow> bool \<Rightarrow> (string, supersession_link) jsmap \<Rightarrow> node_state" where
  "nodeState t isSuperseded supersedes =
     (if isSuperseded \<or> map_has supersedes (tk_id t) then ND_ghost
      else (case tk_status t of
              TS_COMPLETED \<Rightarrow> ND_done
            | TS_RUNNING \<Rightarrow> ND_running
            | TS_FAILED \<Rightarrow> ND_ghost
            | TS_CANCELLED \<Rightarrow> ND_ghost
            | _ \<Rightarrow> ND_pending))"

definition isTerminalTaskStatus :: "task_status \<Rightarrow> bool" where
  "isTerminalTaskStatus s = (s = TS_COMPLETED \<or> s = TS_FAILED \<or> s = TS_CANCELLED)"

definition place_node ::
    "(string, nat) jsmap \<Rightarrow> (string, cumulative_task_meta) jsmap \<Rightarrow> (string, supersession_link) jsmap
     \<Rightarrow> z_plan_node list \<times> (nat \<Rightarrow> nat) \<Rightarrow> task \<Rightarrow> z_plan_node list \<times> (nat \<Rightarrow> nat)" where
  \<comment> \<open>one step of \<open>tasks.map\<close>; \<open>perCol\<close> counts the rows used in each column\<close>
  "place_node depth meta supersedes s t =
     (let (nodes, perCol) = s;
          d = min (length DAG_LX - 1) (get_num depth (tk_id t));
          rowInCol = perCol d
      in (nodes @ [\<lparr>zn_tid = tk_id t, zn_title = or_str (tk_title t) (tk_id t), zn_x = DAG_LX ! d, zn_y = DAG_LY rowInCol,
                    zn_st = nodeState t (case map_of meta (tk_id t) of None \<Rightarrow> False | Some m \<Rightarrow> cm_isSuperseded m) supersedes\<rparr>],
          perCol(d := rowInCol + 1)))"

definition js_set :: "'a list \<Rightarrow> 'a list" where
  "js_set xs = foldl (\<lambda>s x. set_add x s) [] xs"

definition add_stratum ::
    "int \<Rightarrow> z_stratum list \<times> nat list \<times> string list \<Rightarrow> plan_revision_record \<Rightarrow> z_stratum list \<times> nat list \<times> string list" where
  "add_stratum latestRev s r =
     (let (strata, rem, prevIds) = s;
          ids = js_set (map tk_id (tp_tasks (ph_plan r)))
      in (strata @ [\<lparr>zs_v = ph_revision r, zs_has = ids, zs_added = filter (\<lambda>i. i \<notin> set prevIds) ids,
                     zs_seam = seamLabel (ph_kind r), zs_live = (ph_revision r = latestRev)\<rparr>],
          rem @ [length (filter (\<lambda>t. \<not> isTerminalTaskStatus (tk_status t)) (tp_tasks (ph_plan r)))],
          ids))"

definition tag_node :: "z_stratum \<Rightarrow> z_plan_node \<Rightarrow> z_plan_node" where
  "tag_node stratum n =
     (if zn_tid n \<in> set (zs_added stratum) \<and> zn_st n \<noteq> ND_done then n\<lparr>zn_st := ND_added\<rparr>
      else if zn_tid n \<notin> set (zs_has stratum) then n\<lparr>zn_st := ND_ghost\<rparr> else n)"

definition plan_nodes :: "cumulative_plan \<Rightarrow> (string, supersession_link) jsmap \<Rightarrow> z_plan_node list" where
  "plan_nodes c supersedes =
     fst (foldl (place_node (topoDepths (map tk_id (tp_tasks c)) (tp_edges c)) (cp_taskRevisionMeta c) supersedes)
            ([], \<lambda>d. 0) (tp_tasks c))"

definition plan_strata :: "plan_revision_record list \<Rightarrow> z_stratum list \<times> nat list" where
  \<comment> \<open>newest first, and the tasks that remain, oldest first\<close>
  "plan_strata history =
     (let latestRev = foldl (\<lambda>m r. max m (ph_revision r)) 0 history;
          (strata, rem, prevIds) = foldl (add_stratum latestRev) ([], [], []) (sort_key ph_revision history)
      in (rev strata, rem))"

definition buildPlan ::
    "plan_revision_record list \<Rightarrow> cumulative_plan option \<Rightarrow> (string, supersession_link) jsmap \<Rightarrow> int option \<Rightarrow> z_plan option" where
  "buildPlan history cumulative supersedes selectedRevision =
     (case cumulative of
        None \<Rightarrow> Some EMPTY_PLAN
      | Some c \<Rightarrow>
          if tp_id c = '''' then Some EMPTY_PLAN
          else (case criticalEdgeSet (map tk_id (tp_tasks c)) (tp_edges c) of
                  None \<Rightarrow> None
                | Some critEdges \<Rightarrow>
                    (let nodes = plan_nodes c supersedes;
                         edges = map (\<lambda>e. \<lparr>zpe_from = te_fromTaskId e, zpe_to = te_toTaskId e,
                                           zpe_crit = (crit_key (te_fromTaskId e) (te_toTaskId e) \<in> set critEdges)\<rparr>) (tp_edges c);
                         (strata, rem) = plan_strata history;
                         nodes' = (case selectedRevision of
                                     None \<Rightarrow> nodes
                                   | Some v \<Rightarrow> (case find (\<lambda>s. zs_v s = v) strata of
                                                 None \<Rightarrow> nodes
                                               | Some stratum \<Rightarrow> map (tag_node stratum) nodes))
                     in Some \<lparr>zp_nodes = nodes', zp_edges = edges, zp_strata = strata, zp_rem = rem, zp_planId = Some (tp_id c)\<rparr>)))"

subsection \<open>A reversed dependency\<close>

lemma crit_walk_closed:
  assumes "\<And>w. w \<in> W \<Longrightarrow> w \<noteq> '''' \<and> (\<exists>len u. map_of best w = Some (len, Some u) \<and> u \<in> W)" and "w \<in> W"
  shows "crit_walk best (Some w) out = None"
proof -
  have "b = best \<longrightarrow> walk \<notin> Some ` W" if "crit_walk b walk out = Some y" for b walk out y
  proof (rule crit_walk.raw_induct [OF _ that], intro impI notI)
    fix cw b walk out y
    assume IH: "\<And>b walk out y. cw b walk out = Some y \<Longrightarrow> b = best \<longrightarrow> walk \<notin> Some ` W"
      and run: "(if walk = None \<or> walk = Some '''' then Some out
        else case map_of b (the walk) of None \<Rightarrow> Some out
             | Some node \<Rightarrow> (case snd node of None \<Rightarrow> Some out
                 | Some prev \<Rightarrow> cw b (Some prev) (set_add (crit_key prev (the walk)) out))) = Some y"
      and b: "b = best" and "walk \<in> Some ` W"
    then obtain w where w: "w \<in> W" "walk = Some w" by blast
    with assms(1) obtain len u where u: "map_of best w = Some (len, Some u)" "u \<in> W" and "w \<noteq> ''''" by blast
    with run b w have "cw b (Some u) (set_add (crit_key u w) out) = Some y" by simp
    from IH [OF this] b u(2) show False by blast
  qed
  then show ?thesis using assms(2) by (cases "crit_walk best (Some w) out") blast+
qed

definition reversedRevision :: "int \<Rightarrow> string \<Rightarrow> string \<Rightarrow> plan_revision_record" where
  "reversedRevision n u v =
     \<lparr>ph_revision = n, ph_plan = demoStagePlan [''a'', ''b''] [(u, v)], ph_reason = '''', ph_kind = '''',
      ph_triggerEventId = '''', ph_emittedAtMs = 0\<rparr>"

text \<open>Two revisions of a plan that only reverse the dependency between two tasks make the plan figure hang: each revision
  on its own has a critical path, but the cumulative plan holds both edges, and the search for its critical path never returns.\<close>

theorem reversed_dependency_hangs:
  "let h = hi_append (hi_append emptyHistory (reversedRevision 0 ''a'' ''b'')) (reversedRevision 1 ''b'' ''a'')
   in map (\<lambda>r. criticalEdgeSet (map tk_id (tp_tasks (ph_plan r))) (tp_edges (ph_plan r))) (hi_historyFor h ''p'') =
        [Some [crit_key ''a'' ''b''], Some [crit_key ''b'' ''a'']] \<and>
      (\<exists>c. hi_cumulativePlan h ''p'' = Some c \<and>
           buildPlan (hi_historyFor h ''p'') (Some c) (hi_supersedesMap h ''p'') None = None)"
proof -
  define h where "h = hi_append (hi_append emptyHistory (reversedRevision 0 ''a'' ''b'')) (reversedRevision 1 ''b'' ''a'')"
  have each: "map (\<lambda>r. criticalEdgeSet (map tk_id (tp_tasks (ph_plan r))) (tp_edges (ph_plan r))) (hi_historyFor h ''p'') =
        [Some [crit_key ''a'' ''b''], Some [crit_key ''b'' ''a'']]"
    unfolding h_def by code_simp
  have "map_option (\<lambda>c. (tp_id c, map tk_id (tp_tasks c), crit_scan (map tk_id (tp_tasks c)) (tp_edges c))) (hi_cumulativePlan h ''p'') =
      Some (''p'', [''a'', ''b''], [(''a'', 2, Some ''b''), (''b'', 1, Some ''a'')], Some ''b'', 1)"
    unfolding h_def by code_simp
  then obtain c where c: "hi_cumulativePlan h ''p'' = Some c" "tp_id c = ''p''"
      "crit_scan (map tk_id (tp_tasks c)) (tp_edges c) = ([(''a'', 2, Some ''b''), (''b'', 1, Some ''a'')], Some ''b'', 1)"
    by auto
  have "crit_walk [(''a'', 2, Some ''b''), (''b'', 1, Some ''a'')] (Some ''b'') [] = None"
    by (rule crit_walk_closed [of "{''a'', ''b''}"]) auto
  then have "buildPlan (hi_historyFor h ''p'') (Some c) (hi_supersedesMap h ''p'') None = None"
    using c by (simp add: buildPlan_def criticalEdgeSet_def)
  with each c(1) show ?thesis unfolding h_def [symmetric] Let_def by blast
qed
subsection \<open>No two nodes overlap\<close>

definition placed :: "(nat \<Rightarrow> nat) \<Rightarrow> z_plan_node \<Rightarrow> bool" where
  "placed perCol n \<longleftrightarrow> (\<exists>d<length DAG_LX. \<exists>r<perCol d. zn_x n = DAG_LX ! d \<and> zn_y n = DAG_LY r)"

lemma columns_differ: "d < length DAG_LX \<Longrightarrow> e < length DAG_LX \<Longrightarrow> DAG_LX ! d = DAG_LX ! e \<longleftrightarrow> d = e"
  by (rule nth_eq_iff_index_eq) (simp_all add: DAG_LX_def)

lemma place_node_step:
  "\<exists>n d. place_node depth meta supers (nodes, perCol) t = (nodes @ [n], perCol(d := perCol d + 1)) \<and>
     d < length DAG_LX \<and> zn_x n = DAG_LX ! d \<and> zn_y n = DAG_LY (perCol d)"
proof -
  have "min (length DAG_LX - 1) (get_num depth (tk_id t)) < length DAG_LX" by (simp add: DAG_LX_def)
  then show ?thesis by (auto simp: place_node_def Let_def)
qed

lemma place_nodes_distinct:
  "distinct (map (\<lambda>n. (zn_x n, zn_y n)) nodes) \<Longrightarrow> \<forall>n\<in>set nodes. placed perCol n \<Longrightarrow>
   distinct (map (\<lambda>n. (zn_x n, zn_y n)) (fst (foldl (place_node depth meta supers) (nodes, perCol) ts)))"
proof (induction ts arbitrary: nodes perCol)
  case (Cons t ts)
  obtain n d where n: "place_node depth meta supers (nodes, perCol) t = (nodes @ [n], perCol(d := perCol d + 1))"
      "d < length DAG_LX" "zn_x n = DAG_LX ! d" "zn_y n = DAG_LY (perCol d)"
    using place_node_step by blast
  have fresh: "(zn_x m, zn_y m) \<noteq> (zn_x n, zn_y n)" if "m \<in> set nodes" for m
  proof
    have "placed perCol m" using Cons.prems(2) that by blast
    then obtain e r where m: "e < length DAG_LX" "r < perCol e" "zn_x m = DAG_LX ! e" "zn_y m = DAG_LY r"
      unfolding placed_def by blast
    assume "(zn_x m, zn_y m) = (zn_x n, zn_y n)"
    then have "e = d" "r = perCol d" using m n columns_differ [of e d] by (simp_all add: DAG_LY_def)
    with m(2) show False by simp
  qed
  have "placed (perCol(d := perCol d + 1)) m" if "placed perCol m" for m
  proof -
    from that obtain e r where m: "e < length DAG_LX" "r < perCol e" "zn_x m = DAG_LX ! e" "zn_y m = DAG_LY r"
      unfolding placed_def by blast
    then have "r < (perCol(d := perCol d + 1)) e" by auto
    with m show ?thesis unfolding placed_def by blast
  qed
  moreover have "placed (perCol(d := perCol d + 1)) n" using n by (auto simp: placed_def)
  ultimately have "\<forall>m\<in>set (nodes @ [n]). placed (perCol(d := perCol d + 1)) m" using Cons.prems(2) by auto
  moreover have "distinct (map (\<lambda>n. (zn_x n, zn_y n)) (nodes @ [n]))"
    using Cons.prems(1) fresh [symmetric] by (simp del: prod.inject) blast
  ultimately show ?case unfolding foldl_Cons n(1) using Cons.IH by blast
qed simp

lemma tag_node_place: "zn_x (tag_node s n) = zn_x n" "zn_y (tag_node s n) = zn_y n" "zn_tid (tag_node s n) = zn_tid n"
  by (simp_all add: tag_node_def)

lemma place_nodes_tids: "map zn_tid (fst (foldl (place_node depth meta supers) (nodes, perCol) ts)) = map zn_tid nodes @ map tk_id ts"
  by (induction ts arbitrary: nodes perCol) (simp_all add: place_node_def Let_def)

lemma place_nodes_columns:
  "map zn_x (fst (foldl (place_node depth meta supers) (nodes, perCol) ts)) =
     map zn_x nodes @ map (\<lambda>t. DAG_LX ! min 3 (get_num depth (tk_id t))) ts"
proof (induction ts arbitrary: nodes perCol)
  case (Cons t ts)
  have "length DAG_LX - 1 = 3" by (simp add: DAG_LX_def)
  with Cons show ?case by (simp add: place_node_def Let_def)
qed simp

lemma plan_nodes_columns:
  "map zn_x (plan_nodes c supersedes) = map (\<lambda>t. DAG_LX ! min 3 (stage_at (task_plan.truncate c) (tk_id t))) (tp_tasks c)"
  using columns_are_stages [of "task_plan.truncate c"]
  by (simp add: plan_nodes_def place_nodes_columns stage_at_def get_num_def task_plan.truncate_def)

lemma strata_fold:
  "fst (foldl (add_stratum v) (strata, rem, prv) rs) = strata @ fst (foldl (add_stratum v) ([], [], prv) rs) \<and>
   fst (snd (foldl (add_stratum v) (strata, rem, prv) rs)) = rem @ fst (snd (foldl (add_stratum v) ([], [], prv) rs))"
proof (induction rs arbitrary: strata rem prv)
  case (Cons r rs)
  obtain st rm p where s: "add_stratum v ([], [], prv) r = ([st], [rm], p)" by (simp add: add_stratum_def Let_def)
  then have "add_stratum v (strata, rem, prv) r = (strata @ [st], rem @ [rm], p)" by (auto simp: add_stratum_def Let_def)
  with s show ?case using Cons.IH [of "strata @ [st]" "rem @ [rm]" p] Cons.IH [of "[st]" "[rm]" p] by simp
qed simp

lemma strata_revisions:
  "map zs_v (fst (foldl (add_stratum v) ([], [], prv) rs)) = map ph_revision rs \<and>
   length (fst (snd (foldl (add_stratum v) ([], [], prv) rs))) = length rs"
proof (induction rs arbitrary: prv)
  case (Cons r rs)
  obtain st rm p where s: "add_stratum v ([], [], prv) r = ([st], [rm], p)" "zs_v st = ph_revision r"
    by (simp add: add_stratum_def Let_def)
  then show ?case using Cons [of p] strata_fold [of v "[st]" "[rm]" p rs] by simp
qed simp

lemma strata_newest_first:
  "map zs_v (fst (plan_strata history)) = rev (map ph_revision (sort_key ph_revision history)) \<and>
   length (snd (plan_strata history)) = length history"
  using strata_revisions [of "foldl (\<lambda>m r. max m (ph_revision r)) 0 history" "[]" "sort_key ph_revision history"]
  by (simp add: plan_strata_def Let_def split_beta rev_map [symmetric])

text \<open>C26: Whenever the plan figure is built, it has one node per task of the cumulative plan, in its order, in the column of the
  stage that the Gantt view gives the task (the last column holds every later stage), no two nodes at the same place, one edge
  per dependency, and one stratum per revision of the history, newest first.\<close>

theorem plan_figure_layout:
  "case buildPlan history (Some c) supersedes selected of
     None \<Rightarrow> tp_id c \<noteq> '''' \<and> criticalEdgeSet (map tk_id (tp_tasks c)) (tp_edges c) = None
   | Some p \<Rightarrow>
       if tp_id c = '''' then p = EMPTY_PLAN
       else map zn_tid (zp_nodes p) = map tk_id (tp_tasks c) \<and>
            map zn_x (zp_nodes p) = map (\<lambda>t. DAG_LX ! min 3 (stage_at (task_plan.truncate c) (tk_id t))) (tp_tasks c) \<and>
            distinct (map (\<lambda>n. (zn_x n, zn_y n)) (zp_nodes p)) \<and>
            map (\<lambda>e. (zpe_from e, zpe_to e)) (zp_edges p) = map (\<lambda>e. (te_fromTaskId e, te_toTaskId e)) (tp_edges c) \<and>
            map zs_v (zp_strata p) = rev (map ph_revision (sort_key ph_revision history)) \<and>
            length (zp_rem p) = length history"
proof (cases "tp_id c = '''' \<or> criticalEdgeSet (map tk_id (tp_tasks c)) (tp_edges c) = None")
  case True
  then show ?thesis by (auto simp: buildPlan_def split: option.split)
next
  case False
  then obtain crit where crit: "criticalEdgeSet (map tk_id (tp_tasks c)) (tp_edges c) = Some crit" by auto

  have nodes: "map zn_tid (plan_nodes c supersedes) = map tk_id (tp_tasks c)"
    "distinct (map (\<lambda>n. (zn_x n, zn_y n)) (plan_nodes c supersedes))"
    using place_nodes_distinct [of "[]" "\<lambda>d. 0"] by (simp_all add: plan_nodes_def place_nodes_tids)
  from False show ?thesis
    using nodes plan_nodes_columns [of c supersedes] strata_newest_first [of history]
    by (simp add: buildPlan_def crit Let_def split_beta comp_def tag_node_place split: option.split)
qed

section \<open>The fingerprint\<close>

record z_fingerprint =
  zf_fx :: int
  zf_fy :: int
  zf_px :: int
  zf_d :: rat
  zf_corrAt :: "rat option"
  zf_grow :: bool
  zf_T :: rat

definition scope_grows :: "nat list \<Rightarrow> bool" where
  "scope_grows sizes =
     (list_all (\<lambda>i. i = 0 \<or> sizes ! i \<ge> sizes ! (i - 1)) [0..<length sizes] \<and> sizes ! (length sizes - 1) > sizes ! 0)"

definition deriveFingerprint :: "plan_revision_record list \<Rightarrow> cumulative_plan option \<Rightarrow> rat \<Rightarrow> z_fingerprint" where
  \<comment> \<open>the parameter \<open>status\<close> is not used\<close>
  "deriveFingerprint history cumulative T =
     (let revisions = max 0 (int (length history) - 1);
          tasks = (case cumulative of None \<Rightarrow> [] | Some c \<Rightarrow> tp_tasks c);
          total = length tasks;
          completed = length (filter (\<lambda>t. tk_status t = TS_COMPLETED) tasks);
          completion = (if total > 0 then of_nat completed / of_nat total else 0);
          d = max (1 / 100) (2 / 100 + 6 / 100 * completion - 18 / 1000 * of_int (min revisions 4));
          ordered = sort_key ph_revision history;
          grow = (if length history \<ge> 2 then scope_grows (map (\<lambda>r. length (tp_tasks (ph_plan r))) ordered) else False);
          corrAt = (if revisions = 1
                    then (case find (\<lambda>r. ph_revision r > 0) ordered of
                            None \<Rightarrow> None
                          | Some steer \<Rightarrow>
                              (let tSec = of_int (tp_createdAtMs (ph_plan steer)) / 1000
                               in Some (if T > 0 then max 0 (min T tSec) else tSec)))
                    else None)
      in \<lparr>zf_fx = 2, zf_fy = 3, zf_px = 0, zf_d = d, zf_corrAt = corrAt, zf_grow = grow, zf_T = (if T > 0 then T else 30)\<rparr>)"

text \<open>The fingerprint is drawable for every history: its damping is between 0.01 and 0.08, its duration is positive, and the
  correction, shown only after exactly one revision, lies within the session when the session has a length.\<close>

theorem fingerprint_bounds:
  "zf_d (deriveFingerprint history c T) \<in> {1 / 100..8 / 100} \<and> 0 < zf_T (deriveFingerprint history c T) \<and>
   (case zf_corrAt (deriveFingerprint history c T) of
      None \<Rightarrow> True
    | Some t \<Rightarrow> length history = 2 \<and> (if 0 < T then t \<in> {0..zf_T (deriveFingerprint history c T)} else True))"
proof -
  define tasks where "tasks = (case c of None \<Rightarrow> [] | Some c \<Rightarrow> tp_tasks c)"
  define completion :: rat where
    "completion = (if length tasks > 0 then of_nat (length (filter (\<lambda>t. tk_status t = TS_COMPLETED) tasks)) / of_nat (length tasks) else 0)"
  have "completion \<le> 1" by (auto simp: completion_def divide_le_eq_1 length_filter_le)
  moreover define m :: rat where "m = of_int (min (max 0 (int (length history) - 1)) 4)"
  moreover have "0 \<le> m" by (simp add: m_def)
  ultimately have "2 / 100 + 6 / 100 * completion - 18 / 1000 * m \<le> 8 / 100" by linarith
  then have "zf_d (deriveFingerprint history c T) \<in> {1 / 100..8 / 100}"
    unfolding deriveFingerprint_def Let_def tasks_def [symmetric] completion_def [symmetric] m_def [symmetric]
    by (simp del: divide_const_simps)
  moreover have "0 < zf_T (deriveFingerprint history c T)" by (simp add: deriveFingerprint_def Let_def)
  moreover have "case zf_corrAt (deriveFingerprint history c T) of
      None \<Rightarrow> True
    | Some t \<Rightarrow> length history = 2 \<and> (if 0 < T then t \<in> {0..zf_T (deriveFingerprint history c T)} else True)"
  proof (cases "length history = 2")
    case True
    then show ?thesis
      by (cases "find (\<lambda>r. ph_revision r > 0) (sort_key ph_revision history)") (simp_all add: deriveFingerprint_def Let_def)
  next
    case False
    then have "max 0 (int (length history) - 1) \<noteq> 1" by auto
    then show ?thesis by (simp add: deriveFingerprint_def Let_def)
  qed
  ultimately show ?thesis by blast
qed

end
