(* ===== verification/Zicato.thy ===== *)
theory Zicato
  imports ZicatoPlan StoreInvariant Interventions Thinking
begin

text \<open>
  The figures of the zicato console other than the plan, \<open>frontend/src/components/zicato/adapter.ts\<close>: lanes, bars, arrows,
  corrections, drift and intervention marks, the context curve, the status of the session, and the bundle that
  \<open>useZicatoSession\<close> composes from them for one reading of the clock. Times are milliseconds in the store and seconds in
  the figures. The actor ids and labels are those of \<open>frontend/src/theme/agentColors.ts\<close>.
\<close>

unbundle bit_operations_syntax

section \<open>Actors and agent colours\<close>

definition SYNTHETIC_ACTOR_IDS :: "string list" where
  "SYNTHETIC_ACTOR_IDS = [USER_ACTOR_ID, GOLDFIVE_ACTOR_ID]"

definition isSyntheticActor :: "string \<Rightarrow> bool" where
  "isSyntheticActor agentId = (agentId \<in> set SYNTHETIC_ACTOR_IDS)"

definition actorDisplayLabel :: "string \<Rightarrow> string option" where
  "actorDisplayLabel agentId =
     (if agentId = USER_ACTOR_ID then Some ''user''
      else if agentId = GOLDFIVE_ACTOR_ID then Some ''goldfive'' else None)"

definition fnv1a_step :: "32 word \<Rightarrow> char \<Rightarrow> 32 word" where
  \<comment> \<open>\<open>h ^= str.charCodeAt(i); h = Math.imul(h, 0x01000193)\<close>\<close>
  "fnv1a_step h c = (h XOR of_nat (of_char c)) * 0x01000193"

definition fnv1a :: "string \<Rightarrow> nat" where
  "fnv1a str = unat (foldl fnv1a_step 0x811c9dc5 str)"

definition USER_COLOR :: string where
  "USER_COLOR = ''#d0bcff''"

definition GOLDFIVE_COLOR :: string where
  "GOLDFIVE_COLOR = ''#80deea''"

definition colorForAgent :: "string list \<Rightarrow> string \<Rightarrow> string" where
  \<comment> \<open>\<open>palette\<close> is the table of the colour library\<close>
  "colorForAgent palette agentId =
     (if agentId = USER_ACTOR_ID then USER_COLOR
      else if agentId = GOLDFIVE_ACTOR_ID then GOLDFIVE_COLOR
      else palette ! (fnv1a agentId mod length palette))"

section \<open>The input of the figures\<close>

datatype z_kind_token =
  ZK_invocation | ZK_llm_call | ZK_tool_call | ZK_user_message | ZK_agent_message | ZK_transfer | ZK_wait_for_human
  | ZK_planned | ZK_custom

datatype z_status = ZS_pending | ZS_running | ZS_completed | ZS_failed | ZS_cancelled | ZS_awaiting | ZS_planned

datatype z_gf_class =
  GF_judge_on_task | GF_judge_warning | GF_judge_critical | GF_judge_neutral | GF_refine | GF_plan | GF_reflective

datatype z_session_status = Z_live | Z_done | Z_failed

datatype z_actor = ZA_user | ZA_goldfive

record z_agent =
  za_id :: string
  za_label :: string
  za_ordinal :: nat
  za_synthetic :: "z_actor option"

record z_span =
  zb_id :: string
  zb_agent :: string
  zb_kind :: z_kind_token
  zb_status :: z_status
  zb_gf :: "z_gf_class option"
  zb_t0 :: rat
  zb_t1 :: rat
  zb_label :: string
  zb_hasReasoning :: bool
  zb_reasoning :: "string option"

record z_transfer =
  zt_t :: rat
  zt_from :: string
  zt_to :: string

record z_delegation =
  zd_from :: string
  zd_to :: string
  zd_t0 :: rat
  zd_t1 :: rat
  zd_tokens :: "int option"
  zd_verdict :: "string option"

datatype z_arrow_kind = AK_transfer | AK_delegation | AK_return

record z_edge =
  ze_t :: rat
  ze_from :: string
  ze_to :: string
  ze_kind :: z_arrow_kind

record z_steer =
  zst_t :: rat
  zst_from :: string
  zst_to :: string
  zst_taskId :: string
  zst_kind :: string
  zst_severity :: string
  zst_reason :: string
  zst_revision :: int

record z_session =
  zz_id :: string
  zz_goal :: string
  zz_status :: z_session_status
  zz_T :: rat
  zz_now :: rat
  zz_agents :: "z_agent list"
  zz_spans :: "z_span list"
  zz_transfers :: "z_transfer list"
  zz_delegation :: "z_delegation option"
  zz_edges :: "z_edge list"
  zz_steers :: "z_steer list"
  zz_judges :: "(string, (rat \<times> int) list) jsmap"
  zz_ticks :: "(string, (rat \<times> string) list) jsmap"
  zz_ladder :: "(rat \<times> nat) list"
  zz_ctx :: "(rat \<times> rat) list"
  zz_plan :: z_plan
  zz_fp :: z_fingerprint
  zz_empty :: bool

definition DEFAULT_FP :: z_fingerprint where
  "DEFAULT_FP = \<lparr>zf_fx = 2, zf_fy = 3, zf_px = 0, zf_d = 5 / 100, zf_corrAt = None, zf_grow = False, zf_T = 30\<rparr>"

definition EMPTY_SESSION :: z_session where
  "EMPTY_SESSION = \<lparr>zz_id = '''', zz_goal = '''', zz_status = Z_live, zz_T = 30, zz_now = 0, zz_agents = [], zz_spans = [],
     zz_transfers = [], zz_delegation = None, zz_edges = [], zz_steers = [], zz_judges = [], zz_ticks = [], zz_ladder = [],
     zz_ctx = [], zz_plan = EMPTY_PLAN, zz_fp = DEFAULT_FP, zz_empty = True\<rparr>"

definition seconds :: "int \<Rightarrow> rat" where
  "seconds ms = rat_of_int ms / 1000"

section \<open>Tokens\<close>

fun toKindToken :: "span_kind \<Rightarrow> z_kind_token" where
  "toKindToken INVOCATION = ZK_invocation"
| "toKindToken LLM_CALL = ZK_llm_call"
| "toKindToken TOOL_CALL = ZK_tool_call"
| "toKindToken USER_MESSAGE = ZK_user_message"
| "toKindToken AGENT_MESSAGE = ZK_agent_message"
| "toKindToken TRANSFER = ZK_transfer"
| "toKindToken WAIT_FOR_HUMAN = ZK_wait_for_human"
| "toKindToken PLANNED = ZK_planned"
| "toKindToken CUSTOM = ZK_custom"

fun toStatusToken :: "span_status \<Rightarrow> z_status" where
  "toStatusToken SP_PENDING = ZS_pending"
| "toStatusToken SP_RUNNING = ZS_running"
| "toStatusToken SP_COMPLETED = ZS_completed"
| "toStatusToken SP_FAILED = ZS_failed"
| "toStatusToken SP_CANCELLED = ZS_cancelled"
| "toStatusToken SP_AWAITING_HUMAN = ZS_awaiting"

definition gf_candidates :: "string list" where
  "gf_candidates = [''goldfive.category'', ''goldfive_category'', ''gf.category'', ''gf_category'', ''goldfive.class'']"

definition readStringAttr :: "span \<Rightarrow> string \<Rightarrow> string" where
  "readStringAttr s key = (case attrString (attr_get (sp_attributes s) key) of None \<Rightarrow> '''' | Some v \<Rightarrow> v)"

definition gf_table :: "(string \<times> z_gf_class) list" where
  "gf_table = [(''judge-on-task'', GF_judge_on_task), (''judge-warning'', GF_judge_warning),
     (''judge-critical'', GF_judge_critical), (''judge-neutral'', GF_judge_neutral), (''refine'', GF_refine),
     (''plan'', GF_plan), (''reflective'', GF_reflective)]"

definition gfClassForSpan :: "span \<Rightarrow> z_gf_class option" where
  "gfClassForSpan s =
     (let raw = (case find (\<lambda>key. readStringAttr s key \<noteq> '''') gf_candidates of
                   None \<Rightarrow> '''' | Some key \<Rightarrow> readStringAttr s key)
      in if raw = ''''
         then (if \<not> (sp_agentId s = GOLDFIVE_ACTOR_ID \<or> ends_with (sp_agentId s) '':goldfive'') then None
               else (let n = to_lower (sp_name s)
                     in if js_includes n ''judge'' then Some GF_judge_neutral
                        else if js_includes n ''refine'' \<or> js_includes n ''steer'' then Some GF_refine
                        else if js_includes n ''plan'' then Some GF_plan
                        else Some GF_reflective))
         else map_of gf_table (dashed (to_lower raw)))"

section \<open>Lanes\<close>

definition syntheticKind :: "string \<Rightarrow> string \<Rightarrow> z_actor option" where
  "syntheticKind agentId goldfiveId =
     (if agentId = USER_ACTOR_ID then Some ZA_user
      else if agentId = GOLDFIVE_ACTOR_ID \<or> agentId = goldfiveId then Some ZA_goldfive
      else if ends_with agentId '':goldfive'' then Some ZA_goldfive
      else (let label = actorDisplayLabel agentId
            in if label = Some ''user'' then Some ZA_user
               else if label = Some ''goldfive'' then Some ZA_goldfive
               else if isSyntheticActor agentId then Some ZA_goldfive else None))"

fun actor_name :: "z_actor \<Rightarrow> string" where
  "actor_name ZA_user = ''user''"
| "actor_name ZA_goldfive = ''goldfive''"

definition push_agent :: "string \<Rightarrow> z_agent list \<times> nat \<Rightarrow> agent \<Rightarrow> z_agent list \<times> nat" where
  "push_agent goldfiveId s a =
     (let (out, nonSyntheticIdx) = s in
      case syntheticKind (ag_id a) goldfiveId of
        Some synthetic \<Rightarrow>
          (out @ [\<lparr>za_id = ag_id a,
                   za_label = (case actorDisplayLabel (ag_id a) of None \<Rightarrow> actor_name synthetic | Some l \<Rightarrow> l),
                   za_ordinal = 0, za_synthetic = Some synthetic\<rparr>], nonSyntheticIdx)
      | None \<Rightarrow>
          (out @ [\<lparr>za_id = ag_id a, za_label = or_str (bareAgentName (ag_id a)) (ag_id a),
                   za_ordinal = nonSyntheticIdx mod 8 + 1, za_synthetic = None\<rparr>], nonSyntheticIdx + 1))"

definition buildAgents :: "session_store \<Rightarrow> z_agent list" where
  "buildAgents st =
     fst (foldl (push_agent (resolveGoldfiveActorId st GOLDFIVE_ACTOR_ID)) ([], 0) (ar_list (ss_agents st)))"

definition colorVar :: "z_agent \<Rightarrow> string" where
  "colorVar a =
     (if za_synthetic a = Some ZA_user then ''var(--hg-agent-user)''
      else if za_synthetic a = Some ZA_goldfive then ''var(--hg-agent-goldfive)''
      else (let ord = (if 1 \<le> za_ordinal a \<and> za_ordinal a \<le> 8 then za_ordinal a else 1)
            in ''var(--hg-agent-'' @ js_int (int ord) @ '')''))"

section \<open>Bars\<close>

definition bar_of :: "rat \<Rightarrow> span \<Rightarrow> z_span" where
  "bar_of nowSec s =
     (let t0 = seconds (sp_startMs s);
          t1 = (case sp_endMs s of Some e \<Rightarrow> seconds e | None \<Rightarrow> nowSec)
      in \<lparr>zb_id = sp_id s, zb_agent = sp_agentId s, zb_kind = toKindToken (sp_kind s), zb_status = toStatusToken (sp_status s),
          zb_gf = gfClassForSpan s, zb_t0 = t0, zb_t1 = max t0 t1, zb_label = sp_name s, zb_hasReasoning = hasThinking s,
          zb_reasoning = extractThinkingText s\<rparr>)"

definition buildSpans :: "session_store \<Rightarrow> rat \<Rightarrow> z_span list" where
  "buildSpans st nowSec =
     (let maxEnd = si_maxEndMs (ss_spans st)
      in sort_key zb_t0 (map (bar_of nowSec) (si_queryRange (ss_spans st) 0 (At (rat_of_int (maxEnd + 1))) None)))"

section \<open>Arrows\<close>

record raw_edge =
  re_fromId :: string
  re_toId :: string
  re_kind :: z_arrow_kind  \<comment> \<open>\<open>transfer\<close> or \<open>delegation\<close>\<close>
  re_yMs :: int

type_synonym edge_state = "raw_edge list \<times> string list"  \<comment> \<open>\<open>forward\<close> and the set \<open>covered\<close>\<close>

definition half_seconds :: "int \<Rightarrow> int" where
  \<comment> \<open>\<open>Math.round(ms / 500)\<close>\<close>
  "half_seconds ms = \<lfloor>rat_of_int ms / 500 + 1 / 2\<rfloor>"

definition keyFor :: "string \<Rightarrow> string \<Rightarrow> int \<Rightarrow> string" where
  "keyFor u v ms = u @ arrow @ v @ ''@'' @ js_int (half_seconds ms)"

definition add_raw :: "edge_state \<Rightarrow> raw_edge \<Rightarrow> edge_state" where
  "add_raw s e = (fst s @ [e], set_add (keyFor (re_fromId e) (re_toId e) (re_yMs e)) (snd s))"

definition add_new :: "edge_state \<Rightarrow> raw_edge \<Rightarrow> edge_state" where
  \<comment> \<open>\<open>if (covered.has(k)) continue; covered.add(k); forward.push(...)\<close>\<close>
  "add_new s e = (if keyFor (re_fromId e) (re_toId e) (re_yMs e) \<in> set (snd s) then s else add_raw s e)"

definition other_agent_links :: "span \<Rightarrow> span_link list" where
  \<comment> \<open>the links that the guards of methods 1 and 1b let through\<close>
  "other_agent_links s =
     filter (\<lambda>l. \<not> (ln_targetAgentId l = '''' \<or> ln_targetAgentId l = sp_agentId s)) (filter (\<lambda>l. ln_relation l = INVOKED) (sp_links s))"

definition method1 :: "span list \<Rightarrow> raw_edge list" where
  "method1 allSpans =
     concat (map (\<lambda>s. map (\<lambda>l. \<lparr>re_fromId = ln_targetAgentId l, re_toId = sp_agentId s, re_kind = AK_transfer, re_yMs = sp_startMs s\<rparr>)
                        (other_agent_links s)) (filter (\<lambda>s. sp_kind s = INVOCATION) allSpans))"

definition link_anchor :: "(string, span) jsmap \<Rightarrow> span \<Rightarrow> span_link \<Rightarrow> int" where
  "link_anchor spanById s l =
     (let targetSpan = (if ln_targetSpanId l \<noteq> '''' then map_of spanById (ln_targetSpanId l) else None)
      in case targetSpan of Some t \<Rightarrow> sp_startMs t | None \<Rightarrow> sp_startMs s)"

definition method1b :: "(string, span) jsmap \<Rightarrow> span list \<Rightarrow> raw_edge list" where
  "method1b spanById allSpans =
     concat (map (\<lambda>s. map (\<lambda>l. \<lparr>re_fromId = sp_agentId s, re_toId = ln_targetAgentId l, re_kind = AK_transfer,
                                re_yMs = link_anchor spanById s l\<rparr>)
                        (other_agent_links s)) (filter (\<lambda>s. sp_kind s = TRANSFER) allSpans))"

definition parent_edge :: "(string, span) jsmap \<Rightarrow> span \<Rightarrow> raw_edge list" where
  "parent_edge spanById s =
     (case sp_parentSpanId s of
        None \<Rightarrow> []
      | Some p \<Rightarrow>
          if p = '''' then []
          else (case map_of spanById p of
                  None \<Rightarrow> []
                | Some parent \<Rightarrow>
                    if sp_agentId parent = sp_agentId s then []
                    else [\<lparr>re_fromId = sp_agentId parent, re_toId = sp_agentId s, re_kind = AK_delegation,
                           re_yMs = sp_startMs s\<rparr>]))"

definition method2 :: "(string, span) jsmap \<Rightarrow> span list \<Rightarrow> raw_edge list" where
  "method2 spanById allSpans = concat (map (parent_edge spanById) (filter (\<lambda>s. sp_kind s = INVOCATION) allSpans))"

definition method3 :: "delegation_record list \<Rightarrow> raw_edge list" where
  "method3 ds =
     map (\<lambda>d. \<lparr>re_fromId = dl_fromAgentId d, re_toId = dl_toAgentId d, re_kind = AK_delegation, re_yMs = dl_observedAtMs d\<rparr>)
       (filter (\<lambda>d. \<not> (dl_fromAgentId d = '''' \<or> dl_toAgentId d = '''') \<and> dl_fromAgentId d \<noteq> dl_toAgentId d) ds)"

definition span_by_id :: "span list \<Rightarrow> (string, span) jsmap" where
  "span_by_id allSpans = foldl (\<lambda>m s. AList.update (sp_id s) s m) [] allSpans"

definition forward_edges :: "session_store \<Rightarrow> raw_edge list" where
  "forward_edges st =
     (let allSpans = si_all (ss_spans st);
          spanById = span_by_id allSpans;
          s1 = foldl add_raw ([], []) (method1 allSpans);
          s2 = foldl add_new s1 (method1b spanById allSpans);
          s3 = foldl add_new s2 (method2 spanById allSpans)
      in fst (foldl add_new s3 (method3 (rg_rows (ss_delegations st)))))"

definition last_caller :: "raw_edge list \<Rightarrow> span \<Rightarrow> raw_edge option" where
  \<comment> \<open>\<open>filter(yMs <= startMs).sort((a, b) => b.yMs - a.yMs)[0]\<close> of the forward edges into the span's agent\<close>
  "last_caller fwd s =
     (case sort_key (\<lambda>e. - re_yMs e) (filter (\<lambda>e. re_yMs e \<le> sp_startMs s) (filter (\<lambda>e. re_toId e = sp_agentId s) fwd)) of
        [] \<Rightarrow> None
      | e # _ \<Rightarrow> Some e)"

definition return_of :: "raw_edge list \<Rightarrow> span \<Rightarrow> raw_edge list" where
  "return_of fwd s =
     (case sp_endMs s of
        None \<Rightarrow> []
      | Some e \<Rightarrow>
          (case last_caller fwd s of
             None \<Rightarrow> []
           | Some caller \<Rightarrow>
               if re_fromId caller = sp_agentId s then []
               else [\<lparr>re_fromId = sp_agentId s, re_toId = re_fromId caller, re_kind = AK_delegation, re_yMs = e\<rparr>]))"

definition return_edges :: "raw_edge list \<Rightarrow> span list \<Rightarrow> raw_edge list" where
  "return_edges fwd allSpans = concat (map (return_of fwd) (filter (\<lambda>s. sp_kind s = INVOCATION) allSpans))"

definition forward_arrow :: "raw_edge \<Rightarrow> z_edge" where
  "forward_arrow e = \<lparr>ze_t = seconds (re_yMs e), ze_from = re_fromId e, ze_to = re_toId e, ze_kind = re_kind e\<rparr>"

definition return_arrow :: "raw_edge \<Rightarrow> z_edge" where
  "return_arrow e = \<lparr>ze_t = seconds (re_yMs e), ze_from = re_fromId e, ze_to = re_toId e, ze_kind = AK_return\<rparr>"

definition buildEdges :: "session_store \<Rightarrow> z_edge list" where
  "buildEdges st =
     (let fwd = forward_edges st
      in sort_key ze_t (map forward_arrow fwd @ map return_arrow (return_edges fwd (si_all (ss_spans st)))))"

definition buildTransfers :: "session_store \<Rightarrow> z_transfer list" where
  "buildTransfers st =
     map (\<lambda>e. \<lparr>zt_t = ze_t e, zt_from = ze_from e, zt_to = ze_to e\<rparr>) (filter (\<lambda>e. ze_kind e = AK_transfer) (buildEdges st))"

definition buildDelegation :: "session_store \<Rightarrow> z_delegation option" where
  "buildDelegation st =
     (case rg_rows (ss_delegations st) of
        [] \<Rightarrow> None
      | d # _ \<Rightarrow>
          if dl_fromAgentId d = '''' \<or> dl_toAgentId d = '''' then None
          else (let t0 = seconds (dl_observedAtMs d);
                    sub = filter (\<lambda>s. sp_kind s = INVOCATION)
                            (si_queryAgent (ss_spans st) (dl_toAgentId d) (rat_of_int (dl_observedAtMs d)) Beyond []);
                    t1 = foldl (\<lambda>t1 s. let e = (case sp_endMs s of Some e \<Rightarrow> seconds e | None \<Rightarrow> t0)
                                       in if e > t1 then e else t1) t0 sub
                in Some \<lparr>zd_from = dl_fromAgentId d, zd_to = dl_toAgentId d, zd_t0 = t0, zd_t1 = max t0 t1,
                         zd_tokens = None, zd_verdict = None\<rparr>))"

section \<open>Corrections\<close>

definition target_index :: "span list \<Rightarrow> (string, string) jsmap" where
  "target_index refineSpans =
     foldl (\<lambda>m s. let idx = readStringAttr s ''refine.index''; tgt = readStringAttr s ''refine.target_agent_id''
                  in if idx \<noteq> '''' \<and> tgt \<noteq> '''' then AList.update idx tgt m else m)
       [] (filter (\<lambda>s. starts_with (sp_name s) ''refine:'') refineSpans)"

definition revision_index :: "plan_revision_record list \<Rightarrow> (string, int) jsmap \<times> (string, string) jsmap" where
  \<comment> \<open>\<open>revisionByDrift\<close> keeps the first revision of a drift, \<open>reasonByDrift\<close> the last reason\<close>
  "revision_index history =
     foldl (\<lambda>(revs, reasons) r.
              (if map_has revs (ph_triggerEventId r) then revs else AList.update (ph_triggerEventId r) (ph_revision r) revs,
               if ph_reason r \<noteq> '''' then AList.update (ph_triggerEventId r) (ph_reason r) reasons else reasons))
       ([], []) (filter (\<lambda>r. \<not> ph_revision r \<le> 0 \<and> ph_triggerEventId r \<noteq> '''') history)"

definition drift_index :: "drift_record list \<Rightarrow> (string, drift_record) jsmap" where
  "drift_index ds = foldl (\<lambda>m d. if dr_driftId d \<noteq> '''' then AList.update (dr_driftId d) d m else m) [] ds"

definition str_of :: "string option \<Rightarrow> string" where
  \<comment> \<open>an undefined operand of \<open>||\<close> is falsy like the empty string\<close>
  "str_of x = (case x of None \<Rightarrow> '''' | Some s \<Rightarrow> s)"

definition steer_of_attempt ::
    "string \<Rightarrow> (string, string) jsmap \<Rightarrow> (string, int) jsmap \<times> (string, string) jsmap \<Rightarrow> (string, drift_record) jsmap
     \<Rightarrow> refine_attempt_record \<Rightarrow> z_steer list" where
  "steer_of_attempt goldfiveId targetByIndex revs driftById a =
     (let revision = (case map_of (fst revs) (ra_driftId a) of None \<Rightarrow> 0 | Some n \<Rightarrow> n);
          drift = (\<lambda>f. str_of (map_option f (map_of driftById (ra_driftId a))));
          target = or_str (or_str (if revision \<noteq> 0 then str_of (map_of targetByIndex (js_int revision)) else '''') (ra_agentId a))
                     (drift dr_agentId)
      in if target = '''' \<or> target = goldfiveId then []
         else [\<lparr>zst_t = seconds (ra_recordedAtMs a), zst_from = goldfiveId, zst_to = target,
                zst_taskId = or_str (ra_taskId a) (drift dr_taskId), zst_kind = or_str (ra_triggerKind a) (drift dr_kind),
                zst_severity = or_str (ra_triggerSeverity a) (drift dr_severity),
                zst_reason = or_str (str_of (map_of (snd revs) (ra_driftId a))) (drift dr_detail), zst_revision = revision\<rparr>])"

definition steer_of_drift ::
    "string \<Rightarrow> (string, string) jsmap \<Rightarrow> (string, int) jsmap \<times> (string, string) jsmap \<Rightarrow> drift_record \<Rightarrow> z_steer list" where
  "steer_of_drift goldfiveId targetByIndex revs d =
     (let revision = (if dr_driftId d = '''' then 0 else case map_of (fst revs) (dr_driftId d) of None \<Rightarrow> 0 | Some n \<Rightarrow> n);
          target = or_str (str_of (map_of targetByIndex (js_int revision))) (dr_agentId d)
      in if revision \<le> 0 \<or> target = '''' \<or> target = goldfiveId then []
         else [\<lparr>zst_t = seconds (dr_recordedAtMs d), zst_from = goldfiveId, zst_to = target, zst_taskId = dr_taskId d,
                zst_kind = dr_kind d, zst_severity = dr_severity d,
                zst_reason = or_str (str_of (map_of (snd revs) (dr_driftId d))) (dr_detail d), zst_revision = revision\<rparr>])"

definition goldfive_lane :: "session_store \<Rightarrow> string" where
  "goldfive_lane st = or_str (resolveGoldfiveActorId st GOLDFIVE_ACTOR_ID) GOLDFIVE_ACTOR_ID"

definition buildSteers :: "session_store \<Rightarrow> plan_revision_record list \<Rightarrow> z_steer list" where
  "buildSteers st history =
     (let goldfiveId = goldfive_lane st;
          targetByIndex = target_index (si_queryAgent (ss_spans st) goldfiveId 0 Beyond []);
          revs = revision_index history;
          drifts = rg_rows (ss_drifts st);
          attempts = rg_rows (ss_refineAttempts st)
      in sort_key zst_t
           (if attempts \<noteq> []
            then concat (map (steer_of_attempt goldfiveId targetByIndex revs (drift_index drifts)) attempts)
            else concat (map (steer_of_drift goldfiveId targetByIndex revs) drifts)))"

section \<open>Drifts, interventions, context\<close>

definition severityToValue :: "string \<Rightarrow> int" where
  "severityToValue sev =
     (if sev = ''critical'' then 14 else if sev = ''warning'' then 9 else if sev = ''info'' then 4 else 2)"

definition push_row :: "'a \<Rightarrow> string \<Rightarrow> (string, 'a list) jsmap option \<Rightarrow> (string, 'a list) jsmap option" where
  \<comment> \<open>\<open>const arr = out[agent] ?? (out[agent] = []); arr.push(...)\<close>: an agent named like a property of
    \<open>Object.prototype\<close> is found there, and its value has no \<open>push\<close>\<close>
  "push_row x agent out =
     (case out of
        None \<Rightarrow> None
      | Some m \<Rightarrow>
          (case object_get m agent of
             Own arr \<Rightarrow> Some (AList.update agent (arr @ [x]) m)
           | Inherited k \<Rightarrow> None
           | Missing \<Rightarrow> Some (AList.update agent [x] m)))"

definition sort_rows :: "(string, (rat \<times> 'a) list) jsmap \<Rightarrow> (string, (rat \<times> 'a) list) jsmap" where
  "sort_rows m = map (\<lambda>(k, rows). (k, sort_key fst rows)) m"

definition buildJudges :: "session_store \<Rightarrow> (string, (rat \<times> int) list) jsmap option" where
  "buildJudges st =
     (let goldfiveId = resolveGoldfiveActorId st GOLDFIVE_ACTOR_ID
      in map_option sort_rows
           (foldl (\<lambda>out d. let agent = or_str (dr_agentId d) goldfiveId
                           in if agent = '''' then out
                              else push_row (seconds (dr_recordedAtMs d), severityToValue (dr_severity d)) agent out)
              (Some []) (rg_rows (ss_drifts st))))"

fun source_name :: "intervention_source \<Rightarrow> string" where
  "source_name IS_user = ''user''"
| "source_name IS_drift = ''drift''"
| "source_name IS_goldfive = ''goldfive''"
| "source_name IS_cancel = ''cancel''"
| "source_name IS_refine = ''refine''"
| "source_name IS_transition = ''transition''"

definition buildTicks :: "session_store \<Rightarrow> intervention_row list \<Rightarrow> (string, (rat \<times> string) list) jsmap option" where
  "buildTicks st rows =
     map_option sort_rows
       (foldl (\<lambda>out r. push_row (seconds (iv_atMs r), or_str (iv_kind r) (source_name (iv_source r)))
                        (or_str (iv_targetAgentId r) (goldfive_lane st)) out)
          (Some []) rows)"

definition rungForRow :: "intervention_source \<Rightarrow> string \<Rightarrow> string \<Rightarrow> string \<Rightarrow> nat" where
  "rungForRow source kind severity outcome =
     (if severity = ''critical'' then 3
      else (let k = to_lower kind
            in if js_includes k ''escalat'' then 3
               else if source = IS_refine \<or> js_includes k ''refine'' then 1
               else if source = IS_transition \<or> js_includes k ''replan'' \<or> js_includes k ''revis'' \<or>
                       starts_with outcome ''plan_revised'' then 2
               else 0))"

definition buildLadder :: "intervention_row list \<Rightarrow> (rat \<times> nat) list" where
  "buildLadder rows =
     sort_key fst (map (\<lambda>r. (seconds (iv_atMs r), rungForRow (iv_source r) (iv_kind r) (iv_severity r) (iv_outcome r))) rows)"

definition busier :: "session_store \<Rightarrow> string option \<times> int \<Rightarrow> z_agent \<Rightarrow> string option \<times> int" where
  "busier st s a =
     (let (bestId, bestCount) = s in
      if za_synthetic a \<noteq> None then (bestId, bestCount)
      else (let count = int (length (si_queryAgent (ss_spans st) (za_id a) 0 Beyond []))
            in if count > bestCount then (Some (za_id a), count) else (bestId, bestCount)))"

definition buildCtx :: "session_store \<Rightarrow> z_agent list \<Rightarrow> (rat \<times> rat) list" where
  "buildCtx st agents =
     (case fst (foldl (busier st) (None, -1) agents) of
        None \<Rightarrow> []
      | Some bestId \<Rightarrow>
          if bestId = '''' then []
          else map (\<lambda>s. (seconds (cw_tMs s), min 1 (rat_of_int (cw_tokens s) / rat_of_int (cw_limitTokens s))))
                 (filter (\<lambda>s. \<not> cw_limitTokens s \<le> 0) (cs_forAgent (ss_contextSeries st) bestId)))"

section \<open>The session bundle\<close>

definition deriveStatus :: "session_store \<Rightarrow> z_session_status" where
  "deriveStatus st =
     (let spans = si_all (ss_spans st);
          anyRunning = list_ex (\<lambda>s. sp_status s = SP_RUNNING) spans;
          anyFailed = list_ex (\<lambda>s. sp_status s = SP_FAILED \<and> \<not> sp_replaced s) spans;
          anyOpen = list_ex (\<lambda>s. sp_status s = SP_PENDING \<or> sp_status s = SP_AWAITING_HUMAN \<or> sp_endMs s = None) spans
      in if anyRunning \<or> anyOpen then Z_live else if anyFailed then Z_failed else Z_done)"

definition session_plan_id :: "string option \<Rightarrow> session_store option \<Rightarrow> string option" where
  \<comment> \<open>\<open>trajectoryPlanId ?? store?.tasks.listPlans()[0]?.id ?? null\<close>\<close>
  "session_plan_id trajectoryPlanId store =
     (case trajectoryPlanId of
        Some p \<Rightarrow> Some p
      | None \<Rightarrow> (case store of
                   None \<Rightarrow> None
                 | Some st \<Rightarrow> (case tr_listPlans (ss_tasks st) of [] \<Rightarrow> None | p # _ \<Rightarrow> Some (tp_id p))))"

definition zicatoSession ::
    "session_store option \<Rightarrow> string option \<Rightarrow> string \<Rightarrow> int \<Rightarrow> intervention_row list \<Rightarrow> plan_revision_record list
     \<Rightarrow> cumulative_plan option \<Rightarrow> (string, supersession_link) jsmap \<Rightarrow> int option \<Rightarrow> z_session option" where
  \<comment> \<open>\<open>None\<close> is a computation that throws or does not return\<close>
  "zicatoSession store sessionId goal tickMs interventions history cumulative supersedes selectedRevision =
     (case store of
        None \<Rightarrow> Some EMPTY_SESSION
      | Some st \<Rightarrow>
          (let maxEndMs = si_maxEndMs (ss_spans st);
               spanCount = length (si_all (ss_spans st))
           in if spanCount = 0 \<and> ar_list (ss_agents st) = []
              then Some (EMPTY_SESSION\<lparr>zz_id := str_of sessionId, zz_goal := goal,
                                       zz_fp := deriveFingerprint history cumulative 30\<rparr>)
              else (let T = seconds maxEndMs;
                        wallNowSec = seconds (tickMs - ss_wallClockStartMs st);
                        status = deriveStatus st;
                        now = (if status = Z_live then max 0 (max T wallNowSec) else T);
                        agents = buildAgents st;
                        edges = buildEdges st
                    in case (buildJudges st, buildTicks st interventions, buildPlan history cumulative supersedes selectedRevision) of
                         (Some judges, Some ticks, Some plan) \<Rightarrow>
                           Some \<lparr>zz_id = str_of sessionId, zz_goal = goal, zz_status = status, zz_T = (if T > 0 then T else 30),
                                 zz_now = now, zz_agents = agents, zz_spans = buildSpans st now,
                                 zz_transfers = map (\<lambda>e. \<lparr>zt_t = ze_t e, zt_from = ze_from e, zt_to = ze_to e\<rparr>)
                                                  (filter (\<lambda>e. ze_kind e = AK_transfer) edges),
                                 zz_delegation = buildDelegation st, zz_edges = edges, zz_steers = buildSteers st history,
                                 zz_judges = judges, zz_ticks = ticks, zz_ladder = buildLadder interventions,
                                 zz_ctx = buildCtx st agents, zz_plan = plan,
                                 zz_fp = deriveFingerprint history cumulative (if T \<noteq> 0 then T else 30), zz_empty = False\<rparr>
                       | _ \<Rightarrow> None)))"

section \<open>The bars show every span\<close>

lemma walk_back_out: "walk_back spans t0 t1 i out = out @ walk_back spans t0 t1 i []"
proof (induction i arbitrary: out)
  case (Suc i)
  define new where "new = (if ends_from (spans ! i) t0 \<and> starts_before (spans ! i) t1 then [spans ! i] else [])"
  have step: "walk_back spans t0 t1 (Suc i) o' =
      (if startR (spans ! i) < t0 - rat_of_int (BUCKET_MS * 1024) then o' @ new else walk_back spans t0 t1 i (o' @ new))" for o'
    by (simp add: Let_def new_def)
  show ?case unfolding step using Suc [of "out @ new"] Suc [of "[] @ new"] by simp
qed simp

lemma query_agent_out: "si_queryAgent ix a t0 t1 out = out @ si_queryAgent ix a t0 t1 []"
  using walk_back_out [of _ t0 t1 _ out] by (auto simp: si_queryAgent_def Let_def split: option.split)

lemma query_range_concat:
  "si_queryRange ix t0 t1 None = concat (map (\<lambda>a. si_queryAgent ix a t0 t1 []) (map fst (si_agents ix)))"
proof -
  have "foldl (\<lambda>out a. si_queryAgent ix a t0 t1 out) out as = out @ concat (map (\<lambda>a. si_queryAgent ix a t0 t1 []) as)" for out as
  proof (induction as arbitrary: out)
    case (Cons a as)
    show ?case using Cons [of "si_queryAgent ix a t0 t1 out"] query_agent_out [of ix a t0 t1 out] by simp
  qed simp
  from this [of "[]"] show ?thesis by (simp add: si_queryRange_def)
qed

lemma query_range_ok:
  assumes ok: "span_ok ix"
  shows "distinct (map sp_id (si_queryRange ix t0 t1 None))"
    and "set (si_queryRange ix t0 t1 None) \<subseteq> {s \<in> set (si_all ix). wanted t0 t1 s}"
    and "{s \<in> set (si_all ix). wanted t0 t1 s \<and> t0 - 65536 \<le> startR s} \<subseteq> set (si_queryRange ix t0 t1 None)"
proof -
  note q = query_agent_ok [OF ok, of _ t0 t1, unfolded Let_def]
  have sound: "s \<in> set (si_all ix) \<and> sp_agentId s = a \<and> wanted t0 t1 s" if "s \<in> set (si_queryAgent ix a t0 t1 [])" for s a
    using q [of a] that by blast
  have keys: "distinct (map fst (si_agents ix))" using ok by (simp add: span_ok_def map_ok_def)
  have id: "s = s'" if "s \<in> set (si_all ix)" "s' \<in> set (si_all ix)" "sp_id s = sp_id s'" for s s'
    using that by (simp add: si_all_iff [OF ok])
  have "distinct (map sp_id (concat (map (\<lambda>a. si_queryAgent ix a t0 t1 []) as)))" if "distinct as" for as
    using that
  proof (induction as)
    case (Cons a as)
    have "sp_id s \<noteq> sp_id s'" if "s \<in> set (si_queryAgent ix a t0 t1 [])" "b \<in> set as" "s' \<in> set (si_queryAgent ix b t0 t1 [])" for s s' b
      using id [of s s'] sound [OF that(1)] sound [OF that(3)] Cons.prems that(2) by auto
    then have "set (map sp_id (si_queryAgent ix a t0 t1 [])) \<inter> set (map sp_id (concat (map (\<lambda>a. si_queryAgent ix a t0 t1 []) as))) = {}"
      by (simp only: set_map set_concat) blast
    moreover have "distinct (map sp_id (si_queryAgent ix a t0 t1 []))" using q [of a] by blast
    ultimately show ?case using Cons by (simp only: list.map concat.simps map_append distinct_append distinct.simps simp_thms)
  qed simp
  from this [OF keys] show "distinct (map sp_id (si_queryRange ix t0 t1 None))" unfolding query_range_concat .
  show "set (si_queryRange ix t0 t1 None) \<subseteq> {s \<in> set (si_all ix). wanted t0 t1 s}"
    unfolding query_range_concat using sound by (simp only: set_concat set_map) blast
  show "{s \<in> set (si_all ix). wanted t0 t1 s \<and> t0 - 65536 \<le> startR s} \<subseteq> set (si_queryRange ix t0 t1 None)"
  proof
    fix s assume s: "s \<in> {s \<in> set (si_all ix). wanted t0 t1 s \<and> t0 - 65536 \<le> startR s}"
    then obtain b where "map_of (si_agents ix) (sp_agentId s) = Some b"
      using bucket_of_span [OF ok, of s] by (cases "map_of (si_agents ix) (sp_agentId s)") auto
    then have "sp_agentId s \<in> set (map fst (si_agents ix))" by (simp add: map_of_key)
    moreover have "s \<in> set (si_queryAgent ix (sp_agentId s) t0 t1 [])" using q [of "sp_agentId s"] s by blast
    ultimately show "s \<in> set (si_queryRange ix t0 t1 None)"
      unfolding query_range_concat set_concat
      by (intro UN_I [of "si_queryAgent ix (sp_agentId s) t0 t1 []"]) (force simp: image_iff)+
  qed
qed

text \<open>C28: Whatever has been done to the span index, the bars of the zicato figures are sorted by start, no span has two, each is
  that of a stored span and ends no earlier than it starts, and every stored span that starts at or after the session start has
  one, unless it ends before it starts.\<close>

theorem bars_show_spans:
  "let st' = st\<lparr>ss_spans := foldl span_step emptyIndex ops\<rparr>; bars = buildSpans st' now; spans = si_all (ss_spans st')
   in sorted (map zb_t0 bars) \<and> distinct (map zb_id bars) \<and> list_all (\<lambda>b. zb_t0 b \<le> zb_t1 b) bars \<and>
      set bars \<subseteq> bar_of now ` set spans \<and>
      bar_of now ` {s \<in> set spans. 0 \<le> sp_startMs s \<and> sp_startMs s \<le> end_or_start s} \<subseteq> set bars"
proof -
  define ix where "ix = foldl span_step emptyIndex ops"
  have ok: "span_ok ix" unfolding ix_def by (rule span_ok_run [OF span_ok_empty])
  define q where "q = si_queryRange ix 0 (At (rat_of_int (si_maxEndMs ix + 1))) None"
  note range = query_range_ok [OF ok, of 0 "At (rat_of_int (si_maxEndMs ix + 1))", folded q_def]
  have bars: "buildSpans (st\<lparr>ss_spans := ix\<rparr>) now = sort_key zb_t0 (map (bar_of now) q)"
    by (simp add: buildSpans_def q_def Let_def)
  have "map zb_id (map (bar_of now) q) = map sp_id q" by (simp add: bar_of_def Let_def)
  moreover have "mset (map zb_id (sort_key zb_t0 (map (bar_of now) q))) = mset (map zb_id (map (bar_of now) q))"
    by (simp only: mset_map mset_sort)
  ultimately have "distinct (map zb_id (sort_key zb_t0 (map (bar_of now) q)))"
    using range(1) mset_eq_imp_distinct_iff by metis
  moreover have "s \<in> set q" if s: "s \<in> set (si_all ix)" "0 \<le> sp_startMs s" "sp_startMs s \<le> end_or_start s" for s
  proof -
    have "map_of (si_byId ix) (sp_id s) = Some s" using s(1) by (simp add: si_all_iff [OF ok])
    then have "end_or_start s \<le> si_maxEndMs ix" using ok by (auto simp: span_ok_def si_maxEndMs_def)
    then have "startR s < rat_of_int (si_maxEndMs ix + 1)" using s(3) by linarith
    with s range(3) show ?thesis by (fastforce simp: wanted_def)
  qed
  moreover have "set q \<subseteq> set (si_all ix)" using range(2) by blast
  ultimately show ?thesis
    unfolding Let_def ix_def [symmetric] bars by (auto simp: list_all_iff bar_of_def Let_def)
qed

section \<open>The arrows\<close>

definition raw_key :: "raw_edge \<Rightarrow> string" where
  "raw_key e = keyFor (re_fromId e) (re_toId e) (re_yMs e)"

lemma add_raw_all: "foldl add_raw (fwd, cov) es = (fwd @ es, snd (foldl add_raw (fwd, cov) es)) \<and>
    set (snd (foldl add_raw (fwd, cov) es)) = set cov \<union> raw_key ` set es"
proof (induction es arbitrary: fwd cov)
  case (Cons e es)
  have step: "add_raw (fwd, cov) e = (fwd @ [e], set_add (raw_key e) cov)" by (simp add: add_raw_def raw_key_def)
  show ?case unfolding foldl_Cons step using Cons [of "fwd @ [e]" "set_add (raw_key e) cov"] by auto
qed simp

definition fresh_edges :: "raw_edge list \<Rightarrow> string set \<Rightarrow> raw_edge list \<Rightarrow> bool" where
  \<comment> \<open>\<open>new\<close> is what is left of the candidates \<open>es\<close> when the keys \<open>K\<close> are covered\<close>
  "fresh_edges es K new \<longleftrightarrow>
     set new \<subseteq> set es \<and> distinct (map raw_key new) \<and> raw_key ` set new \<inter> K = {} \<and> raw_key ` set es \<subseteq> K \<union> raw_key ` set new"

lemma fresh_edges_old: "raw_key e \<in> K \<Longrightarrow> fresh_edges es K new \<Longrightarrow> fresh_edges (e # es) K new"
  unfolding fresh_edges_def by auto

lemma fresh_edges_new: "raw_key e \<notin> K \<Longrightarrow> fresh_edges es (insert (raw_key e) K) new \<Longrightarrow> fresh_edges (e # es) K (e # new)"
  unfolding fresh_edges_def by auto

lemma add_new_all: "\<exists>new. fst (foldl add_new (fwd, cov) es) = fwd @ new \<and> fresh_edges es (set cov) new"
proof (induction es arbitrary: fwd cov)
  case Nil
  show ?case by (simp add: fresh_edges_def)
next
  case (Cons e es)
  show ?case
  proof (cases "raw_key e \<in> set cov")
    case True
    then have "add_new (fwd, cov) e = (fwd, cov)" by (simp add: add_new_def raw_key_def)
    with Cons [of fwd cov] fresh_edges_old [OF True] show ?thesis by auto
  next
    case False
    then have step: "add_new (fwd, cov) e = (fwd @ [e], set_add (raw_key e) cov)" by (simp add: add_new_def add_raw_def raw_key_def)
    obtain new where "fst (foldl add_new (fwd @ [e], set_add (raw_key e) cov) es) = (fwd @ [e]) @ new"
        "fresh_edges es (set (set_add (raw_key e) cov)) new"
      using Cons [of "fwd @ [e]" "set_add (raw_key e) cov"] by auto
    then show ?thesis unfolding foldl_Cons step using fresh_edges_new [OF False] by (intro exI [of _ "e # new"]) simp
  qed
qed

definition derived_edges :: "session_store \<Rightarrow> raw_edge list" where
  "derived_edges st =
     (let allSpans = si_all (ss_spans st)
      in method1b (span_by_id allSpans) allSpans @ method2 (span_by_id allSpans) allSpans @ method3 (rg_rows (ss_delegations st)))"

lemma forward_edges_eq:
  "\<exists>new. forward_edges st = method1 (si_all (ss_spans st)) @ new \<and>
     fresh_edges (derived_edges st) (raw_key ` set (method1 (si_all (ss_spans st)))) new"
proof -
  define m where "m = method1 (si_all (ss_spans st))"
  obtain cov where s1: "foldl add_raw ([], []) m = (m, cov)" "set cov = raw_key ` set m"
    using add_raw_all [of "[]" "[]" m] by (cases "foldl add_raw ([], []) m") auto
  have "forward_edges st = fst (foldl add_new (m, cov) (derived_edges st))"
    by (simp add: forward_edges_def derived_edges_def Let_def m_def [symmetric] s1(1))
  with add_new_all [of m cov "derived_edges st"] s1(2) show ?thesis
    unfolding m_def [symmetric] by simp
qed

text \<open>The forward arrows before the return edges are added: all that the INVOKED links of invocations give, followed by those
  derived from transfer spans, cross-agent parents and delegations that cover a new pair of agents or a new half second; none of
  the latter repeats an arrow before it, and every candidate is covered by an arrow of its pair and half second.\<close>

theorem forward_arrows_deduplicated:
  "let m = method1 (si_all (ss_spans st)); new = drop (length m) (forward_edges st)
   in take (length m) (forward_edges st) = m \<and> set new \<subseteq> set (derived_edges st) \<and> distinct (map raw_key new) \<and>
      raw_key ` set new \<inter> raw_key ` set m = {} \<and>
      raw_key ` set (derived_edges st) \<subseteq> raw_key ` set (forward_edges st)"
proof -
  define m where "m = method1 (si_all (ss_spans st))"
  obtain new where new: "forward_edges st = m @ new" "fresh_edges (derived_edges st) (raw_key ` set m) new"
    using forward_edges_eq [of st] by (auto simp: m_def)
  then show ?thesis unfolding m_def [symmetric] Let_def by (simp add: fresh_edges_def image_Un)
qed

definition callers :: "raw_edge list \<Rightarrow> span \<Rightarrow> raw_edge list" where
  "callers fwd s = filter (\<lambda>e. re_yMs e \<le> sp_startMs s) (filter (\<lambda>e. re_toId e = sp_agentId s) fwd)"

lemma sort_head:
  fixes f :: "'a \<Rightarrow> int"
  assumes "sort_key f xs = e # rest"
  shows "e \<in> set xs \<and> (\<forall>x\<in>set xs. f e \<le> f x)"
proof -
  have "set xs = set (e # rest)" and "sorted (map f (e # rest))" unfolding assms [symmetric] by simp_all
  then show ?thesis by auto
qed

lemma last_caller_spec:
  "case last_caller fwd s of
     None \<Rightarrow> callers fwd s = []
   | Some e \<Rightarrow> e \<in> set (callers fwd s) \<and> (\<forall>e'\<in>set (callers fwd s). re_yMs e' \<le> re_yMs e)"
proof (cases "sort_key (\<lambda>e. - re_yMs e) (callers fwd s)")
  case Nil
  then have "set (callers fwd s) = {}" by (metis list.set(1) set_sort_key)
  with Nil show ?thesis by (simp add: last_caller_def callers_def)
next
  case (Cons e rest)
  from sort_head [OF this] Cons show ?thesis by (simp add: last_caller_def callers_def)
qed

lemma other_agent_links: "l \<in> set (other_agent_links s) \<Longrightarrow> ln_targetAgentId l \<noteq> sp_agentId s"
  by (auto simp: other_agent_links_def)

lemma method1_edge: "e \<in> set (method1 spans) \<Longrightarrow> re_fromId e \<noteq> re_toId e \<and> re_kind e = AK_transfer"
  by (auto simp: method1_def dest: other_agent_links)

lemma method1b_edge: "e \<in> set (method1b m spans) \<Longrightarrow> re_fromId e \<noteq> re_toId e \<and> re_kind e = AK_transfer"
  by (auto simp: method1b_def dest: other_agent_links)

lemma parent_edge: "e \<in> set (parent_edge m s) \<Longrightarrow> re_fromId e \<noteq> re_toId e \<and> re_kind e = AK_delegation"
  unfolding parent_edge_def
  by (cases "sp_parentSpanId s"; cases "map_of m (the (sp_parentSpanId s))") (simp_all split: if_splits)

lemma method2_edge: "e \<in> set (method2 m spans) \<Longrightarrow> re_fromId e \<noteq> re_toId e \<and> re_kind e = AK_delegation"
  unfolding method2_def using parent_edge by auto

lemma method3_edge: "e \<in> set (method3 ds) \<Longrightarrow> re_fromId e \<noteq> re_toId e \<and> re_kind e = AK_delegation"
  by (auto simp: method3_def)

lemma forward_edge: "e \<in> set (forward_edges st) \<Longrightarrow> re_fromId e \<noteq> re_toId e \<and> re_kind e \<noteq> AK_return"
proof -
  assume e: "e \<in> set (forward_edges st)"
  obtain new where "forward_edges st = method1 (si_all (ss_spans st)) @ new" "set new \<subseteq> set (derived_edges st)"
    using forward_edges_eq [of st] unfolding fresh_edges_def by blast
  with e consider "e \<in> set (method1 (si_all (ss_spans st)))" | "e \<in> set (derived_edges st)" by auto
  then show ?thesis
  proof cases
    case 1
    then show ?thesis by (auto dest: method1_edge)
  next
    case 2
    then show ?thesis unfolding derived_edges_def Let_def by (auto dest: method1b_edge method2_edge method3_edge)
  qed
qed

definition call_of :: "span \<Rightarrow> z_edge \<Rightarrow> bool" where
  \<comment> \<open>an arrow into the agent of the span, no later than its start\<close>
  "call_of s f = (ze_kind f \<noteq> AK_return \<and> ze_to f = sp_agentId s \<and> ze_t f \<le> seconds (sp_startMs s))"

definition answers :: "z_edge list \<Rightarrow> span \<Rightarrow> z_edge \<Rightarrow> bool" where
  \<comment> \<open>a return at the end of the span, to the agent of its latest call\<close>
  "answers es s e =
     (sp_kind s = INVOCATION \<and> ze_kind e = AK_return \<and> ze_from e = sp_agentId s \<and>
      map_option seconds (sp_endMs s) = Some (ze_t e) \<and>
      list_ex (\<lambda>f. call_of s f \<and> ze_from f = ze_to e \<and> list_all (\<lambda>g. if call_of s g then ze_t g \<le> ze_t f else True) es) es)"

lemma seconds_le [simp]: "seconds a \<le> seconds b \<longleftrightarrow> a \<le> b"
  by (simp add: seconds_def divide_le_cancel)

lemma callers_arrow: "e \<in> set (callers fwd s) \<longleftrightarrow> e \<in> set fwd \<and> re_toId e = sp_agentId s \<and> re_yMs e \<le> sp_startMs s"
  by (auto simp: callers_def)

lemma forward_call: "e \<in> set (forward_edges st) \<Longrightarrow> call_of s (forward_arrow e) \<longleftrightarrow> e \<in> set (callers (forward_edges st) s)"
  using forward_edge by (auto simp: call_of_def forward_arrow_def callers_arrow)

lemma set_buildEdges:
  "set (buildEdges st) = forward_arrow ` set (forward_edges st) \<union> return_arrow ` set (return_edges (forward_edges st) (si_all (ss_spans st)))"
  by (simp add: buildEdges_def Let_def image_Un)

lemma call_in_edges:
  "g \<in> set (buildEdges st) \<Longrightarrow> call_of s g \<Longrightarrow> \<exists>e\<in>set (callers (forward_edges st) s). g = forward_arrow e"
  using forward_call by (fastforce simp: set_buildEdges return_arrow_def call_of_def)

lemma return_answers:
  assumes s: "s \<in> set (si_all (ss_spans st))" "sp_kind s = INVOCATION" "sp_endMs s = Some m"
    and c: "last_caller (forward_edges st) s = Some c"
  shows "answers (buildEdges st) s (return_arrow \<lparr>re_fromId = sp_agentId s, re_toId = re_fromId c, re_kind = AK_delegation, re_yMs = m\<rparr>)"
proof -
  have c': "c \<in> set (callers (forward_edges st) s)" "\<And>e. e \<in> set (callers (forward_edges st) s) \<Longrightarrow> re_yMs e \<le> re_yMs c"
    using last_caller_spec [of "forward_edges st" s] c by auto
  then have "c \<in> set (forward_edges st)" by (simp add: callers_arrow)
  then have "forward_arrow c \<in> set (buildEdges st)" "call_of s (forward_arrow c)"
    using c'(1) forward_call by (auto simp: set_buildEdges)
  moreover have "ze_t g \<le> ze_t (forward_arrow c)" if "g \<in> set (buildEdges st)" "call_of s g" for g
    using call_in_edges [OF that] c'(2) by (auto simp: forward_arrow_def)
  ultimately show ?thesis
    using s by (auto simp: answers_def return_arrow_def forward_arrow_def list_ex_iff list_all_iff)
qed

lemma return_of_iff:
  "r \<in> set (return_of fwd s) \<longleftrightarrow>
   (\<exists>m c. sp_endMs s = Some m \<and> last_caller fwd s = Some c \<and> re_fromId c \<noteq> sp_agentId s \<and>
      r = \<lparr>re_fromId = sp_agentId s, re_toId = re_fromId c, re_kind = AK_delegation, re_yMs = m\<rparr>)"
  by (cases "sp_endMs s"; cases "last_caller fwd s") (auto simp: return_of_def)

lemma return_edge_cases:
  "r \<in> set (return_edges fwd spans) \<longleftrightarrow> (\<exists>s\<in>set spans. sp_kind s = INVOCATION \<and> r \<in> set (return_of fwd s))"
  by (auto simp: return_edges_def)

lemma edge_cases:
  assumes "e \<in> set (buildEdges st)"
  obtains f where "e = forward_arrow f" "f \<in> set (forward_edges st)" "ze_kind e \<noteq> AK_return"
  | s r where "e = return_arrow r" "s \<in> set (si_all (ss_spans st))" "sp_kind s = INVOCATION"
      "r \<in> set (return_of (forward_edges st) s)"
  using assms forward_edge unfolding set_buildEdges by (fastforce simp: return_edge_cases forward_arrow_def)

text \<open>C27: The arrows of the sequence figure are sorted by time and never point at their own source; every return is at the end of an
  invocation and goes back to the agent whose arrow was the last into it before it started; and every finished invocation
  that some arrow called has such a return.\<close>

theorem arrows_call_and_return:
  "let es = buildEdges st; spans = si_all (ss_spans st)
   in sorted (map ze_t es) \<and> list_all (\<lambda>e. ze_from e \<noteq> ze_to e) es \<and>
      list_all (\<lambda>e. if ze_kind e = AK_return then list_ex (\<lambda>s. answers es s e) spans else True) es \<and>
      list_all (\<lambda>s. if sp_kind s = INVOCATION \<and> sp_endMs s \<noteq> None \<and> list_ex (call_of s) es then list_ex (answers es s) es else True) spans"
proof -
  define fwd where "fwd = forward_edges st"
  have "sorted (map ze_t (buildEdges st))" by (simp add: buildEdges_def Let_def)
  moreover have "ze_from e \<noteq> ze_to e" if "e \<in> set (buildEdges st)" for e
    using that
  proof (cases rule: edge_cases)
    case (1 f)
    then show ?thesis using forward_edge by (auto simp: forward_arrow_def)
  next
    case (2 s r)
    then show ?thesis by (auto simp: return_of_iff return_arrow_def)
  qed
  moreover have "\<exists>s\<in>set (si_all (ss_spans st)). answers (buildEdges st) s e" if "e \<in> set (buildEdges st)" "ze_kind e = AK_return" for e
    using that(1)
  proof (cases rule: edge_cases)
    case (1 f)
    with that(2) show ?thesis by simp
  next
    case (2 s r)
    then show ?thesis using return_answers [OF 2(2,3)] by (auto simp: return_of_iff intro!: bexI [of _ s])
  qed
  moreover have "\<exists>e\<in>set (buildEdges st). answers (buildEdges st) s e"
    if s: "s \<in> set (si_all (ss_spans st))" "sp_kind s = INVOCATION" "sp_endMs s \<noteq> None"
      and call: "g \<in> set (buildEdges st)" "call_of s g" for s g
  proof -
    obtain m where m: "sp_endMs s = Some m" using s(3) by blast
    obtain c where c: "last_caller (forward_edges st) s = Some c" "c \<in> set (callers (forward_edges st) s)"
      using call_in_edges [OF call] last_caller_spec [of "forward_edges st" s] by (auto split: option.splits)
    then have "re_fromId c \<noteq> sp_agentId s" using forward_edge [of c st] by (simp add: callers_arrow)
    then have "\<lparr>re_fromId = sp_agentId s, re_toId = re_fromId c, re_kind = AK_delegation, re_yMs = m\<rparr> \<in>
        set (return_edges (forward_edges st) (si_all (ss_spans st)))"
      using s m c(1) unfolding return_edge_cases return_of_iff by blast
    with return_answers [OF s(1,2) m c(1)] show ?thesis by (auto simp: set_buildEdges)
  qed
  ultimately show ?thesis unfolding Let_def list_all_iff list_ex_iff by auto
qed

section \<open>The lanes\<close>

lemma push_agents:
  assumes "\<exists>k. map za_ordinal (filter (\<lambda>l. za_synthetic l = None) out) = map (\<lambda>k. k mod 8 + 1) [0..<n] \<and> k = n"
  shows "let lanes = fst (foldl (push_agent g) (out, n) as); work = filter (\<lambda>l. za_synthetic l = None) lanes
    in map za_id lanes = map za_id out @ map ag_id as \<and> map za_ordinal work = map (\<lambda>k. k mod 8 + 1) [0..<length work]"
  using assms
proof (induction as arbitrary: out n)
  case Nil
  then have "map za_ordinal (filter (\<lambda>l. za_synthetic l = None) out) = map (\<lambda>k. k mod 8 + 1) [0..<n]" by blast
  moreover from this have "length (filter (\<lambda>l. za_synthetic l = None) out) = n" by (metis length_map length_upt minus_nat.diff_0)
  ultimately show ?case by (simp add: Let_def)
next
  case (Cons a as)
  show ?case
  proof (cases "syntheticKind (ag_id a) g")
    case None
    then obtain l where "push_agent g (out, n) a = (out @ [l], n + 1)" "za_id l = ag_id a" "za_ordinal l = n mod 8 + 1" "za_synthetic l = None"
      by (simp add: push_agent_def)
    with Cons.IH [of "out @ [l]" "n + 1"] Cons.prems show ?thesis by (simp add: Let_def)
  next
    case (Some x)
    then obtain l where "push_agent g (out, n) a = (out @ [l], n)" "za_id l = ag_id a" "za_synthetic l = Some x"
      by (simp add: push_agent_def)
    with Cons.IH [of "out @ [l]" "n"] Cons.prems show ?thesis by (simp add: Let_def)
  qed
qed

text \<open>Every agent row has a lane, in the order of the rows; the working agents take the eight lane colours in turn, so that two of
  them share a colour exactly when their positions among the working agents differ by a multiple of eight.\<close>

theorem lane_colours:
  "let lanes = buildAgents st; work = filter (\<lambda>l. za_synthetic l = None) lanes
   in map za_id lanes = map ag_id (ar_list (ss_agents st)) \<and>
      map colorVar work = map (\<lambda>k. ''var(--hg-agent-'' @ js_int (int (k mod 8 + 1)) @ '')'') [0..<length work] \<and>
      list_all (\<lambda>i. list_all (\<lambda>j. (colorVar (work ! i) = colorVar (work ! j)) = (i mod 8 = j mod 8)) [0..<length work]) [0..<length work]"
proof -
  define lanes where "lanes = buildAgents st"
  define work where "work = filter (\<lambda>l. za_synthetic l = None) lanes"
  note push = push_agents [of "[]" 0 "resolveGoldfiveActorId st GOLDFIVE_ACTOR_ID" "ar_list (ss_agents st)"]
  have ids: "map za_id lanes = map ag_id (ar_list (ss_agents st))"
    and ords: "map za_ordinal work = map (\<lambda>k. k mod 8 + 1) [0..<length work]"
    using push by (simp_all add: lanes_def work_def buildAgents_def Let_def)
  have color: "colorVar (work ! k) = ''var(--hg-agent-'' @ js_int (int (k mod 8 + 1)) @ '')''" if "k < length work" for k
  proof -
    have "za_ordinal (work ! k) = k mod 8 + 1" using arg_cong [OF ords, of "\<lambda>xs. xs ! k"] that by simp
    moreover have "za_synthetic (work ! k) = None" using that nth_mem [of k work] by (simp add: work_def)
    moreover have "k mod 8 + 1 \<le> 8" by (simp add: Suc_leI)
    ultimately show ?thesis by (simp add: colorVar_def Let_def)
  qed
  then have "map colorVar work = map (\<lambda>k. ''var(--hg-agent-'' @ js_int (int (k mod 8 + 1)) @ '')'') [0..<length work]"
    by (intro nth_equalityI) simp_all
  moreover have "(colorVar (work ! i) = colorVar (work ! j)) = (i mod 8 = j mod 8)" if "i < length work" "j < length work" for i j
    using that by (simp add: color)
  ultimately show ?thesis using ids unfolding Let_def lanes_def [symmetric] work_def [symmetric] by (simp add: list_all_iff)
qed

section \<open>The play-head\<close>

lemma zicatoSession_cases:
  assumes "zicatoSession (Some st) sid goal tickMs rows history c supers sel = Some z" and "\<not> zz_empty z"
  shows "zz_status z = deriveStatus st \<and> zz_spans z = buildSpans st (zz_now z) \<and>
    zz_now z = (if deriveStatus st = Z_live
                then max 0 (max (seconds (si_maxEndMs (ss_spans st))) (seconds (tickMs - ss_wallClockStartMs st)))
                else seconds (si_maxEndMs (ss_spans st)))"
  using assms by (auto simp: zicatoSession_def Let_def EMPTY_SESSION_def split: if_splits option.splits)

text \<open>The play-head of the zicato figures stops when the session has ended: it is then at the last end of any span, whatever the
  clock; while the session is live it is at the later of that and the clock. No bar reaches past it.\<close>

theorem playhead_bounds_bars:
  "let st' = st\<lparr>ss_spans := foldl span_step emptyIndex ops\<rparr>
   in case zicatoSession (Some st') sid goal tickMs rows history c supers sel of
        None \<Rightarrow> True
      | Some z \<Rightarrow>
          if zz_empty z then zz_spans z = []
          else list_all (\<lambda>b. zb_t1 b \<le> zz_now z) (zz_spans z) \<and>
               (if list_all (\<lambda>s. sp_endMs s \<noteq> None \<and> sp_status s \<in> {SP_COMPLETED, SP_FAILED, SP_CANCELLED}) (si_all (ss_spans st'))
                then zz_status z \<noteq> Z_live \<and> zz_now z = seconds (si_maxEndMs (ss_spans st'))
                else zz_status z = Z_live \<and> zz_now z \<ge> seconds (tickMs - ss_wallClockStartMs st))"
proof -
  define ix where "ix = foldl span_step emptyIndex ops"
  define st' where "st' = st\<lparr>ss_spans := ix\<rparr>"
  have ok: "span_ok ix" unfolding ix_def by (rule span_ok_run [OF span_ok_empty])
  have live: "deriveStatus st' \<noteq> Z_live \<longleftrightarrow>
      list_all (\<lambda>s. sp_endMs s \<noteq> None \<and> sp_status s \<in> {SP_COMPLETED, SP_FAILED, SP_CANCELLED}) (si_all (ss_spans st'))"
  proof -
    have "sp_status s \<in> {SP_COMPLETED, SP_FAILED, SP_CANCELLED} \<longleftrightarrow>
        \<not> (sp_status s = SP_RUNNING \<or> sp_status s = SP_PENDING \<or> sp_status s = SP_AWAITING_HUMAN)" for s :: span
      by (cases "sp_status s") simp_all
    then show ?thesis by (auto simp: deriveStatus_def Let_def list_all_iff list_ex_iff)
  qed
  have bars: "zb_t1 b \<le> now" if b: "b \<in> set (buildSpans st' now)" and now: "seconds (si_maxEndMs ix) \<le> now" for b now
  proof -
    obtain s where s: "s \<in> set (si_queryRange ix 0 (At (rat_of_int (si_maxEndMs ix + 1))) None)" "b = bar_of now s"
      using b by (auto simp: buildSpans_def Let_def st'_def)
    then have in_all: "s \<in> set (si_all ix)" and "startR s < rat_of_int (si_maxEndMs ix + 1)"
      using query_range_ok(2) [OF ok, of 0 "At (rat_of_int (si_maxEndMs ix + 1))"] by (auto simp: wanted_def)
    then have "sp_startMs s \<le> si_maxEndMs ix" by simp
    moreover have "end_or_start s \<le> si_maxEndMs ix"
      using in_all ok by (auto simp: si_all_iff [OF ok] span_ok_def si_maxEndMs_def)
    ultimately have "seconds (sp_startMs s) \<le> seconds (si_maxEndMs ix)" "seconds (end_or_start s) \<le> seconds (si_maxEndMs ix)"
      by simp_all
    then have le: "seconds (sp_startMs s) \<le> now" "seconds (end_or_start s) \<le> now" using now by linarith+
    then show ?thesis by (cases "sp_endMs s") (simp_all add: s(2) bar_of_def Let_def end_or_start_def)
  qed
  show ?thesis
  proof (cases "zicatoSession (Some st') sid goal tickMs rows history c supers sel")
    case None
    then show ?thesis by (simp add: st'_def ix_def Let_def)
  next
    case (Some z)
    have ixs: "ss_spans st' = ix" "ss_wallClockStartMs st' = ss_wallClockStartMs st" by (simp_all add: st'_def)
    have "if zz_empty z then zz_spans z = []
          else list_all (\<lambda>b. zb_t1 b \<le> zz_now z) (zz_spans z) \<and>
               (if deriveStatus st' \<noteq> Z_live
                then zz_status z \<noteq> Z_live \<and> zz_now z = seconds (si_maxEndMs (ss_spans st'))
                else zz_status z = Z_live \<and> zz_now z \<ge> seconds (tickMs - ss_wallClockStartMs st))"
    proof (cases "zz_empty z")
      case True
      then show ?thesis
        using Some by (auto simp: zicatoSession_def Let_def EMPTY_SESSION_def split: if_splits option.splits)
    next
      case False
      note z = zicatoSession_cases [OF Some False]
      have "seconds (si_maxEndMs ix) \<le> zz_now z" using z by (simp add: ixs split: if_splits)
      then have "list_all (\<lambda>b. zb_t1 b \<le> zz_now z) (zz_spans z)" using z bars by (simp add: list_all_iff)
      with z False show ?thesis by (simp add: ixs split: if_splits)
    qed
    with Some show ?thesis unfolding live unfolding st'_def ix_def Let_def by simp
  qed
qed

section \<open>When the bundle cannot be computed\<close>

definition inherited_name :: "string \<Rightarrow> bool" where
  "inherited_name k = (k \<in> set object_prototype_keys)"

lemma push_row_keys:
  "(case out of None \<Rightarrow> True | Some m \<Rightarrow> list_all (\<lambda>p. \<not> inherited_name (fst p)) m) \<Longrightarrow>
   (case push_row x k out of None \<Rightarrow> out = None \<or> inherited_name k | Some m \<Rightarrow>
      out \<noteq> None \<and> \<not> inherited_name k \<and> list_all (\<lambda>p. \<not> inherited_name (fst p)) m)"
proof (cases out)
  case (Some m)
  assume keys: "case out of None \<Rightarrow> True | Some m \<Rightarrow> list_all (\<lambda>p. \<not> inherited_name (fst p)) m"
  have upd: "list_all (\<lambda>p. \<not> inherited_name (fst p)) (AList.update k v m)" if "\<not> inherited_name k" for v
    using that keys set_update_subset [of k v m] by (fastforce simp: Some list_all_iff)
  have "\<not> inherited_name k" if "map_of m k = Some v" for v
    using that keys by (fastforce simp: Some list_all_iff dest: map_of_SomeD)
  with upd show ?thesis by (auto simp: push_row_def Some object_get_def inherited_name_def split: option.split)
qed (simp add: push_row_def)

lemma push_rows:
  "(case out of None \<Rightarrow> True | Some m \<Rightarrow> list_all (\<lambda>p. \<not> inherited_name (fst p)) m) \<Longrightarrow>
   foldl (\<lambda>out x. if skip x then out else push_row (row x) (key x) out) out xs = None \<longleftrightarrow>
     out = None \<or> (\<exists>x\<in>set xs. \<not> skip x \<and> inherited_name (key x))"
proof (induction xs arbitrary: out)
  case (Cons x xs)
  show ?case
  proof (cases "skip x")
    case False
    note step = push_row_keys [OF Cons.prems, where x = "row x" and k = "key x"]
    then have "case push_row (row x) (key x) out of None \<Rightarrow> True | Some m \<Rightarrow> list_all (\<lambda>p. \<not> inherited_name (fst p)) m"
      by (auto split: option.splits)
    from Cons.IH [OF this] step False show ?thesis by (auto split: option.splits)
  qed (use Cons in simp)
qed simp

text \<open>C29: The bundle of the zicato figures can be computed except in three cases: a drift or an intervention whose lane is named
  like a property of \<open>Object.prototype\<close>, which throws, and a plan whose critical path is never found, which hangs.\<close>

theorem zicato_bundle_fails_iff:
  "(zicatoSession (Some st) sid goal tickMs rows history c supers sel = None) =
     (\<not> (si_all (ss_spans st) = [] \<and> ar_list (ss_agents st) = []) \<and>
      (list_ex (\<lambda>d. let a = or_str (dr_agentId d) (resolveGoldfiveActorId st GOLDFIVE_ACTOR_ID) in a \<noteq> '''' \<and> inherited_name a)
         (rg_rows (ss_drifts st)) \<or>
       list_ex (\<lambda>r. inherited_name (or_str (iv_targetAgentId r) (goldfive_lane st))) rows \<or>
       (case c of None \<Rightarrow> False
        | Some p \<Rightarrow> tp_id p \<noteq> '''' \<and> criticalEdgeSet (map tk_id (tp_tasks p)) (tp_edges p) = None)))"
proof -
  have judges: "buildJudges st = None \<longleftrightarrow>
      list_ex (\<lambda>d. let a = or_str (dr_agentId d) (resolveGoldfiveActorId st GOLDFIVE_ACTOR_ID) in a \<noteq> '''' \<and> inherited_name a)
        (rg_rows (ss_drifts st))"
    using push_rows [of "Some []" "\<lambda>d. or_str (dr_agentId d) (resolveGoldfiveActorId st GOLDFIVE_ACTOR_ID) = ''''"
        "\<lambda>d. (seconds (dr_recordedAtMs d), severityToValue (dr_severity d))"
        "\<lambda>d. or_str (dr_agentId d) (resolveGoldfiveActorId st GOLDFIVE_ACTOR_ID)" "rg_rows (ss_drifts st)"]
    by (simp add: buildJudges_def Let_def list_ex_iff)
  have ticks: "buildTicks st rows = None \<longleftrightarrow> list_ex (\<lambda>r. inherited_name (or_str (iv_targetAgentId r) (goldfive_lane st))) rows"
    using push_rows [of "Some []" "\<lambda>r. False" "\<lambda>r. (seconds (iv_atMs r), or_str (iv_kind r) (source_name (iv_source r)))"
        "\<lambda>r. or_str (iv_targetAgentId r) (goldfive_lane st)" rows]
    by (simp add: buildTicks_def list_ex_iff)
  have plan: "buildPlan history c supers sel = None \<longleftrightarrow>
      (case c of None \<Rightarrow> False | Some p \<Rightarrow> tp_id p \<noteq> '''' \<and> criticalEdgeSet (map tk_id (tp_tasks p)) (tp_edges p) = None)"
    by (auto simp: buildPlan_def Let_def split_beta split: option.split)
  show ?thesis
    unfolding judges [symmetric] ticks [symmetric] plan [symmetric]
    by (simp add: zicatoSession_def Let_def split: option.split)
qed

section \<open>Agent colours are stable\<close>

lemma fnv1a_vectors:
  "fnv1a '''' = 0x811c9dc5 \<and> fnv1a ''a'' = 0xe40c292c \<and> fnv1a ''foobar'' = 0xbf9cf968"
  by (simp add: fnv1a_def fnv1a_step_def)

lemma agent_color_known:
  "palette \<noteq> [] \<Longrightarrow> colorForAgent palette agentId \<in> {USER_COLOR, GOLDFIVE_COLOR} \<union> set palette"
  by (simp add: colorForAgent_def)

end
