(* ===== verification/Sequence.thy ===== *)
theory Sequence
  imports Zicato
begin

text \<open>
  The sequence diagram, \<open>computeSequence\<close> of \<open>frontend/src/components/shell/views/GraphView.tsx\<close>: the arrows between agents,
  the order of the columns, the activation boxes and the marks of drifts, cancellations and corrections. The levels of the
  columns come from a worklist loop that has no bound of its own, so it is a \<open>partial_function (option)\<close>.
\<close>

section \<open>Reading numbers\<close>

definition is_digit :: "char \<Rightarrow> bool" where
  "is_digit c = (48 \<le> (of_char c :: nat) \<and> (of_char c :: nat) \<le> 57)"

definition digit_value :: "char \<Rightarrow> nat option" where
  "digit_value c =
     (let n = (of_char (to_lower_char c) :: nat)
      in if 48 \<le> n \<and> n \<le> 57 then Some (n - 48) else if 97 \<le> n \<and> n \<le> 122 then Some (n - 87) else None)"

fun radix_value :: "nat \<Rightarrow> nat \<Rightarrow> string \<Rightarrow> nat option" where
  "radix_value r acc [] = Some acc"
| "radix_value r acc (c # s) =
     (case digit_value c of None \<Rightarrow> None | Some d \<Rightarrow> if d < r then radix_value r (acc * r + d) s else None)"

definition exponent_value :: "string \<Rightarrow> int option" where
  "exponent_value s =
     (let (neg, ds) = (case s of c # r \<Rightarrow> if c = CHR ''-'' then (True, r) else if c = CHR ''+'' then (False, r) else (False, s)
                               | [] \<Rightarrow> (False, s))
      in if ds = '''' \<or> \<not> list_all is_digit ds then None
         else Some (if neg then - int (dec_value ds) else int (dec_value ds)))"

definition power_ten :: "int \<Rightarrow> rat" where
  "power_ten n = (if 0 \<le> n then 10 ^ nat n else 1 / 10 ^ nat (- n))"

definition decimal_value :: "string \<Rightarrow> rat option" where
  "decimal_value s =
     (let ip = takeWhile is_digit s; r1 = dropWhile is_digit s;
          (fp, r2) = (case r1 of c # r \<Rightarrow> if c = CHR ''.'' then (takeWhile is_digit r, dropWhile is_digit r) else ([], r1)
                               | [] \<Rightarrow> ([], r1));
          m = rat_of_int (int (dec_value (ip @ fp))) / 10 ^ length fp
      in if ip = '''' \<and> fp = '''' then None
         else (case r2 of
                 [] \<Rightarrow> Some m
               | c # r \<Rightarrow> if c = CHR ''e'' \<or> c = CHR ''E'' then map_option (\<lambda>n. m * power_ten n) (exponent_value r) else None))"

definition js_number :: "string \<Rightarrow> rat option" where
  \<comment> \<open>\<open>Number(s)\<close>, \<open>None\<close> when it is not finite; ASCII whitespace\<close>
  "js_number s =
     (let t = trim_both s; p = to_lower (take 2 t) in
      if t = '''' then Some 0
      else if p = ''0x'' \<or> p = ''0o'' \<or> p = ''0b''
      then (if drop 2 t = '''' then None
            else map_option rat_of_nat (radix_value (if p = ''0x'' then 16 else if p = ''0o'' then 8 else 2) 0 (drop 2 t)))
      else if hd t = CHR ''-'' then map_option uminus (decimal_value (tl t))
      else if hd t = CHR ''+'' then decimal_value (tl t)
      else decimal_value t)"

lemma js_number_examples:
  "map js_number ['' 12 '', ''-3.5'', ''0x1F'', ''1e2'', '''', ''abc'', ''Infinity''] =
     [Some 12, Some (- 7 / 2), Some 31, Some 100, Some 0, None, None]"
  by code_simp

section \<open>Forward arrows\<close>

record seq_raw =
  sr_fromId :: string
  sr_toId :: string
  sr_kind :: z_arrow_kind
  sr_yMs :: int
  sr_label :: string
  sr_spanId :: string

definition clip22 :: "string \<Rightarrow> string" where
  "clip22 s = (if length s > 22 then take 21 s @ ellipsis else s)"

definition seq_key :: "seq_raw \<Rightarrow> string" where
  "seq_key e = sr_fromId e @ arrow @ sr_toId e @ ''@'' @ js_int (half_seconds (sr_yMs e))"

type_synonym seq_state = "seq_raw list \<times> string list"

definition seq_push :: "seq_state \<Rightarrow> seq_raw \<Rightarrow> seq_state" where
  "seq_push s e = (fst s @ [e], set_add (seq_key e) (snd s))"

definition seq_push_new :: "seq_state \<Rightarrow> seq_raw \<Rightarrow> seq_state" where
  "seq_push_new s e = (if seq_key e \<in> set (snd s) then s else seq_push s e)"

definition linked_span :: "(string, span) jsmap \<Rightarrow> span_link \<Rightarrow> span option" where
  "linked_span spanById l = (if ln_targetSpanId l \<noteq> '''' then map_of spanById (ln_targetSpanId l) else None)"

definition seq_method1 :: "(string, span) jsmap \<Rightarrow> span list \<Rightarrow> seq_raw list" where
  "seq_method1 spanById allSpans =
     concat (map (\<lambda>s. map (\<lambda>l. \<lparr>sr_fromId = ln_targetAgentId l, sr_toId = sp_agentId s, sr_kind = AK_transfer,
                                sr_yMs = sp_startMs s,
                                sr_label = clip22 (or_str (str_of (map_option sp_name (linked_span spanById l))) (sp_name s)),
                                sr_spanId = (case linked_span spanById l of Some t \<Rightarrow> sp_id t | None \<Rightarrow> sp_id s)\<rparr>)
                        (other_agent_links s)) (filter (\<lambda>s. sp_kind s = INVOCATION) allSpans))"

definition seq_method1b :: "(string, span) jsmap \<Rightarrow> span list \<Rightarrow> seq_raw list" where
  "seq_method1b spanById allSpans =
     concat (map (\<lambda>s. map (\<lambda>l. \<lparr>sr_fromId = sp_agentId s, sr_toId = ln_targetAgentId l, sr_kind = AK_transfer,
                                sr_yMs = (case linked_span spanById l of Some t \<Rightarrow> sp_startMs t | None \<Rightarrow> sp_startMs s),
                                sr_label = clip22 (sp_name s), sr_spanId = sp_id s\<rparr>)
                        (other_agent_links s)) (filter (\<lambda>s. sp_kind s = TRANSFER) allSpans))"

definition seq_parent :: "(string, span) jsmap \<Rightarrow> span \<Rightarrow> seq_raw list" where
  "seq_parent spanById s =
     (case sp_parentSpanId s of
        None \<Rightarrow> []
      | Some p \<Rightarrow>
          if p = '''' then []
          else (case map_of spanById p of
                  None \<Rightarrow> []
                | Some parent \<Rightarrow>
                    if sp_agentId parent = sp_agentId s then []
                    else [\<lparr>sr_fromId = sp_agentId parent, sr_toId = sp_agentId s, sr_kind = AK_delegation,
                           sr_yMs = sp_startMs s, sr_label = clip22 (sp_name s), sr_spanId = sp_id s\<rparr>]))"

definition seq_method2 :: "(string, span) jsmap \<Rightarrow> span list \<Rightarrow> seq_raw list" where
  "seq_method2 spanById allSpans = concat (map (seq_parent spanById) (filter (\<lambda>s. sp_kind s = INVOCATION) allSpans))"

definition seq_method3 :: "delegation_record list \<Rightarrow> seq_raw list" where
  "seq_method3 ds =
     map (\<lambda>d. \<lparr>sr_fromId = dl_fromAgentId d, sr_toId = dl_toAgentId d, sr_kind = AK_delegation, sr_yMs = dl_observedAtMs d,
               sr_label = ''delegate'', sr_spanId = ''deleg-'' @ js_int (int (dl_seq d))\<rparr>)
       (filter (\<lambda>d. \<not> (dl_fromAgentId d = '''' \<or> dl_toAgentId d = '''') \<and> dl_fromAgentId d \<noteq> dl_toAgentId d) ds)"

definition MAX_SAFE_INTEGER :: int where
  "MAX_SAFE_INTEGER = 2 ^ 53 - 1"

definition seq_spans :: "session_store \<Rightarrow> span list" where
  "seq_spans st = si_queryRange (ss_spans st) (rat_of_int (- MAX_SAFE_INTEGER)) (At (rat_of_int MAX_SAFE_INTEGER)) None"

definition forwardArrows :: "session_store \<Rightarrow> seq_raw list" where
  \<comment> \<open>the transfer arrows, then the delegation arrows\<close>
  "forwardArrows st =
     (let allSpans = seq_spans st;
          spanById = span_by_id allSpans;
          s1 = foldl seq_push ([], []) (seq_method1 spanById allSpans);
          s2 = foldl seq_push_new s1 (seq_method1b spanById allSpans);
          s3 = foldl seq_push_new s2 (seq_method2 spanById allSpans)
      in fst (foldl seq_push_new s3 (seq_method3 (rg_rows (ss_delegations st)))))"

section \<open>Columns\<close>

definition seq_edge ::
    "(string, string list) jsmap \<times> (string, int) jsmap \<Rightarrow> seq_raw \<Rightarrow> (string, string list) jsmap \<times> (string, int) jsmap" where
  "seq_edge s e =
     (let (outAdj, inDegree) = s in
      if \<not> map_has outAdj (sr_fromId e) \<or> \<not> map_has inDegree (sr_toId e) then (outAdj, inDegree)
      else if sr_toId e \<in> set (get_list outAdj (sr_fromId e)) then (outAdj, inDegree)
      else (AList.update (sr_fromId e) (set_add (sr_toId e) (get_list outAdj (sr_fromId e))) outAdj,
            AList.update (sr_toId e) (get_num inDegree (sr_toId e) + 1) inDegree))"

definition seq_graph :: "string list \<Rightarrow> seq_raw list \<Rightarrow> (string, string list) jsmap \<times> (string, int) jsmap" where
  "seq_graph agents fwd =
     foldl seq_edge (foldl (\<lambda>(adj, deg) a. (AList.update a [] adj, AList.update a 0 deg)) ([], []) agents) fwd"

definition seq_roots :: "string list \<Rightarrow> (string, int) jsmap \<Rightarrow> (string, nat) jsmap \<times> string list" where
  "seq_roots agents inDegree =
     foldl (\<lambda>(level, queue) a. if get_num inDegree a = 0 then (AList.update a 0 level, queue @ [a]) else (level, queue))
       ([], []) agents"

definition seq_relax :: "nat \<Rightarrow> (string, nat) jsmap \<times> string list \<Rightarrow> string \<Rightarrow> (string, nat) jsmap \<times> string list" where
  "seq_relax curLvl s nxt =
     (let (level, queue) = s; nl = curLvl + 1
      in if (case map_of level nxt of None \<Rightarrow> True | Some d \<Rightarrow> d < nl) then (AList.update nxt nl level, queue @ [nxt])
         else (level, queue))"

partial_function (option) seq_levels ::
    "(string, string list) jsmap \<Rightarrow> (string, nat) jsmap \<Rightarrow> string list \<Rightarrow> (string, nat) jsmap option" where
  \<comment> \<open>the \<open>while (bfsQueue.length)\<close> loop\<close>
  "seq_levels adj level queue =
     (case queue of
        [] \<Rightarrow> Some level
      | cur # rest \<Rightarrow>
          (let s = foldl (seq_relax (get_num level cur)) (level, rest) (get_list adj cur)
           in seq_levels adj (fst s) (snd s)))"

declare seq_levels.simps [code]

definition agent_levels :: "string list \<Rightarrow> seq_raw list \<Rightarrow> (string, nat) jsmap option" where
  "agent_levels agents fwd =
     (let (outAdj, inDegree) = seq_graph agents fwd;
          (level, queue) = seq_roots agents inDegree
      in map_option (\<lambda>level. foldl (\<lambda>m a. if \<not> map_has m a then AList.update a 0 m else m) level agents)
           (seq_levels outAdj level queue))"

definition firstActivity :: "span list \<Rightarrow> (string, int) jsmap" where
  "firstActivity allSpans =
     foldl (\<lambda>m s. case map_of m (sp_agentId s) of
                    None \<Rightarrow> AList.update (sp_agentId s) (sp_startMs s) m
                  | Some prev \<Rightarrow> if sp_startMs s < prev then AList.update (sp_agentId s) (sp_startMs s) m else m)
       [] allSpans"

definition column_cmp :: "(string, nat) jsmap \<Rightarrow> (string, int) jsmap \<Rightarrow> string \<Rightarrow> string \<Rightarrow> int" where
  "column_cmp level first a b =
     (let la = int (get_num level a); lb = int (get_num level b)
      in if la \<noteq> lb then la - lb else get_num first a - get_num first b)"

definition colIdx :: "string list \<Rightarrow> (string, nat) jsmap" where
  "colIdx agentIds = foldl (\<lambda>m (i, a). AList.update a i m) [] (enumerate 0 agentIds)"

section \<open>Arrows and boxes\<close>

record seq_arrow =
  sa_id :: string
  sa_kind :: z_arrow_kind
  sa_fromCol :: nat
  sa_toCol :: nat
  sa_yMs :: int
  sa_label :: string

record activation_box =
  bx_agentIdx :: nat
  bx_startMs :: int
  bx_endMs :: "int option"
  bx_isRunning :: bool
  bx_spanId :: string
  bx_thinking :: bool

datatype glyph_variant = GV_drift | GV_cancel

record intervention_glyph =
  gl_id :: string
  gl_agentIdx :: nat
  gl_yMs :: int
  gl_severity :: string
  gl_kind :: string
  gl_detail :: string
  gl_driftSeq :: int
  gl_revisionIndex :: int
  gl_authoredBy :: string
  gl_variant :: glyph_variant

datatype steer_kind = SK_steer | SK_user_steer

record steering_arrow =
  sg_id :: string
  sg_fromCol :: nat
  sg_toCol :: nat
  sg_yMs :: int
  sg_kind :: steer_kind
  sg_label :: string
  sg_severity :: string
  sg_revisionIndex :: int
  sg_driftSeq :: "nat option"

record seq_layout =
  sl_agentIds :: "string list"
  sl_arrows :: "seq_arrow list"
  sl_activations :: "activation_box list"
  sl_totalMs :: int
  sl_glyphs :: "intervention_glyph list"
  sl_steerArrows :: "steering_arrow list"

definition return_label :: string where
  \<comment> \<open>the character U+21A9, then the word\<close>
  "return_label = CHR 0x1B # '' return''"

definition seq_caller :: "seq_raw list \<Rightarrow> span \<Rightarrow> seq_raw option" where
  "seq_caller fwd s =
     (case sort_key (\<lambda>e. - sr_yMs e) (filter (\<lambda>e. sr_yMs e \<le> sp_startMs s) (filter (\<lambda>e. sr_toId e = sp_agentId s) fwd)) of
        [] \<Rightarrow> None
      | e # _ \<Rightarrow> Some e)"

definition returnArrow :: "(string, nat) jsmap \<Rightarrow> seq_raw list \<Rightarrow> span \<Rightarrow> seq_arrow list" where
  "returnArrow col fwd s =
     (case sp_endMs s of
        None \<Rightarrow> []
      | Some e \<Rightarrow>
          (case seq_caller fwd s of
             None \<Rightarrow> []
           | Some caller \<Rightarrow>
               (case (map_of col (sp_agentId s), map_of col (sr_fromId caller)) of
                  (Some fromCol, Some toCol) \<Rightarrow>
                    if fromCol = toCol then []
                    else [\<lparr>sa_id = ''return-'' @ sp_id s, sa_kind = AK_return, sa_fromCol = fromCol, sa_toCol = toCol,
                           sa_yMs = e, sa_label = return_label\<rparr>]
                | _ \<Rightarrow> [])))"

definition forwardArrow :: "(string, nat) jsmap \<Rightarrow> nat \<times> seq_raw \<Rightarrow> seq_arrow list" where
  "forwardArrow col ie =
     (case (map_of col (sr_fromId (snd ie)), map_of col (sr_toId (snd ie))) of
        (Some fc, Some tc) \<Rightarrow>
          if fc = tc then []
          else [\<lparr>sa_id = ''fwd-'' @ js_int (int (fst ie)) @ ''-'' @ sr_spanId (snd ie), sa_kind = sr_kind (snd ie),
                 sa_fromCol = fc, sa_toCol = tc, sa_yMs = sr_yMs (snd ie), sa_label = sr_label (snd ie)\<rparr>]
      | _ \<Rightarrow> [])"

definition seq_arrows :: "(string, nat) jsmap \<Rightarrow> seq_raw list \<Rightarrow> span list \<Rightarrow> seq_arrow list" where
  "seq_arrows col fwd allSpans =
     concat (map (forwardArrow col) (enumerate 0 fwd)) @
     concat (map (returnArrow col fwd) (filter (\<lambda>s. sp_kind s = INVOCATION) allSpans))"

definition activations :: "(string, nat) jsmap \<Rightarrow> span list \<Rightarrow> activation_box list" where
  "activations col allSpans =
     List.map_filter (\<lambda>s. case map_of col (sp_agentId s) of
         None \<Rightarrow> None
       | Some idx \<Rightarrow> Some \<lparr>bx_agentIdx = idx, bx_startMs = sp_startMs s, bx_endMs = sp_endMs s,
                            bx_isRunning = (sp_endMs s = None), bx_spanId = sp_id s, bx_thinking = hasThinking s\<rparr>)
       (filter (\<lambda>s. sp_kind s = INVOCATION) allSpans)"

definition seq_total :: "int \<Rightarrow> span list \<Rightarrow> int" where
  "seq_total nowMs allSpans =
     foldl (\<lambda>t s. let e = (case sp_endMs s of Some e \<Rightarrow> e | None \<Rightarrow> nowMs) in if e > t then e else t) 1000 allSpans"

section \<open>Marks and corrections\<close>

definition known_severity :: "string \<Rightarrow> string" where
  "known_severity s = (if s = ''info'' \<or> s = ''warning'' \<or> s = ''critical'' then s else '''')"

definition drift_glyph :: "session_store \<Rightarrow> nat option \<Rightarrow> nat option \<Rightarrow> drift_record \<Rightarrow> intervention_glyph list" where
  "drift_glyph st userCol goldfiveCol d =
     (let isUser = (dr_authoredBy d = Some ''user'' \<or> starts_with (dr_kind d) ''user_'')
      in case (if isUser then userCol else goldfiveCol) of
           None \<Rightarrow> []
         | Some col \<Rightarrow>
             (let revIndex = (case find (\<lambda>p. str_of (tp_triggerEventId p) \<noteq> '''' \<and> tp_triggerEventId p = Some (dr_driftId d))
                                     (tr_listPlans (ss_tasks st)) of
                                None \<Rightarrow> 0
                              | Some p \<Rightarrow> (case tp_revisionIndex p of None \<Rightarrow> 0 | Some n \<Rightarrow> n))
              in [\<lparr>gl_id = ''gly-'' @ js_int (int (dr_seq d)), gl_agentIdx = col, gl_yMs = dr_recordedAtMs d,
                   gl_severity = known_severity (dr_severity d), gl_kind = or_str (dr_kind d) ''drift'',
                   gl_detail = dr_detail d, gl_driftSeq = int (dr_seq d), gl_revisionIndex = revIndex,
                   gl_authoredBy = or_str (str_of (dr_authoredBy d)) (if isUser then ''user'' else ''goldfive''),
                   gl_variant = GV_drift\<rparr>]))"

definition cancel_glyph :: "(string, nat) jsmap \<Rightarrow> invocation_cancel_record \<Rightarrow> intervention_glyph list" where
  "cancel_glyph col c =
     (case map_of col (ic_agentId c) of
        None \<Rightarrow> []
      | Some cancelCol \<Rightarrow>
          [\<lparr>gl_id = ''cancel-gly-'' @ js_int (int (ic_seq c)), gl_agentIdx = cancelCol, gl_yMs = ic_recordedAtMs c,
            gl_severity = known_severity (ic_severity c), gl_kind = or_str (ic_reason c) ''cancelled'',
            gl_detail = or_str (ic_detail c)
              (if ic_reason c \<noteq> '''' \<and> ic_driftKind c \<noteq> ''''
               then ''cancelled ('' @ ic_reason c @ '' '' @ arrow @ '' '' @ ic_driftKind c @ '')''
               else if ic_reason c \<noteq> '''' then ''cancelled ('' @ ic_reason c @ '')'' else ''cancelled''),
            gl_driftSeq = -1 - int (ic_seq c), gl_revisionIndex = 0, gl_authoredBy = ''goldfive'', gl_variant = GV_cancel\<rparr>])"

definition refineByRev :: "span list \<Rightarrow> (rat \<times> span) list" where
  "refineByRev goldfiveSpans =
     foldl (\<lambda>m s. case attrString (attr_get (sp_attributes s) ''refine.index'') of
                    None \<Rightarrow> m
                  | Some v \<Rightarrow> (case js_number v of None \<Rightarrow> m | Some n \<Rightarrow> AList.update n s m))
       [] (filter (\<lambda>s. starts_with (sp_name s) ''refine:'') goldfiveSpans)"

definition steer_arrow ::
    "(string, nat) jsmap \<Rightarrow> nat \<Rightarrow> (rat \<times> span) list \<Rightarrow> (string, drift_record) jsmap \<Rightarrow> task_plan \<Rightarrow> steering_arrow list" where
  "steer_arrow col goldfiveCol refines driftById plan =
     (let revIdx = (case tp_revisionIndex plan of None \<Rightarrow> 0 | Some n \<Rightarrow> n);
          refineSpan = map_of refines (rat_of_int revIdx);
          refineTarget = (case refineSpan of None \<Rightarrow> '''' | Some s \<Rightarrow> readStringAttr s ''refine.target_agent_id'');
          trigger = (if str_of (tp_triggerEventId plan) \<noteq> '''' then map_of driftById (str_of (tp_triggerEventId plan)) else None);
          targetAgent = or_str refineTarget (str_of (map_option dr_agentId trigger))
      in if revIdx \<le> 0 \<or> targetAgent = '''' then []
         else (case map_of col targetAgent of
                 None \<Rightarrow> []
               | Some targetCol \<Rightarrow>
                   if targetCol = goldfiveCol then []
                   else [\<lparr>sg_id = ''steer-'' @ tp_id plan @ ''-'' @ js_int revIdx, sg_fromCol = goldfiveCol, sg_toCol = targetCol,
                          sg_yMs = (case refineSpan of Some s \<Rightarrow> sp_startMs s | None \<Rightarrow> tp_createdAtMs plan), sg_kind = SK_steer,
                          sg_label = ''refine: '' @ or_str (or_str (or_str (str_of (tp_revisionKind plan)) (str_of (map_option dr_kind trigger)))
                                                       (tp_revisionReason plan)) ''refine'',
                          sg_severity = known_severity (str_of (map_option dr_severity trigger)), sg_revisionIndex = revIdx,
                          sg_driftSeq = map_option dr_seq trigger\<rparr>]))"

definition user_steer :: "nat \<Rightarrow> nat \<Rightarrow> drift_record \<Rightarrow> steering_arrow list" where
  "user_steer userCol goldfiveCol d =
     (if dr_kind d = '''' \<or> \<not> starts_with (dr_kind d) ''user_'' then []
      else [\<lparr>sg_id = ''user-steer-'' @ js_int (int (dr_seq d)), sg_fromCol = userCol, sg_toCol = goldfiveCol,
             sg_yMs = dr_recordedAtMs d, sg_kind = SK_user_steer, sg_label = ''user steer'',
             sg_severity = known_severity (dr_severity d), sg_revisionIndex = 0, sg_driftSeq = Some (dr_seq d)\<rparr>])"

definition steerArrows :: "session_store \<Rightarrow> (string, nat) jsmap \<Rightarrow> steering_arrow list" where
  "steerArrows st col =
     (let goldfiveId = resolveGoldfiveActorId st GOLDFIVE_ACTOR_ID; drifts = rg_rows (ss_drifts st)
      in case map_of col goldfiveId of
           None \<Rightarrow> []
         | Some goldfiveCol \<Rightarrow>
             concat (map (steer_arrow col goldfiveCol (refineByRev (si_queryAgent (ss_spans st) goldfiveId 0 Beyond [])) (drift_index drifts))
                       (tr_listPlans (ss_tasks st))) @
             (case map_of col USER_ACTOR_ID of
                None \<Rightarrow> []
              | Some userCol \<Rightarrow> concat (map (user_steer userCol goldfiveCol) drifts)))"

definition seq_glyphs :: "session_store \<Rightarrow> (string, nat) jsmap \<Rightarrow> intervention_glyph list" where
  "seq_glyphs st col =
     concat (map (drift_glyph st (map_of col USER_ACTOR_ID) (map_of col (resolveGoldfiveActorId st GOLDFIVE_ACTOR_ID)))
               (rg_rows (ss_drifts st))) @
     concat (map (cancel_glyph col) (rg_rows (ss_invocationCancels st)))"

definition agent_ids :: "session_store \<Rightarrow> string list" where
  "agent_ids st = map ag_id (ar_list (ss_agents st))"

definition computeSequence :: "session_store \<Rightarrow> seq_layout option" where
  \<comment> \<open>\<open>None\<close> is a call that does not return\<close>
  "computeSequence st =
     (let allSpans = seq_spans st; fwd = forwardArrows st
      in map_option (\<lambda>level.
           let agentIds = js_sort (column_cmp level (firstActivity allSpans)) (agent_ids st);
               col = colIdx agentIds
           in \<lparr>sl_agentIds = agentIds, sl_arrows = seq_arrows col fwd allSpans, sl_activations = activations col allSpans,
               sl_totalMs = seq_total (ss_nowMs st) allSpans, sl_glyphs = seq_glyphs st col, sl_steerArrows = steerArrows st col\<rparr>)
         (agent_levels (agent_ids st) fwd))"

section \<open>The levels of the columns\<close>

lemma seq_relax_levels:
  assumes "foldl (seq_relax l) (level, queue) vs = (level', queue')"
  shows "map_of level v = Some m \<Longrightarrow> \<exists>m'\<ge>m. map_of level' v = Some m'"
    and "v \<in> set vs \<Longrightarrow> \<exists>m'>l. map_of level' v = Some m'"
    and "map_of level' v \<noteq> map_of level v \<Longrightarrow> v \<in> set queue'"
    and "set queue \<subseteq> set queue'" and "set queue' \<subseteq> set queue \<union> set vs"
    and "map_of level' v = Some m \<Longrightarrow> map_of level v = Some m \<or> m = Suc l \<and> v \<in> set vs"
    and "v \<in> set queue' \<Longrightarrow> v \<in> set queue \<or> map_of level' v \<noteq> None"
proof -
  have "(\<forall>v m. map_of level v = Some m \<longrightarrow> (\<exists>m'\<ge>m. map_of level' v = Some m')) \<and>
      (\<forall>v\<in>set vs. \<exists>m'>l. map_of level' v = Some m') \<and>
      (\<forall>v. map_of level' v \<noteq> map_of level v \<longrightarrow> v \<in> set queue') \<and>
      set queue \<subseteq> set queue' \<and> set queue' \<subseteq> set queue \<union> set vs \<and>
      (\<forall>v m. map_of level' v = Some m \<longrightarrow> map_of level v = Some m \<or> m = Suc l \<and> v \<in> set vs) \<and>
      (\<forall>v\<in>set queue'. v \<in> set queue \<or> map_of level' v \<noteq> None)"
    using assms
  proof (induction vs arbitrary: level queue)
    case (Cons n vs)
    define push where "push = (case map_of level n of None \<Rightarrow> True | Some d \<Rightarrow> d < Suc l)"
    define level1 where "level1 = (if push then AList.update n (Suc l) level else level)"
    define queue1 where "queue1 = (if push then queue @ [n] else queue)"
    have "seq_relax l (level, queue) n = (level1, queue1)"
      by (simp add: seq_relax_def Let_def push_def level1_def queue1_def)
    then have "foldl (seq_relax l) (level1, queue1) vs = (level', queue')" using Cons.prems by simp
    note IH = Cons.IH [OF this]
    have of1: "map_of level1 v = (if push \<and> v = n then Some (Suc l) else map_of level v)" for v
      by (simp add: level1_def)
    have up: "\<exists>m'\<ge>m. map_of level1 v = Some m'" if "map_of level v = Some m" for v m
      using that by (auto simp: of1 push_def split: option.splits)
    have n1: "\<exists>m'>l. map_of level1 n = Some m'"
      by (cases "map_of level n") (auto simp: of1 push_def)
    have "\<exists>m'\<ge>m. map_of level' v = Some m'" if "map_of level v = Some m" for v m
      using up [OF that] IH by (meson order_trans)
    moreover have "\<exists>m'>l. map_of level' v = Some m'" if "v \<in> set (n # vs)" for v
      using that n1 IH by (metis less_le_trans set_ConsD)
    moreover have "v \<in> set queue'" if "map_of level' v \<noteq> map_of level v" for v
    proof (cases "map_of level' v = map_of level1 v")
      case True
      with that have "v \<in> set queue1" by (simp add: of1 queue1_def split: if_splits)
      with IH show ?thesis by blast
    qed (use IH in blast)
    moreover have "set queue \<subseteq> set queue' \<and> set queue' \<subseteq> set queue \<union> set (n # vs)"
    proof -
      have "set queue \<subseteq> set queue1" "set queue1 \<subseteq> insert n (set queue)" by (auto simp: queue1_def)
      then show ?thesis using IH by auto
    qed
    moreover have "map_of level v = Some m \<or> m = Suc l \<and> v \<in> set (n # vs)" if "map_of level' v = Some m" for v m
    proof -
      have "map_of level1 v = Some m \<or> m = Suc l \<and> v \<in> set vs" using IH that by blast
      then show ?thesis by (auto simp: of1 split: if_splits)
    qed
    moreover have "v \<in> set queue \<or> map_of level' v \<noteq> None" if "v \<in> set queue'" for v
    proof -
      have "v \<in> set queue1 \<or> map_of level' v \<noteq> None" using IH that by blast
      moreover have "map_of level' n \<noteq> None" using n1 IH by (metis option.distinct(1))
      ultimately show ?thesis by (auto simp: queue1_def split: if_splits)
    qed
    ultimately show ?case by blast
  qed auto
  then show "map_of level v = Some m \<Longrightarrow> \<exists>m'\<ge>m. map_of level' v = Some m'"
    and "v \<in> set vs \<Longrightarrow> \<exists>m'>l. map_of level' v = Some m'"
    and "map_of level' v \<noteq> map_of level v \<Longrightarrow> v \<in> set queue'"
    and "set queue \<subseteq> set queue'" and "set queue' \<subseteq> set queue \<union> set vs"
    and "map_of level' v = Some m \<Longrightarrow> map_of level v = Some m \<or> m = Suc l \<and> v \<in> set vs"
    and "v \<in> set queue' \<Longrightarrow> v \<in> set queue \<or> map_of level' v \<noteq> None"
    by blast+
qed

definition above :: "(string, nat) jsmap \<Rightarrow> nat \<Rightarrow> string \<Rightarrow> bool" where
  "above level l v = (case map_of level v of None \<Rightarrow> False | Some m \<Rightarrow> l < m)"

definition settled_inv :: "(string, string list) jsmap \<Rightarrow> (string, nat) jsmap \<Rightarrow> string list \<Rightarrow> bool" where
  \<comment> \<open>an agent with a level that is not in the queue has its callees on higher levels\<close>
  "settled_inv adj level queue =
     (\<forall>u l. map_of level u = Some l \<longrightarrow> u \<notin> set queue \<longrightarrow> (\<forall>v\<in>set (get_list adj u). above level l v))"

lemma settled_after_step:
  assumes inv: "settled_inv adj level (cur # rest)" and cur: "map_of level cur = Some l"
    and step: "foldl (seq_relax (get_num level cur)) (level, rest) (get_list adj cur) = (level', queue')"
  shows "settled_inv adj level' queue'"
  unfolding settled_inv_def
proof (intro allI impI ballI)
  fix u m v
  assume u: "map_of level' u = Some m" "u \<notin> set queue'" and v: "v \<in> set (get_list adj u)"
  have l: "get_num level cur = l" using cur by (simp add: get_num_def)
  note relax = seq_relax_levels [OF step [unfolded l]]
  have same: "map_of level u = Some m" using relax(3) [of u] u by metis
  show "above level' m v"
  proof (cases "u = cur")
    case True
    with relax(2) [of v] v cur same show ?thesis by (auto simp: above_def)
  next
    case False
    have "u \<notin> set (cur # rest)" using False relax(4) u(2) by auto
    with inv same v have "above level m v" unfolding settled_inv_def by blast
    then obtain k where "map_of level v = Some k" "m < k" by (auto simp: above_def split: option.splits)
    with relax(1) [of v k] show ?thesis by (auto simp: above_def)
  qed
qed

lemma seq_levels_settled:
  assumes "seq_levels adj level queue = Some final" and "settled_inv adj level queue" and "\<forall>v\<in>set queue. map_of level v \<noteq> None"
  shows "settled_inv adj final [] \<and> (\<forall>v. map_of level v \<noteq> None \<longrightarrow> map_of final v \<noteq> None)"
proof -
  have "settled_inv adj level queue \<longrightarrow> (\<forall>v\<in>set queue. map_of level v \<noteq> None) \<longrightarrow>
      settled_inv adj final [] \<and> (\<forall>v. map_of level v \<noteq> None \<longrightarrow> map_of final v \<noteq> None)"
    if "seq_levels adj level queue = Some final" for adj level queue final
  proof (rule seq_levels.raw_induct [OF _ that], intro impI)
    fix sl adj level queue final
    assume IH: "\<And>adj level queue final. sl adj level queue = Some final \<Longrightarrow>
        settled_inv adj level queue \<longrightarrow> (\<forall>v\<in>set queue. map_of level v \<noteq> None) \<longrightarrow>
        settled_inv adj final [] \<and> (\<forall>v. map_of level v \<noteq> None \<longrightarrow> map_of final v \<noteq> None)"
      and run: "(case queue of [] \<Rightarrow> Some level
        | cur # rest \<Rightarrow> (let s = foldl (seq_relax (get_num level cur)) (level, rest) (get_list adj cur) in sl adj (fst s) (snd s))) = Some final"
      and inv: "settled_inv adj level queue" and q: "\<forall>v\<in>set queue. map_of level v \<noteq> None"
    show "settled_inv adj final [] \<and> (\<forall>v. map_of level v \<noteq> None \<longrightarrow> map_of final v \<noteq> None)"
    proof (cases queue)
      case Nil
      with run inv show ?thesis by simp
    next
      case (Cons cur rest)
      obtain level' queue' where step: "foldl (seq_relax (get_num level cur)) (level, rest) (get_list adj cur) = (level', queue')"
        by fastforce
      obtain l where l: "map_of level cur = Some l" using q Cons by auto
      note relax = seq_relax_levels [OF step]
      have "sl adj level' queue' = Some final" using run by (simp add: Cons step)
      moreover have "settled_inv adj level' queue'" using settled_after_step [OF inv [unfolded Cons] l step] .
      moreover have up: "map_of level' v \<noteq> None" if "map_of level v \<noteq> None" for v using relax(1) [of v] that by auto
      moreover have "map_of level' v \<noteq> None" if "v \<in> set queue'" for v
        using relax(7) [OF that] q up Cons by auto
      ultimately show ?thesis using IH by blast
    qed
  qed
  with assms show ?thesis by blast
qed

lemma settled_path:
  assumes "settled_inv adj final []" and "\<And>u. set (get_list adj u) = {v. (u, v) \<in> G}"
  shows "(u, v) \<in> G\<^sup>+ \<Longrightarrow> map_of final u = Some l \<Longrightarrow> above final l v"
proof (induction rule: trancl_induct)
  case (base v)
  then show ?case using assms by (auto simp: settled_inv_def)
next
  case (step v w)
  then obtain m where m: "map_of final v = Some m" "l < m" by (auto simp: above_def split: option.splits)
  then have "above final m w" using assms step.hyps(2) by (auto simp: settled_inv_def)
  with m(2) show ?case by (auto simp: above_def split: option.splits)
qed

subsection \<open>Without a reachable cycle the loop ends\<close>

definition level_room :: "nat \<Rightarrow> string set \<Rightarrow> (string, nat) jsmap \<Rightarrow> nat" where
  "level_room N R level = (\<Sum>v\<in>R. case map_of level v of None \<Rightarrow> N + 1 | Some m \<Rightarrow> N - m)"

lemma level_room_update:
  assumes "finite R" "n \<in> R" "k \<le> N" "case map_of level n of None \<Rightarrow> True | Some d \<Rightarrow> d < k"
  shows "level_room N R (AList.update n k level) < level_room N R level"
  unfolding level_room_def
proof (rule sum_strict_mono_ex1 [OF assms(1)])
  show "\<forall>v\<in>R. (case map_of (AList.update n k level) v of None \<Rightarrow> N + 1 | Some m \<Rightarrow> N - m) \<le>
      (case map_of level v of None \<Rightarrow> N + 1 | Some m \<Rightarrow> N - m)"
    using assms(3,4) by (auto split: option.splits)
  show "\<exists>v\<in>R. (case map_of (AList.update n k level) v of None \<Rightarrow> N + 1 | Some m \<Rightarrow> N - m) <
      (case map_of level v of None \<Rightarrow> N + 1 | Some m \<Rightarrow> N - m)"
    using assms(2-4) by (intro bexI [of _ n]) (auto split: option.splits)
qed

lemma seq_relax_room:
  assumes "finite R" and "Suc l \<le> N"
  shows "set vs \<subseteq> R \<Longrightarrow> foldl (seq_relax l) (level, queue) vs = (level', queue') \<Longrightarrow>
    2 * level_room N R level' + length queue' \<le> 2 * level_room N R level + length queue"
proof (induction vs arbitrary: level queue)
  case (Cons n vs)
  show ?case
  proof (cases "case map_of level n of None \<Rightarrow> True | Some d \<Rightarrow> d < Suc l")
    case True
    then have "seq_relax l (level, queue) n = (AList.update n (Suc l) level, queue @ [n])" by (simp add: seq_relax_def Let_def)
    then have "2 * level_room N R level' + length queue' \<le> 2 * level_room N R (AList.update n (Suc l) level) + length (queue @ [n])"
      using Cons.prems by (intro Cons.IH) auto
    moreover have "level_room N R (AList.update n (Suc l) level) < level_room N R level"
      using Cons.prems(1) True by (intro level_room_update [OF assms(1) _ assms(2)]) auto
    ultimately show ?thesis by simp
  next
    case False
    then have "seq_relax l (level, queue) n = (level, queue)" by (simp add: seq_relax_def Let_def)
    with Cons show ?thesis by auto
  qed
qed simp

definition ranked :: "(string \<Rightarrow> nat) \<Rightarrow> string set \<Rightarrow> (string, nat) jsmap \<Rightarrow> bool" where
  "ranked r R level \<longleftrightarrow> (\<forall>v m. map_of level v = Some m \<longrightarrow> v \<in> R \<and> m \<le> r v)"

lemma seq_levels_total:
  assumes fin: "finite R" and N: "\<And>v. v \<in> R \<Longrightarrow> r v \<le> N"
    and up: "\<And>u v. u \<in> R \<Longrightarrow> v \<in> set (get_list adj u) \<Longrightarrow> v \<in> R \<and> r u < r v"
  shows "ranked r R level \<Longrightarrow> \<forall>v\<in>set queue. map_of level v \<noteq> None \<Longrightarrow> \<exists>final. seq_levels adj level queue = Some final \<and> ranked r R final"
proof (induction "2 * level_room N R level + length queue" arbitrary: level queue rule: less_induct)
  case less
  show ?case
  proof (cases queue)
    case Nil
    with less.prems show ?thesis by (subst seq_levels.simps) simp
  next
    case (Cons cur rest)
    obtain l where l: "map_of level cur = Some l" using less.prems(2) Cons by auto
    then have num: "get_num level cur = l" by (simp add: get_num_def)
    have cur: "cur \<in> R" "l \<le> r cur" using less.prems(1) l by (auto simp: ranked_def)
    obtain level' queue' where step: "foldl (seq_relax l) (level, rest) (get_list adj cur) = (level', queue')" by fastforce
    note relax = seq_relax_levels [OF step]
    have "2 * level_room N R level' + length queue' < 2 * level_room N R level + length queue"
    proof (cases "get_list adj cur = []")
      case True
      with step Cons show ?thesis by simp
    next
      case False
      then obtain v where v: "v \<in> set (get_list adj cur)" by (meson list.set_sel(1))
      with up [OF cur(1) v] N cur(2) have "Suc l \<le> N" by fastforce
      from seq_relax_room [OF fin this _ step] up [OF cur(1)] Cons show ?thesis by (simp add: subset_iff)
    qed
    moreover have "ranked r R level'"
      unfolding ranked_def
    proof (intro allI impI)
      fix v m assume "map_of level' v = Some m"
      from relax(6) [OF this] show "v \<in> R \<and> m \<le> r v"
        using less.prems(1) up [OF cur(1), of v] cur(2) by (auto simp: ranked_def)
    qed
    moreover have "\<forall>v\<in>set queue'. map_of level' v \<noteq> None"
    proof
      fix v assume "v \<in> set queue'"
      then have "v \<in> set rest \<or> map_of level' v \<noteq> None" by (rule relax(7))
      moreover have "map_of level' v \<noteq> None" if "v \<in> set rest" using less.prems(2) that relax(1) [of v] Cons by fastforce
      ultimately show "map_of level' v \<noteq> None" by blast
    qed
    ultimately have "\<exists>final. seq_levels adj level' queue' = Some final \<and> ranked r R final" by (rule less.hyps)
    then show ?thesis by (subst seq_levels.simps) (simp add: Cons num step)
  qed
qed

lemma acyclic_pred_count:
  assumes "finite G" and "acyclic G" and "(u, v) \<in> G"
  shows "card {w. (w, u) \<in> G\<^sup>+} < card {w. (w, v) \<in> G\<^sup>+}"
proof (rule psubset_card_mono)
  have "finite (G\<^sup>+)" using assms(1) by simp
  then show "finite {w. (w, v) \<in> G\<^sup>+}" by (rule finite_surj [where f = fst]) force
  have "(w, v) \<in> G\<^sup>+" if "(w, u) \<in> G\<^sup>+" for w using that assms(3) by (rule trancl_into_trancl)
  moreover have "(u, v) \<in> G\<^sup>+" using assms(3) by blast
  moreover have "(u, u) \<notin> G\<^sup>+" using assms(2) by (simp add: acyclic_def)
  ultimately show "{w. (w, u) \<in> G\<^sup>+} \<subset> {w. (w, v) \<in> G\<^sup>+}" by blast
qed

subsection \<open>The graph of the agents\<close>

definition agent_graph :: "string list \<Rightarrow> seq_raw list \<Rightarrow> (string \<times> string) set" where
  \<comment> \<open>who calls whom among the agents that have a row\<close>
  "agent_graph agents fwd = {(u, v). u \<in> set agents \<and> v \<in> set agents \<and> (\<exists>e\<in>set fwd. sr_fromId e = u \<and> sr_toId e = v)}"

lemma agent_graph_pairs:
  "agent_graph agents fwd = (\<lambda>e. (sr_fromId e, sr_toId e)) ` set fwd \<inter> set agents \<times> set agents"
  by (auto simp: agent_graph_def)

lemma finite_agent_graph: "finite (agent_graph agents fwd)"
  by (rule finite_subset [of _ "set agents \<times> set agents"]) (auto simp: agent_graph_def)

lemma agent_graph_Cons:
  "agent_graph agents (fwd @ [e]) =
     (if sr_fromId e \<in> set agents \<and> sr_toId e \<in> set agents then insert (sr_fromId e, sr_toId e) (agent_graph agents fwd)
      else agent_graph agents fwd)"
  by (auto simp: agent_graph_def)

definition graph_ok :: "string set \<Rightarrow> (string \<times> string) set \<Rightarrow> (string, string list) jsmap \<times> (string, int) jsmap \<Rightarrow> bool" where
  "graph_ok V G s \<longleftrightarrow>
     (\<forall>v. (map_has (fst s) v \<longleftrightarrow> v \<in> V) \<and> (map_has (snd s) v \<longleftrightarrow> v \<in> V) \<and> set (get_list (fst s) v) = {w. (v, w) \<in> G} \<and>
          get_num (snd s) v = int (card {u. (u, v) \<in> G}))"

lemma graph_ok_edge:
  assumes ok: "graph_ok V G s" and fin: "finite G"
  shows "graph_ok V (if sr_fromId e \<in> V \<and> sr_toId e \<in> V then insert (sr_fromId e, sr_toId e) G else G) (seq_edge s e)"
proof -
  obtain adj deg where s: "s = (adj, deg)" by (cases s)
  define u v where uv: "u = sr_fromId e" "v = sr_toId e"
  have has: "map_has adj w \<longleftrightarrow> w \<in> V" "map_has deg w \<longleftrightarrow> w \<in> V" and adj: "set (get_list adj w) = {x. (w, x) \<in> G}"
    and deg: "get_num deg w = int (card {x. (x, w) \<in> G})" for w
    using ok by (simp_all add: graph_ok_def s)
  show ?thesis
  proof (cases "u \<in> V \<and> v \<in> V \<and> (u, v) \<notin> G")
    case False
    then have "seq_edge s e = s" by (auto simp: seq_edge_def s has adj uv)
    moreover have "(if u \<in> V \<and> v \<in> V then insert (u, v) G else G) = G" using False by auto
    ultimately show ?thesis using ok by (simp only: uv [symmetric])
  next
    case True
    then have step: "seq_edge s e = (AList.update u (set_add v (get_list adj u)) adj, AList.update v (get_num deg v + 1) deg)"
      by (auto simp: seq_edge_def s has adj uv)
    have fin': "finite {x. (x, w) \<in> G}" for w using fin by (rule finite_surj [where f = fst]) force
    have "card {x. (x, w) \<in> insert (u, v) G} = (if w = v then Suc (card {x. (x, v) \<in> G}) else card {x. (x, w) \<in> G})" for w
    proof (cases "w = v")
      case wv: True
      have "{x. (x, w) \<in> insert (u, v) G} = insert u {x. (x, v) \<in> G}" by (auto simp: wv)
      with True fin' [of v] show ?thesis by (simp add: wv)
    qed auto
    moreover have "set (get_list (AList.update u (set_add v (get_list adj u)) adj) w) = {x. (w, x) \<in> insert (u, v) G}" for w
      using adj [of u] adj [of w] by (auto simp: get_list_def)
    ultimately have "graph_ok V (insert (u, v) G) (seq_edge s e)"
      using True has deg unfolding graph_ok_def step fst_conv snd_conv by (simp add: del: insert_iff) auto
    with True show ?thesis by (simp add: uv)
  qed
qed

lemma graph_ok_all: "graph_ok (set agents) (agent_graph agents fwd) (seq_graph agents fwd)"
proof (induction fwd rule: rev_induct)
  case Nil
  have "map_has (foldl (\<lambda>m a. AList.update a ([] :: string list) m) [] agents) v \<longleftrightarrow> v \<in> set agents" for v
    using has_fold_update [of "\<lambda>x. x" "\<lambda>_. [] :: string list" "[]" agents v] by simp
  moreover have "map_has (foldl (\<lambda>m a. AList.update a (0 :: int) m) [] agents) v \<longleftrightarrow> v \<in> set agents" for v
    using has_fold_update [of "\<lambda>x. x" "\<lambda>_. 0 :: int" "[]" agents v] by simp
  moreover have "get_list (foldl (\<lambda>m a. AList.update a ([] :: string list) m) [] agents) v = []" for v
    using list_fold_update [of "[] :: (string, string list) jsmap" agents v] by (simp add: get_list_def)
  moreover have "get_num (foldl (\<lambda>m a. AList.update a (0 :: int) m) [] agents) v = 0" for v
    using num_fold_update [of "\<lambda>x. x" "\<lambda>_. 0 :: int" "[]" agents v] by (simp add: get_num_def)
  ultimately show ?case
    unfolding seq_graph_def foldl_Nil topo_nodes graph_ok_def by (simp add: agent_graph_def)
next
  case (snoc e fwd)
  then show ?case
    using graph_ok_edge [OF snoc finite_agent_graph, of e] by (simp add: seq_graph_def agent_graph_Cons)
qed

lemma seq_roots_spec:
  assumes "seq_roots agents deg = (level, queue)"
  shows "map_of level v = (if v \<in> set queue then Some 0 else None)"
    and "set queue = {a \<in> set agents. get_num deg a = 0}"
proof -
  have "map_of (fst (foldl (\<lambda>(level, queue) a. if get_num deg a = 0 then (AList.update a 0 level, queue @ [a]) else (level, queue)) (m, q) as)) v =
        (if v \<in> {a \<in> set as. get_num deg a = 0} then Some 0 else map_of m v) \<and>
      set (snd (foldl (\<lambda>(level, queue) a. if get_num deg a = 0 then (AList.update a 0 level, queue @ [a]) else (level, queue)) (m, q) as)) =
        set q \<union> {a \<in> set as. get_num deg a = 0}" for m :: "(string, nat) jsmap" and q as v
    by (induction as arbitrary: m q) auto
  from this [of "[]" "[]" agents] assms show "map_of level v = (if v \<in> set queue then Some 0 else None)"
    and "set queue = {a \<in> set agents. get_num deg a = 0}"
    by (simp_all add: seq_roots_def)
qed

definition call_roots :: "string list \<Rightarrow> (string \<times> string) set \<Rightarrow> string set" where
  \<comment> \<open>the agents that no agent calls\<close>
  "call_roots agents G = set agents - Range G"

lemma agent_levels_run:
  assumes "seq_graph agents fwd = (adj, deg)" and "seq_roots agents deg = (level, queue)"
  shows "set queue = call_roots agents (agent_graph agents fwd)"
    and "\<And>u. set (get_list adj u) = {v. (u, v) \<in> agent_graph agents fwd}"
    and "settled_inv adj level queue" and "\<forall>v\<in>set queue. map_of level v \<noteq> None"
proof -
  have fin: "finite {u. (u, v) \<in> agent_graph agents fwd}" for v
    using finite_agent_graph by (rule finite_surj [where f = fst]) force
  note ok = graph_ok_all [of agents fwd, unfolded assms(1) graph_ok_def fst_conv snd_conv, rule_format]
  show "set queue = call_roots agents (agent_graph agents fwd)"
    unfolding seq_roots_spec(2) [OF assms(2)] call_roots_def using ok fin by auto
  show "\<And>u. set (get_list adj u) = {v. (u, v) \<in> agent_graph agents fwd}" using ok by blast
  show "settled_inv adj level queue" using seq_roots_spec(1) [OF assms(2)] by (simp add: settled_inv_def)
  show "\<forall>v\<in>set queue. map_of level v \<noteq> None" using seq_roots_spec(1) [OF assms(2)] by simp
qed

lemma agent_levels_hang_iff:
  "(agent_levels agents fwd = None) =
     (\<exists>r w. r \<in> call_roots agents (agent_graph agents fwd) \<and> (r, w) \<in> (agent_graph agents fwd)\<^sup>* \<and> (w, w) \<in> (agent_graph agents fwd)\<^sup>+)"
proof -
  define G where "G = agent_graph agents fwd"
  obtain adj deg where g: "seq_graph agents fwd = (adj, deg)" by fastforce
  obtain level queue where q: "seq_roots agents deg = (level, queue)" by fastforce
  note run = agent_levels_run [OF g q, folded G_def]
  have hang: "agent_levels agents fwd = None \<longleftrightarrow> seq_levels adj level queue = None"
    by (simp add: agent_levels_def g q)
  show ?thesis
  proof
    assume none: "agent_levels agents fwd = None"
    show "\<exists>r w. r \<in> call_roots agents (agent_graph agents fwd) \<and> (r, w) \<in> (agent_graph agents fwd)\<^sup>* \<and> (w, w) \<in> (agent_graph agents fwd)\<^sup>+"
    proof (rule ccontr)
      assume no: "\<not> ?thesis"
      define R where "R = {w. \<exists>r\<in>call_roots agents G. (r, w) \<in> G\<^sup>*}"
      define H where "H = {(u, v) \<in> G. u \<in> R}"
      have finG: "finite G" unfolding G_def by (rule finite_agent_graph)
      have finR: "finite R"
      proof -
        have "R \<subseteq> set agents \<union> snd ` G"
        proof
          fix w assume "w \<in> R"
          then obtain r where "r \<in> set agents" "(r, w) \<in> G\<^sup>*" by (auto simp: R_def call_roots_def)
          from this(2) this(1) show "w \<in> set agents \<union> snd ` G" by (cases rule: rtranclE) force+
        qed
        then show ?thesis using finG finite_subset by blast
      qed
      have sub: "H \<subseteq> G" by (auto simp: H_def)
      have "acyclic H"
      proof (rule acyclicI, intro allI notI)
        fix w assume w: "(w, w) \<in> H\<^sup>+"
        then have "w \<in> R" by (cases rule: tranclE) (auto simp: H_def R_def dest: tranclD)
        moreover have "(w, w) \<in> G\<^sup>+" using w sub trancl_mono by blast
        ultimately show False using no by (auto simp: R_def G_def)
      qed
      moreover have "finite H" using sub finG finite_subset by blast
      ultimately have up: "v \<in> R \<and> card {x. (x, u) \<in> H\<^sup>+} < card {x. (x, v) \<in> H\<^sup>+}"
        if "u \<in> R" "v \<in> set (get_list adj u)" for u v
      proof -
        have "(u, v) \<in> H" using that run(2) by (simp add: H_def)
        moreover have "v \<in> R"
        proof -
          have "(u, v) \<in> G" using that(2) run(2) by blast
          moreover from that(1) obtain r where "r \<in> call_roots agents G" "(r, u) \<in> G\<^sup>*" unfolding R_def by blast
          ultimately show ?thesis unfolding R_def using rtrancl_into_rtrancl [of r u G v] by blast
        qed
        ultimately show ?thesis using acyclic_pred_count [OF \<open>finite H\<close> \<open>acyclic H\<close>, of u v] by blast
      qed
      define N where "N = Max (insert 0 ((\<lambda>v. card {x. (x, v) \<in> H\<^sup>+}) ` R))"
      have N: "card {x. (x, v) \<in> H\<^sup>+} \<le> N" if "v \<in> R" for v
        unfolding N_def using finR that by (intro Max_ge) auto
      have ranked: "ranked (\<lambda>v. card {x. (x, v) \<in> H\<^sup>+}) R level"
        using seq_roots_spec(1) [OF q] run(1) by (auto simp: ranked_def R_def split: if_splits)
      have "\<exists>final. seq_levels adj level queue = Some final \<and> ranked (\<lambda>v. card {x. (x, v) \<in> H\<^sup>+}) R final"
        by (rule seq_levels_total [of R "\<lambda>v. card {x. (x, v) \<in> H\<^sup>+}" N adj, OF finR N _ ranked run(4)]) (use up in blast)+
      with none hang show False by auto
    qed
  next
    assume "\<exists>r w. r \<in> call_roots agents (agent_graph agents fwd) \<and> (r, w) \<in> (agent_graph agents fwd)\<^sup>* \<and> (w, w) \<in> (agent_graph agents fwd)\<^sup>+"
    then obtain r w where r: "r \<in> set queue" "(r, w) \<in> G\<^sup>*" "(w, w) \<in> G\<^sup>+" using run(1) G_def by blast
    show "agent_levels agents fwd = None"
    proof (rule ccontr)
      assume "agent_levels agents fwd \<noteq> None"
      then obtain final where "seq_levels adj level queue = Some final" using hang by auto
      note fin = seq_levels_settled [OF this run(3,4)]
      have "map_of final r \<noteq> None" using fin r(1) run(4) by blast
      then obtain k where k: "map_of final r = Some k" by blast
      have "map_of final w \<noteq> None"
        using r(2) settled_path [OF fin [THEN conjunct1] run(2) _ k, of w] k
        by (auto simp: above_def rtrancl_eq_or_trancl split: option.splits)
      then obtain m where "map_of final w = Some m" by blast
      with settled_path [OF fin [THEN conjunct1] run(2) r(3)] show False by (auto simp: above_def)
    qed
  qed
qed

lemma computeSequence_None: "computeSequence st = None \<longleftrightarrow> agent_levels (agent_ids st) (forwardArrows st) = None"
  by (simp add: computeSequence_def Let_def)

text \<open>C7: The sequence diagram is computed exactly when no cycle of calls can be reached from an agent that no agent calls; otherwise
  the loop that assigns the columns never ends.\<close>

theorem sequence_hangs_iff:
  "let G = agent_graph (agent_ids st) (forwardArrows st)
   in (computeSequence st = None) = (\<exists>r w. r \<in> call_roots (agent_ids st) G \<and> (r, w) \<in> G\<^sup>* \<and> (w, w) \<in> G\<^sup>+)"
  unfolding Let_def computeSequence_None by (rule agent_levels_hang_iff)

definition demoSeqAgent :: "string \<Rightarrow> agent" where
  "demoSeqAgent i = \<lparr>ag_id = i, ag_name = i, ag_framework = ADK, ag_capabilities = [], ag_status = CONNECTED, ag_connectedAtMs = 0,
     ag_currentActivity = '''', ag_stuck = False, ag_taskReport = '''', ag_taskReportAt = 0, ag_metadata = []\<rparr>"

definition demoDelegation :: "string \<Rightarrow> string \<Rightarrow> int \<Rightarrow> delegation_record" where
  "demoDelegation u v t = \<lparr>dl_seq = 0, dl_fromAgentId = u, dl_toAgentId = v, dl_taskId = '''', dl_invocationId = '''',
     dl_observedAtMs = t, dl_observedAtAbsoluteMs = t\<rparr>"

definition demoCalls :: "string list \<Rightarrow> (string \<times> string \<times> int) list \<Rightarrow> session_store" where
  "demoCalls agents calls =
     emptyStore\<lparr>ss_agents := foldl ar_upsert emptyAgents (map demoSeqAgent agents),
       ss_delegations := foldl (\<lambda>r (u, v, t). dl_append (demoDelegation u v t, None) r) emptyRegistry calls\<rparr>"

text \<open>A coordinator that calls a worker, which calls another, which calls the first back, makes the sequence diagram hang; without
  the call back it is computed.\<close>

theorem call_back_hangs:
  "computeSequence (demoCalls [''c'', ''a'', ''b''] [(''c'', ''a'', 0), (''a'', ''b'', 1000), (''b'', ''a'', 2000)]) = None \<and>
   map_option sl_agentIds (computeSequence (demoCalls [''b'', ''c'', ''a''] [(''c'', ''a'', 0), (''a'', ''b'', 1000)])) =
     Some [''c'', ''a'', ''b'']"
proof -
  define st where "st = demoCalls [''c'', ''a'', ''b''] [(''c'', ''a'', 0), (''a'', ''b'', 1000), (''b'', ''a'', 2000)]"
  define G where "G = agent_graph (agent_ids st) (forwardArrows st)"
  have ids: "agent_ids st = [''c'', ''a'', ''b'']" unfolding st_def by code_simp
  have "map (\<lambda>e. (sr_fromId e, sr_toId e)) (forwardArrows st) = [(''c'', ''a''), (''a'', ''b''), (''b'', ''a'')]"
    unfolding st_def by code_simp
  then have "set (map (\<lambda>e. (sr_fromId e, sr_toId e)) (forwardArrows st)) = set [(''c'', ''a''), (''a'', ''b''), (''b'', ''a'')]"
    by (rule arg_cong)
  then have "(\<lambda>e. (sr_fromId e, sr_toId e)) ` set (forwardArrows st) = {(''c'', ''a''), (''a'', ''b''), (''b'', ''a'')}"
    by simp
  then have G: "G = {(''c'', ''a''), (''a'', ''b''), (''b'', ''a'')}"
    unfolding G_def agent_graph_pairs ids by simp
  have root: "''c'' \<in> call_roots (agent_ids st) G" by (simp add: call_roots_def ids G Range_insert)
  have reach: "(''c'', ''a'') \<in> G\<^sup>*" by (rule r_into_rtrancl) (simp add: G)
  have cycle: "(''a'', ''a'') \<in> G\<^sup>+"
    by (rule trancl_into_trancl2 [of _ "''b''"]) (auto simp: G)
  have "computeSequence st = None"
    unfolding computeSequence_None agent_levels_hang_iff G_def [symmetric]
    by (intro exI [of _ "''c''"] exI [of _ "''a''"] conjI root reach cycle)
  moreover have "map_option sl_agentIds (computeSequence (demoCalls [''b'', ''c'', ''a''] [(''c'', ''a'', 0), (''a'', ''b'', 1000)])) =
     Some [''c'', ''a'', ''b'']"
    by code_simp
  ultimately show ?thesis unfolding st_def by simp
qed

section \<open>Without a cycle, calls point to the right\<close>

lemma seq_push_sub: "set (fst (foldl seq_push s es)) \<subseteq> set (fst s) \<union> set es"
  by (induction es arbitrary: s) (fastforce simp: seq_push_def)+

lemma seq_push_new_sub: "set (fst (foldl seq_push_new s es)) \<subseteq> set (fst s) \<union> set es"
proof (induction es arbitrary: s)
  case (Cons e es)
  have "set (fst (seq_push_new s e)) \<subseteq> insert e (set (fst s))" by (auto simp: seq_push_new_def seq_push_def)
  with Cons [of "seq_push_new s e"] show ?case by auto
qed simp

lemma seq_parent_kind: "e \<in> set (seq_parent m s) \<Longrightarrow> sr_kind e = AK_delegation"
  unfolding seq_parent_def
  by (cases "sp_parentSpanId s"; cases "map_of m (the (sp_parentSpanId s))") (simp_all split: if_splits)

lemma forwardArrows_kind: "e \<in> set (forwardArrows st) \<Longrightarrow> sr_kind e \<noteq> AK_return"
proof -
  assume e: "e \<in> set (forwardArrows st)"
  define sp where "sp = seq_spans st"
  define m where "m = span_by_id sp"
  have "e \<in> set (seq_method1 m sp) \<union> set (seq_method1b m sp) \<union> set (seq_method2 m sp) \<union> set (seq_method3 (rg_rows (ss_delegations st)))"
    using e seq_push_sub [of "([], [])" "seq_method1 m sp"]
      seq_push_new_sub [of "foldl seq_push ([], []) (seq_method1 m sp)" "seq_method1b m sp"]
      seq_push_new_sub [of "foldl seq_push_new (foldl seq_push ([], []) (seq_method1 m sp)) (seq_method1b m sp)" "seq_method2 m sp"]
      seq_push_new_sub [of "foldl seq_push_new (foldl seq_push_new (foldl seq_push ([], []) (seq_method1 m sp)) (seq_method1b m sp))
        (seq_method2 m sp)" "seq_method3 (rg_rows (ss_delegations st))"]
    unfolding forwardArrows_def Let_def sp_def [symmetric] m_def [symmetric] by auto
  then show ?thesis
    by (auto simp: seq_method1_def seq_method1b_def seq_method2_def seq_method3_def dest: seq_parent_kind)
qed

lemma colIdx_snoc: "colIdx (xs @ [x]) = AList.update x (length xs) (colIdx xs)"
  by (simp add: colIdx_def enumerate_append_eq)

lemma colIdx_iff: "distinct xs \<Longrightarrow> map_of (colIdx xs) a = Some i \<longleftrightarrow> i < length xs \<and> xs ! i = a"
proof (induction xs arbitrary: a i rule: rev_induct)
  case Nil
  then show ?case by (simp add: colIdx_def)
next
  case (snoc x xs)
  then show ?case by (auto simp: colIdx_snoc nth_append less_Suc_eq dest: nth_mem)
qed

lemma acyclic_has_root:
  assumes "finite G" "acyclic G" "G \<subseteq> set agents \<times> set agents" and "v \<in> set agents"
  shows "\<exists>r\<in>call_roots agents G. (r, v) \<in> G\<^sup>*"
proof -
  have "wf G" using assms(1,2) by (simp add: finite_acyclic_wf)
  then show ?thesis using assms(4)
  proof (induction v rule: wf_induct_rule)
    case (less v)
    show ?case
    proof (cases "v \<in> Range G")
      case True
      then obtain u where u: "(u, v) \<in> G" by blast
      then have "u \<in> set agents" using assms(3) by blast
      from less.IH [OF u this] obtain r where "r \<in> call_roots agents G" "(r, u) \<in> G\<^sup>*" by blast
      with u show ?thesis by (meson rtrancl_into_rtrancl)
    next
      case False
      with less.prems have "v \<in> call_roots agents G" by (simp add: call_roots_def)
      then show ?thesis by blast
    qed
  qed
qed

lemma agent_levels_acyclic:
  assumes ac: "acyclic (agent_graph agents fwd)"
  shows "\<exists>L. agent_levels agents fwd = Some L \<and> (\<forall>(u, v)\<in>agent_graph agents fwd. get_num L u < get_num L v)"
proof -
  define G where "G = agent_graph agents fwd"
  obtain adj deg where g: "seq_graph agents fwd = (adj, deg)" by fastforce
  obtain level queue where q: "seq_roots agents deg = (level, queue)" by fastforce
  note run = agent_levels_run [OF g q, folded G_def]
  have "agent_levels agents fwd \<noteq> None"
    unfolding agent_levels_hang_iff using ac by (auto simp: acyclic_def)
  then obtain final where f: "seq_levels adj level queue = Some final"
    by (cases "seq_levels adj level queue") (simp_all add: agent_levels_def g q)
  define L where "L = foldl (\<lambda>m a. if \<not> map_has m a then AList.update a 0 m else m) final agents"
  have L: "agent_levels agents fwd = Some L" by (simp add: agent_levels_def g q f L_def)
  note fin = seq_levels_settled [OF f run(3,4)]
  have "map_of final v \<noteq> None" if "v \<in> set agents" for v
  proof -
    have "G \<subseteq> set agents \<times> set agents" by (auto simp: G_def agent_graph_def)
    from acyclic_has_root [OF _ ac [folded G_def] this that] obtain r where r: "r \<in> set queue" "(r, v) \<in> G\<^sup>*"
      using finite_agent_graph run(1) unfolding G_def by blast
    have "map_of final r \<noteq> None" using fin r(1) run(4) by blast
    then obtain k where k: "map_of final r = Some k" by blast
    show ?thesis
      using r(2) settled_path [OF fin [THEN conjunct1] run(2) _ k, of v] k
      by (auto simp: above_def rtrancl_eq_or_trancl split: option.splits)
  qed
  then have leveled: "\<forall>v\<in>set agents. map_of final v \<noteq> None" by blast
  have "L = final"
  proof -
    have "foldl (\<lambda>m a. if \<not> map_has m a then AList.update a 0 m else m) final as = final" if "set as \<subseteq> set agents" for as
      using that leveled by (induction as) (auto simp: map_has_def)
    then show ?thesis by (simp add: L_def)
  qed
  moreover have "get_num final u < get_num final v" if e: "(u, v) \<in> G" for u v
  proof -
    have "u \<in> set agents" using e by (auto simp: G_def agent_graph_def)
    then have "map_of final u \<noteq> None" using leveled by blast
    then obtain k where k: "map_of final u = Some k" by blast
    from settled_path [OF fin [THEN conjunct1] run(2) r_into_trancl [OF e] k] k show ?thesis
      by (auto simp: above_def get_num_def split: option.splits)
  qed
  ultimately show ?thesis using L unfolding G_def by auto
qed

lemma js_sort_distinct: "distinct xs \<Longrightarrow> distinct (js_sort cmp xs)"
  by (rule card_distinct) (simp add: distinct_card)

definition columns_ok :: "string list \<Rightarrow> (string, nat) jsmap \<Rightarrow> seq_raw list \<Rightarrow> bool" where
  \<comment> \<open>\<open>col\<close> numbers the columns \<open>ids\<close>, and every call between two of them goes to a later one\<close>
  "columns_ok ids col fwd \<longleftrightarrow>
     (\<forall>a i. map_of col a = Some i \<longleftrightarrow> i < length ids \<and> ids ! i = a) \<and>
     (\<forall>e\<in>set fwd. sr_kind e \<noteq> AK_return \<and>
        (\<forall>i j. map_of col (sr_fromId e) = Some i \<and> map_of col (sr_toId e) = Some j \<longrightarrow> i < j))"

lemma forwardArrow_iff:
  "a \<in> set (forwardArrow col (k, e)) \<longleftrightarrow>
     (\<exists>i j. map_of col (sr_fromId e) = Some i \<and> map_of col (sr_toId e) = Some j \<and> i \<noteq> j \<and>
        a = \<lparr>sa_id = ''fwd-'' @ js_int (int k) @ ''-'' @ sr_spanId e, sa_kind = sr_kind e, sa_fromCol = i, sa_toCol = j,
             sa_yMs = sr_yMs e, sa_label = sr_label e\<rparr>)"
  by (cases "map_of col (sr_fromId e)"; cases "map_of col (sr_toId e)") (auto simp: forwardArrow_def)

lemma seq_caller_in:
  assumes some: "seq_caller fwd s = Some e"
  shows "e \<in> set fwd \<and> sr_toId e = sp_agentId s"
proof -
  define cs where "cs = filter (\<lambda>e. sr_yMs e \<le> sp_startMs s) (filter (\<lambda>e. sr_toId e = sp_agentId s) fwd)"
  obtain rest where "sort_key (\<lambda>e. - sr_yMs e) cs = e # rest"
    using some unfolding seq_caller_def cs_def [symmetric] by (cases "sort_key (\<lambda>e. - sr_yMs e) cs") simp_all
  from sort_head [OF this] show ?thesis by (simp add: cs_def)
qed

lemma returnArrow_left:
  assumes ok: "columns_ok ids col fwd" and ret: "a \<in> set (returnArrow col fwd s)"
  shows "sa_kind a = AK_return \<and> sa_toCol a < sa_fromCol a"
proof -
  obtain c i j where c: "seq_caller fwd s = Some c" "map_of col (sp_agentId s) = Some i" "map_of col (sr_fromId c) = Some j"
      "sa_kind a = AK_return" "sa_fromCol a = i" "sa_toCol a = j"
    using ret unfolding returnArrow_def
    by (cases "sp_endMs s"; cases "seq_caller fwd s"; cases "map_of col (sp_agentId s)"; cases "map_of col (sr_fromId (the (seq_caller fwd s)))")
      (auto split: if_splits)
  with seq_caller_in [OF c(1)] ok have "j < i" unfolding columns_ok_def by metis
  with c show ?thesis by simp
qed

lemma seq_arrows_in:
  "a \<in> set (seq_arrows col fwd spans) \<longleftrightarrow>
     (\<exists>k<length fwd. a \<in> set (forwardArrow col (k, fwd ! k))) \<or>
     (\<exists>s\<in>set spans. sp_kind s = INVOCATION \<and> a \<in> set (returnArrow col fwd s))"
  by (fastforce simp: seq_arrows_def in_set_enumerate_eq)

lemma seq_arrows_direction:
  assumes ok: "columns_ok ids col fwd" and a: "a \<in> set (seq_arrows col fwd spans)"
  shows "if sa_kind a = AK_return then sa_toCol a < sa_fromCol a else sa_fromCol a < sa_toCol a"
proof -
  consider k where "k < length fwd" "a \<in> set (forwardArrow col (k, fwd ! k))" | s where "a \<in> set (returnArrow col fwd s)"
    using a unfolding seq_arrows_in by blast
  then show ?thesis
  proof cases
    case 1
    then have "fwd ! k \<in> set fwd" by simp
    with 1(2) ok show ?thesis unfolding forwardArrow_iff columns_ok_def by auto
  qed (use returnArrow_left [OF ok] in auto)
qed

lemma seq_arrows_calls:
  assumes ok: "columns_ok ids col fwd"
  shows "(\<lambda>a. (ids ! sa_fromCol a, ids ! sa_toCol a)) ` {a \<in> set (seq_arrows col fwd spans). sa_kind a \<noteq> AK_return} = agent_graph ids fwd"
    (is "?f ` ?A = _")
proof (intro equalityI subsetI)
  have col: "map_of col a = Some i \<longleftrightarrow> i < length ids \<and> ids ! i = a" for a i using ok by (simp add: columns_ok_def)
  fix p assume "p \<in> ?f ` ?A"
  then obtain a where a: "a \<in> set (seq_arrows col fwd spans)" "sa_kind a \<noteq> AK_return" "p = ?f a" by blast
  then obtain k where k: "k < length fwd" "a \<in> set (forwardArrow col (k, fwd ! k))"
    unfolding seq_arrows_in using returnArrow_left [OF ok] by blast
  then obtain i j where ij: "map_of col (sr_fromId (fwd ! k)) = Some i" "map_of col (sr_toId (fwd ! k)) = Some j"
      "sa_fromCol a = i" "sa_toCol a = j" unfolding forwardArrow_iff by auto
  then have "p = (sr_fromId (fwd ! k), sr_toId (fwd ! k))" "sr_fromId (fwd ! k) \<in> set ids" "sr_toId (fwd ! k) \<in> set ids"
    using a(3) by (auto simp: col in_set_conv_nth)
  with k(1) show "p \<in> agent_graph ids fwd" by (auto simp: agent_graph_def)
next
  have col: "map_of col a = Some i \<longleftrightarrow> i < length ids \<and> ids ! i = a" for a i using ok by (simp add: columns_ok_def)
  fix p assume "p \<in> agent_graph ids fwd"
  then obtain e where e: "e \<in> set fwd" "p = (sr_fromId e, sr_toId e)" "sr_fromId e \<in> set ids" "sr_toId e \<in> set ids"
    by (auto simp: agent_graph_def)
  obtain i j where ij: "map_of col (sr_fromId e) = Some i" "map_of col (sr_toId e) = Some j"
    using e(3,4) unfolding col by (metis in_set_conv_nth)
  obtain k where k: "k < length fwd" "fwd ! k = e" using e(1) unfolding in_set_conv_nth by blast
  have "i < j" using ok e(1) ij unfolding columns_ok_def by blast
  then obtain a where a: "a \<in> set (forwardArrow col (k, e))" "sa_kind a = sr_kind e" "sa_fromCol a = i" "sa_toCol a = j"
    using ij unfolding forwardArrow_iff by auto
  have "a \<in> ?A" using a(1,2) k ok e(1) by (auto simp: seq_arrows_in columns_ok_def)
  moreover have "p = ?f a" using e(2) ij a(3,4) col by simp
  ultimately show "p \<in> ?f ` ?A" by blast
qed

lemma columns_ok_sorted:
  assumes "distinct agents" and up: "\<And>u v. (u, v) \<in> agent_graph agents fwd \<Longrightarrow> get_num L u < get_num L v"
    and kinds: "\<forall>e\<in>set fwd. sr_kind e \<noteq> AK_return"
  shows "columns_ok (js_sort (column_cmp L first) agents) (colIdx (js_sort (column_cmp L first) agents)) fwd"
proof -
  define ids where "ids = js_sort (column_cmp L first) agents"
  have d: "distinct ids" and set: "set ids = set agents" using assms(1) by (simp_all add: ids_def js_sort_distinct)
  have sorted: "sorted (map (get_num L) ids)"
    unfolding ids_def by (rule sorted_js_sort) (auto simp: column_cmp_def Let_def split: if_splits)
  have col: "map_of (colIdx ids) a = Some i \<longleftrightarrow> i < length ids \<and> ids ! i = a" for a i by (rule colIdx_iff [OF d])
  have "i < j" if e: "e \<in> set fwd" and i: "map_of (colIdx ids) (sr_fromId e) = Some i" and j: "map_of (colIdx ids) (sr_toId e) = Some j" for e i j
  proof (rule ccontr)
    assume "\<not> i < j"
    then have "get_num L (ids ! j) \<le> get_num L (ids ! i)" using sorted_nth_mono [OF sorted, of j i] i col by simp
    moreover have "sr_fromId e \<in> set agents" "sr_toId e \<in> set agents"
      using i j unfolding col set [symmetric] by (auto simp: in_set_conv_nth)
    then have "(sr_fromId e, sr_toId e) \<in> agent_graph agents fwd" using e by (auto simp: agent_graph_def)
    then have "get_num L (sr_fromId e) < get_num L (sr_toId e)" by (rule up)
    ultimately show False using i j col by simp
  qed
  with col kinds show ?thesis unfolding columns_ok_def ids_def [symmetric] by blast
qed

text \<open>C6: When no agent calls itself back through others, the sequence diagram has a column for every agent, every call arrow points to
  the right, every return arrow to the left, and the call arrows are exactly those between agents that have a row.\<close>

theorem calls_point_right:
  assumes "distinct (agent_ids st)" and "acyclic (agent_graph (agent_ids st) (forwardArrows st))"
  shows "\<exists>l. computeSequence st = Some l \<and> distinct (sl_agentIds l) \<and> set (sl_agentIds l) = set (agent_ids st) \<and>
    list_all (\<lambda>a. if sa_kind a = AK_return then sa_toCol a < sa_fromCol a else sa_fromCol a < sa_toCol a) (sl_arrows l) \<and>
    (\<lambda>a. (sl_agentIds l ! sa_fromCol a, sl_agentIds l ! sa_toCol a)) ` {a \<in> set (sl_arrows l). sa_kind a \<noteq> AK_return} =
      agent_graph (agent_ids st) (forwardArrows st)"
proof -
  define fwd where "fwd = forwardArrows st"
  obtain L where L: "agent_levels (agent_ids st) fwd = Some L"
      and up: "\<And>u v. (u, v) \<in> agent_graph (agent_ids st) fwd \<Longrightarrow> get_num L u < get_num L v"
    using agent_levels_acyclic [OF assms(2)] unfolding fwd_def by blast
  define ids where "ids = js_sort (column_cmp L (firstActivity (seq_spans st))) (agent_ids st)"
  have ok: "columns_ok ids (colIdx ids) fwd"
    unfolding ids_def by (rule columns_ok_sorted [OF assms(1) up]) (use forwardArrows_kind in \<open>auto simp: fwd_def\<close>)
  obtain l where l: "computeSequence st = Some l" "sl_agentIds l = ids" "sl_arrows l = seq_arrows (colIdx ids) fwd (seq_spans st)"
    using L by (simp add: computeSequence_def Let_def ids_def fwd_def)
  have d: "distinct ids" "set ids = set (agent_ids st)" using assms(1) by (simp_all add: ids_def js_sort_distinct)
  have G: "agent_graph ids fwd = agent_graph (agent_ids st) fwd" by (simp add: agent_graph_def d(2))
  have "list_all (\<lambda>a. if sa_kind a = AK_return then sa_toCol a < sa_fromCol a else sa_fromCol a < sa_toCol a) (sl_arrows l)"
    unfolding list_all_iff l(3) using seq_arrows_direction [OF ok] by blast
  moreover have "(\<lambda>a. (ids ! sa_fromCol a, ids ! sa_toCol a)) ` {a \<in> set (sl_arrows l). sa_kind a \<noteq> AK_return} =
      agent_graph (agent_ids st) fwd" unfolding l(3) seq_arrows_calls [OF ok] by (rule G)
  ultimately show ?thesis using l(1,2) d by (intro exI [of _ l]) (simp add: fwd_def)
qed

theorem calls_point_right_witness:
  "\<exists>l. computeSequence (demoCalls [''b'', ''c'', ''a''] [(''c'', ''a'', 0), (''a'', ''b'', 1000)]) = Some l \<and>
     (\<lambda>a. (sl_agentIds l ! sa_fromCol a, sl_agentIds l ! sa_toCol a)) ` {a \<in> set (sl_arrows l). sa_kind a \<noteq> AK_return} =
       {(''c'', ''a''), (''a'', ''b'')}"
proof -
  define st where "st = demoCalls [''b'', ''c'', ''a''] [(''c'', ''a'', 0), (''a'', ''b'', 1000)]"
  have ids: "agent_ids st = [''b'', ''c'', ''a'']" unfolding st_def by code_simp
  have "map (\<lambda>e. (sr_fromId e, sr_toId e)) (forwardArrows st) = [(''c'', ''a''), (''a'', ''b'')]"
    unfolding st_def by code_simp
  then have "set (map (\<lambda>e. (sr_fromId e, sr_toId e)) (forwardArrows st)) = set [(''c'', ''a''), (''a'', ''b'')]"
    by (rule arg_cong)
  then have G: "agent_graph (agent_ids st) (forwardArrows st) = {(''c'', ''a''), (''a'', ''b'')}"
    unfolding agent_graph_pairs ids by simp
  have d: "distinct (agent_ids st)" unfolding ids by simp
  have ac: "acyclic (agent_graph (agent_ids st) (forwardArrows st))"
    unfolding G by (rule acyclic_rank [of _ "\<lambda>i. if i = ''c'' then 0 else if i = ''a'' then 1 else 2"]) simp
  show ?thesis
    unfolding st_def [symmetric]
    by (rule exE [OF calls_point_right [OF d ac, unfolded G]], elim conjE, intro exI conjI)
qed

end
