(* ===== verification/Details.thy ===== *)
theory Details
  imports Sequence StoreInvariant
begin

text \<open>
  What the detail panes say about an intervention: \<open>frontend/src/lib/interventionDetail.ts\<close> (the trigger, the steering
  and the target of a drift, a plan revision, a task transition or a cancelled task, and the verdict of a judge) and
  \<open>frontend/src/lib/goldfiveSpan.ts\<close> (the same judge spans as the Gantt bar and the popover read them). The theorems tie
  the pane of a drift to the event that announced it, and the two readings of a verdict to each other.
\<close>

section \<open>Attributes\<close>

definition read_attr :: "span option \<Rightarrow> string \<Rightarrow> string" where
  \<comment> \<open>the helper of \<open>interventionDetail.ts\<close>, for a span that may be missing\<close>
  "read_attr sp key =
     (case sp of
        None \<Rightarrow> ''''
      | Some s \<Rightarrow> (case attr_get (sp_attributes s) key of Some (AString v) \<Rightarrow> v | _ \<Rightarrow> ''''))"

definition joined :: "string \<Rightarrow> string list \<Rightarrow> string" where
  \<comment> \<open>\<open>parts.join(sep)\<close>\<close>
  "joined sep parts = (case parts of [] \<Rightarrow> '''' | p # ps \<Rightarrow> p @ concat (map ((@) sep) ps))"

definition NL :: string where
  "NL = [CHR 0x0A]"

definition findRefineSpan :: "session_store option \<Rightarrow> task_plan \<Rightarrow> span option" where
  "findRefineSpan store plan =
     (case store of
        None \<Rightarrow> None
      | Some st \<Rightarrow>
          let revIdx = (case tp_revisionIndex plan of None \<Rightarrow> 0 | Some n \<Rightarrow> n)
          in if revIdx \<le> 0 then None
             else find (\<lambda>s. starts_with (sp_name s) ''refine:'' \<and> read_attr (Some s) ''refine.index'' = js_int revIdx)
                    (si_queryAgent (ss_spans st) (resolveGoldfiveActorId st GOLDFIVE_ACTOR_ID) 0 Beyond []))"

definition drift_actor :: "session_store \<Rightarrow> string \<Rightarrow> string" where
  "drift_actor st kind =
     (if starts_with kind ''user_'' then USER_ACTOR_ID else resolveGoldfiveActorId st GOLDFIVE_ACTOR_ID)"

definition findDriftSpan :: "session_store option \<Rightarrow> drift_record \<Rightarrow> span option" where
  "findDriftSpan store drift =
     (case store of
        None \<Rightarrow> None
      | Some st \<Rightarrow>
          find (\<lambda>s. read_attr (Some s) ''drift.kind'' = dr_kind drift \<and> sp_startMs s = dr_recordedAtMs drift)
            (si_queryAgent (ss_spans st) (drift_actor st (dr_kind drift)) (rat_of_int (dr_recordedAtMs drift - 5))
               (At (rat_of_int (dr_recordedAtMs drift + 5))) []))"

section \<open>Interventions\<close>

record intervention_detail =
  dt_trigger :: string
  dt_steering :: string
  dt_targetAgentId :: string
  dt_targetTaskId :: string
  dt_authoredBy :: "string option"

definition no_detail :: intervention_detail where
  "no_detail = \<lparr>dt_trigger = '''', dt_steering = '''', dt_targetAgentId = '''', dt_targetTaskId = '''', dt_authoredBy = None\<rparr>"

definition steering_parts :: "task_plan \<Rightarrow> span option \<Rightarrow> string list" where
  "steering_parts plan refineSpan =
     (let inSum = read_attr refineSpan ''refine.input_summary''; outSum = read_attr refineSpan ''refine.output_summary''
      in (if tp_revisionReason plan \<noteq> '''' then [tp_revisionReason plan] else []) @
         (if inSum \<noteq> '''' then [''input: '' @ inSum] else []) @ (if outSum \<noteq> '''' then [''output: '' @ outSum] else []))"

definition resolveDriftDetail :: "drift_record \<Rightarrow> task_plan list \<Rightarrow> session_store option \<Rightarrow> intervention_detail" where
  "resolveDriftDetail drift plans store =
     (let driftSpan = findDriftSpan store drift;
          triggerInput = read_attr driftSpan ''drift.trigger_input'';
          triggerParts = (if dr_detail drift \<noteq> '''' then [dr_detail drift] else []) @
                         (if triggerInput \<noteq> '''' \<and> triggerInput \<noteq> dr_detail drift then [triggerInput] else []);
          triggeredPlan = (if dr_driftId drift \<noteq> '''' then find (\<lambda>p. tp_triggerEventId p = Some (dr_driftId drift)) plans else None);
          refineSpan = (case triggeredPlan of None \<Rightarrow> None | Some p \<Rightarrow> findRefineSpan store p)
      in \<lparr>dt_trigger = joined (NL @ NL) triggerParts,
          dt_steering = (case triggeredPlan of None \<Rightarrow> '''' | Some p \<Rightarrow> joined (NL @ NL) (steering_parts p refineSpan)),
          dt_targetAgentId = or_str (read_attr refineSpan ''refine.target_agent_id'') (dr_agentId drift),
          dt_targetTaskId = dr_taskId drift,
          dt_authoredBy = Some (or_str (str_of (dr_authoredBy drift)) (read_attr driftSpan ''drift.authored_by''))\<rparr>)"

definition resolvePlanRevisionDetail :: "task_plan \<Rightarrow> session_store option \<Rightarrow> intervention_detail" where
  "resolvePlanRevisionDetail plan store =
     (if (case tp_revisionIndex plan of None \<Rightarrow> 0 | Some n \<Rightarrow> n) \<le> 0 then no_detail
      else let refineSpan = findRefineSpan store plan
           in no_detail\<lparr>dt_steering := joined (NL @ NL) (steering_parts plan refineSpan),
                        dt_targetAgentId := read_attr refineSpan ''refine.target_agent_id''\<rparr>)"

definition resolveTaskTransitionDetail :: "task_transition_record \<Rightarrow> intervention_detail" where
  "resolveTaskTransitionDetail t =
     (let fromS = to_upper (tt_fromStatus t); toS = to_upper (tt_toStatus t); src = to_lower (tt_source t);
          steeringParts = (if fromS \<noteq> '''' \<and> toS \<noteq> '''' then [fromS @ '' '' @ arrow @ '' '' @ toS]
                           else if toS \<noteq> '''' then [toS] else []) @
            (if src \<noteq> '''' then [''source: '' @ src] else []) @
            (if tt_revisionStamp t > 0 then [''plan rev: '' @ js_int (tt_revisionStamp t)] else []) @
            (if tt_invocationId t \<noteq> '''' then [''invocation: '' @ tt_invocationId t] else [])
      in no_detail\<lparr>dt_steering := joined NL steeringParts, dt_targetAgentId := tt_agentName t, dt_targetTaskId := tt_taskId t\<rparr>)"

definition resolveTaskCancelDetail :: "task \<Rightarrow> intervention_detail" where
  "resolveTaskCancelDetail t =
     (if tk_status t \<noteq> TS_CANCELLED \<and> tk_status t \<noteq> TS_FAILED then no_detail
      else no_detail\<lparr>dt_steering := str_of (tk_cancelReason t), dt_targetAgentId := tk_assigneeAgentId t, dt_targetTaskId := tk_id t\<rparr>)"

section \<open>The verdict of a judge\<close>

datatype judge_bucket = JB_on_task | JB_off_task | JB_no_verdict

datatype judge_tone = JT_on_task | JT_off_task_info | JT_off_task_warning | JT_off_task_critical | JT_no_verdict

record judge_detail =
  jd_spanId :: string
  jd_eventId :: string
  jd_recordedAtMs :: int
  jd_model :: string
  jd_elapsedMs :: "rat option" \<comment> \<open>\<open>None\<close> is an infinity\<close>
  jd_subjectAgentId :: string
  jd_taskId :: string
  jd_targetAgentId :: string
  jd_verdictBucket :: judge_bucket
  jd_verdictTone :: judge_tone
  jd_onTask :: bool
  jd_severity :: string
  jd_reason :: string
  jd_reasoningInput :: string
  jd_rawResponse :: string
  jd_parseSuccessful :: bool
  jd_inputPreview :: string
  jd_outputPreview :: string
  jd_decisionSummary :: string
  jd_steeredPlan :: "task_plan option"
  jd_steeringSummary :: string
  jd_taskSummaries :: "string list"

definition classifyVerdict :: "bool \<Rightarrow> string \<Rightarrow> string \<Rightarrow> judge_bucket" where
  "classifyVerdict onTask verdict rawResponse =
     (if onTask \<or> verdict = ''on_task'' then JB_on_task
      else if verdict = '''' \<and> rawResponse \<noteq> '''' then JB_no_verdict
      else if verdict = '''' \<and> rawResponse = '''' then JB_no_verdict
      else JB_off_task)"

definition verdictToneFor :: "judge_bucket \<Rightarrow> string \<Rightarrow> judge_tone" where
  "verdictToneFor bucket severity =
     (case bucket of
        JB_on_task \<Rightarrow> JT_on_task
      | JB_no_verdict \<Rightarrow> JT_no_verdict
      | JB_off_task \<Rightarrow>
          (let s = to_lower severity
           in if s = ''critical'' then JT_off_task_critical
              else if s = ''warning'' \<or> s = ''warn'' then JT_off_task_warning else JT_off_task_info))"

definition number_or_zero :: "string \<Rightarrow> rat option" where
  \<comment> \<open>\<open>Number(s) || 0\<close>; \<open>None\<close> is an infinity\<close>
  "number_or_zero s =
     (if trim_both s \<in> {''Infinity'', ''+Infinity'', ''-Infinity''} then None
      else case js_number s of None \<Rightarrow> Some 0 | Some r \<Rightarrow> Some r)"

definition elapsed_of :: "span \<Rightarrow> rat option" where
  "elapsed_of s =
     (case attr_get (sp_attributes s) ''judge.elapsed_ms'' of
        Some (AInt n) \<Rightarrow> Some (rat_of_int n)
      | Some (ADouble r) \<Rightarrow> Some r
      | _ \<Rightarrow> (let e = read_attr (Some s) ''judge.elapsed_ms'' in if e \<noteq> '''' then number_or_zero e else Some 0))"

definition steered_plan :: "string \<Rightarrow> judge_bucket \<Rightarrow> task_plan list \<Rightarrow> task_plan option" where
  "steered_plan eventId bucket plans =
     (if eventId \<noteq> '''' \<and> bucket = JB_off_task
      then foldl (\<lambda>best p.
             if (case tp_revisionIndex p of None \<Rightarrow> 0 | Some n \<Rightarrow> n) \<le> 0 then best
             else if tp_triggerEventId p = Some eventId
             then (case best of None \<Rightarrow> Some p | Some b \<Rightarrow> if tp_createdAtMs p > tp_createdAtMs b then Some p else best)
             else best) None plans
      else None)"

definition task_summary :: "task \<Rightarrow> string list" where
  "task_summary t =
     (let label = or_str (tk_title t) (tk_id t)
      in if label = '''' then []
         else [(if tk_status t = TS_CANCELLED then ''cancelled: '' else if tk_status t = TS_FAILED then ''failed: '' else '''') @ label])"

definition task_summaries :: "task_plan \<Rightarrow> string list" where
  "task_summaries p =
     concat (map task_summary (take 6 (tp_tasks p))) @
     (if length (tp_tasks p) > 6 then [ellipsis @ '' +'' @ js_int (int (length (tp_tasks p)) - 6) @ '' more''] else [])"

definition resolveJudgeDetail :: "span \<Rightarrow> task_plan list \<Rightarrow> judge_detail" where
  "resolveJudgeDetail s plans =
     (let a = read_attr (Some s);
          verdict = a ''judge.verdict'';
          onTaskAttr = attr_get (sp_attributes s) ''judge.on_task'';
          onTask = (case onTaskAttr of Some (ABool b) \<Rightarrow> b | _ \<Rightarrow> verdict = ''on_task'');
          severity = a ''judge.severity'';
          rawResponse = a ''judge.raw_response'';
          subject = or_str (a ''judge.subject_agent_id'') (a ''judge.target_agent_id'');
          bucket = classifyVerdict onTask verdict rawResponse;
          steered = steered_plan (a ''judge.event_id'') bucket plans
      in \<lparr>jd_spanId = sp_id s, jd_eventId = a ''judge.event_id'', jd_recordedAtMs = sp_startMs s, jd_model = a ''judge.model'',
          jd_elapsedMs = elapsed_of s, jd_subjectAgentId = subject, jd_taskId = a ''judge.target_task_id'',
          jd_targetAgentId = or_str (a ''judge.target_agent_id'') subject, jd_verdictBucket = bucket,
          jd_verdictTone = verdictToneFor bucket severity, jd_onTask = onTask, jd_severity = severity,
          jd_reason = or_str (a ''judge.reason'') (a ''judge.reasoning''),
          jd_reasoningInput = or_str (a ''judge.reasoning_input'') (a ''judge.reasoning''), jd_rawResponse = rawResponse,
          jd_parseSuccessful = ((case onTaskAttr of Some (ABool b) \<Rightarrow> True | _ \<Rightarrow> False) \<or> verdict = ''on_task'' \<or> verdict \<noteq> ''''),
          jd_inputPreview = a ''goldfive.input_preview'', jd_outputPreview = a ''goldfive.output_preview'',
          jd_decisionSummary = a ''goldfive.decision_summary'', jd_steeredPlan = steered,
          jd_steeringSummary = (case steered of
              None \<Rightarrow> ''''
            | Some p \<Rightarrow> or_str (tp_revisionReason p)
                (''Plan revised to r'' @ js_int (case tp_revisionIndex p of None \<Rightarrow> 0 | Some n \<Rightarrow> n))),
          jd_taskSummaries = (case steered of None \<Rightarrow> [] | Some p \<Rightarrow> task_summaries p)\<rparr>)"

definition isJudgeSpan :: "span option \<Rightarrow> bool" where
  "isJudgeSpan sp =
     (case sp of
        None \<Rightarrow> False
      | Some s \<Rightarrow> attr_get (sp_attributes s) ''judge.kind'' = Some (AString ''judge'') \<or>
                  sp_agentId s = ''__goldfive__'' \<and> starts_with (sp_name s) ''judge:'')"

section \<open>Calls of the orchestrator\<close>

datatype call_category = CC_judge | CC_refine | CC_plan | CC_reflective | CC_unknown

datatype goldfive_verdict = GV_on_task | GV_off_task_warning | GV_off_task_critical | GV_no_verdict

record goldfive_span_info =
  gi_callName :: string
  gi_category :: call_category
  gi_decisionSummary :: string
  gi_targetAgentId :: string
  gi_targetAgentIdRaw :: string
  gi_targetTaskId :: string
  gi_inputPreview :: string
  gi_outputPreview :: string
  gi_verdict :: goldfive_verdict
  gi_onTask :: bool
  gi_severity :: string

definition readStr :: "span \<Rightarrow> string \<Rightarrow> string" where
  "readStr s key = (case attr_get (sp_attributes s) key of Some (AString v) \<Rightarrow> v | _ \<Rightarrow> '''')"

definition readBool :: "span \<Rightarrow> string \<Rightarrow> bool option" where
  "readBool s key = (case attr_get (sp_attributes s) key of Some (ABool b) \<Rightarrow> Some b | _ \<Rightarrow> None)"

definition JUDGE_PREFIXES :: "string list" where "JUDGE_PREFIXES = [''judge_'']"

definition REFINE_PREFIXES :: "string list" where "REFINE_PREFIXES = [''refine_'']"

definition PLAN_NAMES :: "string list" where "PLAN_NAMES = [''goal_derive'', ''plan_generate'']"

definition REFLECTIVE_NAMES :: "string list" where "REFLECTIVE_NAMES = [''reflective_check'']"

definition classifyCallName :: "string \<Rightarrow> call_category" where
  "classifyCallName nm =
     (if nm = '''' then CC_unknown
      else if list_ex (starts_with nm) JUDGE_PREFIXES then CC_judge
      else if list_ex (starts_with nm) REFINE_PREFIXES then CC_refine
      else if nm \<in> set PLAN_NAMES then CC_plan
      else if nm \<in> set REFLECTIVE_NAMES then CC_reflective
      else if starts_with nm ''refine:'' then CC_refine
      else if starts_with nm ''judge:'' then CC_judge
      else CC_unknown)"

definition bareGoldfiveAgentName :: "string \<Rightarrow> string" where
  \<comment> \<open>after the first colon, the whole id when there is none\<close>
  "bareGoldfiveAgentName compound =
     (if CHR '':'' \<in> set compound then tl (dropWhile (\<lambda>c. c \<noteq> CHR '':'') compound) else compound)"

definition isGoldfiveSpan :: "span option \<Rightarrow> bool" where
  "isGoldfiveSpan sp =
     (case sp of
        None \<Rightarrow> False
      | Some s \<Rightarrow> readStr s ''goldfive.call_name'' \<noteq> '''' \<or> sp_agentId s = ''__goldfive__'' \<or> ends_with (sp_agentId s) '':goldfive'')"

definition resolveGoldfiveSpanInfo :: "span \<Rightarrow> goldfive_span_info" where
  "resolveGoldfiveSpanInfo s =
     (let callName = or_str (readStr s ''goldfive.call_name'') (sp_name s);
          category = classifyCallName callName;
          verdictStr = readStr s ''judge.verdict'';
          onTaskAttr = readBool s ''judge.on_task'';
          onTask = (onTaskAttr = Some True \<or> onTaskAttr = None \<and> verdictStr = ''on_task'');
          severity = to_lower (readStr s ''judge.severity'')
      in \<lparr>gi_callName = callName, gi_category = category,
          gi_decisionSummary = or_str (readStr s ''goldfive.decision_summary'') (''goldfive: '' @ callName),
          gi_targetAgentId = bareGoldfiveAgentName (readStr s ''goldfive.target_agent_id''),
          gi_targetAgentIdRaw = readStr s ''goldfive.target_agent_id'',
          gi_targetTaskId = readStr s ''goldfive.target_task_id'',
          gi_inputPreview = readStr s ''goldfive.input_preview'', gi_outputPreview = readStr s ''goldfive.output_preview'',
          gi_verdict = (if category \<noteq> CC_judge then GV_no_verdict
                        else if onTask then GV_on_task
                        else if severity = ''critical'' then GV_off_task_critical
                        else if severity \<noteq> '''' then GV_off_task_warning
                        else if verdictStr \<noteq> '''' then (if verdictStr = ''on_task'' then GV_on_task else GV_off_task_warning)
                        else GV_no_verdict),
          gi_onTask = onTask, gi_severity = severity\<rparr>)"

definition goldfiveCallFill :: "goldfive_span_info \<Rightarrow> (string \<Rightarrow> string) \<Rightarrow> string \<Rightarrow> string" where
  "goldfiveCallFill info cssVar fallback =
     (case gi_category info of
        CC_judge \<Rightarrow>
          (case gi_verdict info of
             GV_on_task \<Rightarrow> or_str (cssVar ''--hg-goldfive-judge-on-task'') ''#3bb273''
           | GV_off_task_critical \<Rightarrow> or_str (cssVar ''--hg-goldfive-judge-critical'') ''#e06070''
           | GV_off_task_warning \<Rightarrow> or_str (cssVar ''--hg-goldfive-judge-warning'') ''#f59e0b''
           | GV_no_verdict \<Rightarrow> or_str (cssVar ''--hg-goldfive-judge-neutral'') ''#8d9199'')
      | CC_refine \<Rightarrow> or_str (cssVar ''--hg-goldfive-refine'') ''#a78bfa''
      | CC_plan \<Rightarrow> or_str (cssVar ''--hg-goldfive-plan'') ''#4fd1c5''
      | CC_reflective \<Rightarrow> or_str (cssVar ''--hg-goldfive-reflective'') ''#8d9199''
      | CC_unknown \<Rightarrow> fallback)"

definition truncatePreview :: "string \<Rightarrow> nat \<Rightarrow> string" where
  "truncatePreview txt limit =
     (if txt = '''' then '''' else if length txt \<le> limit then txt else take limit txt @ ellipsis)"

section \<open>A drift and its marker\<close>

definition drift_marker :: "gf_drift \<Rightarrow> gf_event \<Rightarrow> int \<Rightarrow> string option \<Rightarrow> string \<Rightarrow> span" where
  \<comment> \<open>the span that \<open>applyDrift\<close> leaves on the lane of the actor\<close>
  "drift_marker d e start sid actor =
     (let kind = driftKindToString (gd_kind d)
      in marker_span (drift_span_id actor (emitted_rel e start) kind) sid actor (if actor = USER_ACTOR_ID then USER_MESSAGE else CUSTOM)
           (or_str kind ''drift'') (emitted_rel e start)
           ([str_attr ''drift.kind'' kind, str_attr ''drift.severity'' (driftSeverityToString (gd_severity d)),
             str_attr ''drift.detail'' (gd_detail d), str_attr ''drift.target_task_id'' (gd_currentTaskId d),
             str_attr ''drift.target_agent_id'' (gd_currentAgentId d), (''harmonograf.synthetic_span'', ABool True)] @
            when_set ''drift.trigger_input'' (gd_triggerInput d) @ when_set ''drift.authored_by'' (gd_authoredBy d) @
            when_set ''drift.event_id'' (gv_eventId e)))"

lemma drift_marker_fields:
  "sp_agentId (drift_marker d e start sid actor) = actor" "sp_startMs (drift_marker d e start sid actor) = emitted_rel e start"
  "sp_id (drift_marker d e start sid actor) = drift_span_id actor (emitted_rel e start) (driftKindToString (gd_kind d))"
  "read_attr (Some (drift_marker d e start sid actor)) ''drift.kind'' = driftKindToString (gd_kind d)"
  "read_attr (Some (drift_marker d e start sid actor)) ''drift.trigger_input'' = gd_triggerInput d"
  "read_attr (Some (drift_marker d e start sid actor)) ''drift.authored_by'' = gd_authoredBy d"
  by (simp_all add: drift_marker_def Let_def marker_span_def read_attr_def attr_get_def str_attr_def when_set_def)

lemma user_names:
  "list_all (\<lambda>k. k = ''USER_STEER'' \<or> k = ''USER_CANCEL'' \<or> map to_lower_char (take 2 k) \<noteq> ''us'') (map snd DRIFT_KIND_NAMES)"
  by code_simp

lemma user_drift_kinds: "starts_with (driftKindToString n) ''user_'' \<longleftrightarrow> driftKindToString n \<in> set USER_DRIFT_KINDS"
proof (cases "map_of DRIFT_KIND_NAMES n")
  case None
  then show ?thesis by (simp add: driftKindToString_def enum_label_def table_get_def starts_with_def USER_DRIFT_KINDS_def)
next
  case (Some nm)
  have "nm \<in> set (map snd DRIFT_KIND_NAMES)" using map_of_SomeD [OF Some] by force
  with user_names [unfolded list_all_iff] have "nm = ''USER_STEER'' \<or> nm = ''USER_CANCEL'' \<or> map to_lower_char (take 2 nm) \<noteq> ''us''"
    by (rule bspec)
  then consider "nm = ''USER_STEER''" | "nm = ''USER_CANCEL''" | "take 2 (to_lower nm) \<noteq> ''us''"
    unfolding to_lower_def take_map by (elim disjE)
  then show ?thesis
  proof cases
    case 3
    have "take 2 t = ''us''" if "starts_with t ''user_'' \<or> t \<in> set USER_DRIFT_KINDS" for t
      using that by (auto simp: starts_with_def USER_DRIFT_KINDS_def elim!: prefixE)
    with 3 have "\<not> starts_with (to_lower nm) ''user_''" "to_lower nm \<notin> set USER_DRIFT_KINDS" by blast+
    with Some show ?thesis
      by (simp add: driftKindToString_def enum_label_def table_get_def) (simp add: starts_with_def USER_DRIFT_KINDS_def)
  next
    case 1
    have "to_lower ''USER_STEER'' = ''user_steer''" by code_simp
    with Some 1 show ?thesis
      by (simp add: driftKindToString_def enum_label_def table_get_def starts_with_def USER_DRIFT_KINDS_def)
  next
    case 2
    have "to_lower ''USER_CANCEL'' = ''user_cancel''" by code_simp
    with Some 2 show ?thesis
      by (simp add: driftKindToString_def enum_label_def table_get_def starts_with_def USER_DRIFT_KINDS_def)
  qed
qed
lemma find_the:
  assumes "x \<in> set xs" "P x" and eq: "\<And>y. y \<in> set xs \<Longrightarrow> P y \<Longrightarrow> y = x"
  shows "find P xs = Some x"
proof -
  obtain y where y: "find P xs = Some y" using assms(1,2) by (cases "find P xs") (auto simp: find_None_iff)
  then have "y \<in> set xs" "P y" by (auto simp: find_Some_iff)
  with eq y show ?thesis by simp
qed

lemma find_appended_marker:
  assumes ok: "span_ok ix" and new: "si_get ix (sp_id m) = None" and P: "P m"
    and none: "\<forall>s\<in>set (si_all ix). \<not> (sp_agentId s = sp_agentId m \<and> sp_startMs s = sp_startMs m \<and> P s)"
  shows "find (\<lambda>s. P s \<and> sp_startMs s = sp_startMs m)
      (si_queryAgent (si_append ix m) (sp_agentId m) (rat_of_int (sp_startMs m - 5)) (At (rat_of_int (sp_startMs m + 5))) []) = Some m"
proof (rule find_the)
  have ok': "span_ok (si_append ix m)" using ok by (rule span_ok_append)
  have byId: "si_byId (si_append ix m) = AList.update (sp_id m) m (si_byId ix)"
    using new by (simp add: si_append_def si_insert_def si_emit_def Let_def si_get_def)
  have all: "s \<in> set (si_all (si_append ix m)) \<longleftrightarrow> s = m \<or> s \<in> set (si_all ix)" for s
    unfolding si_all_iff [OF ok'] si_all_iff [OF ok] byId using new by (auto simp: si_get_def)
  note q = query_agent_ok [OF ok', of "sp_agentId m" "rat_of_int (sp_startMs m - 5)" "At (rat_of_int (sp_startMs m + 5))", unfolded Let_def]
  have "m \<in> {s \<in> {s \<in> set (si_all (si_append ix m)). sp_agentId s = sp_agentId m}.
      wanted (rat_of_int (sp_startMs m - 5)) (At (rat_of_int (sp_startMs m + 5))) s \<and> rat_of_int (sp_startMs m - 5) - 65536 \<le> startR s}"
    by (simp add: all wanted_def)
  then show "m \<in> set (si_queryAgent (si_append ix m) (sp_agentId m) (rat_of_int (sp_startMs m - 5)) (At (rat_of_int (sp_startMs m + 5))) [])"
    using q by blast
  show "y = m" if "y \<in> set (si_queryAgent (si_append ix m) (sp_agentId m) (rat_of_int (sp_startMs m - 5)) (At (rat_of_int (sp_startMs m + 5))) [])"
      "P y \<and> sp_startMs y = sp_startMs m" for y
    using that q none by (auto simp: all)
qed (simp add: P)

lemma goldfive_id_kept:
  assumes ok: "agents_ok (ss_agents st)"
  shows "resolveGoldfiveActorId (fst (ensureSyntheticActor st GOLDFIVE_ACTOR_ID)) GOLDFIVE_ACTOR_ID = resolveGoldfiveActorId st GOLDFIVE_ACTOR_ID"
proof (cases "ar_get (ss_agents st) (resolveActorId st GOLDFIVE_ACTOR_ID)")
  case (Some x)
  then show ?thesis by (simp add: ensureSyntheticActor_def Let_def)
next
  case None
  have none: "find (is_compound GOLDFIVE_ACTOR_ID) (ar_list (ss_agents st)) = None"
  proof (cases "find (is_compound GOLDFIVE_ACTOR_ID) (ar_list (ss_agents st))")
    case (Some x)
    with compound_is_listed [OF ok Some] None show ?thesis
      by (simp add: resolveActorId_def resolveGoldfiveActorId_def ar_get_eq)
  qed
  then have res: "resolveActorId st GOLDFIVE_ACTOR_ID = GOLDFIVE_ACTOR_ID" by (simp add: resolveActorId_def resolveGoldfiveActorId_def)
  let ?r = "ar_upsert (ss_agents st) (syntheticActor GOLDFIVE_ACTOR_ID GOLDFIVE_ACTOR_ID)"
  have "find (is_compound GOLDFIVE_ACTOR_ID) (ar_list ?r) = None"
    using None ok none by (intro find_compound_upsert) (simp_all add: res ar_get_eq syntheticActor_def)
  with None none show ?thesis
    by (simp add: ensureSyntheticActor_def Let_def res mergeGoldfiveAlias_def resolveGoldfiveActorId_def)
qed

definition drift_lane :: "session_store \<Rightarrow> gf_drift \<Rightarrow> string" where
  "drift_lane st d =
     resolveActorId st (if driftKindToString (gd_kind d) \<in> set USER_DRIFT_KINDS then USER_ACTOR_ID else GOLDFIVE_ACTOR_ID)"

lemma drift_lane_actor: "drift_lane st d = drift_actor st (driftKindToString (gd_kind d))"
  by (simp add: drift_lane_def drift_actor_def user_drift_kinds resolveActorId_def USER_ACTOR_ID_def GOLDFIVE_ACTOR_ID_def)

lemma applyDrift_store:
  assumes ok: "store_ok st"
  shows "ss_spans (applyDrift d e st start sid) = si_append (ss_spans st) (drift_marker d e start sid (drift_lane st d))"
    and "drift_actor (applyDrift d e st start sid) (driftKindToString (gd_kind d)) = drift_lane st d"
proof -
  define a where "a = (if driftKindToString (gd_kind d) \<in> set USER_DRIFT_KINDS then USER_ACTOR_ID else GOLDFIVE_ACTOR_ID)"
  have lane: "drift_lane st d = resolveActorId st a" by (simp add: drift_lane_def a_def)
  define st1 where "st1 = st\<lparr>ss_drifts := dr_append (drift_entry d e start, Some (tsToMsAbs (gv_emittedAt e))) (ss_drifts st)\<rparr>"
  have ok1: "store_ok st1" unfolding st1_def by (rule store_ok_logs [OF ok])
  have actor: "snd (ensureSyntheticActor st1 a) = resolveActorId st a"
    by (simp add: ensureSyntheticActor_def Let_def st1_def resolveActorId_def resolveGoldfiveActorId_def)
  have eq: "applyDrift d e st start sid = append_span (fst (ensureSyntheticActor st1 a)) (drift_marker d e start sid (resolveActorId st a))"
    unfolding applyDrift_def Let_def drift_entry_def [symmetric] st1_def [symmetric] a_def [symmetric] split_beta actor
      synthesizeDriftSpan_def drift_marker_def by simp
  show "ss_spans (applyDrift d e st start sid) = si_append (ss_spans st) (drift_marker d e start sid (drift_lane st d))"
    unfolding lane by (simp add: eq append_span_def ensureSyntheticActor_frame [OF ok1]) (simp add: st1_def)
  have "resolveGoldfiveActorId (applyDrift d e st start sid) GOLDFIVE_ACTOR_ID = resolveGoldfiveActorId st GOLDFIVE_ACTOR_ID"
    if "a = GOLDFIVE_ACTOR_ID"
    using goldfive_id_kept [OF store_okD(1) [OF ok1]] that
    by (simp add: eq append_span_def resolveGoldfiveActorId_def) (simp add: st1_def)
  then show "drift_actor (applyDrift d e st start sid) (driftKindToString (gd_kind d)) = drift_lane st d"
    unfolding lane drift_actor_def user_drift_kinds
    by (simp add: a_def resolveActorId_def USER_ACTOR_ID_def GOLDFIVE_ACTOR_ID_def)
qed

text \<open>C8: The pane of a drift says what was observed: for the first drift of its kind in its millisecond, delivered to any reachable
  store, the trigger is the detail of the event followed by the input that triggered it, and the author, the task and, unless
  a later revision names another, the agent are those of the event.\<close>

theorem drift_pane_shows_event:
  assumes "si_get (ss_spans (fst (gf_run sid xs)))
      (drift_span_id (drift_lane (fst (gf_run sid xs)) d) (emitted_rel e start) (driftKindToString (gd_kind d))) = None"
    and "list_all (\<lambda>s. \<not> (sp_agentId s = drift_lane (fst (gf_run sid xs)) d \<and> sp_startMs s = emitted_rel e start \<and>
          read_attr (Some s) ''drift.kind'' = driftKindToString (gd_kind d))) (si_all (ss_spans (fst (gf_run sid xs))))"
  shows "let st' = applyDrift d e (fst (gf_run sid xs)) start sid;
             pane = resolveDriftDetail (last (rg_rows (ss_drifts st'))) plans (Some st')
         in dt_trigger pane = joined (NL @ NL) (filter (\<lambda>p. p \<noteq> '''') (remdups [gd_detail d, gd_triggerInput d])) \<and>
            dt_authoredBy pane = Some (gd_authoredBy d) \<and> dt_targetTaskId pane = gd_currentTaskId d \<and>
            (list_all (\<lambda>p. tp_triggerEventId p \<noteq> Some (gd_id d)) plans \<longrightarrow>
               dt_steering pane = '''' \<and> dt_targetAgentId pane = gd_currentAgentId d)"
proof -
  define st where "st = fst (gf_run sid xs)"
  define m where "m = drift_marker d e start sid (drift_lane st d)"
  define st' where "st' = applyDrift d e st start sid"
  have ok: "store_ok st" by (simp add: st_def gf_run_ok)
  have spans: "ss_spans st' = si_append (ss_spans st) m" using applyDrift_store(1) [OF ok] by (simp add: st'_def m_def)
  have "find (\<lambda>s. read_attr (Some s) ''drift.kind'' = driftKindToString (gd_kind d) \<and> sp_startMs s = sp_startMs m)
      (si_queryAgent (ss_spans st') (sp_agentId m) (rat_of_int (sp_startMs m - 5)) (At (rat_of_int (sp_startMs m + 5))) []) = Some m"
    unfolding spans
    using assms store_okD(2) [OF ok] by (intro find_appended_marker) (auto simp: m_def drift_marker_fields st_def list_all_iff)
  moreover have row: "\<exists>n. last (rg_rows (ss_drifts st')) = (drift_entry d e start)\<lparr>dr_seq := n\<rparr>"
    unfolding st'_def applyDrift_drifts [OF ok] by (auto simp: dr_append_def Let_def or_else_def drift_entry_def)
  ultimately have found: "findDriftSpan (Some st') (last (rg_rows (ss_drifts st'))) = Some m"
    using applyDrift_store(2) [OF ok] by (auto simp: findDriftSpan_def drift_entry_def st'_def m_def drift_marker_fields)
  have none: "find (\<lambda>p. tp_triggerEventId p = Some i) plans = None" if "list_all (\<lambda>p. tp_triggerEventId p \<noteq> Some i) plans" for i
    using that by (auto simp: find_None_iff list_all_iff)
  obtain n where "last (rg_rows (ss_drifts st')) = (drift_entry d e start)\<lparr>dr_seq := n\<rparr>" using row by blast
  note row = this
  define r where "r = last (rg_rows (ss_drifts st'))"
  have fields: "dr_detail r = gd_detail d" "dr_taskId r = gd_currentTaskId d" "dr_agentId r = gd_currentAgentId d"
      "dr_driftId r = gd_id d" "dr_authoredBy r = Some (gd_authoredBy d)"
    by (simp_all add: r_def row drift_entry_def)
  have attrs: "read_attr (findDriftSpan (Some st') r) ''drift.trigger_input'' = gd_triggerInput d"
      "read_attr (findDriftSpan (Some st') r) ''drift.authored_by'' = gd_authoredBy d"
    by (simp_all only: found r_def m_def drift_marker_fields)
  have "dt_trigger (resolveDriftDetail r plans (Some st')) =
      joined (NL @ NL) (filter (\<lambda>p. p \<noteq> '''') (remdups [gd_detail d, gd_triggerInput d]))"
    by (simp add: resolveDriftDetail_def Let_def fields attrs)
  moreover have "dt_authoredBy (resolveDriftDetail r plans (Some st')) = Some (gd_authoredBy d)"
    by (simp add: resolveDriftDetail_def Let_def fields attrs str_of_def or_str_def)
  moreover have "dt_targetTaskId (resolveDriftDetail r plans (Some st')) = gd_currentTaskId d"
    by (simp add: resolveDriftDetail_def Let_def fields)
  moreover have "dt_steering (resolveDriftDetail r plans (Some st')) = '''' \<and>
      dt_targetAgentId (resolveDriftDetail r plans (Some st')) = gd_currentAgentId d"
    if "list_all (\<lambda>p. tp_triggerEventId p \<noteq> Some (gd_id d)) plans"
    by (simp add: resolveDriftDetail_def Let_def fields none [OF that] read_attr_def [of None])
  ultimately show ?thesis unfolding Let_def st_def [symmetric] st'_def [symmetric] r_def by blast
qed

definition demoDrift :: "string \<Rightarrow> string \<Rightarrow> gf_drift" where
  "demoDrift detail input =
     \<lparr>gd_kind = 29, gd_severity = 2, gd_detail = detail, gd_currentTaskId = ''t1'', gd_currentAgentId = ''c:worker'',
      gd_annotationId = '''', gd_id = ''d1'', gd_conditionId = '''', gd_lifecycle = 0, gd_prevSeverity = 0,
      gd_triggerInput = input, gd_authoredBy = ''goldfive''\<rparr>"

definition demoDriftEvent :: "gf_drift \<Rightarrow> gf_event" where
  "demoDriftEvent d =
     \<lparr>gv_eventId = ''e1'', gv_runId = ''r'', gv_sequence = 1, gv_emittedAt = Some \<lparr>ts_seconds = 7, ts_nanos = 0\<rparr>,
      gv_payload = DriftDetected d\<rparr>"

theorem drift_pane_shows_event_witness:
  "let d = demoDrift ''off topic'' ''the reasoning''; st' = applyDrift d (demoDriftEvent d) emptyStore 0 None
   in dt_trigger (resolveDriftDetail (last (rg_rows (ss_drifts st'))) [] (Some st')) = ''off topic'' @ NL @ NL @ ''the reasoning''"
  using drift_pane_shows_event [of None "[]" "demoDrift ''off topic'' ''the reasoning''"
      "demoDriftEvent (demoDrift ''off topic'' ''the reasoning'')" 0 "[]"]
  by (simp add: Let_def emptyStore_def emptyIndex_def si_get_def si_all_def demoDrift_def joined_def)

text \<open>Two drifts of one kind in one millisecond share their marker, which the second overwrites: the pane of the first then shows the
  second one's input.\<close>

theorem same_millisecond_drifts_share_marker:
  "let d1 = demoDrift ''first'' ''one''; d2 = demoDrift ''second'' ''two'';
       st = applyDrift d2 (demoDriftEvent d2) (applyDrift d1 (demoDriftEvent d1) emptyStore 0 None) 0 None
   in dt_trigger (resolveDriftDetail (hd (rg_rows (ss_drifts st))) [] (Some st)) = ''first'' @ NL @ NL @ ''two''"
proof -
  define d1 where "d1 = demoDrift ''first'' ''one''"
  define d2 where "d2 = demoDrift ''second'' ''two''"
  define st1 where "st1 = applyDrift d1 (demoDriftEvent d1) emptyStore 0 None"
  define st2 where "st2 = applyDrift d2 (demoDriftEvent d2) st1 0 None"
  have ok: "store_ok emptyStore" using gf_run_ok [of None "[]"] by simp
  have ok1: "store_ok st1"
    using gf_run_ok [of None "[(0, demoDriftEvent d1, 0)]"]
    by (simp add: gf_run_def gf_step_def applyGoldfiveEvent_def demoDriftEvent_def st1_def split: prod.splits)
  have kind: "gd_kind d2 = gd_kind d1" by (simp add: d1_def d2_def demoDrift_def)
  define m1 where "m1 = drift_marker d1 (demoDriftEvent d1) 0 None (drift_lane emptyStore d1)"
  define m2 where "m2 = drift_marker d2 (demoDriftEvent d2) 0 None (drift_lane emptyStore d1)"
  have lane: "drift_lane st1 d2 = drift_lane emptyStore d1"
    using applyDrift_store(2) [OF ok, of d1 "demoDriftEvent d1" 0 None]
    by (simp add: drift_lane_actor kind st1_def)
  have spans: "ss_spans st2 = si_append (si_append emptyIndex m1) m2"
    using applyDrift_store(1) [OF ok, of d1 "demoDriftEvent d1" 0 None] applyDrift_store(1) [OF ok1, of d2 "demoDriftEvent d2" 0 None]
    unfolding st1_def [symmetric] st2_def [symmetric] lane m1_def [symmetric] m2_def [symmetric] by (simp add: emptyStore_def)
  define e where "e = overwrite m1 m2"
  have same: "sp_id m2 = sp_id m1" "sp_agentId m2 = sp_agentId m1" "sp_startMs m1 = 7000" "sp_startMs m2 = 7000"
    by (simp_all add: m1_def m2_def drift_marker_fields kind emitted_rel_def demoDriftEvent_def tsToMsAbs_def)
  have all: "set (si_all (ss_spans st2)) = {e}"
    by (simp add: spans si_append_def si_insert_def si_emit_def emptyIndex_def si_overwrite_def Let_def same e_def si_all_def)
  have e: "sp_agentId e = sp_agentId m1" "sp_startMs e = 7000" "sp_attributes e = sp_attributes m2"
    by (simp_all add: e_def overwrite_def same)
  have attrs: "read_attr (Some e) k = read_attr (Some m2) k" for k by (simp add: read_attr_def e)
  have "span_ok (ss_spans st2)" by (simp add: spans span_ok_append span_ok_empty)
  note q = query_agent_ok [OF this, of "sp_agentId m1" 6995 "At 7005", unfolded Let_def all]
  have q_e: "set (si_queryAgent (ss_spans st2) (sp_agentId m1) 6995 (At 7005) []) = {e}" using q by (auto simp: wanted_def e)
  define r where "r = hd (rg_rows (ss_drifts st2))"
  have "ss_drifts st2 = dr_append (drift_entry d2 (demoDriftEvent d2) 0, Some 7000) (dr_append (drift_entry d1 (demoDriftEvent d1) 0, Some 7000) emptyRegistry)"
    unfolding st2_def applyDrift_drifts [OF ok1] unfolding st1_def applyDrift_drifts [OF ok]
    by (simp add: demoDriftEvent_def tsToMsAbs_def emptyStore_def)
  then have r: "dr_kind r = driftKindToString (gd_kind d1)" "dr_recordedAtMs r = 7000" "dr_detail r = ''first''"
    by (simp_all add: r_def dr_append_def Let_def or_else_def emptyRegistry_def drift_entry_def emitted_rel_def demoDriftEvent_def
        tsToMsAbs_def d1_def demoDrift_def)
  have "drift_actor st2 (dr_kind r) = sp_agentId m1"
    using applyDrift_store(2) [OF ok1, of d2 "demoDriftEvent d2" 0 None]
    by (simp add: r st2_def kind lane m1_def drift_marker_fields)
  moreover have "find (\<lambda>s. read_attr (Some s) ''drift.kind'' = dr_kind r \<and> sp_startMs s = 7000)
      (si_queryAgent (ss_spans st2) (sp_agentId m1) 6995 (At 7005) []) = Some e"
    by (rule find_the) (auto simp: q_e attrs e r m2_def drift_marker_fields kind)
  ultimately have found: "findDriftSpan (Some st2) r = Some e" by (simp add: findDriftSpan_def r)
  have "read_attr (Some e) ''drift.trigger_input'' = ''two''"
    unfolding attrs m2_def drift_marker_fields by (simp add: d2_def demoDrift_def)
  then have "dt_trigger (resolveDriftDetail r [] (Some st2)) = ''first'' @ NL @ NL @ ''two''"
    unfolding resolveDriftDetail_def Let_def found by (simp add: r joined_def)
  then show ?thesis unfolding Let_def r_def st2_def st1_def d1_def d2_def .
qed

section \<open>Two readings of a verdict\<close>

text \<open>C22: The judge panel and the Gantt bar read one verdict in the same way: on a judge span stamped as the client stamps it, both
  say that the agent is on its task exactly when the judge did, both say critical in the same cases, neither is left without
  a verdict, and the bar warns where the panel warns or informs.\<close>

theorem judge_views_agree:
  assumes "gi_category (resolveGoldfiveSpanInfo s) = CC_judge"
    and "attr_get (sp_attributes s) ''judge.on_task'' = Some (ABool b)"
    and "read_attr (Some s) ''judge.verdict'' = (if b then ''on_task'' else or_str (read_attr (Some s) ''judge.severity'') ''off_task'')"
    and "read_attr (Some s) ''judge.severity'' \<noteq> ''on_task''"
  shows "let tone = jd_verdictTone (resolveJudgeDetail s plans); verdict = gi_verdict (resolveGoldfiveSpanInfo s)
         in (tone = JT_on_task) = b \<and> (verdict = GV_on_task) = b \<and>
            (tone = JT_off_task_critical) = (verdict = GV_off_task_critical) \<and>
            (tone \<in> {JT_off_task_info, JT_off_task_warning}) = (verdict = GV_off_task_warning) \<and>
            tone \<noteq> JT_no_verdict \<and> verdict \<noteq> GV_no_verdict"
proof -
  have read: "readStr s k = read_attr (Some s) k" for k by (simp add: readStr_def read_attr_def)
  define sev where "sev = read_attr (Some s) ''judge.severity''"
  have verdict: "gi_verdict (resolveGoldfiveSpanInfo s) =
      (if b then GV_on_task else if to_lower sev = ''critical'' then GV_off_task_critical else GV_off_task_warning)"
    using assms by (simp add: resolveGoldfiveSpanInfo_def Let_def read readBool_def sev_def or_str_def)
  have tone: "jd_verdictTone (resolveJudgeDetail s plans) =
      (if b then JT_on_task else if to_lower sev = ''critical'' then JT_off_task_critical
       else if to_lower sev = ''warning'' \<or> to_lower sev = ''warn'' then JT_off_task_warning else JT_off_task_info)"
    using assms by (simp add: resolveJudgeDetail_def Let_def classifyVerdict_def verdictToneFor_def sev_def or_str_def)
  show ?thesis unfolding Let_def verdict tone by simp
qed

definition demoJudge :: "bool \<Rightarrow> string \<Rightarrow> string \<Rightarrow> span" where
  "demoJudge b verdict severity =
     marker_span ''j'' None ''__goldfive__'' LLM_CALL ''judge: x'' 0
       [(''judge.on_task'', ABool b), str_attr ''judge.verdict'' verdict, str_attr ''judge.severity'' severity]"

theorem judge_views_agree_witness:
  "gi_verdict (resolveGoldfiveSpanInfo (demoJudge False ''info'' ''info'')) = GV_off_task_warning \<and>
   jd_verdictTone (resolveJudgeDetail (demoJudge False ''info'' ''info'') []) = JT_off_task_info"
proof -
  have "gi_category (resolveGoldfiveSpanInfo (demoJudge False ''info'' ''info'')) = CC_judge" by code_simp
  moreover have "attr_get (sp_attributes (demoJudge False ''info'' ''info'')) ''judge.on_task'' = Some (ABool False)" by code_simp
  moreover have "read_attr (Some (demoJudge False ''info'' ''info'')) ''judge.verdict'' = ''info''"
      "read_attr (Some (demoJudge False ''info'' ''info'')) ''judge.severity'' = ''info''" by code_simp+
  moreover have "jd_verdictTone (resolveJudgeDetail (demoJudge False ''info'' ''info'') []) = JT_off_task_info" by code_simp
  ultimately show ?thesis using judge_views_agree [of "demoJudge False ''info'' ''info''" False "[]"] by (simp add: or_str_def Let_def)
qed

text \<open>The plan that a judge steered is the latest of those that its event triggered.\<close>

theorem steered_plan_is_latest:
  "let caused = filter (\<lambda>p. tp_triggerEventId p = Some i \<and> \<not> (case tp_revisionIndex p of None \<Rightarrow> 0 | Some n \<Rightarrow> n) \<le> 0) plans
   in case steered_plan i JB_off_task plans of
        None \<Rightarrow> i = '''' \<or> caused = []
      | Some p \<Rightarrow> p \<in> set caused \<and> list_all (\<lambda>q. tp_createdAtMs q \<le> tp_createdAtMs p) caused"
proof -
  define ok where "ok = (\<lambda>p :: task_plan. tp_triggerEventId p = Some i \<and> \<not> (case tp_revisionIndex p of None \<Rightarrow> 0 | Some n \<Rightarrow> n) \<le> 0)"
  define upd where "upd = (\<lambda>best (p :: task_plan). if \<not> ok p then best
      else case best of None \<Rightarrow> Some p | Some b \<Rightarrow> if tp_createdAtMs p > tp_createdAtMs b then Some p else best)"
  have "case foldl upd None plans of None \<Rightarrow> filter ok plans = []
      | Some p \<Rightarrow> p \<in> set (filter ok plans) \<and> list_all (\<lambda>q. tp_createdAtMs q \<le> tp_createdAtMs p) (filter ok plans)"
  proof (induction plans rule: rev_induct)
    case (snoc q plans)
    show ?case
    proof (cases "foldl upd None plans")
      case None
      with snoc show ?thesis by (auto simp: upd_def)
    next
      case (Some b)
      with snoc show ?thesis by (auto simp: upd_def list_all_iff)
    qed
  qed simp
  moreover have "steered_plan i JB_off_task plans = (if i \<noteq> '''' then foldl upd None plans else None)"
    unfolding steered_plan_def upd_def ok_def by (auto intro!: foldl_cong)
  ultimately show ?thesis unfolding Let_def ok_def [symmetric] by (auto split: option.splits)
qed

end
