(* ===== verification/Trajectory.thy ===== *)
theory Trajectory
  imports Details
begin

text \<open>
  The trajectory view, \<open>frontend/src/components/shell/views/TrajectoryView.tsx\<close>: the revisions of the selected plan with the
  drifts that fall on them, the layout of the plan graph, the differences between two revisions, the steering events, and
  the state of the view with every handler that changes it. What the handlers read from the store is given to each step.
\<close>

section \<open>The drifts of the ribbon\<close>

definition SEVERITY_RANK :: "(string \<times> int) list" where
  "SEVERITY_RANK = [(''critical'', 3), (''warning'', 2), (''info'', 1), ('''', 0)]"

definition RIBBON_MAX_MARKERS_PER_REV :: nat where
  "RIBBON_MAX_MARKERS_PER_REV = 24"

definition STEER_KINDS :: "string list" where
  "STEER_KINDS = [''user_steer'', ''user_cancel'', ''user_pause'']"

definition isRenderableDrift :: "drift_record \<Rightarrow> bool" where
  "isRenderableDrift d = (dr_kind d \<noteq> '''')"

definition severity_rank :: "string \<Rightarrow> int looked_up" where
  \<comment> \<open>\<open>SEVERITY_RANK[s] ?? 0\<close>\<close>
  "severity_rank s = (case object_get SEVERITY_RANK s of Missing \<Rightarrow> Own 0 | found \<Rightarrow> found)"

definition drift_cmp :: "drift_record \<Rightarrow> drift_record \<Rightarrow> int" where
  \<comment> \<open>the difference with a function is \<open>NaN\<close>, which \<open>sort\<close> takes for 0\<close>
  "drift_cmp a b =
     (let sa = severity_rank (dr_severity a); sb = severity_rank (dr_severity b)
      in if sa \<noteq> sb then (case (sb, sa) of (Own m, Own n) \<Rightarrow> m - n | _ \<Rightarrow> 0)
         else dr_recordedAtMs b - dr_recordedAtMs a)"

definition selectTopDrifts :: "drift_record list \<Rightarrow> nat \<Rightarrow> drift_record list \<times> nat" where
  "selectTopDrifts drifts limit =
     (if length drifts \<le> limit then (drifts, 0)
      else (sort_key dr_recordedAtMs (take limit (js_sort drift_cmp drifts)), length drifts - limit))"

fun worst_severity :: "string \<Rightarrow> drift_record list \<Rightarrow> string" where
  \<comment> \<open>the loop that colours the pill of a task node\<close>
  "worst_severity worst [] = worst"
| "worst_severity worst (d # ds) =
     (if dr_severity d = ''critical'' then ''critical''
      else if dr_severity d = ''warning'' \<and> worst \<noteq> ''critical'' then worst_severity ''warning'' ds
      else if worst = '''' then worst_severity (dr_severity d) ds
      else worst_severity worst ds)"

section \<open>The view model\<close>

record trajectory_vm =
  vm_planId :: "string option"
  vm_revs :: "task_plan list"
  vm_driftsByRev :: "drift_record list list"
  vm_allDrifts :: "drift_record list"
  vm_allDelegations :: "delegation_record list"

definition empty_vm :: trajectory_vm where
  "empty_vm = \<lparr>vm_planId = None, vm_revs = [], vm_driftsByRev = [], vm_allDrifts = [], vm_allDelegations = []\<rparr>"

definition collectAllPlanRevs :: "task_registry \<Rightarrow> task_plan list" where
  \<comment> \<open>\<open>seen\<close> holds plan objects: two live plans contribute the same objects exactly when they have the same id\<close>
  "collectAllPlanRevs r = concat (map (tr_allRevsForPlan r) (rev (remdups (rev (map tp_id (tr_listPlans r))))))"

fun rev_slot :: "int \<Rightarrow> task_plan list \<Rightarrow> nat \<Rightarrow> nat \<Rightarrow> nat" where
  \<comment> \<open>the inner loop over \<open>combined\<close> from index \<open>i\<close> on\<close>
  "rev_slot t [] i idx = idx"
| "rev_slot t (p # ps) i idx = (if tp_createdAtMs p \<le> t then rev_slot t ps (Suc i) i else idx)"

definition push_drift :: "task_plan list \<Rightarrow> drift_record list list option \<Rightarrow> drift_record \<Rightarrow> drift_record list list option" where
  \<comment> \<open>\<open>driftsByRev[idx].push(d)\<close>; \<open>None\<close> once an index was out of range, which throws\<close>
  "push_drift combined out d =
     (case out of
        None \<Rightarrow> None
      | Some m \<Rightarrow> (let idx = rev_slot (dr_recordedAtMs d) combined 0 0
                   in if idx < length m then Some (m[idx := m ! idx @ [d]]) else None))"

definition buildViewModel :: "session_store option \<Rightarrow> string option \<Rightarrow> trajectory_vm option" where
  \<comment> \<open>\<open>None\<close> is a call that throws\<close>
  "buildViewModel store selectedPlanId =
     (case store of
        None \<Rightarrow> Some empty_vm
      | Some st \<Rightarrow>
          let plans = tr_listPlans (ss_tasks st) in
          if plans = [] then Some empty_vm
          else let combined = sort_key tp_createdAtMs
                     (if str_of selectedPlanId \<noteq> '''' then tr_allRevsForPlan (ss_tasks st) (str_of selectedPlanId)
                      else collectAllPlanRevs (ss_tasks st));
                   primaryId = (case selectedPlanId of
                                  Some i \<Rightarrow> i
                                | None \<Rightarrow> (case combined of p # _ \<Rightarrow> tp_id p | [] \<Rightarrow> tp_id (plans ! 0)));
                   drifts = filter isRenderableDrift (rg_rows (ss_drifts st))
               in map_option (\<lambda>m. \<lparr>vm_planId = Some primaryId, vm_revs = combined, vm_driftsByRev = m, vm_allDrifts = drifts,
                                   vm_allDelegations = rg_rows (ss_delegations st)\<rparr>)
                    (foldl (push_drift combined) (Some (map (\<lambda>_. []) combined)) drifts))"

definition planList :: "session_store \<Rightarrow> task_plan list" where
  "planList st = sort_key (\<lambda>p. - tp_createdAtMs p) (tr_listPlans (ss_tasks st))"

definition effectivePlanId :: "session_store \<Rightarrow> string option \<Rightarrow> string option" where
  "effectivePlanId st persisted =
     (if str_of persisted \<noteq> '''' \<and> list_ex (\<lambda>p. tp_id p = str_of persisted) (planList st) then persisted
      else case planList st of [] \<Rightarrow> None | p # _ \<Rightarrow> Some (tp_id p))"

definition trajectory_view :: "session_store \<Rightarrow> string option \<Rightarrow> trajectory_vm option" where
  \<comment> \<open>the view model the component builds from the persisted choice of a plan\<close>
  "trajectory_view st persisted =
     buildViewModel (Some st) (if length (planList st) > 1 then effectivePlanId st persisted else None)"

section \<open>The plan graph\<close>

record dag_node =
  dn_task :: task
  dn_layer :: nat
  dn_row :: nat
  dn_x :: int
  dn_y :: int
  dn_w :: int
  dn_h :: int

record dag_layout =
  dg_nodes :: "dag_node list"
  dg_nodeById :: "(string, dag_node) jsmap"
  dg_edges :: "task_edge list"
  dg_width :: int
  dg_height :: int

definition DAG_PAD :: int where "DAG_PAD = 24"

definition DAG_COL_W :: int where "DAG_COL_W = 176"

definition DAG_COL_GAP :: int where "DAG_COL_GAP = 56"

definition DAG_BOX_H :: int where "DAG_BOX_H = 60"

definition DAG_ROW_GAP :: int where "DAG_ROW_GAP = 20"

definition dag_edge ::
    "(string, task) jsmap \<Rightarrow> (string, string list) jsmap \<times> (string, string list) jsmap \<Rightarrow> task_edge
     \<Rightarrow> (string, string list) jsmap \<times> (string, string list) jsmap" where
  "dag_edge taskById s e =
     (let (predm, succs) = s in
      if \<not> map_has taskById (te_fromTaskId e) \<or> \<not> map_has taskById (te_toTaskId e) then (predm, succs)
      else (AList.update (te_toTaskId e) (get_list predm (te_toTaskId e) @ [te_fromTaskId e]) predm,
            AList.update (te_fromTaskId e) (get_list succs (te_fromTaskId e) @ [te_toTaskId e]) succs))"

definition dag_graph :: "task_plan \<Rightarrow> (string, string list) jsmap \<times> (string, string list) jsmap" where
  "dag_graph plan =
     foldl (dag_edge (task_map (tp_tasks plan)))
       (foldl (\<lambda>(predm, succs) t. (AList.update (tk_id t) [] predm, AList.update (tk_id t) [] succs)) ([], []) (tp_tasks plan))
       (tp_edges plan)"

definition dag_enter :: "(string, string list) jsmap \<Rightarrow> topo \<Rightarrow> task \<Rightarrow> topo" where
  \<comment> \<open>the body of the loop over the tasks before the queue is worked off\<close>
  "dag_enter predm st t =
     (let n = int (length (get_list predm (tk_id t)));
          st1 = st\<lparr>td_indeg := AList.update (tk_id t) n (td_indeg st)\<rparr>
      in if n = 0 then st1\<lparr>td_depth := AList.update (tk_id t) 0 (td_depth st1), td_queue := td_queue st1 @ [tk_id t]\<rparr>
         else st1)"

definition dag_init :: "(string, string list) jsmap \<Rightarrow> task list \<Rightarrow> topo" where
  \<comment> \<open>layers, in-degrees and queue before the loop\<close>
  "dag_init predm tasks = foldl (dag_enter predm) \<lparr>td_depth = [], td_indeg = [], td_queue = []\<rparr> tasks"

definition dag_relax :: "nat \<Rightarrow> topo \<Rightarrow> string \<Rightarrow> topo" where
  "dag_relax L st s =
     (let d = (case map_of (td_indeg st) s of None \<Rightarrow> 1 | Some n \<Rightarrow> n) - 1
      in \<lparr>td_depth = AList.update s (max (get_num (td_depth st) s) (L + 1)) (td_depth st),
          td_indeg = AList.update s d (td_indeg st),
          td_queue = (if d = 0 then td_queue st @ [s] else td_queue st)\<rparr>)"

definition dag_step :: "(string, string list) jsmap \<Rightarrow> topo \<Rightarrow> topo" where
  "dag_step succs st =
     (let i = hd (td_queue st)
      in foldl (dag_relax (get_num (td_depth st) i)) (st\<lparr>td_queue := tl (td_queue st)\<rparr>) (get_list succs i))"

definition succ_ids :: "(string, string list) jsmap \<Rightarrow> string set" where
  "succ_ids succs = (\<Union>i\<in>fst ` set succs. set (get_list succs i))"

definition dag_work :: "(string, string list) jsmap \<Rightarrow> topo \<Rightarrow> nat" where
  \<comment> \<open>queued ids, ids with a positive in-degree, and successors without an in-degree\<close>
  "dag_work succs st =
     length (td_queue st) + card {k. 0 < get_num (td_indeg st) k} + card (succ_ids succs - fst ` set (td_indeg st))"

lemma finite_positive: "finite {k. (0::int) < get_num m k}"
proof (rule finite_subset)
  show "{k. 0 < get_num m k} \<subseteq> fst ` set m"
    by (auto simp: get_num_def map_of_key split: option.splits)
qed simp

lemma get_list_succ: "set (get_list succs i) \<subseteq> succ_ids succs"
proof (cases "map_of succs i")
  case (Some xs)
  then have "i \<in> fst ` set succs" by (rule map_of_key)
  then show ?thesis unfolding succ_ids_def by (rule UN_upper)
qed (simp add: get_list_def)

lemma dag_work_relax:
  assumes s: "s \<in> succ_ids succs"
  shows "dag_work succs (dag_relax L st s) \<le> dag_work succs st"
proof (cases "map_of (td_indeg st) s")
  case None
  have miss: "s \<in> succ_ids succs - fst ` set (td_indeg st)" using s None by (simp add: map_of_eq_None_iff)
  have "finite (succ_ids succs - fst ` set (td_indeg st))" by (simp add: succ_ids_def)
  moreover have "succ_ids succs - insert s (fst ` set (td_indeg st)) = succ_ids succs - fst ` set (td_indeg st) - {s}" by blast
  ultimately have "card (succ_ids succs - fst ` set (td_indeg st)) = Suc (card (succ_ids succs - insert s (fst ` set (td_indeg st))))"
    using miss by (simp only: card.remove)
  moreover have "{k. 0 < get_num (td_indeg (dag_relax L st s)) k} = {k. 0 < get_num (td_indeg st) k}"
    using None by (auto simp: dag_relax_def Let_def get_num_def)
  ultimately show ?thesis using None by (simp add: dag_work_def dag_relax_def Let_def fst_set_update)
next
  case (Some n)
  have keys: "fst ` set (td_indeg (dag_relax L st s)) = fst ` set (td_indeg st)"
    using Some by (simp add: dag_relax_def Let_def fst_set_update_old)
  have pos: "{k. 0 < get_num (td_indeg (dag_relax L st s)) k} =
      (if n = 1 then {k. 0 < get_num (td_indeg st) k} - {s} else {k. 0 < get_num (td_indeg st) k})"
    using Some by (auto simp: dag_relax_def Let_def get_num_def)
  have queue: "length (td_queue (dag_relax L st s)) = length (td_queue st) + (if n = 1 then 1 else 0)"
    using Some by (simp add: dag_relax_def Let_def)
  show ?thesis
  proof (cases "n = 1")
    case True
    then have "s \<in> {k. 0 < get_num (td_indeg st) k}" using Some by (simp add: get_num_def)
    from card.remove [OF finite_positive this] show ?thesis unfolding dag_work_def keys pos queue using True by simp
  next
    case False
    then show ?thesis unfolding dag_work_def keys pos queue by simp
  qed
qed

lemma dag_work_relax_all: "set ss \<subseteq> succ_ids succs \<Longrightarrow> dag_work succs (foldl (dag_relax L) st ss) \<le> dag_work succs st"
proof (induction ss arbitrary: st)
  case (Cons s ss)
  then show ?case using order_trans [OF Cons.IH dag_work_relax] by simp
qed simp

function dag_loop :: "(string, string list) jsmap \<Rightarrow> topo \<Rightarrow> topo" where
  "dag_loop succs st = (if td_queue st \<noteq> [] then dag_loop succs (dag_step succs st) else st)"
  by pat_completeness auto
termination
proof (relation "measure (\<lambda>(succs, st). dag_work succs st)", goal_cases)
  case (2 succs st)
  have "dag_work succs (dag_step succs st) \<le> dag_work succs (st\<lparr>td_queue := tl (td_queue st)\<rparr>)"
    unfolding dag_step_def Let_def by (rule dag_work_relax_all [OF get_list_succ])
  also have "\<dots> < dag_work succs st" using 2 by (cases "td_queue st") (simp_all add: dag_work_def)
  finally show ?case by simp
qed simp

declare dag_loop.simps [simp del]

definition dag_layers :: "task_plan \<Rightarrow> (string, nat) jsmap" where
  "dag_layers plan =
     (let (predm, succs) = dag_graph plan;
          st = dag_loop succs (dag_init predm (tp_tasks plan))
      in foldl (\<lambda>m t. if \<not> map_has m (tk_id t) then AList.update (tk_id t) 0 m else m) (td_depth st) (tp_tasks plan))"

fun str_cmp :: "string \<Rightarrow> string \<Rightarrow> int" where
  \<comment> \<open>the order of code units that \<open>sort()\<close> uses\<close>
  "str_cmp [] [] = 0"
| "str_cmp [] (d # t) = - 1"
| "str_cmp (c # s) [] = 1"
| "str_cmp (c # s) (d # t) = (if c = d then str_cmp s t else if (of_char c :: nat) < of_char d then - 1 else 1)"

definition dag_node_at :: "(string, task) jsmap \<Rightarrow> nat \<Rightarrow> nat \<Rightarrow> string \<Rightarrow> dag_node" where
  "dag_node_at taskById L r i =
     \<lparr>dn_task = the (map_of taskById i), dn_layer = L, dn_row = r, dn_x = DAG_PAD + int L * (DAG_COL_W + DAG_COL_GAP),
      dn_y = DAG_PAD + int r * (DAG_BOX_H + DAG_ROW_GAP), dn_w = DAG_COL_W, dn_h = DAG_BOX_H\<rparr>"

definition dag_columns :: "(string, nat) jsmap \<Rightarrow> task list \<Rightarrow> string list list" where
  \<comment> \<open>\<open>byLayer[layer.get(t.id)!].push(t.id)\<close>; every task has a layer by then\<close>
  "dag_columns layer tasks =
     (let maxLayer = foldl (\<lambda>m t. max m (get_num layer (tk_id t))) 0 tasks
      in map (\<lambda>L. js_sort str_cmp (filter (\<lambda>i. map_of layer i = Some L) (map tk_id tasks))) [0..<maxLayer + 1])"

definition layoutDag :: "task_plan \<Rightarrow> dag_layout" where
  "layoutDag plan =
     (let taskById = task_map (tp_tasks plan);
          byLayer = dag_columns (dag_layers plan) (tp_tasks plan);
          nodes = concat (map (\<lambda>(L, col). map (\<lambda>(r, i). dag_node_at taskById L r i) (enumerate 0 col)) (enumerate 0 byLayer));
          maxRow = foldl (\<lambda>m n. if dn_row n > m then dn_row n else m) 0 nodes;
          nCols = max 1 (length byLayer)
      in \<lparr>dg_nodes = nodes, dg_nodeById = foldl (\<lambda>m n. AList.update (tk_id (dn_task n)) n m) [] nodes, dg_edges = tp_edges plan,
          dg_width = DAG_PAD + int nCols * DAG_COL_W + (int nCols - 1) * DAG_COL_GAP + DAG_PAD,
          dg_height = DAG_PAD + int (maxRow + 1) * (DAG_BOX_H + DAG_ROW_GAP) + DAG_PAD\<rparr>)"

section \<open>Differences, times and labels\<close>

record diff_marks =
  dm_added :: "string list"
  dm_removed :: "string list"
  dm_modified :: "string list"

definition diffMarks :: "task_plan option \<Rightarrow> task_plan \<Rightarrow> diff_marks" where
  "diffMarks prev nxt =
     (let prevById = task_map (case prev of None \<Rightarrow> [] | Some p \<Rightarrow> tp_tasks p);
          nextById = task_map (tp_tasks nxt);
          (added, modified) = foldl (\<lambda>(added, modified) t.
              case map_of prevById (tk_id t) of
                None \<Rightarrow> (set_add (tk_id t) added, modified)
              | Some p \<Rightarrow>
                  if tk_title p \<noteq> tk_title t \<or> tk_description p \<noteq> tk_description t \<or> tk_assigneeAgentId p \<noteq> tk_assigneeAgentId t
                  then (added, set_add (tk_id t) modified) else (added, modified)) ([], []) (tp_tasks nxt)
      in \<lparr>dm_added = added, dm_removed = filter (\<lambda>i. \<not> map_has nextById i) (map fst prevById), dm_modified = modified\<rparr>)"

definition pad2 :: "string \<Rightarrow> string" where
  \<comment> \<open>\<open>padStart(2, '0')\<close>\<close>
  "pad2 s = replicate (2 - length s) (CHR ''0'') @ s"

definition fmtTime :: "int \<Rightarrow> string" where
  "fmtTime ms =
     (if ms < 0 then ''''
      else let totalSec = ms div 1000 in js_int (totalSec div 60) @ '':'' @ pad2 (js_int (totalSec mod 60)))"

definition truncate_text :: "string \<Rightarrow> nat \<Rightarrow> string" where
  "truncate_text s n = (if length s \<le> n then s else take (n - 1) s @ ellipsis)"

definition genBadgeFill :: "int \<Rightarrow> string" where
  "genBadgeFill n =
     (if n \<le> 0 then ''#5a5e68'' else if n = 1 then ''#b59340'' else if n = 2 then ''#d09532'' else ''#e08a24'')"

definition by_task :: "('a \<Rightarrow> string) \<Rightarrow> 'a list \<Rightarrow> (string, 'a list) jsmap" where
  \<comment> \<open>\<open>buildDriftsByTaskId\<close> and \<open>buildDelegationsByTaskId\<close>\<close>
  "by_task f xs = foldl (\<lambda>m d. if f d = '''' then m else AList.update (f d) (get_list m (f d) @ [d]) m) [] xs"

section \<open>Steering\<close>

definition findSteeringTargetTask :: "task_plan \<Rightarrow> string \<Rightarrow> task option" where
  "findSteeringTargetTask plan targetAgentId =
     (if targetAgentId = '''' then None
      else let hits = filter (\<lambda>t. tk_assigneeAgentId t = targetAgentId) (tp_tasks plan)
           in if hits = [] then None
              else case find (\<lambda>t. tk_status t = TS_RUNNING \<or> tk_status t = TS_PENDING) hits of
                     Some t \<Rightarrow> Some t
                   | None \<Rightarrow> Some (hits ! 0))"

definition findUserGoalSpan :: "session_store \<Rightarrow> span option" where
  "findUserGoalSpan st =
     foldl (\<lambda>chosen s.
         if sp_kind s \<noteq> USER_MESSAGE \<or> attr_get (sp_attributes s) ''user.goal_summary'' = None then chosen
         else (case chosen of None \<Rightarrow> Some s | Some c \<Rightarrow> if sp_startMs s < sp_startMs c then Some s else chosen))
       None (si_queryAgent (ss_spans st) ''__user__'' 0 Beyond [])"

record steering_event =
  se_revision :: int
  se_byUser :: bool
  se_kind :: string
  se_kindLabel :: string
  se_reason :: string
  se_targetTaskId :: string
  se_targetAgentId :: string
  se_gutterCx :: int
  se_gutterCy :: int

definition filterCumulativeAtRevision :: "cumulative_plan \<Rightarrow> int \<Rightarrow> cumulative_plan" where
  "filterCumulativeAtRevision c pinned =
     (let visibleIds = map fst (filter (\<lambda>e. cm_introducedInRevision (snd e) \<le> pinned) (cp_taskRevisionMeta c))
      in c\<lparr>tp_tasks := filter (\<lambda>t. tk_id t \<in> set visibleIds) (tp_tasks c),
           tp_edges := filter (\<lambda>e. te_fromTaskId e \<in> set visibleIds \<and> te_toTaskId e \<in> set visibleIds) (tp_edges c),
           cp_taskRevisionMeta := filter (\<lambda>e. fst e \<in> set visibleIds) (cp_taskRevisionMeta c)\<rparr>)"

definition newTaskByRevision :: "(string, supersession_link) jsmap \<Rightarrow> (int, string) jsmap" where
  "newTaskByRevision supersedes =
     foldl (\<lambda>m l. if sl_newTaskId l \<noteq> '''' \<and> \<not> map_has m (sl_revision l) then AList.update (sl_revision l) (sl_newTaskId l) m else m)
       [] (map snd supersedes)"

definition steering_target ::
    "plan_revision_record list \<Rightarrow> (int, string) jsmap \<Rightarrow> task_plan \<Rightarrow> session_store option \<Rightarrow> plan_revision_record \<Rightarrow> string \<times> string" where
  \<comment> \<open>the target task and its agent; the three sources in their order\<close>
  "steering_target history newTask renderPlan store rec =
     (let tasksById = task_map (tp_tasks renderPlan);
          t1 = str_of (map_of newTask (ph_revision rec));
          a1 = (if t1 \<noteq> '''' then (case map_of tasksById t1 of None \<Rightarrow> '''' | Some t \<Rightarrow> tk_assigneeAgentId t) else '''');
          agent = read_attr (findRefineSpan store (ph_plan rec)) ''refine.target_agent_id'';
          (t2, a2) = (if t1 = '''' \<and> store \<noteq> None \<and> agent \<noteq> ''''
                      then (case findSteeringTargetTask renderPlan agent of None \<Rightarrow> (t1, a1) | Some t \<Rightarrow> (tk_id t, agent))
                      else (t1, a1));
          prevIds = (case find (\<lambda>r. ph_revision r = ph_revision rec - 1) history of
                       None \<Rightarrow> [] | Some r \<Rightarrow> map tk_id (tp_tasks (ph_plan r)))
      in if t2 = ''''
         then (case find (\<lambda>t. tk_id t \<notin> set prevIds \<and> map_has tasksById (tk_id t)) (tp_tasks (ph_plan rec)) of
                 None \<Rightarrow> (t2, a2) | Some t \<Rightarrow> (tk_id t, tk_assigneeAgentId t))
         else (t2, a2))"

definition push_steering ::
    "plan_revision_record list \<Rightarrow> (int, string) jsmap \<Rightarrow> task_plan \<Rightarrow> int option \<Rightarrow> session_store option
     \<Rightarrow> steering_event list \<Rightarrow> plan_revision_record \<Rightarrow> steering_event list" where
  \<comment> \<open>the body of the loop over \<open>history\<close>; \<open>slot\<close> is the number of events so far\<close>
  "push_steering history newTask renderPlan pinned store out rec =
     (if ph_revision rec = 0 \<or> (case pinned of None \<Rightarrow> False | Some p \<Rightarrow> ph_revision rec > p) then out
      else let (targetTaskId, targetAgentId) = steering_target history newTask renderPlan store rec;
               byUser = starts_with (ph_kind rec) ''user_''
           in if targetTaskId = '''' \<or> \<not> map_has (task_map (tp_tasks renderPlan)) targetTaskId then out
              else out @ [\<lparr>se_revision = ph_revision rec, se_byUser = byUser, se_kind = ph_kind rec,
                           se_kindLabel = (if ph_kind rec \<noteq> '''' then (if byUser then ''user steer'' else to_upper (ph_kind rec))
                                           else ''rev '' @ js_int (ph_revision rec)),
                           se_reason = ph_reason rec, se_targetTaskId = targetTaskId, se_targetAgentId = targetAgentId,
                           se_gutterCx = 12, se_gutterCy = 40 + int (length out) * 24\<rparr>])"

definition buildSteeringEvents ::
    "plan_revision_record list \<Rightarrow> (string, supersession_link) jsmap \<Rightarrow> task_plan \<Rightarrow> int option \<Rightarrow> session_store option \<Rightarrow> steering_event list" where
  "buildSteeringEvents history supersedes renderPlan pinned store =
     (if history = [] then []
      else foldl (push_steering history (newTaskByRevision supersedes) renderPlan pinned store) [] history)"

section \<open>The state of the view\<close>

datatype traj_selection = Sel_task string string | Sel_drift nat

datatype steering_kind = SS_revision | SS_supersedes

record steering_selection =
  sx_kind :: steering_kind
  sx_revision :: int
  sx_oldTaskId :: "string option"
  sx_targetTaskId :: "string option"

datatype drawer_content = Drawer_task task "task_plan option" | Drawer_steering steering_selection

record traj_ui =
  tu_planId :: "string option" \<comment> \<open>\<open>trajectorySelectedPlanId\<close> of the UI store\<close>
  tu_pinnedRevision :: "int option" \<comment> \<open>\<open>selectedRevision\<close> of the UI store\<close>
  tu_pinnedRevIdx :: "nat option"
  tu_compareRevIdx :: "nat option"
  tu_selection :: "traj_selection option"
  tu_steering :: "steering_selection option"
  tu_drawerOpen :: bool
  tu_drawer :: "drawer_content option"
  tu_spans :: "string list" \<comment> \<open>the calls of \<open>selectSpan\<close>\<close>

definition initial_ui :: traj_ui where
  "initial_ui = \<lparr>tu_planId = None, tu_pinnedRevision = None, tu_pinnedRevIdx = None, tu_compareRevIdx = None, tu_selection = None,
                 tu_steering = None, tu_drawerOpen = False, tu_drawer = None, tu_spans = []\<rparr>"

definition latestIdx :: "trajectory_vm \<Rightarrow> nat" where
  "latestIdx vm = length (vm_revs vm) - 1"

definition revIdx :: "trajectory_vm \<Rightarrow> traj_ui \<Rightarrow> nat" where
  "revIdx vm ui = (case tu_pinnedRevIdx ui of None \<Rightarrow> latestIdx vm | Some i \<Rightarrow> min i (latestIdx vm))"

definition rev_at :: "trajectory_vm \<Rightarrow> nat \<Rightarrow> task_plan option" where
  \<comment> \<open>\<open>vm.revs[i] ?? null\<close>\<close>
  "rev_at vm i = (if i < length (vm_revs vm) then Some (vm_revs vm ! i) else None)"

definition currentRev :: "trajectory_vm \<Rightarrow> traj_ui \<Rightarrow> task_plan option" where
  "currentRev vm ui = rev_at vm (revIdx vm ui)"

definition compareRev :: "trajectory_vm \<Rightarrow> traj_ui \<Rightarrow> task_plan option" where
  "compareRev vm ui =
     (case tu_compareRevIdx ui of
        None \<Rightarrow> None
      | Some c \<Rightarrow> if c = revIdx vm ui then None else rev_at vm (min c (latestIdx vm)))"

definition highestRevisionIndex :: "trajectory_vm \<Rightarrow> int" where
  "highestRevisionIndex vm =
     foldl (\<lambda>m (i, p). max m (case tp_revisionIndex p of None \<Rightarrow> int i | Some n \<Rightarrow> n)) 0 (enumerate 0 (vm_revs vm))"

definition currentRevisionIndex :: "trajectory_vm \<Rightarrow> traj_ui \<Rightarrow> int" where
  "currentRevisionIndex vm ui =
     (case currentRev vm ui of
        None \<Rightarrow> int (revIdx vm ui)
      | Some p \<Rightarrow> (case tp_revisionIndex p of None \<Rightarrow> int (revIdx vm ui) | Some n \<Rightarrow> n))"

definition filteredCumulative :: "cumulative_plan option \<Rightarrow> traj_ui \<Rightarrow> cumulative_plan option" where
  "filteredCumulative c ui =
     (case c of
        None \<Rightarrow> None
      | Some p \<Rightarrow> (case tu_pinnedRevision ui of None \<Rightarrow> Some p | Some r \<Rightarrow> Some (filterCumulativeAtRevision p r)))"

definition marks :: "trajectory_vm \<Rightarrow> traj_ui \<Rightarrow> diff_marks option" where
  "marks vm ui =
     (case (currentRev vm ui, compareRev vm ui) of (Some p, Some q) \<Rightarrow> Some (diffMarks (Some q) p) | _ \<Rightarrow> None)"

definition onRevChange :: "trajectory_vm \<Rightarrow> traj_ui \<Rightarrow> nat \<Rightarrow> bool \<Rightarrow> traj_ui" where
  "onRevChange vm ui i shiftKey =
     (if shiftKey then ui\<lparr>tu_compareRevIdx := (if tu_compareRevIdx ui = Some i then None else Some i), tu_selection := None\<rparr>
      else ui\<lparr>tu_pinnedRevIdx := (if i = latestIdx vm then None else Some i), tu_compareRevIdx := None, tu_selection := None\<rparr>)"

definition onRibbonLatest :: "traj_ui \<Rightarrow> traj_ui" where
  "onRibbonLatest ui =
     ui\<lparr>tu_pinnedRevision := None, tu_pinnedRevIdx := None, tu_compareRevIdx := None, tu_selection := None, tu_steering := None\<rparr>"

definition revision_at :: "trajectory_vm \<Rightarrow> int \<Rightarrow> nat option" where
  \<comment> \<open>\<open>vm.revs.findIndex((p) => (p.revisionIndex ?? 0) === rev)\<close>\<close>
  "revision_at vm r = map_option fst (find (\<lambda>(i, p). rev_index p = r) (enumerate 0 (vm_revs vm)))"

definition onRibbonSelectRevision :: "trajectory_vm \<Rightarrow> traj_ui \<Rightarrow> int \<Rightarrow> traj_ui" where
  "onRibbonSelectRevision vm ui r =
     (let ui1 = ui\<lparr>tu_pinnedRevision := Some r\<rparr>
      in (case revision_at vm r of None \<Rightarrow> ui1 | Some idx \<Rightarrow> onRevChange vm ui1 idx False)\<lparr>tu_steering := None\<rparr>)"

definition onPickPlan :: "traj_ui \<Rightarrow> string \<Rightarrow> traj_ui" where
  "onPickPlan ui i = onRibbonLatest (ui\<lparr>tu_planId := Some i\<rparr>)"

definition openDrawerForTask :: "trajectory_vm \<Rightarrow> cumulative_plan option \<Rightarrow> traj_ui \<Rightarrow> string \<Rightarrow> traj_ui" where
  "openDrawerForTask vm c ui taskId =
     (case currentRev vm ui of
        None \<Rightarrow> ui
      | Some p \<Rightarrow>
          let planForLookup = (case filteredCumulative c ui of None \<Rightarrow> p | Some q \<Rightarrow> task_plan.truncate q)
          in case find (\<lambda>t. tk_id t = taskId) (tp_tasks planForLookup) of
               None \<Rightarrow> ui
             | Some t \<Rightarrow> ui\<lparr>tu_drawer := Some (Drawer_task t (Some planForLookup)), tu_drawerOpen := True,
                             tu_selection := Some (Sel_task taskId (tp_id p)),
                             tu_spans := tu_spans ui @ (if tk_boundSpanId t \<noteq> '''' then [tk_boundSpanId t] else [])\<rparr>)"

definition openDrawerForSteering :: "traj_ui \<Rightarrow> steering_selection \<Rightarrow> traj_ui" where
  "openDrawerForSteering ui s = ui\<lparr>tu_drawer := Some (Drawer_steering s), tu_drawerOpen := True, tu_steering := Some s\<rparr>"

definition openDrawerForIntervention :: "traj_ui \<Rightarrow> intervention_row \<Rightarrow> traj_ui" where
  "openDrawerForIntervention ui row =
     (if iv_planRevisionIndex row > 0
      then openDrawerForSteering ui
             \<lparr>sx_kind = SS_revision, sx_revision = iv_planRevisionIndex row, sx_oldTaskId = None, sx_targetTaskId = None\<rparr>
      else ui\<lparr>tu_selection := Some (Sel_drift 0)\<rparr>)"

definition onCloseDrawer :: "traj_ui \<Rightarrow> traj_ui" where
  \<comment> \<open>the close button of the drawer, and its jump to the Gantt view\<close>
  "onCloseDrawer ui = ui\<lparr>tu_drawerOpen := False, tu_steering := None\<rparr>"

definition onPinRevision :: "traj_ui \<Rightarrow> int option \<Rightarrow> traj_ui" where
  "onPinRevision ui r = ui\<lparr>tu_pinnedRevision := r, tu_steering := None\<rparr>"

definition onJumpToRevision :: "trajectory_vm \<Rightarrow> traj_ui \<Rightarrow> int \<Rightarrow> traj_ui" where
  "onJumpToRevision vm ui r = (case revision_at vm r of None \<Rightarrow> ui | Some i \<Rightarrow> onRevChange vm ui i False)"

datatype traj_event =
  Rev_change nat bool | Ribbon_latest | Ribbon_revision int | Pick_plan string | Click_task string
  | Click_steering steering_selection | Click_intervention intervention_row | Close_drawer | Clear_compare
  | Pin_revision "int option" | Select_drift nat | Jump_to_revision int | Close_steering

fun traj_step :: "trajectory_vm \<Rightarrow> cumulative_plan option \<Rightarrow> traj_ui \<Rightarrow> traj_event \<Rightarrow> traj_ui" where
  \<comment> \<open>the handlers that the view hands to its children\<close>
  "traj_step vm c ui (Rev_change i shiftKey) = onRevChange vm ui i shiftKey"
| "traj_step vm c ui Ribbon_latest = onRibbonLatest ui"
| "traj_step vm c ui (Ribbon_revision r) = onRibbonSelectRevision vm ui r"
| "traj_step vm c ui (Pick_plan i) = onPickPlan ui i"
| "traj_step vm c ui (Click_task i) = openDrawerForTask vm c ui i"
| "traj_step vm c ui (Click_steering s) = openDrawerForSteering ui s"
| "traj_step vm c ui (Click_intervention row) = openDrawerForIntervention ui row"
| "traj_step vm c ui Close_drawer = onCloseDrawer ui"
| "traj_step vm c ui Clear_compare = ui\<lparr>tu_compareRevIdx := None\<rparr>"
| "traj_step vm c ui (Pin_revision r) = onPinRevision ui r"
| "traj_step vm c ui (Select_drift n) = ui\<lparr>tu_selection := Some (Sel_drift n)\<rparr>"
| "traj_step vm c ui (Jump_to_revision r) = onJumpToRevision vm ui r"
| "traj_step vm c ui Close_steering = ui\<lparr>tu_steering := None\<rparr>"

section \<open>Every drift is shown on the revision in force\<close>

lemma live_plan_has_revs:
  assumes ok: "tasks_ok r" and p: "p \<in> set (tr_listPlans r)"
  shows "tr_allRevsForPlan r (tp_id p) \<noteq> []"
proof -
  obtain a where a: "a \<in> set (tr_plans r)" "p = tr_heap r ! a" using p by (auto simp: tr_listPlans_def)
  have "map_of (tr_byId r) (tp_id (tr_heap r ! a)) = Some a" using plans_okD(5) [OF _ a(1)] ok by (simp add: tasks_ok_def)
  then show ?thesis by (simp add: tr_allRevsForPlan_def tr_getPlan_def a(2) Let_def)
qed

lemma rev_slot_takeWhile:
  "rev_slot t ps i idx = (let n = length (takeWhile (\<lambda>p. tp_createdAtMs p \<le> t) ps) in if n = 0 then idx else i + n - 1)"
  by (induction ps arbitrary: i idx) (auto simp: Let_def)

definition in_force :: "task_plan list \<Rightarrow> nat \<Rightarrow> int \<Rightarrow> bool" where
  \<comment> \<open>the revision \<open>i\<close> is the last one made by the time \<open>t\<close>, or the first one when none is\<close>
  "in_force revs i t \<longleftrightarrow>
     i < length revs \<and> (if i = 0 then True else tp_createdAtMs (revs ! i) \<le> t) \<and>
     (if Suc i < length revs then t < tp_createdAtMs (revs ! Suc i) else True)"

lemma rev_slot_in_force:
  assumes "revs \<noteq> []" and sorted: "sorted (map tp_createdAtMs revs)"
  shows "in_force revs (rev_slot t revs 0 0) t"
proof -
  define n where "n = length (takeWhile (\<lambda>p. tp_createdAtMs p \<le> t) revs)"
  have le: "n \<le> length revs" by (simp add: n_def length_takeWhile_le)
  have below: "tp_createdAtMs (revs ! k) \<le> t" if "k < n" for k
    using that nth_mem [of k "takeWhile (\<lambda>p. tp_createdAtMs p \<le> t) revs"]
    by (auto simp: n_def takeWhile_nth dest: set_takeWhileD)
  have above: "t < tp_createdAtMs (revs ! n)" if "n < length revs"
    using nth_length_takeWhile [of "\<lambda>p. tp_createdAtMs p \<le> t" revs] that by (simp add: n_def)
  have slot: "rev_slot t revs 0 0 = (if n = 0 then 0 else n - 1)" by (simp add: rev_slot_takeWhile Let_def n_def)
  show ?thesis
  proof (cases n)
    case 0
    have "t < tp_createdAtMs (revs ! 1)" if "1 < length revs"
    proof -
      have "t < tp_createdAtMs (revs ! 0)" using above 0 assms(1) by simp
      also have "\<dots> \<le> tp_createdAtMs (revs ! 1)" using sorted_nth_mono [OF sorted, of 0 1] that assms(1) by simp
      finally show ?thesis .
    qed
    with 0 assms(1) show ?thesis by (simp add: in_force_def slot)
  next
    case (Suc k)
    with below [of k] above le show ?thesis by (auto simp: in_force_def slot)
  qed
qed

lemma push_drifts:
  assumes "revs \<noteq> []" and sorted: "sorted (map tp_createdAtMs revs)"
  shows "\<exists>m. foldl (push_drift revs) (Some (map (\<lambda>_. []) revs)) ds = Some m \<and> length m = length revs \<and>
    mset (concat m) = mset ds \<and> (\<forall>i<length revs. \<forall>d\<in>set (m ! i). in_force revs i (dr_recordedAtMs d))"
proof (induction ds rule: rev_induct)
  case Nil
  have "concat (map (\<lambda>_. []) revs) = []" by simp
  then show ?case by simp
next
  case (snoc d ds)
  then obtain m where m: "foldl (push_drift revs) (Some (map (\<lambda>_. []) revs)) ds = Some m" "length m = length revs"
      "mset (concat m) = mset ds" "\<forall>i<length revs. \<forall>d\<in>set (m ! i). in_force revs i (dr_recordedAtMs d)" by blast
  define k where "k = rev_slot (dr_recordedAtMs d) revs 0 0"
  have k: "in_force revs k (dr_recordedAtMs d)" unfolding k_def by (rule rev_slot_in_force [OF assms])
  then have kl: "k < length m" by (simp add: in_force_def m(2))
  have "mset (concat (m[k := m ! k @ [d]])) = add_mset d (mset (concat m))"
  proof -
    have split: "m = take k m @ m ! k # drop (Suc k) m" using kl by (rule id_take_nth_drop)
    have "concat m = concat (take k m) @ m ! k @ concat (drop (Suc k) m)" by (subst split) simp
    moreover have "concat (m[k := m ! k @ [d]]) = concat (take k m) @ (m ! k @ [d]) @ concat (drop (Suc k) m)"
      using kl by (simp add: upd_conv_take_nth_drop)
    ultimately show ?thesis by simp
  qed
  moreover have "\<forall>i<length revs. \<forall>e\<in>set (m[k := m ! k @ [d]] ! i). in_force revs i (dr_recordedAtMs e)"
    using m(2,4) k kl by (auto simp: nth_list_update)
  moreover have "foldl (push_drift revs) (Some (map (\<lambda>_. []) revs)) (ds @ [d]) = Some (m[k := m ! k @ [d]])"
    using kl by (simp add: m(1)) (simp add: push_drift_def Let_def k_def [symmetric])
  ultimately show ?case using m(2,3) by simp
qed

lemma effective_plan_listed:
  assumes "tr_listPlans (ss_tasks st) \<noteq> []"
  shows "\<exists>p\<in>set (tr_listPlans (ss_tasks st)). effectivePlanId st persisted = Some (tp_id p)"
proof (cases "str_of persisted \<noteq> '''' \<and> list_ex (\<lambda>p. tp_id p = str_of persisted) (planList st)")
  case True
  then obtain p where "p \<in> set (planList st)" "tp_id p = str_of persisted" by (auto simp: list_ex_iff)
  moreover have "persisted = Some (str_of persisted)" using True by (cases persisted) (simp_all add: str_of_def)
  moreover have "effectivePlanId st persisted = persisted" using True by (simp add: effectivePlanId_def)
  ultimately show ?thesis by (intro bexI [of _ p]) (simp_all add: planList_def)
next
  case False
  have "planList st \<noteq> []" using assms by (simp add: planList_def flip: set_empty)
  then obtain p ps where "planList st = p # ps" by (cases "planList st") auto
  moreover from this have "p \<in> set (tr_listPlans (ss_tasks st))" by (metis list.set_intros(1) planList_def set_sort)
  ultimately show ?thesis unfolding effectivePlanId_def using False by auto
qed

text \<open>C9: Whatever plans, refines and task updates have arrived and whichever plan is chosen, the trajectory view is built: its
  revisions are in the order of their creation, each drift that has a kind is in exactly one of their columns, and that is
  the column of the last revision made by then, or of the first when the drift came before it.\<close>

theorem drifts_on_revision_in_force:
  "let st' = st\<lparr>ss_tasks := foldl task_step emptyTasks ops\<rparr>
   in case trajectory_view st' persisted of
        None \<Rightarrow> False
      | Some vm \<Rightarrow>
          (vm_revs vm = []) = (tr_listPlans (ss_tasks st') = []) \<and>
          sorted (map tp_createdAtMs (vm_revs vm)) \<and> length (vm_driftsByRev vm) = length (vm_revs vm) \<and>
          vm_allDrifts vm = (if vm_revs vm = [] then [] else filter isRenderableDrift (rg_rows (ss_drifts st'))) \<and>
          mset (concat (vm_driftsByRev vm)) = mset (vm_allDrifts vm) \<and>
          list_all (\<lambda>i. list_all (\<lambda>d. in_force (vm_revs vm) i (dr_recordedAtMs d)) (vm_driftsByRev vm ! i)) [0..<length (vm_revs vm)]"
proof -
  define st' where "st' = st\<lparr>ss_tasks := foldl task_step emptyTasks ops\<rparr>"
  have ok: "tasks_ok (ss_tasks st')" by (simp add: st'_def tasks_ok_run)
  show ?thesis
  proof (cases "tr_listPlans (ss_tasks st') = []")
    case True
    then show ?thesis unfolding Let_def st'_def [symmetric]
      by (simp add: trajectory_view_def planList_def buildViewModel_def empty_vm_def)
  next
    case False
    define sel where "sel = (if length (planList st') > 1 then effectivePlanId st' persisted else None)"
    define raw where "raw = (if str_of sel \<noteq> '''' then tr_allRevsForPlan (ss_tasks st') (str_of sel) else collectAllPlanRevs (ss_tasks st'))"
    define revs where "revs = sort_key tp_createdAtMs raw"
    obtain q where q: "q \<in> set (tr_listPlans (ss_tasks st'))" using False by (cases "tr_listPlans (ss_tasks st')") auto
    have all: "collectAllPlanRevs (ss_tasks st') \<noteq> []" using live_plan_has_revs [OF ok q] q by (auto simp: collectAllPlanRevs_def)
    have "raw \<noteq> []"
    proof (cases "str_of sel = ''''")
      case False
      then have "sel = effectivePlanId st' persisted" by (auto simp: sel_def str_of_def split: if_splits)
      with effective_plan_listed [of st' persisted] \<open>tr_listPlans (ss_tasks st') \<noteq> []\<close> live_plan_has_revs [OF ok] False
      show ?thesis by (auto simp: raw_def str_of_def)
    qed (simp add: raw_def all)
    then have ne: "revs \<noteq> []" by (simp add: revs_def flip: set_empty)
    have sorted: "sorted (map tp_createdAtMs revs)" by (simp add: revs_def)
    obtain m where m: "foldl (push_drift revs) (Some (map (\<lambda>_. []) revs)) (filter isRenderableDrift (rg_rows (ss_drifts st'))) = Some m"
        "length m = length revs" "mset (concat m) = mset (filter isRenderableDrift (rg_rows (ss_drifts st')))"
        "\<forall>i<length revs. \<forall>d\<in>set (m ! i). in_force revs i (dr_recordedAtMs d)"
      using push_drifts [OF ne sorted] by blast
    obtain vm where vm: "trajectory_view st' persisted = Some vm" "vm_revs vm = revs" "vm_driftsByRev vm = m"
        "vm_allDrifts vm = filter isRenderableDrift (rg_rows (ss_drifts st'))"
    proof -
      have "trajectory_view st' persisted = buildViewModel (Some st') sel" by (simp only: trajectory_view_def sel_def)
      moreover obtain vm where "buildViewModel (Some st') sel = Some vm" "vm_revs vm = revs" "vm_driftsByRev vm = m"
          "vm_allDrifts vm = filter isRenderableDrift (rg_rows (ss_drifts st'))"
        using m(1) False by (simp add: buildViewModel_def Let_def raw_def revs_def)
      ultimately show thesis by (intro that) simp_all
    qed
    show ?thesis
      unfolding Let_def st'_def [symmetric] vm(1) option.case vm(2-4) using False ne sorted m(2-4) by (simp add: list_all_iff)
  qed
qed

section \<open>The markers that are kept\<close>

lemma mset_js_sort: "mset (js_sort cmp xs) = mset xs"
proof -
  have "mset (js_insert cmp x ys) = add_mset x (mset ys)" for x ys by (induction ys) simp_all
  then show ?thesis by (induction xs) (simp_all add: js_sort_def)
qed

definition rank_of :: "drift_record \<Rightarrow> int" where
  "rank_of d = (case severity_rank (dr_severity d) of Own n \<Rightarrow> n | _ \<Rightarrow> 0)"

definition outranks :: "drift_record \<Rightarrow> drift_record \<Rightarrow> bool" where
  \<comment> \<open>more severe, or as severe and not older\<close>
  "outranks d e = (rank_of e < rank_of d \<or> rank_of d = rank_of e \<and> dr_recordedAtMs e \<le> dr_recordedAtMs d)"

lemma drift_cmp_rank:
  assumes "dr_severity a \<notin> set object_prototype_keys" and "dr_severity b \<notin> set object_prototype_keys"
  shows "drift_cmp a b = (if rank_of a \<noteq> rank_of b then rank_of b - rank_of a else dr_recordedAtMs b - dr_recordedAtMs a)"
proof -
  have own: "severity_rank s = Own (case severity_rank s of Own n \<Rightarrow> n | _ \<Rightarrow> 0)" if "s \<notin> set object_prototype_keys" for s
    using that by (simp add: severity_rank_def object_get_def split: option.split)
  show ?thesis
    unfolding drift_cmp_def Let_def rank_of_def using own [OF assms(1)] own [OF assms(2)]
    by (cases "severity_rank (dr_severity a)"; cases "severity_rank (dr_severity b)") auto
qed

text \<open>When a revision has more drifts than the ribbon shows, the ones it keeps are as many as fit, in the order of time, and no drift
  it drops is more severe than one it keeps, or as severe and more recent.\<close>

theorem markers_keep_most_severe:
  assumes "list_all (\<lambda>d. dr_severity d \<notin> set object_prototype_keys) drifts"
  shows "let (shown, hidden) = selectTopDrifts drifts limit
         in length shown = min limit (length drifts) \<and> hidden = length drifts - length shown \<and>
            (if hidden = 0 then shown = drifts else sorted (map dr_recordedAtMs shown)) \<and>
            (\<exists>dropped. mset drifts = mset shown + mset dropped \<and> list_all (\<lambda>d. list_all (outranks d) dropped) shown)"
proof (cases "length drifts \<le> limit")
  case True
  then show ?thesis by (auto simp: selectTopDrifts_def intro!: exI [of _ "[]"] simp: list_all_iff)
next
  case False
  define ranked where "ranked = js_sort drift_cmp drifts"
  have "sorted_wrt outranks ranked"
    unfolding ranked_def
    by (rule js_sort_wrt [where S = "set drifts"])
      (use assms in \<open>auto simp: list_all_iff drift_cmp_rank outranks_def transp_def split: if_splits\<close>)
  then have "\<forall>d\<in>set (take limit ranked). \<forall>e\<in>set (drop limit ranked). outranks d e"
    by (metis append_take_drop_id sorted_wrt_append)
  moreover have "mset drifts = mset (take limit ranked) + mset (drop limit ranked)"
    using mset_js_sort [of drift_cmp drifts] by (simp flip: mset_append add: ranked_def)
  moreover have "length ranked = length drifts" by (simp add: ranked_def)
  moreover have "selectTopDrifts drifts limit = (sort_key dr_recordedAtMs (take limit ranked), length drifts - limit)"
    using False by (simp add: selectTopDrifts_def ranked_def)
  ultimately show ?thesis
    using False by (intro exI [of _ "drop limit ranked"] conjI | simp add: list_all_iff)+
qed

definition demoRow :: "string \<Rightarrow> int \<Rightarrow> drift_record" where
  "demoRow sev t = (drift_entry (demoDrift '''' '''') (demoDriftEvent (demoDrift '''' '''')) 0)\<lparr>dr_severity := sev, dr_recordedAtMs := t\<rparr>"

theorem markers_keep_most_severe_witness:
  "let (shown, hidden) = selectTopDrifts [demoRow ''info'' 1, demoRow ''critical'' 2, demoRow ''warning'' 3, demoRow ''info'' 4] 3
   in length shown = 3 \<and> hidden = 1 \<and> sorted (map dr_recordedAtMs shown)"
  using markers_keep_most_severe [of "[demoRow ''info'' 1, demoRow ''critical'' 2, demoRow ''warning'' 3, demoRow ''info'' 4]" 3]
  by (auto simp: demoRow_def object_prototype_keys_def split: if_splits)

section \<open>The plan graph has the stages of the Gantt view as columns\<close>

lemma dag_edges:
  assumes "\<And>i. map_has byId i \<longleftrightarrow> i \<in> V" "\<And>i. map_has adj i \<longleftrightarrow> i \<in> V" "\<And>i. map_has indeg i \<longleftrightarrow> i \<in> V"
    and "\<And>i. int (length (get_list predm i)) = get_num indeg i"
    and "foldl (dag_edge byId) (predm, adj) es = (predm', adj')" and "foldl topo_edge (adj, indeg) es = (adj'', indeg')"
  shows "adj' = adj'' \<and> (\<forall>i. int (length (get_list predm' i)) = get_num indeg' i) \<and> (\<forall>i. map_has indeg' i \<longleftrightarrow> i \<in> V)"
  using assms
proof (induction es arbitrary: predm adj indeg)
  case (Cons e es)
  show ?case
  proof (cases "te_fromTaskId e \<in> V \<and> te_toTaskId e \<in> V")
    case False
    then have "dag_edge byId (predm, adj) e = (predm, adj)" "topo_edge (adj, indeg) e = (adj, indeg)"
      using Cons.prems(1-3) by (simp_all add: dag_edge_def topo_edge_def)
    with Cons.prems show ?thesis by (intro Cons.IH [of adj indeg predm]) simp_all
  next
    case True
    define predm1 where "predm1 = AList.update (te_toTaskId e) (get_list predm (te_toTaskId e) @ [te_fromTaskId e]) predm"
    define adj1 where "adj1 = AList.update (te_fromTaskId e) (get_list adj (te_fromTaskId e) @ [te_toTaskId e]) adj"
    define indeg1 where "indeg1 = AList.update (te_toTaskId e) (get_num indeg (te_toTaskId e) + 1) indeg"
    have "dag_edge byId (predm, adj) e = (predm1, adj1)" "topo_edge (adj, indeg) e = (adj1, indeg1)"
      using True Cons.prems(1-3) by (simp_all add: dag_edge_def topo_edge_def predm1_def adj1_def indeg1_def)
    moreover have "map_has adj1 i \<longleftrightarrow> i \<in> V" "map_has indeg1 i \<longleftrightarrow> i \<in> V" for i
      using True Cons.prems(2,3) by (auto simp: adj1_def indeg1_def)
    moreover have "int (length (get_list predm1 i)) = get_num indeg1 i" for i
      using Cons.prems(4) [of i] Cons.prems(4) [of "te_toTaskId e"] by (simp add: predm1_def indeg1_def get_list_def)
    ultimately show ?thesis using Cons.prems by (intro Cons.IH [of adj1 indeg1 predm1]) simp_all
  qed
qed simp

lemma dag_graph_topo:
  assumes "dag_graph plan = (predm, succs)" and "topo_graph (map tk_id (tp_tasks plan)) (tp_edges plan) = (adj, indeg)"
  shows "succs = adj" and "int (length (get_list predm i)) = get_num indeg i" and "map_has indeg i \<longleftrightarrow> i \<in> task_ids plan"
proof -
  define m0 :: "(string, string list) jsmap" where "m0 = foldl (\<lambda>a i. AList.update i [] a) [] (map tk_id (tp_tasks plan))"
  define n0 :: "(string, int) jsmap" where "n0 = foldl (\<lambda>a i. AList.update i 0 a) [] (map tk_id (tp_tasks plan))"
  have pair: "foldl (\<lambda>(p, s) t. (AList.update (tk_id t) [] p, AList.update (tk_id t) [] s)) (a, b) ts =
      (foldl (\<lambda>a i. AList.update i [] a) a (map tk_id ts), foldl (\<lambda>a i. AList.update i [] a) b (map tk_id ts))"
    for a b :: "(string, string list) jsmap" and ts by (induction ts arbitrary: a b) simp_all
  have keys: "map_has (task_map (tp_tasks plan)) i \<longleftrightarrow> i \<in> task_ids plan" "map_has m0 i \<longleftrightarrow> i \<in> task_ids plan"
      "map_has n0 i \<longleftrightarrow> i \<in> task_ids plan" for i
    using has_fold_update [of tk_id "\<lambda>t. t" "[]" "tp_tasks plan" i]
      has_fold_update [of "\<lambda>x. x" "\<lambda>_. []" "[]" "map tk_id (tp_tasks plan)"]
      has_fold_update [of "\<lambda>x. x" "\<lambda>_. 0" "[]" "map tk_id (tp_tasks plan)"]
    by (simp_all add: m0_def n0_def task_ids_def task_map_def)
  have zero: "int (length (get_list m0 i)) = get_num n0 i" for i
    using num_fold_update [of "\<lambda>x. x" "\<lambda>_. 0 :: int" "[]" "map tk_id (tp_tasks plan)" i]
    by (simp add: m0_def n0_def list_fold_update) (simp add: get_list_def get_num_def)
  have "foldl (dag_edge (task_map (tp_tasks plan))) (m0, m0) (tp_edges plan) = (predm, succs)"
    using assms(1) by (simp add: dag_graph_def pair m0_def)
  moreover have "foldl topo_edge (m0, n0) (tp_edges plan) = (adj, indeg)"
    using assms(2) by (simp add: topo_graph_def topo_nodes m0_def n0_def)
  ultimately have "succs = adj \<and> (\<forall>i. int (length (get_list predm i)) = get_num indeg i) \<and> (\<forall>i. map_has indeg i \<longleftrightarrow> i \<in> task_ids plan)"
    by (rule dag_edges [OF keys zero])
  then show "succs = adj" "int (length (get_list predm i)) = get_num indeg i" "map_has indeg i \<longleftrightarrow> i \<in> task_ids plan" by blast+
qed

lemma dag_init_run:
  fixes indeg :: "(string, int) jsmap"
  assumes len: "\<And>i. int (length (get_list predm i)) = get_num indeg i"
  defines "enter \<equiv> \<lambda>st i. if get_num (td_indeg st) i = 0
                   then st\<lparr>td_depth := AList.update i 0 (td_depth st), td_queue := td_queue st @ [i]\<rparr> else st"
  shows "foldl (dag_enter predm) st ts = (foldl enter (st\<lparr>td_indeg := indeg\<rparr>) (map tk_id ts))
      \<lparr>td_indeg := foldl (\<lambda>m t. AList.update (tk_id t) (int (length (get_list predm (tk_id t)))) m) (td_indeg st) ts\<rparr>"
proof (induction ts arbitrary: st)
  case (Cons t ts)
  have "dag_enter predm st t\<lparr>td_indeg := indeg\<rparr> = enter (st\<lparr>td_indeg := indeg\<rparr>) (tk_id t)"
    by (simp add: dag_enter_def enter_def Let_def len del: of_nat_eq_0_iff length_0_conv)
  moreover have "td_indeg (dag_enter predm st t) = AList.update (tk_id t) (int (length (get_list predm (tk_id t)))) (td_indeg st)"
    by (simp add: dag_enter_def Let_def)
  ultimately show ?case by (simp add: Cons.IH)
qed simp

lemma dag_relax_topo:
  assumes "map_has (td_indeg st) s"
  shows "dag_relax L st s = topo_relax L st s"
proof -
  obtain n where n: "map_of (td_indeg st) s = Some n" using assms by (auto simp: map_has_def)
  have "AList.update s (max (get_num (td_depth st) s) (Suc L)) (td_depth st) =
      (case map_of (td_depth st) s of None \<Rightarrow> AList.update s (Suc L) (td_depth st)
       | Some d \<Rightarrow> if d < Suc L then AList.update s (Suc L) (td_depth st) else td_depth st)"
    by (auto simp: get_num_def max_def update_same split: option.split)
  moreover have "get_num (td_indeg st) s = n" by (simp add: get_num_def n)
  ultimately show ?thesis by (simp add: dag_relax_def topo_relax_def Let_def n)
qed

lemma dag_relax_all_topo:
  "set ss \<subseteq> fst ` set (td_indeg st) \<Longrightarrow> foldl (dag_relax L) st ss = foldl (topo_relax L) st ss \<and>
     fst ` set (td_indeg (foldl (topo_relax L) st ss)) = fst ` set (td_indeg st)"
proof (induction ss arbitrary: st)
  case (Cons s ss)
  have "fst ` set (td_indeg (topo_relax L st s)) = fst ` set (td_indeg st)"
    using Cons.prems by (auto simp: topo_relax_def Let_def fst_set_update)
  moreover have "dag_relax L st s = topo_relax L st s" using Cons.prems by (intro dag_relax_topo) (simp add: map_has_iff)
  ultimately show ?case using Cons by simp
qed simp

lemma dag_loop_topo: "succ_ids succs \<subseteq> fst ` set (td_indeg st) \<Longrightarrow> dag_loop succs st = topo_loop succs st"
proof (induction succs st rule: topo_loop.induct)
  case (1 succs st)
  show ?case
  proof (cases "td_queue st = []")
    case False
    have sub: "set (get_list succs (hd (td_queue st))) \<subseteq> fst ` set (td_indeg (st\<lparr>td_queue := tl (td_queue st)\<rparr>))"
      using get_list_succ [of succs] "1.prems" by fastforce
    note step = dag_relax_all_topo [OF sub, of "get_num (td_depth st) (hd (td_queue st))"]
    have "dag_step succs st = topo_step succs st" "fst ` set (td_indeg (topo_step succs st)) = fst ` set (td_indeg st)"
      using step by (simp_all add: dag_step_def topo_step_def Let_def)
    with 1 False show ?thesis by (subst dag_loop.simps, subst topo_loop.simps) simp
  qed (simp add: dag_loop.simps topo_loop.simps)
qed

lemma dag_layers_topo: "dag_layers plan = topoDepths (map tk_id (tp_tasks plan)) (tp_edges plan)"
proof -
  obtain predm succs where g: "dag_graph plan = (predm, succs)" by fastforce
  obtain adj indeg where t: "topo_graph (map tk_id (tp_tasks plan)) (tp_edges plan) = (adj, indeg)" by fastforce
  note dg = dag_graph_topo [OF g t]
  define into where "into = (\<lambda>i. int (length (incoming (known_edges plan) i)))"
  have indeg: "indeg = foldl (\<lambda>m t. AList.update (tk_id t) (into (tk_id t)) m) [] (tp_tasks plan)"
    unfolding topo_graph_spec(2) [OF t] kahn_init_def Let_def into_def by (simp add: rest_fold(1))
  have "get_num indeg (tk_id x) = into (tk_id x)" if "x \<in> set (tp_tasks plan)" for x
    using num_fold_update [of tk_id into "[]" "tp_tasks plan" "tk_id x"] that by (simp add: indeg)
  then have same: "foldl (\<lambda>m t. AList.update (tk_id t) (int (length (get_list predm (tk_id t)))) m) [] (tp_tasks plan) = indeg"
    unfolding dg(2) by (subst (2) indeg, intro foldl_cong) simp_all
  have run: "td_indeg (foldl (\<lambda>st i. if get_num (td_indeg st) i = 0
      then st\<lparr>td_depth := AList.update i 0 (td_depth st), td_queue := td_queue st @ [i]\<rparr> else st) st ids) = td_indeg st" for st ids
    by (induction ids arbitrary: st) simp_all
  have init: "dag_init predm (tp_tasks plan) = topo_init (map tk_id (tp_tasks plan)) indeg"
  proof -
    have id: "st\<lparr>td_indeg := indeg\<rparr> = st" if "td_indeg st = indeg" for st :: topo using that by (cases st) simp
    show ?thesis
      unfolding dag_init_def dag_init_run [OF dg(2)] topo_init_def by (simp add: same) (rule id, simp add: run)
  qed
  have keys: "td_indeg (topo_init (map tk_id (tp_tasks plan)) indeg) = indeg" unfolding topo_init_def run by simp
  have "succ_ids adj \<subseteq> fst ` set (td_indeg (topo_init (map tk_id (tp_tasks plan)) indeg))"
  proof
    fix i assume "i \<in> succ_ids adj"
    then obtain k where "i \<in> set (get_list adj k)" by (auto simp: succ_ids_def)
    then have "(k, i) \<in> set (known_edges plan)" unfolding topo_graph_spec(1) [OF t] by (auto simp: outgoing_def)
    then have "i \<in> task_ids plan" using known_edges_ids by fastforce
    then show "i \<in> fst ` set (td_indeg (topo_init (map tk_id (tp_tasks plan)) indeg))"
      using dg(3) by (simp add: keys map_has_iff)
  qed
  then have "dag_loop succs (dag_init predm (tp_tasks plan)) = topo_loop adj (topo_init (map tk_id (tp_tasks plan)) indeg)"
    unfolding init dg(1) by (rule dag_loop_topo)
  then show ?thesis
    by (simp add: dag_layers_def g topoDepths_def t foldl_map)
qed

definition dag_slots :: "nat \<Rightarrow> string list list \<Rightarrow> (nat \<times> nat \<times> string) list" where
  \<comment> \<open>layer, row and id of the nodes, the first column having the layer \<open>k\<close>\<close>
  "dag_slots k cols = concat (map (\<lambda>(L, col). map (\<lambda>(r, i). (L, r, i)) (enumerate 0 col)) (enumerate k cols))"

lemma dag_slots_Cons: "dag_slots k (col # cols) = map (\<lambda>(r, i). (k, r, i)) (enumerate 0 col) @ dag_slots (Suc k) cols"
  by (simp add: dag_slots_def)

lemma dag_slots_nodes: "dg_nodes (layoutDag plan) =
    map (\<lambda>(L, r, i). dag_node_at (task_map (tp_tasks plan)) L r i) (dag_slots 0 (dag_columns (dag_layers plan) (tp_tasks plan)))"
  by (simp add: layoutDag_def Let_def dag_slots_def map_concat comp_def case_prod_unfold)

lemma dag_slots_mem: "(L, r, i) \<in> set (dag_slots k cols) \<Longrightarrow> k \<le> L \<and> L < k + length cols \<and> i \<in> set (cols ! (L - k))"
proof (induction cols arbitrary: k)
  case (Cons col cols)
  show ?case
  proof (cases "(L, r, i) \<in> set (dag_slots (Suc k) cols)")
    case True
    with Cons.IH [OF True] show ?thesis by (auto simp: nth_Cons' le_Suc_eq Suc_diff_Suc)
  next
    case False
    with Cons.prems have "L = k" "(r, i) \<in> set (enumerate 0 col)" by (auto simp: dag_slots_Cons)
    then show ?thesis by (auto simp: in_set_enumerate_eq)
  qed
qed (simp add: dag_slots_def)

lemma dag_slots_ids: "map (\<lambda>(L, r, i). i) (dag_slots k cols) = concat cols"
proof (induction cols arbitrary: k)
  case (Cons col cols)
  have "map ((\<lambda>(L, r, i). i) \<circ> (\<lambda>(r, i). (k, r, i))) (enumerate 0 col) = map snd (enumerate 0 col)" by (rule map_cong) auto
  with Cons show ?case by (simp add: dag_slots_Cons)
qed (simp add: dag_slots_def)

lemma dag_slots_sorted: "sorted_wrt (\<lambda>(L, r, i) (L', r', i'). L < L' \<or> L = L' \<and> r < r') (dag_slots k cols)"
proof (induction cols arbitrary: k)
  case (Cons col cols)
  have "sorted_wrt (\<lambda>p q. fst p < fst q) (enumerate n col)" for n
    by (induction col arbitrary: n) (auto simp: in_set_enumerate_eq Suc_le_eq)
  then have "sorted_wrt (\<lambda>p q. fst p < fst q) (enumerate 0 col)" .
  then have "sorted_wrt (\<lambda>(L, r, i) (L', r', i'). L < L' \<or> L = L' \<and> r < r') (map (\<lambda>(r, i). (k, r, i)) (enumerate 0 col))"
    unfolding sorted_wrt_map by (rule sorted_wrt_mono_rel [rotated]) auto
  with Cons show ?case by (auto simp: dag_slots_Cons sorted_wrt_append dest: dag_slots_mem)
qed (simp add: dag_slots_def)

lemma dag_columns_ids:
  assumes has: "\<And>t. t \<in> set tasks \<Longrightarrow> map_has layer (tk_id t)"
  shows "mset (concat (dag_columns layer tasks)) = mset (map tk_id tasks)"
    and "L < length (dag_columns layer tasks) \<Longrightarrow> i \<in> set (dag_columns layer tasks ! L) \<Longrightarrow> get_num layer i = L \<and> i \<in> tk_id ` set tasks"
proof -
  define M where "M = foldl (\<lambda>m t. max m (get_num layer (tk_id t))) 0 tasks"
  have "map_of layer (tk_id t) = Some L \<longleftrightarrow> get_num layer (tk_id t) = L" if "t \<in> set tasks" for t L
    using has [OF that] by (auto simp: map_has_def get_num_def)
  then have "filter (\<lambda>i. map_of layer i = Some L) (map tk_id tasks) = filter (\<lambda>i. get_num layer i = L) (map tk_id tasks)" for L
    by (intro filter_cong) auto
  then have cols: "dag_columns layer tasks = map (\<lambda>L. js_sort str_cmp (filter (\<lambda>i. get_num layer i = L) (map tk_id tasks))) [0..<M + 1]"
    by (simp add: dag_columns_def M_def Let_def)
  have max: "m \<le> foldl (\<lambda>m t. max m (get_num layer (tk_id t))) m ts \<and>
      (\<forall>t\<in>set ts. get_num layer (tk_id t) \<le> foldl (\<lambda>m t. max m (get_num layer (tk_id t))) m ts)" for m :: nat and ts
    by (induction ts arbitrary: m) (auto simp: le_max_iff_disj intro: order_trans [OF max.cobounded2] order_trans [OF max.cobounded1])
  have part: "mset (concat (map (\<lambda>L. js_sort str_cmp (filter (\<lambda>i. get_num layer i = L) ks)) [0..<N])) =
      mset (filter (\<lambda>i. get_num layer i < N) ks)" for N :: nat and ks
  proof (induction N)
    case (Suc N)
    have "mset (filter (\<lambda>i. get_num layer i < Suc N) ks) = mset (filter (\<lambda>i. get_num layer i < N) ks) + mset (filter (\<lambda>i. get_num layer i = N) ks)"
      by (induction ks) auto
    with Suc show ?case by (simp add: mset_js_sort)
  qed simp
  have "filter (\<lambda>i. get_num layer i < M + 1) (map tk_id tasks) = map tk_id tasks"
    using max [of 0 tasks] by (auto simp: M_def filter_id_conv less_Suc_eq_le)
  then show "mset (concat (dag_columns layer tasks)) = mset (map tk_id tasks)"
    unfolding cols part [of "map tk_id tasks" "M + 1"] by (rule arg_cong)
  show "get_num layer i = L \<and> i \<in> tk_id ` set tasks"
    if "L < length (dag_columns layer tasks)" "i \<in> set (dag_columns layer tasks ! L)"
    using that by (auto simp: cols simp del: upt_Suc)
qed

lemma dag_layer_of_task: "t \<in> set (tp_tasks plan) \<Longrightarrow> map_has (dag_layers plan) (tk_id t)"
  using stage_map_has [of t plan] by (simp add: map_has_def dag_layers_topo columns_are_stages)

lemmas dag_columns_of_plan = dag_columns_ids [OF dag_layer_of_task]

definition boxes_apart :: "dag_node \<Rightarrow> dag_node \<Rightarrow> bool" where
  \<comment> \<open>side by side with a column gap, or one above the other with a row gap\<close>
  "boxes_apart m n = (dn_x m + dn_w m + DAG_COL_GAP \<le> dn_x n \<or> dn_x n = dn_x m \<and> dn_y m + dn_h m + DAG_ROW_GAP \<le> dn_y n)"

lemma row_le_max: "n \<in> set ns \<Longrightarrow> dn_row n \<le> foldl (\<lambda>m n. if dn_row n > m then dn_row n else m) k ns"
proof -
  have "k \<le> foldl (\<lambda>m n. if dn_row n > m then dn_row n else m) k ns \<and>
      (\<forall>n\<in>set ns. dn_row n \<le> foldl (\<lambda>m n. if dn_row n > m then dn_row n else m) k ns)" for k
    by (induction ns arbitrary: k) (auto intro: order_trans [OF less_imp_le] order_trans [OF leI])
  then show "n \<in> set ns \<Longrightarrow> ?thesis" by blast
qed

lemma task_of_id:
  assumes "i \<in> tk_id ` set tasks"
  shows "tk_id (the (map_of (task_map tasks) i)) = i"
proof -
  have "last_with i tasks \<noteq> None" using assms by (simp only: last_with_None not_not)
  then obtain t where "last_with i tasks = Some t" by blast
  moreover from this have "tk_id t = i" by (auto simp: last_with_def find_Some_iff)
  ultimately show ?thesis by (simp add: map_of_task_map)
qed

lemma dag_nodes_ids: "mset (map (\<lambda>n. tk_id (dn_task n)) (dg_nodes (layoutDag plan))) = mset (map tk_id (tp_tasks plan))"
proof -
  define slots where "slots = dag_slots 0 (dag_columns (dag_layers plan) (tp_tasks plan))"
  have "i \<in> tk_id ` set (tp_tasks plan)" if "(L, r, i) \<in> set slots" for L r i
    using dag_slots_mem [OF that [unfolded slots_def]] dag_columns_of_plan(2) [where plan = plan and L = L and i = i] by auto
  then have "map (\<lambda>n. tk_id (dn_task n)) (dg_nodes (layoutDag plan)) = map (\<lambda>(L, r, i). i) slots"
    unfolding dag_slots_nodes slots_def [symmetric] by (auto simp: dag_node_at_def task_of_id)
  then show ?thesis using dag_columns_of_plan(1) [where plan = plan] by (simp add: dag_slots_ids slots_def)
qed

text \<open>C10: The plan graph of the trajectory view places every task once, in the column of its stage in the Gantt view, although the
  two views compute it with different loops; no two boxes come closer than the gaps of the grid, and every box is inside the canvas.\<close>

theorem dag_layout_spec:
  "let g = layoutDag plan
   in mset (map (\<lambda>n. tk_id (dn_task n)) (dg_nodes g)) = mset (map tk_id (tp_tasks plan)) \<and>
      map (\<lambda>n. dn_layer n) (dg_nodes g) = map (\<lambda>n. stage_at plan (tk_id (dn_task n))) (dg_nodes g) \<and>
      sorted_wrt boxes_apart (dg_nodes g) \<and>
      list_all (\<lambda>n. DAG_PAD \<le> dn_x n \<and> dn_x n + dn_w n + DAG_PAD \<le> dg_width g \<and>
                    DAG_PAD \<le> dn_y n \<and> dn_y n + dn_h n + DAG_PAD \<le> dg_height g) (dg_nodes g)"
proof -
  define byId where "byId = task_map (tp_tasks plan)"
  define cols where "cols = dag_columns (dag_layers plan) (tp_tasks plan)"
  define nodes where "nodes = dg_nodes (layoutDag plan)"
  have nodes: "nodes = map (\<lambda>(L, r, i). dag_node_at byId L r i) (dag_slots 0 cols)"
    by (simp add: nodes_def dag_slots_nodes byId_def cols_def)
  have slot: "L < length cols \<and> get_num (dag_layers plan) i = L \<and> i \<in> tk_id ` set (tp_tasks plan)"
    if "(L, r, i) \<in> set (dag_slots 0 cols)" for L r i
    using dag_slots_mem [OF that] dag_columns_of_plan(2) [where plan = plan and L = L and i = i] by (auto simp: cols_def)
  have id: "tk_id (the (map_of byId i)) = i" if "i \<in> tk_id ` set (tp_tasks plan)" for i
    using task_of_id [OF that] by (simp add: byId_def)
  note def = nodes_def [symmetric] Let_def
  have tasks: "mset (map (\<lambda>n. tk_id (dn_task n)) nodes) = mset (map tk_id (tp_tasks plan))"
    unfolding nodes_def by (rule dag_nodes_ids)
  have layer: "get_num (dag_layers plan) i = stage_at plan i" for i
    unfolding stage_at_def get_num_def dag_layers_topo columns_are_stages by (rule refl)
  have layers: "map dn_layer nodes = map (\<lambda>n. stage_at plan (tk_id (dn_task n))) nodes"
    unfolding nodes using slot id by (auto simp: dag_node_at_def layer)
  have apart: "sorted_wrt boxes_apart nodes"
    unfolding nodes sorted_wrt_map
    by (rule sorted_wrt_mono_rel [OF _ dag_slots_sorted])
      (auto simp: boxes_apart_def dag_node_at_def DAG_COL_W_def DAG_COL_GAP_def DAG_BOX_H_def DAG_ROW_GAP_def)
  have inside: "DAG_PAD \<le> dn_x n \<and> dn_x n + dn_w n + DAG_PAD \<le> dg_width (layoutDag plan) \<and>
      DAG_PAD \<le> dn_y n \<and> dn_y n + dn_h n + DAG_PAD \<le> dg_height (layoutDag plan)" if n: "n \<in> set nodes" for n
  proof -
    obtain L r i where s: "(L, r, i) \<in> set (dag_slots 0 cols)" "n = dag_node_at byId L r i" using n by (auto simp: nodes)
    have "dg_width (layoutDag plan) = DAG_PAD + int (max 1 (length cols)) * DAG_COL_W + (int (max 1 (length cols)) - 1) * DAG_COL_GAP + DAG_PAD"
      by (simp add: layoutDag_def Let_def cols_def)
    moreover have "dg_height (layoutDag plan) =
        DAG_PAD + int (foldl (\<lambda>m n. if dn_row n > m then dn_row n else m) 0 nodes + 1) * (DAG_BOX_H + DAG_ROW_GAP) + DAG_PAD"
      unfolding nodes_def by (simp add: layoutDag_def Let_def)
    ultimately show ?thesis
      using row_le_max [OF n, of 0] slot [OF s(1)]
      by (simp add: s(2) dag_node_at_def DAG_PAD_def DAG_COL_W_def DAG_COL_GAP_def DAG_BOX_H_def DAG_ROW_GAP_def)
  qed
  show ?thesis unfolding def using tasks layers apart inside by (simp add: list_all_iff)
qed

section \<open>Pinning a revision shows the plan as it was\<close>

lemma distinct_union_meta: "distinct (map fst (un_meta (union_all arr)))"
proof -
  have step: "distinct (map fst (un_meta u)) \<Longrightarrow> distinct (map fst (un_meta (union_task n u t)))" for n u t
    by (simp add: union_task_def Let_def distinct_update split: option.split)
  have "distinct (map fst (un_meta u)) \<Longrightarrow> distinct (map fst (un_meta (foldl (\<lambda>u p. union_task (fst p) u (snd p)) u ps)))" for u ps
    by (induction ps arbitrary: u) (simp_all add: step)
  then show ?thesis by (simp add: union_all_versions)
qed

lemma first_revision_least:
  assumes "sorted (map ph_revision arr)"
  shows "(case find (\<lambda>x. i \<in> set (plan_ids x)) arr of None \<Rightarrow> False | Some x \<Rightarrow> ph_revision x \<le> r) \<longleftrightarrow>
    (\<exists>x\<in>set arr. ph_revision x \<le> r \<and> i \<in> set (plan_ids x))"
  using assms by (induction arr) (auto split: option.splits)

lemma cumulative_meta:
  assumes "hi_cumulativePlan h pid = Some c"
  shows "distinct (map fst (cp_taskRevisionMeta c))"
proof -
  have fst: "map fst (map (\<lambda>e. (fst e, f e)) m) = map fst m" for f :: "string \<times> cumulative_task_meta \<Rightarrow> cumulative_task_meta" and m
    by simp
  show ?thesis
    using assms distinct_union_meta
    by (auto simp: hi_cumulativePlan_def Let_def task_plan.extend_def cumulative_plan.fields_def comp_def split: option.splits if_splits)
qed

lemma visible_ids:
  assumes "distinct (map fst m)"
  shows "i \<in> fst ` set (filter (\<lambda>e. cm_introducedInRevision (snd e) \<le> r) m) \<longleftrightarrow>
    (case map_of m i of None \<Rightarrow> False | Some e \<Rightarrow> cm_introducedInRevision e \<le> r)"
  using assms by (induction m) (auto simp: image_iff map_of_eq_None_iff split: option.splits)

text \<open>C11: Pinning a revision in the trajectory view shows the tasks of that revision and of the ones before it and no other, each with
  its metadata, and only edges between tasks that are shown.\<close>

theorem pinned_revision_shows_past:
  "let h = foldl history_step emptyHistory ops;
       past = (\<Union>x\<in>{x \<in> set (hi_historyFor h pid). ph_revision x \<le> r}. set (plan_ids x))
   in case hi_cumulativePlan h pid of
        None \<Rightarrow> hi_historyFor h pid = []
      | Some c \<Rightarrow>
          tk_id ` set (tp_tasks (filterCumulativeAtRevision c r)) = past \<and>
          fst ` set (cp_taskRevisionMeta (filterCumulativeAtRevision c r)) = past \<and>
          (\<lambda>e. (te_fromTaskId e, te_toTaskId e)) ` set (tp_edges (filterCumulativeAtRevision c r)) \<subseteq> past \<times> past"
proof -
  define h arr where "h = foldl history_step emptyHistory ops" and "arr = hi_historyFor h pid"
  define past where "past = (\<Union>x\<in>{x \<in> set arr. ph_revision x \<le> r}. set (plan_ids x))"
  note spec = cumulative_plan_spec [of ops pid, folded h_def, unfolded Let_def, folded arr_def]
  have sorted: "sorted (map ph_revision arr)"
    using revs_sorted_run [of pid ops] by (simp add: revs_sorted_def arr_def h_def)
  show ?thesis
  proof (cases "hi_cumulativePlan h pid")
    case None
    with spec show ?thesis by (simp add: Let_def flip: h_def arr_def)
  next
    case (Some c)
    have meta: "map_option cm_introducedInRevision (map_of (cp_taskRevisionMeta c) i) =
        map_option ph_revision (find (\<lambda>x. i \<in> set (plan_ids x)) arr)" for i
      using spec [of i] Some
      by (cases "map_of (cp_taskRevisionMeta c) i"; cases "find (\<lambda>x. i \<in> set (plan_ids x)) arr") simp_all
    have "i \<in> fst ` set (filter (\<lambda>e. cm_introducedInRevision (snd e) \<le> r) (cp_taskRevisionMeta c)) \<longleftrightarrow> i \<in> past" for i
    proof -
      have "(case map_of (cp_taskRevisionMeta c) i of None \<Rightarrow> False | Some e \<Rightarrow> cm_introducedInRevision e \<le> r) \<longleftrightarrow>
          (case find (\<lambda>x. i \<in> set (plan_ids x)) arr of None \<Rightarrow> False | Some x \<Rightarrow> ph_revision x \<le> r)"
        using meta [of i]
        by (cases "map_of (cp_taskRevisionMeta c) i"; cases "find (\<lambda>x. i \<in> set (plan_ids x)) arr") simp_all
      then show ?thesis
        unfolding visible_ids [OF cumulative_meta [OF Some]] first_revision_least [OF sorted] by (auto simp: past_def)
    qed
    then have visible: "set (map fst (filter (\<lambda>e. cm_introducedInRevision (snd e) \<le> r) (cp_taskRevisionMeta c))) = past" by auto
    have all: "i \<in> tk_id ` set (tp_tasks c)" if "i \<in> past" for i
    proof -
      have "find (\<lambda>t. tk_id t = i) (rev (concat (map (\<lambda>r. tp_tasks (ph_plan r)) arr))) \<noteq> None"
        using that by (auto simp: past_def plan_ids_def find_None_iff)
      with spec [of i] Some have "find (\<lambda>t. tk_id t = i) (tp_tasks c) \<noteq> None" by simp
      then show ?thesis by (auto simp: find_None_iff)
    qed
    have "tk_id ` set (tp_tasks (filterCumulativeAtRevision c r)) = past"
      unfolding filterCumulativeAtRevision_def Let_def visible using all by auto
    moreover have "fst ` set (cp_taskRevisionMeta (filterCumulativeAtRevision c r)) = past"
    proof -
      have "past \<subseteq> fst ` set (cp_taskRevisionMeta c)" unfolding visible [symmetric] by auto
      then show ?thesis unfolding filterCumulativeAtRevision_def Let_def visible by auto
    qed
    moreover have "(\<lambda>e. (te_fromTaskId e, te_toTaskId e)) ` set (tp_edges (filterCumulativeAtRevision c r)) \<subseteq> past \<times> past"
      unfolding filterCumulativeAtRevision_def Let_def visible by auto
    ultimately show ?thesis by (simp add: Let_def Some flip: h_def arr_def past_def)
  qed
qed

section \<open>Differences agree with the plan diff of the registry\<close>

lemma set_diff_marks:
  fixes m :: "(string, task) jsmap"
  defines "step \<equiv> \<lambda>(added, modified) t. case map_of m (tk_id t) of
      None \<Rightarrow> (set_add (tk_id t) added, modified)
    | Some p \<Rightarrow>
        if tk_title p \<noteq> tk_title t \<or> tk_description p \<noteq> tk_description t \<or> tk_assigneeAgentId p \<noteq> tk_assigneeAgentId t
        then (added, set_add (tk_id t) modified) else (added, modified)"
  shows "set (fst (foldl step (a, b) ts)) = set a \<union> tk_id ` {t \<in> set ts. map_of m (tk_id t) = None}"
    and "set (snd (foldl step (a, b) ts)) = set b \<union> fst ` {e \<in> set (diff_modified m ts). list_ex (\<lambda>f. f \<noteq> F_status) (snd (snd e))}"
proof (induction ts arbitrary: a b)
  case (Cons t ts)
  {
    case 1
    show ?case using Cons.IH(1) by (cases "map_of m (tk_id t)") (auto simp: step_def)
  next
    case 2
    show ?case
    proof (cases "map_of m (tk_id t)")
      case None
      then have "step (a, b) t = (set_add (tk_id t) a, b)" by (simp add: step_def)
      then show ?thesis using Cons.IH(2) None by simp
    next
      case (Some p)
      define ch where "ch \<longleftrightarrow> tk_title p \<noteq> tk_title t \<or> tk_description p \<noteq> tk_description t \<or> tk_assigneeAgentId p \<noteq> tk_assigneeAgentId t"
      have c: "ch \<longleftrightarrow> list_ex (\<lambda>f. f \<noteq> F_status) (task_changes p t)" by (auto simp: ch_def task_changes_def)
      have step: "step (a, b) t = (a, if ch then set_add (tk_id t) b else b)" by (simp add: step_def Some ch_def)
      have img: "fst ` {e \<in> set (x # xs). P e} = (if P x then insert (fst x) (fst ` {e \<in> set xs. P e}) else fst ` {e \<in> set xs. P e})"
        for x :: "string \<times> string \<times> plan_diff_field list" and xs P by auto
      have "fst ` {e \<in> set (diff_modified m (t # ts)). list_ex (\<lambda>f. f \<noteq> F_status) (snd (snd e))} =
          (if ch then insert (tk_id t) (fst ` {e \<in> set (diff_modified m ts). list_ex (\<lambda>f. f \<noteq> F_status) (snd (snd e))})
           else fst ` {e \<in> set (diff_modified m ts). list_ex (\<lambda>f. f \<noteq> F_status) (snd (snd e))})"
        unfolding diff_modified.simps Some option.case c by (cases "task_changes p t = []") (simp_all add: img del: set_simps)
      then show ?thesis using step by (cases ch) (simp_all add: Cons.IH(2) del: diff_modified.simps)
    qed
  }
qed simp_all

text \<open>C12: The trajectory view and the task registry compare two revisions with different code and agree: the tasks it marks as added
  and removed are those of the plan diff, and the ones it marks as modified are those the diff lists with more than a change of
  status.\<close>

theorem diff_marks_refine_plan_diff:
  "let m = diffMarks prev nxt; d = computePlanDiff prev nxt
   in set (dm_added m) = (\<lambda>i. tk_id (tp_tasks nxt ! i)) ` set (pd_added d) \<and>
      dm_removed m = map fst (pd_removed d) \<and>
      set (dm_modified m) = fst ` {e \<in> set (pd_modified d). list_ex (\<lambda>f. f \<noteq> F_status) (snd (snd e))}"
proof -
  define ts where "ts = task_map (case prev of None \<Rightarrow> [] | Some p \<Rightarrow> tp_tasks p)"
  have added: "(\<lambda>i. tk_id (tp_tasks nxt ! i)) ` set (pd_added (computePlanDiff prev nxt)) =
      tk_id ` {t \<in> set (tp_tasks nxt). map_of ts (tk_id t) = None}"
  proof -
    have "pd_added (computePlanDiff prev nxt) = diff_added ts 0 (tp_tasks nxt)" by (simp add: computePlanDiff_def Let_def ts_def)
    then have "set (pd_added (computePlanDiff prev nxt)) =
        {i. i < length (tp_tasks nxt) \<and> map_of ts (tk_id (tp_tasks nxt ! i)) = None}"
      using diff_added_iff [of _ ts 0 "tp_tasks nxt"] by (simp add: set_eq_iff)
    moreover have "{t \<in> set (tp_tasks nxt). map_of ts (tk_id t) = None} =
        (\<lambda>i. tp_tasks nxt ! i) ` {i. i < length (tp_tasks nxt) \<and> map_of ts (tk_id (tp_tasks nxt ! i)) = None}"
      by (auto simp: in_set_conv_nth)
    ultimately show ?thesis by (simp add: image_image)
  qed
  have rm: "map fst (map (\<lambda>(k, t). (k, tk_title t)) (filter (\<lambda>(k, t). P k) m)) = filter P (map fst m)" for P and m :: "(string, task) jsmap"
    by (induction m) auto
  have removed: "map fst (pd_removed (computePlanDiff prev nxt)) = filter (\<lambda>i. i \<notin> tk_id ` set (tp_tasks nxt)) (map fst ts)"
    unfolding computePlanDiff_def Let_def plan_diff.simps ts_def [symmetric] by (simp only: rm set_map)
  have "map_has (task_map (tp_tasks nxt)) i \<longleftrightarrow> i \<in> tk_id ` set (tp_tasks nxt)" for i
    by (simp add: map_has_iff keys_task_map)
  then show ?thesis
    unfolding Let_def added removed
    using set_diff_marks [of ts "[]" "[]" "tp_tasks nxt"]
    by (simp add: diffMarks_def computePlanDiff_def case_prod_unfold Let_def flip: ts_def)
qed

section \<open>The steering gutter\<close>

lemma push_steering_cases:
  obtains "push_steering history m plan pinned st out x = out"
  | e where "push_steering history m plan pinned st out x = out @ [e]" "se_revision e = ph_revision x" "se_revision e \<noteq> 0"
      "case pinned of None \<Rightarrow> True | Some p \<Rightarrow> se_revision e \<le> p" "se_targetTaskId e \<in> tk_id ` set (tp_tasks plan)"
      "se_gutterCx e = 12" "se_gutterCy e = 40 + int (length out) * 24" "se_byUser e = starts_with (ph_kind x) ''user_''"
proof -
  obtain t a where t: "steering_target history m plan st x = (t, a)" by fastforce
  consider (skip) "push_steering history m plan pinned st out x = out"
    | (push) e where "push_steering history m plan pinned st out x = out @ [e]" "se_revision e = ph_revision x" "ph_revision x \<noteq> 0"
      "\<not> (case pinned of None \<Rightarrow> False | Some p \<Rightarrow> ph_revision x > p)" "map_has (task_map (tp_tasks plan)) (se_targetTaskId e)"
      "se_gutterCx e = 12" "se_gutterCy e = 40 + int (length out) * 24" "se_byUser e = starts_with (ph_kind x) ''user_''"
    by (cases "ph_revision x = 0 \<or> (case pinned of None \<Rightarrow> False | Some p \<Rightarrow> ph_revision x > p)";
        cases "t = '''' \<or> \<not> map_has (task_map (tp_tasks plan)) t")
      (simp_all add: push_steering_def t Let_def)
  then show thesis
  proof cases
    case skip
    then show thesis by (rule that(1))
  next
    case (push e)
    then show thesis
      by (intro that(2) [of e]) (simp_all add: map_has_iff keys_task_map not_less split: option.splits)
  qed
qed

lemma steering_run:
  defines "ev \<equiv> \<lambda>xs history m plan pinned st. foldl (push_steering history m plan pinned st) [] xs"
  shows "subseq (map se_revision (ev xs history m plan pinned st)) (map ph_revision xs) \<and>
    list_all (\<lambda>e. se_revision e \<noteq> 0 \<and> (case pinned of None \<Rightarrow> True | Some p \<Rightarrow> se_revision e \<le> p) \<and>
                  se_targetTaskId e \<in> tk_id ` set (tp_tasks plan)) (ev xs history m plan pinned st) \<and>
    map (\<lambda>e. (se_gutterCx e, se_gutterCy e)) (ev xs history m plan pinned st) =
      map (\<lambda>k. (12, 40 + int k * 24)) [0..<length (ev xs history m plan pinned st)]"
  unfolding ev_def
proof (induction xs rule: rev_induct)
  case (snoc x xs)
  let ?out = "foldl (push_steering history m plan pinned st) [] xs"
  have grow: "subseq s (map ph_revision xs) \<Longrightarrow> subseq s (map ph_revision (xs @ [x]))" for s
    using list_emb_append2 [of "(=)" s "map ph_revision xs" "[ph_revision x]"] by (auto intro: subseq_append)
  show ?case
  proof (cases rule: push_steering_cases [of history m plan pinned st ?out x])
    case 1
    with snoc grow show ?thesis by simp
  next
    case (2 e)
    with snoc show ?thesis by (auto intro: list_emb_append_mono)
  qed
qed simp

text \<open>The steering gutter shows revisions of the plan in the order of its history, never the first plan and never one after the pinned
  revision; each marker sits in a slot of its own and points at a task that is drawn.\<close>

theorem steering_gutter:
  "let evs = buildSteeringEvents history supersedes plan pinned st
   in subseq (map se_revision evs) (map ph_revision history) \<and>
      list_all (\<lambda>e. se_revision e \<noteq> 0 \<and> (case pinned of None \<Rightarrow> True | Some p \<Rightarrow> se_revision e \<le> p) \<and>
                    se_targetTaskId e \<in> (\<lambda>n. tk_id (dn_task n)) ` set (dg_nodes (layoutDag plan))) evs \<and>
      map (\<lambda>e. (se_gutterCx e, se_gutterCy e)) evs = map (\<lambda>k. (12, 40 + int k * 24)) [0..<length evs]"
proof -
  have drawn: "(\<lambda>n. tk_id (dn_task n)) ` set (dg_nodes (layoutDag plan)) = tk_id ` set (tp_tasks plan)"
    using arg_cong [OF dag_nodes_ids, of set_mset plan] by simp
  show ?thesis
    using steering_run [where xs = history and history = history and m = "newTaskByRevision supersedes" and plan = plan and pinned = pinned and st = st]
    unfolding drawn by (cases "history = []") (simp_all add: buildSteeringEvents_def Let_def)
qed

section \<open>The state of the view\<close>

lemma current_rev_None: "currentRev vm ui = None \<longleftrightarrow> vm_revs vm = []"
proof -
  have "revIdx vm ui \<le> length (vm_revs vm) - 1" by (simp add: revIdx_def latestIdx_def split: option.split)
  then show ?thesis by (cases "vm_revs vm") (auto simp: currentRev_def rev_at_def)
qed

definition drawer_ok :: "traj_ui \<Rightarrow> bool" where
  \<comment> \<open>an open drawer has content, and a task in it is a task of the plan it is looked up in\<close>
  "drawer_ok ui \<longleftrightarrow>
     (case tu_drawer ui of
        None \<Rightarrow> \<not> tu_drawerOpen ui
      | Some (Drawer_steering s) \<Rightarrow> True
      | Some (Drawer_task t p) \<Rightarrow> (case p of None \<Rightarrow> False | Some p \<Rightarrow> t \<in> set (tp_tasks p)))"

definition steering_ok :: "traj_ui \<Rightarrow> bool" where
  \<comment> \<open>while a steering is selected the drawer is open, on that steering or on a task\<close>
  "steering_ok ui \<longleftrightarrow>
     (case tu_steering ui of
        None \<Rightarrow> True
      | Some s \<Rightarrow> tu_drawerOpen ui \<and>
          (case tu_drawer ui of None \<Rightarrow> False | Some (Drawer_steering s') \<Rightarrow> s' = s | Some (Drawer_task t p) \<Rightarrow> True))"

definition traj_ui_ok :: "traj_ui \<Rightarrow> bool" where
  "traj_ui_ok ui \<longleftrightarrow> drawer_ok ui \<and> steering_ok ui"

lemma traj_ui_frame:
  assumes "tu_drawer ui' = tu_drawer ui" and "tu_drawerOpen ui' = tu_drawerOpen ui"
    and "tu_steering ui' = tu_steering ui \<or> tu_steering ui' = None"
  shows "traj_ui_ok ui \<Longrightarrow> traj_ui_ok ui'"
  using assms by (auto simp: traj_ui_ok_def drawer_ok_def steering_ok_def split: option.splits drawer_content.splits)

lemma drawer_task_ok: "traj_ui_ok ui \<Longrightarrow> traj_ui_ok (openDrawerForTask vm c ui i)"
  by (auto simp: traj_ui_ok_def drawer_ok_def steering_ok_def openDrawerForTask_def Let_def find_Some_iff
      split: option.splits drawer_content.splits)

lemma drawer_steering_ok: "traj_ui_ok (openDrawerForSteering ui s)"
  by (simp add: traj_ui_ok_def drawer_ok_def steering_ok_def openDrawerForSteering_def)

lemma traj_ui_ok_step: "traj_ui_ok ui \<Longrightarrow> traj_ui_ok (traj_step vm c ui e)"
proof (cases e)
  case Close_drawer
  assume "traj_ui_ok ui"
  with Close_drawer show ?thesis
    by (auto simp: traj_ui_ok_def drawer_ok_def steering_ok_def onCloseDrawer_def split: option.splits drawer_content.splits)
qed (auto simp: drawer_task_ok drawer_steering_ok onRevChange_def onRibbonLatest_def onRibbonSelectRevision_def onPickPlan_def
      openDrawerForIntervention_def onPinRevision_def onJumpToRevision_def Let_def split: option.splits
      elim!: traj_ui_frame [rotated 3])

lemma revision_at_Some:
  assumes "revision_at vm r = Some i"
  shows "i < length (vm_revs vm)" and "rev_index (vm_revs vm ! i) = r"
  using assms by (auto simp: revision_at_def find_Some_iff nth_enumerate_eq)

lemma revision_at_None: "revision_at vm r = None \<longleftrightarrow> r \<notin> rev_index ` set (vm_revs vm)"
proof -
  have "rev_index ` set (vm_revs vm) = (\<lambda>(i, p). rev_index p) ` set (enumerate 0 (vm_revs vm))"
  proof -
    have "set (vm_revs vm) = snd ` set (enumerate 0 (vm_revs vm))" by (simp flip: set_map)
    then show ?thesis by (simp only: image_image case_prod_unfold)
  qed
  then show ?thesis by (auto simp: revision_at_def find_None_iff image_iff)
qed

lemma current_rev_changed:
  assumes "i < length (vm_revs vm)"
  shows "currentRev vm (onRevChange vm ui i False) = Some (vm_revs vm ! i)" and "compareRev vm (onRevChange vm ui i False) = None"
  using assms by (auto simp: currentRev_def compareRev_def rev_at_def revIdx_def latestIdx_def onRevChange_def)

text \<open>C13: Whatever the user has clicked and however the view model changed in between: an open drawer has content, and a task in it
  is a task of the plan it was looked up in; while a steering is selected the drawer is open, on that very steering or on a
  task opened after it, since opening a task leaves the steering selected; a revision is current as soon as there is one;
  and choosing a revision on the ribbon makes a revision of that index current, with no comparison, selection or steering
  left, or keeps the current one if there is none.\<close>

theorem trajectory_ui_invariant:
  "let ui = foldl (\<lambda>ui (vm, c, e). traj_step vm c ui e) initial_ui events;
       ui' = traj_step vm c ui (Ribbon_revision r)
   in (case tu_drawer ui of
         None \<Rightarrow> \<not> tu_drawerOpen ui \<and> tu_steering ui = None
       | Some (Drawer_task t p) \<Rightarrow> (case p of None \<Rightarrow> False | Some p \<Rightarrow> t \<in> set (tp_tasks p))
       | Some (Drawer_steering s) \<Rightarrow> tu_steering ui = None \<or> tu_steering ui = Some s) \<and>
      (tu_steering ui = None \<or> tu_drawerOpen ui) \<and>
      tu_steering (traj_step vm c ui (Click_task i)) = tu_steering ui \<and>
      (currentRev vm ui = None) = (vm_revs vm = []) \<and>
      (case revision_at vm r of
         None \<Rightarrow> r \<notin> rev_index ` set (vm_revs vm) \<and> currentRev vm ui' = currentRev vm ui
       | Some i \<Rightarrow> map_option rev_index (currentRev vm ui') = Some r \<and> compareRev vm ui' = None \<and> tu_selection ui' = None) \<and>
      tu_steering ui' = None \<and> tu_pinnedRevision ui' = Some r"
proof -
  define ui where "ui = foldl (\<lambda>ui (vm, c, e). traj_step vm c ui e) initial_ui events"
  have "traj_ui_ok (foldl (\<lambda>ui (vm, c, e). traj_step vm c ui e) initial_ui events)"
    by (induction events rule: rev_induct)
      (auto simp: traj_ui_ok_step, simp add: traj_ui_ok_def drawer_ok_def steering_ok_def initial_ui_def)
  then have "case tu_drawer ui of
         None \<Rightarrow> \<not> tu_drawerOpen ui \<and> tu_steering ui = None
       | Some (Drawer_task t p) \<Rightarrow> (case p of None \<Rightarrow> False | Some p \<Rightarrow> t \<in> set (tp_tasks p))
       | Some (Drawer_steering s) \<Rightarrow> tu_steering ui = None \<or> tu_steering ui = Some s"
      "tu_steering ui = None \<or> tu_drawerOpen ui"
    by (auto simp: traj_ui_ok_def drawer_ok_def steering_ok_def ui_def [symmetric] split: option.splits drawer_content.splits)
  moreover have "tu_steering (traj_step vm c ui (Click_task i)) = tu_steering ui"
    by (simp add: openDrawerForTask_def Let_def split: option.split)
  moreover have current: "currentRev vm (u\<lparr>tu_steering := None\<rparr>) = currentRev vm u" "compareRev vm (u\<lparr>tu_steering := None\<rparr>) = compareRev vm u"
      "currentRev vm (u\<lparr>tu_pinnedRevision := p\<rparr>) = currentRev vm u" for u p
    by (simp_all add: currentRev_def compareRev_def revIdx_def split: option.splits)
  moreover have "tu_selection (onRevChange vm u i False) = None" "tu_pinnedRevision (onRevChange vm u i False) = tu_pinnedRevision u" for u i
    by (simp_all add: onRevChange_def)
  ultimately show ?thesis
    using revision_at_None [of vm r] revision_at_Some [of vm r]
    by (auto simp: Let_def current_rev_None onRibbonSelectRevision_def current_rev_changed split: option.split simp flip: ui_def)
qed

end
