(* ===== verification/GanttRows.thy ===== *)
theory GanttRows
  imports Details Viewports UiStore
begin

text \<open>
  The rows of the Gantt canvas, \<open>frontend/src/gantt/renderer.ts\<close>: the state of \<open>GanttRenderer\<close>, the height of each row, the lanes
  inside a row, the rectangle of each bar, and the hit tests that map a pointer to a row or a bar. Vertical coordinates of
  rows and lanes are integers; pointer positions and times on the axis are rationals.
\<close>

section \<open>The state of the renderer\<close>

record edge_layout =
  el_sourceSpanId :: string
  el_targetSpanId :: string
  el_x1 :: rat
  el_y1 :: rat
  el_x2 :: rat
  el_y2 :: rat
  el_color :: string

record delegation_edge_layout =
  de_seq :: nat
  de_record :: delegation_record
  de_srcX :: rat
  de_tgtX :: rat
  de_srcY :: rat
  de_tgtY :: rat
  de_curveOffset :: rat

record context_band =
  cb_samples :: "context_window_sample list"
  cb_bandTopYAtRatio1 :: int
  cb_baselineY :: int

record px_rect =
  rc_x :: rat
  rc_y :: rat
  rc_w :: rat
  rc_h :: rat

datatype renderer_call = \<comment> \<open>the callbacks the renderer was given\<close>
  On_select "string option" rat rat | On_hover "(string \<times> rat \<times> rat) option" | On_viewport viewport_state
  | On_gutter_agent string | On_delegation_hover "(delegation_record \<times> rat \<times> rat) option"
  | On_delegation_click delegation_record

record gantt_renderer =
  gr_attached :: bool \<comment> \<open>the three contexts, which are set and cleared together\<close>
  gr_widthCss :: rat
  gr_heightCss :: rat
  gr_viewport :: viewport_state
  gr_focusedAgentId :: "string option"
  gr_hiddenAgentIds :: "string list"
  gr_selectedSpanId :: "string option"
  gr_selectedTaskSpanId :: "string option"
  gr_hoveredSpanId :: "string option"
  gr_edges :: "edge_layout list"
  gr_hoveredEdgeIdx :: "nat option"
  gr_delegationEdges :: "delegation_edge_layout list"
  gr_hoveredDelegationSeq :: "nat option"
  gr_pulsingDelegationSeq :: "nat option"
  gr_pulseUntilMs :: rat
  gr_bgDirty :: bool
  gr_blocksDirty :: bool
  gr_overlayDirty :: bool
  gr_rafPending :: bool
  gr_stopped :: bool
  gr_samples :: "rat list"
  gr_sampleIdx :: nat
  gr_sampleCount :: nat
  gr_frozenNowMs :: "int option"
  gr_taskPlanMode :: task_plan_mode
  gr_taskPlanVisible :: bool
  gr_contextOverlayVisible :: bool
  gr_interventions :: "intervention_row list"
  gr_interventionBandsVisible :: bool
  gr_contextBandByAgent :: "(string, context_band) jsmap"
  gr_taskRectsById :: "(string, px_rect) jsmap"
  gr_calls :: "renderer_call list"

definition initial_renderer :: gantt_renderer where
  "initial_renderer =
     \<lparr>gr_attached = False, gr_widthCss = 0, gr_heightCss = 0, gr_viewport = defaultViewport, gr_focusedAgentId = None,
      gr_hiddenAgentIds = [], gr_selectedSpanId = None, gr_selectedTaskSpanId = None, gr_hoveredSpanId = None, gr_edges = [],
      gr_hoveredEdgeIdx = None, gr_delegationEdges = [], gr_hoveredDelegationSeq = None, gr_pulsingDelegationSeq = None,
      gr_pulseUntilMs = 0, gr_bgDirty = True, gr_blocksDirty = True, gr_overlayDirty = True, gr_rafPending = False,
      gr_stopped = True, gr_samples = replicate 600 0, gr_sampleIdx = 0, gr_sampleCount = 0, gr_frozenNowMs = None,
      gr_taskPlanMode = PreStrip, gr_taskPlanVisible = True, gr_contextOverlayVisible = True, gr_interventions = [],
      gr_interventionBandsVisible = True, gr_contextBandByAgent = [], gr_taskRectsById = [], gr_calls = []\<rparr>"

section \<open>Rows and lanes\<close>

definition ROW_HEIGHT_PX :: int where "ROW_HEIGHT_PX = 56"

definition ROW_HEIGHT_FOCUSED_PX :: int where "ROW_HEIGHT_FOCUSED_PX = 120"

definition SUB_LANE_HEIGHT_PX :: int where "SUB_LANE_HEIGHT_PX = 14"

definition TOP_MARGIN_PX :: int where "TOP_MARGIN_PX = 24"

definition ROW_HEIGHT_COLLAPSED_PX :: int where "ROW_HEIGHT_COLLAPSED_PX = 18"

definition MIN_BLOCK_WIDTH_PX :: rat where "MIN_BLOCK_WIDTH_PX = 2"

definition MAX_SAFE_INTEGER :: rat where "MAX_SAFE_INTEGER = 9007199254740991"

definition laneHeightFor :: "int \<Rightarrow> int \<Rightarrow> int" where
  "laneHeightFor rowH laneCount =
     (let denom = max 3 (max 1 laneCount) in max SUB_LANE_HEIGHT_PX (rowH div denom))"

definition laneRect :: "int \<Rightarrow> int \<Rightarrow> int \<Rightarrow> int \<Rightarrow> int \<times> int" where
  "laneRect rowTop rowH laneCount lane =
     (let laneIdx = (if lane \<ge> 0 then lane else 0);
          laneH = laneHeightFor rowH laneCount;
          laneTop = rowTop + 2 + laneIdx * laneH;
          laneBot = min (rowTop + rowH - 2) (laneTop + laneH - 2)
      in (laneTop, max 6 (laneBot - laneTop)))"

definition laneCenterY :: "int \<Rightarrow> int \<Rightarrow> int \<Rightarrow> int \<Rightarrow> rat" where
  "laneCenterY rowTop rowH laneCount lane =
     (let (laneTop, rectH) = laneRect rowTop rowH laneCount lane in of_int laneTop + of_int rectH / 2)"

definition getLaneCount :: "session_store \<Rightarrow> string \<Rightarrow> int" where
  "getLaneCount st agentId =
     foldl (\<lambda>m s. if sp_lane s > m then sp_lane s else m) (- 1)
       (si_queryAgent (ss_spans st) agentId (- MAX_SAFE_INTEGER) (At MAX_SAFE_INTEGER) []) + 1"

definition rowHeight :: "gantt_renderer \<Rightarrow> session_store \<Rightarrow> string \<Rightarrow> int" where
  "rowHeight g st agentId =
     (if agentId \<in> set (gr_hiddenAgentIds g) then ROW_HEIGHT_COLLAPSED_PX
      else let base = (if gr_focusedAgentId g = Some agentId then ROW_HEIGHT_FOCUSED_PX else ROW_HEIGHT_PX);
               laneCount = getLaneCount st agentId
           in if laneCount \<le> 3 then base
              else let baseLaneH = max SUB_LANE_HEIGHT_PX (base div 3) in laneCount * baseLaneH + 4)"

fun rows_from :: "(string \<Rightarrow> int) \<Rightarrow> int \<Rightarrow> agent list \<Rightarrow> (agent \<times> int \<times> int) list" where
  \<comment> \<open>the loop over the agents that every pass runs: each agent with the top and the height of its row\<close>
  "rows_from h y [] = []"
| "rows_from h y (a # as) = (a, y, h (ag_id a)) # rows_from h (y + h (ag_id a)) as"

definition gantt_rows :: "gantt_renderer \<Rightarrow> session_store \<Rightarrow> (agent \<times> int \<times> int) list" where
  "gantt_rows g st = rows_from (rowHeight g st) TOP_MARGIN_PX (ar_list (ss_agents st))"

record row_layout =
  rl_agentId :: string
  rl_top :: int
  rl_height :: int
  rl_hidden :: bool

definition getRowLayout :: "gantt_renderer \<Rightarrow> session_store \<Rightarrow> row_layout list" where
  "getRowLayout g st =
     map (\<lambda>(a, y, h). \<lparr>rl_agentId = ag_id a, rl_top = y, rl_height = h, rl_hidden = (ag_id a \<in> set (gr_hiddenAgentIds g))\<rparr>)
       (gantt_rows g st)"

definition isAgentHidden :: "gantt_renderer \<Rightarrow> string \<Rightarrow> bool" where
  "isAgentHidden g agentId = (agentId \<in> set (gr_hiddenAgentIds g))"

definition in_row :: "rat \<Rightarrow> int \<Rightarrow> int \<Rightarrow> bool" where
  \<comment> \<open>\<open>py >= y && py < y + rowH\<close>\<close>
  "in_row py y h = (of_int y \<le> py \<and> py < of_int (y + h))"

definition agentAtY :: "gantt_renderer \<Rightarrow> session_store \<Rightarrow> rat \<Rightarrow> string option" where
  "agentAtY g st py = map_option (\<lambda>(a, _). ag_id a) (find (\<lambda>(a, y, h). in_row py y h) (gantt_rows g st))"

section \<open>Bars\<close>

definition bar_ends :: "gantt_renderer \<Rightarrow> session_store \<Rightarrow> span \<Rightarrow> rat \<times> rat" where
  \<comment> \<open>\<open>x1\<close> and \<open>width\<close>\<close>
  "bar_ends g st s =
     (let x1 = max (GUTTER_WIDTH_PX + 10) (msToPx (gr_viewport g) (gr_widthCss g) (startR s));
          x2 = msToPx (gr_viewport g) (gr_widthCss g) (of_int (case sp_endMs s of None \<Rightarrow> ss_nowMs st | Some e \<Rightarrow> e))
      in (x1, max MIN_BLOCK_WIDTH_PX (x2 - x1)))"

definition bar_rect :: "gantt_renderer \<Rightarrow> session_store \<Rightarrow> int \<Rightarrow> int \<Rightarrow> int \<Rightarrow> span \<Rightarrow> px_rect" where
  "bar_rect g st y rowH laneCount s =
     (let (x1, width) = bar_ends g st s; (laneTop, rectH) = laneRect y rowH laneCount (sp_lane s)
      in \<lparr>rc_x = x1, rc_y = of_int laneTop, rc_w = width, rc_h = of_int rectH\<rparr>)"

definition visible_spans :: "gantt_renderer \<Rightarrow> session_store \<Rightarrow> string \<Rightarrow> span list" where
  "visible_spans g st agentId =
     si_queryAgent (ss_spans st) agentId (viewportStart (gr_viewport g)) (At (vs_endMs (gr_viewport g))) []"

definition near_rect :: "rat \<Rightarrow> rat \<Rightarrow> rat \<Rightarrow> px_rect \<Rightarrow> bool" where
  \<comment> \<open>inside the rectangle widened by \<open>d\<close> on either side\<close>
  "near_rect d px py r \<longleftrightarrow>
     rc_x r - d \<le> px \<and> px \<le> rc_x r + rc_w r + d \<and> rc_y r \<le> py \<and> py \<le> rc_y r + rc_h r"

definition hitTest :: "gantt_renderer \<Rightarrow> session_store \<Rightarrow> rat \<Rightarrow> rat \<Rightarrow> string option" where
  "hitTest g st px py =
     (if px < GUTTER_WIDTH_PX \<or> py < of_int TOP_MARGIN_PX then None
      else case find (\<lambda>(a, y, h). ag_id a \<notin> set (gr_hiddenAgentIds g) \<and> in_row py y h) (gantt_rows g st) of
             None \<Rightarrow> None
           | Some (a, y, h) \<Rightarrow>
               map_option sp_id
                 (find (\<lambda>s. near_rect 4 px py (bar_rect g st y h (getLaneCount st (ag_id a)) s))
                   (rev (visible_spans g st (ag_id a)))))"

definition rectForSpan :: "gantt_renderer \<Rightarrow> session_store \<Rightarrow> string \<Rightarrow> px_rect option" where
  "rectForSpan g st spanId =
     (case si_get (ss_spans st) spanId of
        None \<Rightarrow> None
      | Some s \<Rightarrow>
          map_option (\<lambda>(a, y, h). bar_rect g st y h (getLaneCount st (ag_id a)) s)
            (find (\<lambda>(a, y, h). ag_id a = sp_agentId s) (gantt_rows g st)))"

section \<open>Rows tile the canvas and lanes tile a row\<close>

lemma rows_from_agents: "map fst (rows_from h y as) = as"
  by (induction h y as rule: rows_from.induct) simp_all

lemma rows_from_height: "(a, z, k) \<in> set (rows_from h y as) \<Longrightarrow> k = h (ag_id a) \<and> a \<in> set as"
  by (induction h y as rule: rows_from.induct) auto

lemma rows_from_tops:
  "map (\<lambda>(a, z, k). z) (rows_from h y as) = map (\<lambda>i. y + sum_list (take i (map (h \<circ> ag_id) as))) [0..<length as]"
proof (induction h y as rule: rows_from.induct)
  case (2 h y a as)
  show ?case
    unfolding rows_from.simps length_Cons upt_conv_Cons [OF zero_less_Suc] map_Suc_upt [symmetric]
    by (simp add: 2 comp_def add.assoc del: upt_Suc)
qed simp

lemma rows_from_contains:
  assumes "\<forall>i. 0 < h i"
  shows "length (filter (\<lambda>(a, z, k). in_row py z k) (rows_from h y as)) =
    (if of_int y \<le> py \<and> py < of_int (y + sum_list (map (h \<circ> ag_id) as)) then 1 else 0)"
proof (induction as arbitrary: y)
  case (Cons a as)
  have nonneg: "0 \<le> sum_list (map (h \<circ> ag_id) xs)" for xs
    using assms by (intro sum_list_nonneg) (auto simp: less_imp_le)
  have "0 < h (ag_id a)" using assms by blast
  note pos = this nonneg [of as]
  consider "py < of_int y" | "of_int y \<le> py" "py < of_int (y + h (ag_id a))" | "of_int (y + h (ag_id a)) \<le> py" by linarith
  then show ?case
  proof cases
    case 1
    have "py < of_int (y + h (ag_id a))" using 1 pos by simp
    with 1 show ?thesis using Cons.IH [of "y + h (ag_id a)"] by (simp add: in_row_def)
  next
    case 2
    have "py < of_int (y + sum_list (map (h \<circ> ag_id) (a # as)))" using 2 pos by simp
    with 2 show ?thesis using Cons.IH [of "y + h (ag_id a)"] by (simp add: in_row_def comp_def)
  next
    case 3
    have "of_int y \<le> py" "\<not> py < of_int (y + h (ag_id a))" using 3 pos by simp_all
    with 3 show ?thesis using Cons.IH [of "y + h (ag_id a)"] by (simp add: in_row_def add.assoc)
  qed
qed (simp add: in_row_def)

lemma rowHeight_ge: "18 \<le> rowHeight g st a"
  by (auto simp: rowHeight_def Let_def ROW_HEIGHT_COLLAPSED_PX_def ROW_HEIGHT_FOCUSED_PX_def ROW_HEIGHT_PX_def SUB_LANE_HEIGHT_PX_def)

text \<open>The rows of the canvas are the agents in order, each starting where the one before ends and at least as high as a collapsed
  row; a pointer is in exactly one of them, or in none when it is above the first or below the last.\<close>

theorem rows_tile_canvas:
  "let rows = getRowLayout g st; bottom = TOP_MARGIN_PX + sum_list (map rl_height rows)
   in map rl_agentId rows = map ag_id (ar_list (ss_agents st)) \<and>
      map rl_top rows = map (\<lambda>i. TOP_MARGIN_PX + sum_list (take i (map rl_height rows))) [0..<length rows] \<and>
      list_all (\<lambda>r. 18 \<le> rl_height r) rows \<and>
      (case agentAtY g st py of
         None \<Rightarrow> py < of_int TOP_MARGIN_PX \<or> of_int bottom \<le> py
       | Some i \<Rightarrow> map rl_agentId (filter (\<lambda>r. in_row py (rl_top r) (rl_height r)) rows) = [i])"
proof -
  define as where "as = ar_list (ss_agents st)"
  define h where "h = rowHeight g st"
  define rows where "rows = getRowLayout g st"
  define R where "R = rows_from h TOP_MARGIN_PX as"
  have rows: "rows = map (\<lambda>(a, y, k). \<lparr>rl_agentId = ag_id a, rl_top = y, rl_height = k, rl_hidden = (ag_id a \<in> set (gr_hiddenAgentIds g))\<rparr>) R"
    by (simp add: rows_def getRowLayout_def gantt_rows_def R_def h_def as_def)
  have pos: "\<forall>i. 0 < h i" using rowHeight_ge [of g st] by (auto simp: h_def intro: less_le_trans [of 0 18])
  have ids: "map rl_agentId rows = map ag_id as"
    using arg_cong [OF rows_from_agents [of h TOP_MARGIN_PX as], of "map ag_id"] by (simp add: rows R_def case_prod_unfold comp_def)
  have heights: "map rl_height rows = map (h \<circ> ag_id) as"
  proof -
    have "map rl_height rows = map (h \<circ> ag_id) (map fst R)"
      unfolding rows using rows_from_height [of _ _ _ h TOP_MARGIN_PX as] by (auto simp: R_def)
    then show ?thesis by (simp add: R_def rows_from_agents)
  qed
  have tops: "map rl_top rows = map (\<lambda>i. TOP_MARGIN_PX + sum_list (take i (map rl_height rows))) [0..<length rows]"
    using rows_from_tops [of h TOP_MARGIN_PX as] arg_cong [OF ids, of length]
    unfolding heights by (simp add: rows R_def [symmetric] comp_def case_prod_unfold)
  have at_least: "list_all (\<lambda>r. 18 \<le> rl_height r) rows"
    using rowHeight_ge [of g st] rows_from_height [of _ _ _ h TOP_MARGIN_PX as] by (fastforce simp: rows R_def list_all_iff h_def)
  have count: "length (filter (\<lambda>(a, z, k). in_row py z k) R) =
      (if of_int TOP_MARGIN_PX \<le> py \<and> py < of_int (TOP_MARGIN_PX + sum_list (map rl_height rows)) then 1 else 0)"
    unfolding R_def heights by (rule rows_from_contains [OF pos])
  have filter: "map rl_agentId (filter (\<lambda>r. in_row py (rl_top r) (rl_height r)) rows) = map (\<lambda>(a, z, k). ag_id a) (filter (\<lambda>(a, z, k). in_row py z k) R)"
    unfolding rows by (induction R) auto
  have at: "agentAtY g st py = map_option (\<lambda>(a, z, k). ag_id a) (find (\<lambda>(a, z, k). in_row py z k) R)"
    by (simp add: agentAtY_def gantt_rows_def R_def h_def as_def case_prod_unfold)
  have "case agentAtY g st py of
      None \<Rightarrow> py < of_int TOP_MARGIN_PX \<or> of_int (TOP_MARGIN_PX + sum_list (map rl_height rows)) \<le> py
    | Some i \<Rightarrow> map rl_agentId (filter (\<lambda>r. in_row py (rl_top r) (rl_height r)) rows) = [i]"
  proof (cases "filter (\<lambda>(a, z, k). in_row py z k) R")
    case Nil
    then have "find (\<lambda>(a, z, k). in_row py z k) R = None" by (auto simp: find_None_iff filter_empty_conv)
    with Nil count show ?thesis by (auto simp: at split: if_splits)
  next
    case (Cons x xs)
    then have "xs = []" using count by (simp split: if_splits)
    moreover have "find (\<lambda>(a, z, k). in_row py z k) R = Some x"
      using Cons by (induction R) (auto split: if_splits)
    ultimately show ?thesis unfolding filter at using Cons by simp
  qed
  with ids tops at_least show ?thesis by (simp add: Let_def flip: rows_def as_def)
qed

lemma lane_rect_fits:
  assumes visible: "a \<notin> set (gr_hiddenAgentIds g)" and lane: "0 \<le> i" "i < getLaneCount st a"
  defines "h \<equiv> rowHeight g st a" and "n \<equiv> getLaneCount st a"
  shows "laneRect y h n i = (y + 2 + i * laneHeightFor h n, min (y + h - 2) (y + 2 + i * laneHeightFor h n + laneHeightFor h n - 2) - (y + 2 + i * laneHeightFor h n))"
    and "6 \<le> snd (laneRect y h n i)" and "y + 2 + i * laneHeightFor h n + snd (laneRect y h n i) \<le> y + h - 2"
proof -
  define base where "base = (if gr_focusedAgentId g = Some a then ROW_HEIGHT_FOCUSED_PX else ROW_HEIGHT_PX)"
  define B where "B = (if gr_focusedAgentId g = Some a then 40 else 18 :: int)"
  have h: "h = (if n \<le> 3 then base else n * B + 4)"
    using visible by (simp add: h_def n_def rowHeight_def Let_def base_def B_def ROW_HEIGHT_FOCUSED_PX_def ROW_HEIGHT_PX_def SUB_LANE_HEIGHT_PX_def)
  have L: "laneHeightFor h n = (if n = 4 then B + 1 else B)"
  proof (cases "n \<le> 3")
    case True
    then show ?thesis by (simp add: h laneHeightFor_def base_def B_def ROW_HEIGHT_FOCUSED_PX_def ROW_HEIGHT_PX_def SUB_LANE_HEIGHT_PX_def)
  next
    case False
    then have "(n * B + 4) div n = B + 4 div n" by simp
    moreover have "4 div n = (if n = 4 then 1 else 0)" using False by (auto simp: div_pos_pos_trivial)
    ultimately show ?thesis using False by (simp add: h laneHeightFor_def B_def SUB_LANE_HEIGHT_PX_def max_def)
  qed
  have room: "i * laneHeightFor h n + 8 \<le> h - 2"
  proof (cases "n \<le> 3")
    case True
    then have "i = 0 \<or> i = 1 \<or> i = 2" using lane by (simp add: n_def) linarith
    with True show ?thesis unfolding L by (auto simp: h base_def B_def ROW_HEIGHT_FOCUSED_PX_def ROW_HEIGHT_PX_def)
  next
    case False
    show ?thesis
    proof (cases "n = 4")
      case True
      then have "i = 0 \<or> i = 1 \<or> i = 2 \<or> i = 3" using lane by (simp add: n_def) linarith
      with True show ?thesis unfolding L by (auto simp: h B_def)
    next
      case four: False
      have "i * B \<le> (n - 1) * B" using lane by (intro mult_right_mono) (simp_all add: n_def B_def)
      then have "i * B \<le> n * B - B" by (simp add: left_diff_distrib)
      moreover have "10 \<le> B" by (simp add: B_def)
      ultimately show ?thesis using False four unfolding L by (simp add: h)
    qed
  qed
  have rect: "laneRect y h n i = (y + 2 + i * laneHeightFor h n, min (y + h - 2) (y + 2 + i * laneHeightFor h n + laneHeightFor h n - 2) - (y + 2 + i * laneHeightFor h n))"
    using lane room unfolding L by (auto simp: laneRect_def Let_def L B_def min_def max_def)
  then show "laneRect y h n i = (y + 2 + i * laneHeightFor h n, min (y + h - 2) (y + 2 + i * laneHeightFor h n + laneHeightFor h n - 2) - (y + 2 + i * laneHeightFor h n))" .
  show "6 \<le> snd (laneRect y h n i)" using room unfolding rect L by (auto simp: B_def min_def)
  show "y + 2 + i * laneHeightFor h n + snd (laneRect y h n i) \<le> y + h - 2" unfolding rect by simp
qed

text \<open>In every row that is not hidden the lanes lie one below the other with two pixels between them and inside the row, however
  many there are and whether or not the row is focused, so a bar never reaches into another lane or another agent's row.\<close>

theorem lanes_tile_row:
  "list_all (\<lambda>(a, y, h).
      let n = getLaneCount st (ag_id a); rects = map (\<lambda>i. laneRect y h n (int i)) [0..<nat n]
      in if isAgentHidden g (ag_id a) then h = 18
         else sorted_wrt (\<lambda>(t, k) (t', k'). t + k + 2 \<le> t') rects \<and>
              list_all (\<lambda>(t, k). y + 2 \<le> t \<and> 6 \<le> k \<and> t + k \<le> y + h - 2) rects) (gantt_rows g st)"
proof -
  have fits: "sorted_wrt (\<lambda>(t, k) (t', k'). t + k + 2 \<le> t') (map (\<lambda>i. laneRect y (rowHeight g st a) (getLaneCount st a) (int i)) [0..<nat (getLaneCount st a)]) \<and>
      list_all (\<lambda>(t, k). y + 2 \<le> t \<and> 6 \<le> k \<and> t + k \<le> y + rowHeight g st a - 2)
        (map (\<lambda>i. laneRect y (rowHeight g st a) (getLaneCount st a) (int i)) [0..<nat (getLaneCount st a)])"
    if visible: "a \<notin> set (gr_hiddenAgentIds g)" for a y
  proof -
    note fit = lane_rect_fits [OF visible, of _ st y]
    define L where "L = laneHeightFor (rowHeight g st a) (getLaneCount st a)"
    have step: "y + 2 + int i * L + snd (laneRect y (rowHeight g st a) (getLaneCount st a) (int i)) + 2 \<le> y + 2 + int j * L"
      if "i < j" "int i < getLaneCount st a" for i j
    proof -
      have "int (Suc i) * L \<le> int j * L"
        using that by (intro mult_right_mono) (simp_all add: L_def laneHeightFor_def SUB_LANE_HEIGHT_PX_def Let_def)
      moreover have "snd (laneRect y (rowHeight g st a) (getLaneCount st a) (int i)) \<le> L - 2"
        using fit(1) [of "int i"] that by (simp add: L_def)
      ultimately show ?thesis by (simp add: algebra_simps)
    qed
    have top: "fst (laneRect y (rowHeight g st a) (getLaneCount st a) (int i)) = y + 2 + int i * L"
      if "int i < getLaneCount st a" for i
      using fit(1) [of "int i"] that by (simp add: L_def)
    have pos: "0 \<le> int i * L" for i by (simp add: L_def laneHeightFor_def SUB_LANE_HEIGHT_PX_def Let_def)
    have "(case laneRect y (rowHeight g st a) (getLaneCount st a) (int i) of (t, k) \<Rightarrow>
        case laneRect y (rowHeight g st a) (getLaneCount st a) (int j) of (t', k') \<Rightarrow> t + k + 2 \<le> t')"
      if "i < j" "j < nat (getLaneCount st a)" for i j
      using step [of i j] top [of i] top [of j] that by (simp add: case_prod_unfold)
    then have "sorted_wrt (\<lambda>(t, k) (t', k'). t + k + 2 \<le> t') (map (\<lambda>i. laneRect y (rowHeight g st a) (getLaneCount st a) (int i)) [0..<nat (getLaneCount st a)])"
      by (simp add: sorted_wrt_iff_nth_less case_prod_unfold)
    moreover have "y + 2 \<le> fst (laneRect y (rowHeight g st a) (getLaneCount st a) (int i)) \<and>
        6 \<le> snd (laneRect y (rowHeight g st a) (getLaneCount st a) (int i)) \<and>
        fst (laneRect y (rowHeight g st a) (getLaneCount st a) (int i)) + snd (laneRect y (rowHeight g st a) (getLaneCount st a) (int i))
          \<le> y + rowHeight g st a - 2" if "int i < getLaneCount st a" for i
      using fit(2,3) [of "int i"] that top [OF that] pos [of i] by (simp add: L_def)
    ultimately show ?thesis by (simp add: list_all_iff case_prod_unfold)
  qed
  have row: "h = rowHeight g st (ag_id a)" if "(a, y, h) \<in> set (gantt_rows g st)" for a y h
    using rows_from_height that by (fastforce simp: gantt_rows_def)
  have collapsed: "rowHeight g st i = 18" if "i \<in> set (gr_hiddenAgentIds g)" for i
    using that by (simp add: rowHeight_def ROW_HEIGHT_COLLAPSED_PX_def)
  show ?thesis
    unfolding list_all_iff [of _ "gantt_rows g st"]
  proof (rule ballI, clarify)
    fix a y h assume "(a, y, h) \<in> set (gantt_rows g st)"
    then have h: "h = rowHeight g st (ag_id a)" by (rule row)
    show "let n = getLaneCount st (ag_id a); rects = map (\<lambda>i. laneRect y h n (int i)) [0..<nat n]
      in if isAgentHidden g (ag_id a) then h = 18
         else sorted_wrt (\<lambda>(t, k) (t', k'). t + k + 2 \<le> t') rects \<and>
              list_all (\<lambda>(t, k). y + 2 \<le> t \<and> 6 \<le> k \<and> t + k \<le> y + h - 2) rects"
      unfolding Let_def h isAgentHidden_def using collapsed [of "ag_id a"] fits [of "ag_id a" y] by simp
  qed
qed

section \<open>The pointer finds the bar under it\<close>

lemma rows_distinct: "distinct (map ag_id as) \<Longrightarrow> (a, y, k) \<in> set (rows_from h z as) \<Longrightarrow>
    find (\<lambda>(b, _, _). ag_id b = ag_id a) (rows_from h z as) = Some (a, y, k)"
proof (induction h z as rule: rows_from.induct)
  case (2 h z b as)
  show ?case
  proof (cases "(a, y, k) \<in> set (rows_from h (z + h (ag_id b)) as)")
    case True
    have "a \<in> set as" using rows_from_height [OF True] by blast
    then have "ag_id a \<noteq> ag_id b" using "2.prems"(1) by (auto simp: image_iff)
    with 2 True show ?thesis by simp
  next
    case False
    with "2.prems" show ?thesis by auto
  qed
qed simp

lemma row_at_unique:
  assumes "r \<in> set (gantt_rows g st)" and "q \<in> set (gantt_rows g st)"
    and "case r of (a, y, h) \<Rightarrow> in_row py y h" and "case q of (a, y, h) \<Rightarrow> in_row py y h"
  shows "r = q"
proof -
  have "length (filter (\<lambda>(a, z, k). in_row py z k) (gantt_rows g st)) \<le> 1"
    unfolding gantt_rows_def using rowHeight_ge [of g st] by (subst rows_from_contains) (auto intro: less_le_trans [of 0 18])
  moreover have "r \<in> set (filter (\<lambda>(a, z, k). in_row py z k) (gantt_rows g st))" "q \<in> set (filter (\<lambda>(a, z, k). in_row py z k) (gantt_rows g st))"
    using assms by auto
  ultimately show ?thesis by (cases "filter (\<lambda>(a, z, k). in_row py z k) (gantt_rows g st)") auto
qed

lemma lane_below_count:
  assumes ok: "span_ok (ss_spans st)" and s: "s \<in> set (si_all (ss_spans st))" and safe: "\<bar>startR s\<bar> < MAX_SAFE_INTEGER"
  shows "sp_lane s < getLaneCount st (sp_agentId s)"
proof -
  have max: "m \<le> foldl (\<lambda>m s. if sp_lane s > m then sp_lane s else m) m ss \<and>
      (\<forall>s\<in>set ss. sp_lane s \<le> foldl (\<lambda>m s. if sp_lane s > m then sp_lane s else m) m ss)" for m ss
    by (induction ss arbitrary: m) (auto intro: order_trans [OF less_imp_le] order_trans [OF leI])
  have "wanted (- MAX_SAFE_INTEGER) (At MAX_SAFE_INTEGER) s" "- MAX_SAFE_INTEGER - 65536 \<le> startR s"
    using safe by (auto simp: wanted_def abs_less_iff)
  then have "s \<in> set (si_queryAgent (ss_spans st) (sp_agentId s) (- MAX_SAFE_INTEGER) (At MAX_SAFE_INTEGER) [])"
    using query_agent_ok [OF ok, of "sp_agentId s" "- MAX_SAFE_INTEGER" "At MAX_SAFE_INTEGER"] s by (auto simp: Let_def)
  then show ?thesis using max by (auto simp: getLaneCount_def less_Suc_eq_le zless_add1_eq order_le_less)
qed

lemma bar_inside_row:
  assumes visible: "a \<notin> set (gr_hiddenAgentIds g)" and lane: "sp_lane s < getLaneCount st a"
    and near: "near_rect 0 px py (bar_rect g st y (rowHeight g st a) (getLaneCount st a) s)"
  shows "in_row py y (rowHeight g st a)"
proof -
  define n h where "n = getLaneCount st a" and "h = rowHeight g st a"
  obtain t k where r: "laneRect y h n (sp_lane s) = (t, k)" by fastforce
  have py: "of_int t \<le> py" "py \<le> of_int (t + k)"
    using near by (auto simp: near_rect_def bar_rect_def case_prod_unfold r Let_def n_def [symmetric] h_def [symmetric])
  have "y + 2 \<le> t \<and> t + k \<le> y + h - 2"
  proof (cases "0 \<le> sp_lane s")
    case True
    note fit = lane_rect_fits [OF visible True lane, of y, folded n_def h_def]
    have "0 \<le> sp_lane s * laneHeightFor h n" using True by (simp add: laneHeightFor_def SUB_LANE_HEIGHT_PX_def Let_def)
    then show ?thesis using fit(1,3) r by simp
  next
    case False
    have same: "laneRect y h n (sp_lane s) = laneRect y h n 0" using False by (simp add: laneRect_def)
    show ?thesis
    proof (cases "0 < n")
      case True
      show ?thesis using lane_rect_fits(1,3) [OF visible, of 0 st y, folded n_def h_def] True r same by (auto simp: min_def split: if_splits)
    next
      case empty: False
      have "h = 56 \<or> h = 120" using visible empty
        by (simp add: h_def n_def rowHeight_def Let_def ROW_HEIGHT_FOCUSED_PX_def ROW_HEIGHT_PX_def)
      then show ?thesis using r same empty by (auto simp: laneRect_def laneHeightFor_def SUB_LANE_HEIGHT_PX_def Let_def)
    qed
  qed
  then have "y \<le> t" "t + k < y + h" by simp_all
  then have "rat_of_int y \<le> of_int t" "rat_of_int (t + k) < of_int (y + h)" by (simp_all only: of_int_le_iff of_int_less_iff)
  with py show ?thesis unfolding in_row_def h_def by linarith
qed

definition shown_spans :: "gantt_renderer \<Rightarrow> session_store \<Rightarrow> span list" where
  \<comment> \<open>the spans whose bars the blocks pass draws, row by row\<close>
  "shown_spans g st =
     concat (map (\<lambda>a. if isAgentHidden g (ag_id a) then [] else visible_spans g st (ag_id a)) (ar_list (ss_agents st)))"

lemma shown_span_rect:
  assumes spans: "span_ok (ss_spans st)" and agents: "agents_ok (ss_agents st)" and row: "(a, y, h) \<in> set (gantt_rows g st)"
    and s: "s \<in> set (visible_spans g st (ag_id a))"
  shows "rectForSpan g st (sp_id s) = Some (bar_rect g st y h (getLaneCount st (ag_id a)) s)"
    and "sp_agentId s = ag_id a" and "s \<in> set (si_all (ss_spans st))" and "h = rowHeight g st (ag_id a)"
proof -
  show all: "s \<in> set (si_all (ss_spans st))" and agent: "sp_agentId s = ag_id a"
    using query_agent_ok [OF spans, of "ag_id a" "viewportStart (gr_viewport g)" "At (vs_endMs (gr_viewport g))"] s
    by (auto simp: visible_spans_def Let_def)
  have "si_get (ss_spans st) (sp_id s) = Some s" using all si_all_iff [OF spans] by (simp add: si_get_def)
  moreover have "distinct (map ag_id (ar_list (ss_agents st)))" using ar_list_ids [OF agents] agents by (simp add: agents_ok_def)
  ultimately show "rectForSpan g st (sp_id s) = Some (bar_rect g st y h (getLaneCount st (ag_id a)) s)"
    using rows_distinct [of "ar_list (ss_agents st)" a y h "rowHeight g st" TOP_MARGIN_PX] row
    by (simp add: rectForSpan_def gantt_rows_def agent case_prod_unfold)
  show "h = rowHeight g st (ag_id a)" using row rows_from_height by (fastforce simp: gantt_rows_def)
qed

lemma shown_span_row:
  assumes "s \<in> set (shown_spans g st)"
  obtains a y h where "(a, y, h) \<in> set (gantt_rows g st)" "ag_id a \<notin> set (gr_hiddenAgentIds g)" "s \<in> set (visible_spans g st (ag_id a))"
proof -
  obtain a where a: "a \<in> set (ar_list (ss_agents st))" "ag_id a \<notin> set (gr_hiddenAgentIds g)" "s \<in> set (visible_spans g st (ag_id a))"
    using assms by (auto simp: shown_spans_def isAgentHidden_def split: if_splits)
  have "a \<in> fst ` set (gantt_rows g st)"
    using a(1) rows_from_agents [of "rowHeight g st" TOP_MARGIN_PX "ar_list (ss_agents st)"] by (metis gantt_rows_def set_map)
  with a that show thesis by auto
qed


end
