(* ===== verification/GanttCurves.thy ===== *)
theory GanttCurves
  imports GanttRows
begin

text \<open>
  The curves between bars, \<open>frontend/src/gantt/renderer.ts\<close>: the control points of link and delegation edges and the hit tests that
  sample them. \<open>Math.hypot(...) <= tol\<close> is read as a comparison of squares, which is the same over exact numbers.
\<close>

section \<open>Curves\<close>

definition edgeControlPoints :: "rat \<Rightarrow> rat \<Rightarrow> rat \<Rightarrow> rat \<Rightarrow> rat \<times> rat \<times> rat \<times> rat" where
  "edgeControlPoints x1 y1 x2 y2 =
     (let dx = max 40 (\<bar>x2 - x1\<bar> * (4 / 10)) in (x1 + dx, y1, x2 - dx, y2))"

definition delegationBezier :: "delegation_edge_layout \<Rightarrow> (rat \<times> rat) \<times> (rat \<times> rat) \<times> (rat \<times> rat) \<times> (rat \<times> rat)" where
  \<comment> \<open>the four control points\<close>
  "delegationBezier e =
     (let dx = de_tgtX e - de_srcX e in
      if dx = 0
      then ((de_srcX e, de_srcY e), (de_srcX e + de_curveOffset e, de_srcY e), (de_srcX e + de_curveOffset e, de_tgtY e),
            (de_srcX e, de_tgtY e))
      else let midX = de_srcX e + dx / 2
           in ((de_srcX e, de_srcY e), (midX, de_srcY e), (midX, de_tgtY e), (de_tgtX e, de_tgtY e)))"

definition cubic :: "rat \<Rightarrow> rat \<Rightarrow> rat \<Rightarrow> rat \<Rightarrow> rat \<Rightarrow> rat" where
  "cubic p0 p1 p2 p3 t =
     (let mt = 1 - t in mt * mt * mt * p0 + 3 * mt * mt * t * p1 + 3 * mt * t * t * p2 + t * t * t * p3)"

definition pointSegmentDist2 :: "rat \<Rightarrow> rat \<Rightarrow> rat \<Rightarrow> rat \<Rightarrow> rat \<Rightarrow> rat \<Rightarrow> rat" where
  \<comment> \<open>the square of \<open>pointSegmentDist\<close>\<close>
  "pointSegmentDist2 px py ax ay bx by' =
     (let dx = bx - ax; dy = by' - ay; len2 = dx * dx + dy * dy in
      if len2 = 0 then (px - ax) * (px - ax) + (py - ay) * (py - ay)
      else let t = max 0 (min 1 (((px - ax) * dx + (py - ay) * dy) / len2));
               qx = px - (ax + t * dx); qy = py - (ay + t * dy)
           in qx * qx + qy * qy)"

fun near_samples :: "rat \<Rightarrow> rat \<Rightarrow> rat \<Rightarrow> rat \<times> rat \<Rightarrow> (rat \<times> rat) list \<Rightarrow> bool" where
  \<comment> \<open>the loop over the samples, from the point reached so far\<close>
  "near_samples px py tol prv [] = False"
| "near_samples px py tol prv (s # ss) =
     (if pointSegmentDist2 px py (fst prv) (snd prv) (fst s) (snd s) \<le> tol * tol then True
      else near_samples px py tol s ss)"

definition curve_samples :: "nat \<Rightarrow> (rat \<times> rat) \<times> (rat \<times> rat) \<times> (rat \<times> rat) \<times> (rat \<times> rat) \<Rightarrow> (rat \<times> rat) list" where
  "curve_samples n b =
     (let (p0, p1, p2, p3) = b
      in map (\<lambda>j. let t = of_nat j / of_nat n
                  in (cubic (fst p0) (fst p1) (fst p2) (fst p3) t, cubic (snd p0) (snd p1) (snd p2) (snd p3) t)) [1..<n + 1])"

definition delegation_near :: "rat \<Rightarrow> rat \<Rightarrow> delegation_edge_layout \<Rightarrow> bool" where
  \<comment> \<open>within the tolerance of 6 px of the sampled curve\<close>
  "delegation_near px py e = near_samples px py 6 (fst (delegationBezier e)) (curve_samples 16 (delegationBezier e))"

definition delegation_box :: "rat \<Rightarrow> rat \<Rightarrow> delegation_edge_layout \<Rightarrow> bool" where
  "delegation_box px py e =
     (let tol = 6;
          xLo = min (de_srcX e) (de_tgtX e);
          xHi = max (de_srcX e) (de_tgtX e);
          minX = xLo - tol;
          maxX = (if de_srcX e = de_tgtX e then de_srcX e + de_curveOffset e else xHi) + tol;
          minY = min (de_srcY e) (de_tgtY e) - tol;
          maxY = max (de_srcY e) (de_tgtY e) + tol
      in \<not> (px < minX \<or> px > maxX \<or> py < minY \<or> py > maxY))"

definition hitTestDelegation :: "gantt_renderer \<Rightarrow> rat \<Rightarrow> rat \<Rightarrow> delegation_record option" where
  "hitTestDelegation g px py =
     map_option de_record (find (\<lambda>e. delegation_box px py e \<and> delegation_near px py e) (rev (gr_delegationEdges g)))"

definition edge_curve :: "edge_layout \<Rightarrow> (rat \<times> rat) \<times> (rat \<times> rat) \<times> (rat \<times> rat) \<times> (rat \<times> rat)" where
  "edge_curve e =
     (let (cp1x, cp1y, cp2x, cp2y) = edgeControlPoints (el_x1 e) (el_y1 e) (el_x2 e) (el_y2 e)
      in ((el_x1 e, el_y1 e), (cp1x, cp1y), (cp2x, cp2y), (el_x2 e, el_y2 e)))"

definition edge_near :: "rat \<Rightarrow> rat \<Rightarrow> edge_layout \<Rightarrow> bool" where
  "edge_near px py e = near_samples px py 5 (el_x1 e, el_y1 e) (curve_samples 20 (edge_curve e))"

definition edge_box :: "rat \<Rightarrow> rat \<Rightarrow> edge_layout \<Rightarrow> bool" where
  "edge_box px py e =
     (let tol = 5;
          minX = min (el_x1 e) (el_x2 e) - tol;
          maxX = max (el_x1 e) (el_x2 e) + tol;
          minY = min (el_y1 e) (el_y2 e) - 40;
          maxY = max (el_y1 e) (el_y2 e) + 40
      in \<not> (px < minX \<or> px > maxX \<or> py < minY \<or> py > maxY))"

definition edgeHitTest :: "gantt_renderer \<Rightarrow> rat \<Rightarrow> rat \<Rightarrow> nat option" where
  "edgeHitTest g px py =
     map_option fst (find (\<lambda>(i, e). edge_box px py e \<and> edge_near px py e) (rev (enumerate 0 (gr_edges g))))"

definition delegationAt :: "gantt_renderer \<Rightarrow> session_store \<Rightarrow> rat \<Rightarrow> rat \<Rightarrow> delegation_record option" where
  "delegationAt g st x y =
     (if hitTest g st x y \<noteq> None then None
      else if edgeHitTest g x y \<noteq> None then None
      else hitTestDelegation g x y)"

section \<open>The bounding box of a delegation loses no hit\<close>

lemma cubic_between:
  assumes t: "0 \<le> t" "t \<le> 1" and lo: "lo \<le> p0" "lo \<le> p1" "lo \<le> p2" "lo \<le> p3" and hi: "p0 \<le> hi" "p1 \<le> hi" "p2 \<le> hi" "p3 \<le> hi"
  shows "lo \<le> cubic p0 p1 p2 p3 t" and "cubic p0 p1 p2 p3 t \<le> hi"
proof -
  define w0 w1 w2 w3 where "w0 = (1 - t) * (1 - t) * (1 - t)" and "w1 = 3 * (1 - t) * (1 - t) * t" and "w2 = 3 * (1 - t) * t * t"
    and "w3 = t * t * t"
  have w: "0 \<le> w0" "0 \<le> w1" "0 \<le> w2" "0 \<le> w3" using t by (simp_all add: w0_def w1_def w2_def w3_def)
  have one: "w0 + w1 + w2 + w3 = 1" by (simp add: w0_def w1_def w2_def w3_def algebra_simps)
  have c: "cubic p0 p1 p2 p3 t = w0 * p0 + w1 * p1 + w2 * p2 + w3 * p3"
    by (simp add: cubic_def Let_def w0_def w1_def w2_def w3_def)
  have "(w0 + w1 + w2 + w3) * lo \<le> w0 * p0 + w1 * p1 + w2 * p2 + w3 * p3"
    unfolding distrib_right using w lo by (intro add_mono mult_left_mono)
  then show "lo \<le> cubic p0 p1 p2 p3 t" by (simp add: one c)
  have "w0 * p0 + w1 * p1 + w2 * p2 + w3 * p3 \<le> (w0 + w1 + w2 + w3) * hi"
    unfolding distrib_right using w hi by (intro add_mono mult_left_mono)
  then show "cubic p0 p1 p2 p3 t \<le> hi" by (simp add: one c)
qed

definition in_box :: "rat \<times> rat \<Rightarrow> rat \<times> rat \<Rightarrow> rat \<times> rat \<Rightarrow> bool" where
  "in_box lo hi p \<longleftrightarrow> fst lo \<le> fst p \<and> fst p \<le> fst hi \<and> snd lo \<le> snd p \<and> snd p \<le> snd hi"

lemma near_value:
  fixes q :: rat
  assumes "(p - q) * (p - q) + r * r \<le> tol * tol" and "0 \<le> tol" and "lo \<le> q" "q \<le> hi"
  shows "lo - tol \<le> p \<and> p \<le> hi + tol"
proof -
  have "(p - q) * (p - q) \<le> tol * tol" using assms(1) zero_le_square [of r] by linarith
  then have "\<bar>p - q\<bar> \<le> tol" using assms(2) by (metis abs_le_square_iff abs_of_nonneg power2_eq_square)
  with assms(3,4) show ?thesis by (simp add: abs_le_iff)
qed

lemma convex_between:
  fixes a b t :: rat
  assumes "0 \<le> t" "t \<le> 1" "lo \<le> a" "a \<le> hi" "lo \<le> b" "b \<le> hi"
  shows "lo \<le> a + t * (b - a)" and "a + t * (b - a) \<le> hi"
proof -
  have c: "a + t * (b - a) = (1 - t) * a + t * b" by (simp add: algebra_simps)
  have "(1 - t) * lo + t * lo \<le> (1 - t) * a + t * b" "(1 - t) * a + t * b \<le> (1 - t) * hi + t * hi"
    using assms by (intro add_mono mult_left_mono; simp)+
  then show "lo \<le> a + t * (b - a)" "a + t * (b - a) \<le> hi" unfolding c by (simp_all add: algebra_simps)
qed

lemma near_segment:
  assumes near: "pointSegmentDist2 px py (fst a) (snd a) (fst b) (snd b) \<le> tol * tol" and "0 \<le> tol"
    and box: "in_box lo hi a" "in_box lo hi b"
  shows "fst lo - tol \<le> px \<and> px \<le> fst hi + tol \<and> snd lo - tol \<le> py \<and> py \<le> snd hi + tol"
proof -
  define dx dy where "dx = fst b - fst a" and "dy = snd b - snd a"
  obtain t where t: "0 \<le> t" "t \<le> 1"
      and d: "(px - (fst a + t * dx)) * (px - (fst a + t * dx)) + (py - (snd a + t * dy)) * (py - (snd a + t * dy)) \<le> tol * tol"
  proof (cases "dx * dx + dy * dy = 0")
    case True
    with near show thesis by (intro that [of 0]) (simp_all add: pointSegmentDist2_def Let_def dx_def dy_def)
  next
    case False
    define u where "u = ((px - fst a) * dx + (py - snd a) * dy) / (dx * dx + dy * dy)"
    have "pointSegmentDist2 px py (fst a) (snd a) (fst b) (snd b) =
        (px - (fst a + max 0 (min 1 u) * dx)) * (px - (fst a + max 0 (min 1 u) * dx)) +
        (py - (snd a + max 0 (min 1 u) * dy)) * (py - (snd a + max 0 (min 1 u) * dy))"
      unfolding pointSegmentDist2_def Let_def dx_def [symmetric] dy_def [symmetric] u_def [symmetric] by (simp only: False if_False)
    with near show thesis by (intro that [of "max 0 (min 1 u)"]) simp_all
  qed
  note at = convex_between [OF t]
  have x: "fst lo \<le> fst a + t * dx" "fst a + t * dx \<le> fst hi" unfolding dx_def using box by (auto simp: in_box_def intro: at)
  have y: "snd lo \<le> snd a + t * dy" "snd a + t * dy \<le> snd hi" unfolding dy_def using box by (auto simp: in_box_def intro: at)
  from near_value [OF d assms(2) x] near_value [OF d [unfolded add.commute [of "(px - (fst a + t * dx)) * (px - (fst a + t * dx))"]] assms(2) y]
  show ?thesis by blast
qed

lemma near_samples_box:
  assumes "near_samples px py tol prv ss" and "0 \<le> tol" and "in_box lo hi prv" and "list_all (in_box lo hi) ss"
  shows "fst lo - tol \<le> px \<and> px \<le> fst hi + tol \<and> snd lo - tol \<le> py \<and> py \<le> snd hi + tol"
  using assms
proof (induction ss arbitrary: prv)
  case (Cons s ss)
  show ?case
  proof (cases "pointSegmentDist2 px py (fst prv) (snd prv) (fst s) (snd s) \<le> tol * tol")
    case True
    from near_segment [OF True Cons.prems(2,3)] Cons.prems(4) show ?thesis by simp
  next
    case False
    with Cons show ?thesis by simp
  qed
qed simp

lemma curve_samples_box:
  assumes "in_box lo hi p0" "in_box lo hi p1" "in_box lo hi p2" "in_box lo hi p3"
  shows "list_all (in_box lo hi) (curve_samples n (p0, p1, p2, p3))"
proof -
  have "in_box lo hi (cubic (fst p0) (fst p1) (fst p2) (fst p3) t, cubic (snd p0) (snd p1) (snd p2) (snd p3) t)"
    if "0 \<le> t" "t \<le> 1" for t
    using assms cubic_between [OF that] by (auto simp: in_box_def)
  then show ?thesis by (auto simp: curve_samples_def list_all_iff Let_def)
qed

lemma delegation_box_near: "0 \<le> de_curveOffset e \<Longrightarrow> delegation_near px py e \<Longrightarrow> delegation_box px py e"
proof -
  assume off: "0 \<le> de_curveOffset e" and near: "delegation_near px py e"
  define lo where "lo = (min (de_srcX e) (de_tgtX e), min (de_srcY e) (de_tgtY e))"
  define hi where "hi = (if de_srcX e = de_tgtX e then de_srcX e + de_curveOffset e else max (de_srcX e) (de_tgtX e), max (de_srcY e) (de_tgtY e))"
  obtain p0 p1 p2 p3 where b: "delegationBezier e = (p0, p1, p2, p3)" using prod_cases4 by blast
  have box: "in_box lo hi p0" "in_box lo hi p1" "in_box lo hi p2" "in_box lo hi p3"
    using b off by (auto simp: delegationBezier_def Let_def in_box_def lo_def hi_def min_def max_def field_simps split: if_splits)
  from near_samples_box [OF near [unfolded delegation_near_def b fst_conv] _ box(1) curve_samples_box [OF box]]
  show ?thesis by (auto simp: delegation_box_def Let_def lo_def hi_def)
qed

text \<open>The rectangle that the hit test of delegations checks first never loses a hit: for the edges the renderer draws, whose offset
  is 24, the test finds the last edge whose sampled curve passes within six pixels of the pointer.\<close>

theorem delegation_box_exact:
  "let g' = g\<lparr>gr_delegationEdges := map (\<lambda>e. e\<lparr>de_curveOffset := 24\<rparr>) es\<rparr>
   in hitTestDelegation g' px py = map_option de_record (find (delegation_near px py) (rev (gr_delegationEdges g')))"
proof -
  have find_cong: "(\<And>x. x \<in> set xs \<Longrightarrow> P x = Q x) \<Longrightarrow> find P xs = find Q xs" for P Q and xs :: "delegation_edge_layout list"
    by (induction xs) auto
  have "find (\<lambda>e. delegation_box px py e \<and> delegation_near px py e) (rev (map (\<lambda>e. e\<lparr>de_curveOffset := 24\<rparr>) es)) =
      find (delegation_near px py) (rev (map (\<lambda>e. e\<lparr>de_curveOffset := 24\<rparr>) es))"
    by (rule find_cong) (auto intro: delegation_box_near)
  then show ?thesis by (simp add: Let_def hitTestDelegation_def)
qed

text \<open>The rectangle of a link is widened vertically only, while its curve bulges to the side: a pointer on the curve between two
  bars one above the other hits nothing.\<close>

definition demoLink :: edge_layout where
  "demoLink = \<lparr>el_sourceSpanId = ''a'', el_targetSpanId = ''b'', el_x1 = 400, el_y1 = 40, el_x2 = 400, el_y2 = 140, el_color = ''''\<rparr>"

lemma on_sample: "s \<in> set ss \<Longrightarrow> near_samples (fst s) (snd s) tol prv ss"
proof (induction ss arbitrary: prv)
  case (Cons r ss)
  have "pointSegmentDist2 (fst r) (snd r) a b (fst r) (snd r) = 0" for a b
  proof (cases "(fst r - a) * (fst r - a) + (snd r - b) * (snd r - b) = 0")
    case False
    then show ?thesis by (simp only: pointSegmentDist2_def Let_def False if_False) simp
  qed (simp add: pointSegmentDist2_def Let_def)
  with Cons.prems Cons.IH [of r] show ?case by auto
qed simp

theorem link_bulge_not_hit:
  "let (x, y) = curve_samples 20 (edge_curve demoLink) ! 4
   in edge_near x y demoLink \<and> edgeHitTest (initial_renderer\<lparr>gr_edges := [demoLink]\<rparr>) x y = None"
proof -
  define s where "s = curve_samples 20 (edge_curve demoLink) ! 4"
  have "s \<in> set (curve_samples 20 (edge_curve demoLink))" unfolding s_def by (rule nth_mem) (simp add: curve_samples_def case_prod_unfold Let_def)
  then have "edge_near (fst s) (snd s) demoLink" unfolding edge_near_def by (rule on_sample)
  moreover have "fst s = 1645 / 4"
    by (simp add: s_def curve_samples_def edge_curve_def edgeControlPoints_def demoLink_def case_prod_unfold Let_def cubic_def del: upt_Suc)
  then have "\<not> edge_box (fst s) (snd s) demoLink" by (simp add: edge_box_def demoLink_def)
  then have "edgeHitTest (initial_renderer\<lparr>gr_edges := [demoLink]\<rparr>) (fst s) (snd s) = None" by (simp add: edgeHitTest_def)
  ultimately show ?thesis by (simp add: s_def [symmetric] case_prod_unfold)
qed

end
