(* ===== verification/GanttPaint.thy ===== *)
theory GanttPaint
  imports GanttCurves
begin

text \<open>
  What the blocks pass of \<open>frontend/src/gantt/renderer.ts\<close> draws: the style of a span (\<open>gantt/colors.ts\<close>), the buckets and stripes of
  \<open>drawBlocks\<close>, the edges of \<open>drawLinks\<close> and \<open>drawDelegations\<close>, and the chips of \<open>drawTasksAndEdges\<close>. A pass yields the data it
  draws; the calls on the 2D context that follow it are not modelled. The style sheet is the parameter \<open>prop\<close>.
\<close>

section \<open>Styles\<close>

definition cssVar :: "(string \<Rightarrow> string) \<Rightarrow> string \<Rightarrow> string" where
  \<comment> \<open>\<open>prop\<close> is \<open>getPropertyValue\<close> of the computed style of the page\<close>
  "cssVar prop name = or_str (trim_both (prop name)) ''#888888''"

fun KIND_TO_VAR :: "span_kind \<Rightarrow> string" where
  "KIND_TO_VAR INVOCATION = ''--hg-kind-invocation''"
| "KIND_TO_VAR LLM_CALL = ''--hg-kind-llm-call''"
| "KIND_TO_VAR TOOL_CALL = ''--hg-kind-tool-call''"
| "KIND_TO_VAR USER_MESSAGE = ''--hg-kind-user-message''"
| "KIND_TO_VAR AGENT_MESSAGE = ''--hg-kind-agent-message''"
| "KIND_TO_VAR TRANSFER = ''--hg-kind-transfer''"
| "KIND_TO_VAR WAIT_FOR_HUMAN = ''--hg-kind-wait-for-human''"
| "KIND_TO_VAR PLANNED = ''--hg-kind-custom''"
| "KIND_TO_VAR CUSTOM = ''--hg-kind-custom''"

record resolved_style =
  rs_fill :: string
  rs_stroke :: "string option"
  rs_opacity :: rat
  rs_hatched :: bool
  rs_dashed :: bool
  rs_animation :: nat
  rs_errorIcon :: bool

definition kindBaseColor :: "(string \<Rightarrow> string) \<Rightarrow> span_kind \<Rightarrow> string" where
  "kindBaseColor prop kind = cssVar prop (KIND_TO_VAR kind)"

definition resolveStyle :: "(string \<Rightarrow> string) \<Rightarrow> span_kind \<Rightarrow> span_status \<Rightarrow> bool \<Rightarrow> resolved_style" where
  "resolveStyle prop kind status replaced =
     (let b0 = \<lparr>rs_fill = kindBaseColor prop kind, rs_stroke = None, rs_opacity = 1, rs_hatched = False, rs_dashed = False,
                rs_animation = 0, rs_errorIcon = False\<rparr>;
          b1 = (if kind = PLANNED then b0\<lparr>rs_opacity := 3 / 10, rs_dashed := True\<rparr> else b0);
          b2 = (if kind = INVOCATION then b1\<lparr>rs_opacity := 6 / 10\<rparr> else b1);
          b3 = (case status of
                  SP_PENDING \<Rightarrow> b2\<lparr>rs_opacity := rs_opacity b2 * (4 / 10)\<rparr>
                | SP_RUNNING \<Rightarrow> b2\<lparr>rs_animation := 1\<rparr>
                | SP_COMPLETED \<Rightarrow> b2
                | SP_FAILED \<Rightarrow> b2\<lparr>rs_fill := cssVar prop ''--md-sys-color-error'', rs_errorIcon := True\<rparr>
                | SP_CANCELLED \<Rightarrow> b2\<lparr>rs_opacity := rs_opacity b2 * (3 / 10), rs_hatched := True\<rparr>
                | SP_AWAITING_HUMAN \<Rightarrow>
                    b2\<lparr>rs_fill := cssVar prop ''--md-sys-color-error-container'', rs_stroke := Some (cssVar prop ''--md-sys-color-error''),
                       rs_animation := 2\<rparr>)
      in if replaced then b3\<lparr>rs_opacity := rs_opacity b3 * (3 / 10)\<rparr> else b3)"

type_synonym bucket_key = "string \<times> bool \<times> bool \<times> int"

definition bucketKey :: "resolved_style \<Rightarrow> bucket_key" where
  \<comment> \<open>the parts the code joins with bars; the last one is \<open>toFixed(2)\<close> in hundredths\<close>
  "bucketKey s = (rs_fill s, rs_hatched s, rs_dashed s, \<lfloor>rs_opacity s * 100 + 1 / 2\<rfloor>)"

section \<open>Blocks and stripes\<close>

record bucket =
  bu_fill :: string
  bu_opacity :: rat
  bu_hatched :: bool
  bu_dashed :: bool
  bu_rects :: "px_rect list"
  bu_labels :: "(span \<times> px_rect \<times> goldfive_span_info option) list"

record stripe =
  dy_x1 :: rat
  dy_x2 :: rat
  dy_count :: nat
  dy_y :: rat
  dy_h :: rat

record blocks_pass =
  bp_density :: "(int, stripe) jsmap" \<comment> \<open>\<open>laneDensity\<close> of the row being drawn\<close>
  bp_buckets :: "(bucket_key, bucket) jsmap"
  bp_tickOverlays :: "(px_rect \<times> rat) list"
  bp_brainBadges :: "px_rect list"
  bp_goldfiveFills :: "(string, string) jsmap"
  bp_stripes :: "stripe list" \<comment> \<open>the stripes painted so far\<close>
  bp_visibleCount :: nat

definition is_narrow :: "gantt_renderer \<Rightarrow> session_store \<Rightarrow> span \<Rightarrow> bool" where
  "is_narrow g st s \<longleftrightarrow> snd (bar_ends g st s) < MIN_BLOCK_WIDTH_PX * 2 \<and> sp_status s \<noteq> SP_AWAITING_HUMAN"

definition add_stripe :: "(int, stripe) jsmap \<Rightarrow> int \<Rightarrow> px_rect \<Rightarrow> (int, stripe) jsmap" where
  "add_stripe m lane r =
     (let key = (if lane \<ge> 0 then lane else 0);
          fresh = \<lparr>dy_x1 = rc_x r, dy_x2 = rc_x r + rc_w r, dy_count = 1, dy_y = rc_y r, dy_h = rc_h r\<rparr>
      in case map_of m key of
           None \<Rightarrow> AList.update key fresh m
         | Some d \<Rightarrow>
             if rc_x r \<le> dy_x2 d + 1
             then AList.update key (d\<lparr>dy_x2 := max (dy_x2 d) (rc_x r + rc_w r), dy_count := dy_count d + 1\<rparr>) m
             else AList.update key fresh m)"

definition streaming_ticks :: "span \<Rightarrow> rat" where
  "streaming_ticks s =
     (case attr_get (sp_attributes s) ''streaming_tick'' of Some (AInt n) \<Rightarrow> of_int n | Some (ADouble d) \<Rightarrow> d | _ \<Rightarrow> 0)"

definition block_style :: "(string \<Rightarrow> string) \<Rightarrow> span \<Rightarrow> resolved_style \<times> goldfive_span_info option \<times> bool" where
  \<comment> \<open>the style, the goldfive info, and whether the fill was overridden\<close>
  "block_style prop s =
     (let style = resolveStyle prop (sp_kind s) (sp_status s) (sp_replaced s);
          gfInfo = (if isGoldfiveSpan (Some s) then Some (resolveGoldfiveSpanInfo s) else None)
      in case gfInfo of
           Some i \<Rightarrow> if gi_category i \<noteq> CC_unknown \<and> sp_status s \<noteq> SP_FAILED
                     then (style\<lparr>rs_fill := goldfiveCallFill i (cssVar prop) (rs_fill style)\<rparr>, gfInfo, True)
                     else (style, gfInfo, False)
         | None \<Rightarrow> (style, gfInfo, False))"

definition add_block :: "(bucket_key, bucket) jsmap \<Rightarrow> resolved_style \<Rightarrow> goldfive_span_info option \<Rightarrow> span \<Rightarrow> px_rect \<Rightarrow> (bucket_key, bucket) jsmap" where
  "add_block m style gf s r =
     (let key = bucketKey style;
          b = (case map_of m key of
                 Some b \<Rightarrow> b
               | None \<Rightarrow> \<lparr>bu_fill = rs_fill style, bu_opacity = rs_opacity style, bu_hatched = rs_hatched style,
                          bu_dashed = rs_dashed style, bu_rects = [], bu_labels = []\<rparr>)
      in AList.update key (b\<lparr>bu_rects := bu_rects b @ [r],
                             bu_labels := bu_labels b @ (if rc_w r > 12 then [(s, r, gf)] else [])\<rparr>) m)"

definition paint_span :: "(string \<Rightarrow> string) \<Rightarrow> gantt_renderer \<Rightarrow> session_store \<Rightarrow> int \<Rightarrow> int \<Rightarrow> int \<Rightarrow> blocks_pass \<Rightarrow> span \<Rightarrow> blocks_pass" where
  \<comment> \<open>the body of the loop over the spans of a row\<close>
  "paint_span prop g st y rowH n p s =
     (let r = bar_rect g st y rowH n s in
      if is_narrow g st s then p\<lparr>bp_density := add_stripe (bp_density p) (sp_lane s) r\<rparr>
      else let (style, gf, overridden) = block_style prop s; ticks = streaming_ticks s
           in p\<lparr>bp_goldfiveFills := (if overridden then AList.update (sp_id s) (rs_fill style) (bp_goldfiveFills p) else bp_goldfiveFills p),
                bp_buckets := add_block (bp_buckets p) style gf s r,
                bp_tickOverlays := bp_tickOverlays p @
                  (if sp_status s = SP_RUNNING \<and> sp_kind s = LLM_CALL \<and> rc_w r \<ge> 8 \<and> ticks > 0 then [(r, ticks)] else []),
                bp_brainBadges := bp_brainBadges p @ (if sp_kind s = LLM_CALL \<and> rc_w r \<ge> 14 \<and> hasThinking s then [r] else []),
                bp_visibleCount := bp_visibleCount p + 1\<rparr>)"

definition paint_row :: "(string \<Rightarrow> string) \<Rightarrow> gantt_renderer \<Rightarrow> session_store \<Rightarrow> blocks_pass \<Rightarrow> agent \<times> int \<times> int \<Rightarrow> blocks_pass" where
  \<comment> \<open>the body of the loop over the agents; the stripes of the row are painted at its end\<close>
  "paint_row prop g st p row =
     (case row of (a, y, rowH) \<Rightarrow>
        if ag_id a \<in> set (gr_hiddenAgentIds g) then p
        else let q = foldl (paint_span prop g st y rowH (getLaneCount st (ag_id a))) (p\<lparr>bp_density := []\<rparr>) (visible_spans g st (ag_id a))
             in q\<lparr>bp_stripes := bp_stripes q @ map snd (bp_density q)\<rparr>)"

definition drawBlocks :: "(string \<Rightarrow> string) \<Rightarrow> gantt_renderer \<Rightarrow> session_store \<Rightarrow> blocks_pass" where
  "drawBlocks prop g st =
     foldl (paint_row prop g st)
       \<lparr>bp_density = [], bp_buckets = [], bp_tickOverlays = [], bp_brainBadges = [], bp_goldfiveFills = [], bp_stripes = [], bp_visibleCount = 0\<rparr>
       (gantt_rows g st)"

section \<open>Links\<close>

definition row_place :: "gantt_renderer \<Rightarrow> session_store \<Rightarrow> string \<Rightarrow> (int \<times> int \<times> int) option" where
  \<comment> \<open>\<open>rowLayout.get(id)\<close>: top, height and lane count\<close>
  "row_place g st i =
     map_of (foldl (\<lambda>m (a, y, h). AList.update (ag_id a) (y, h, getLaneCount st (ag_id a)) m) [] (gantt_rows g st)) i"

definition dataLeft :: rat where "dataLeft = GUTTER_WIDTH_PX + 10"

definition off_side :: "gantt_renderer \<Rightarrow> rat \<Rightarrow> rat \<Rightarrow> bool" where
  \<comment> \<open>both ends off the same side of the data area\<close>
  "off_side g a b \<longleftrightarrow> a < dataLeft \<and> b < dataLeft \<or> a > gr_widthCss g \<and> b > gr_widthCss g"

definition link_edge :: "string list \<Rightarrow> gantt_renderer \<Rightarrow> session_store \<Rightarrow> span \<Rightarrow> span_link \<Rightarrow> edge_layout list" where
  "link_edge palette g st s link =
     (case row_place g st (sp_agentId s) of
        None \<Rightarrow> []
      | Some (srcTop, srcH, srcN) \<Rightarrow>
          if ln_relation link \<noteq> INVOKED then []
          else let target = si_get (ss_spans st) (ln_targetSpanId link);
                   tgtAgentId = (case target of None \<Rightarrow> ln_targetAgentId link | Some t \<Rightarrow> sp_agentId t);
                   px = (\<lambda>ms. msToPx (gr_viewport g) (gr_widthCss g) (of_int ms))
               in case row_place g st tgtAgentId of
                    None \<Rightarrow> []
                  | Some (tgtTop, tgtH, tgtN) \<Rightarrow>
                      let srcMs = (case sp_endMs s of
                                     Some e \<Rightarrow> e
                                   | None \<Rightarrow> (case target of Some t \<Rightarrow> sp_startMs t | None \<Rightarrow> sp_startMs s));
                          x1 = px srcMs;
                          (x2, tgtY) = (case target of
                                          Some t \<Rightarrow> (px (sp_startMs t), laneCenterY tgtTop tgtH tgtN (sp_lane t))
                                        | None \<Rightarrow> (x1, of_int tgtTop + of_int tgtH / 2))
                      in if off_side g x1 x2 then []
                         else [\<lparr>el_sourceSpanId = sp_id s, el_targetSpanId = (case target of None \<Rightarrow> ln_targetSpanId link | Some t \<Rightarrow> sp_id t),
                                el_x1 = x1, el_y1 = laneCenterY srcTop srcH srcN (sp_lane s), el_x2 = x2, el_y2 = tgtY,
                                el_color = colorForAgent palette (sp_agentId s)\<rparr>])"

definition drawLinks :: "string list \<Rightarrow> gantt_renderer \<Rightarrow> session_store \<Rightarrow> edge_layout list" where
  "drawLinks palette g st =
     (let margin = vs_windowMs (gr_viewport g) * (5 / 10)
      in concat (map (\<lambda>a. concat (map (\<lambda>s. concat (map (link_edge palette g st s) (sp_links s)))
           (si_queryAgent (ss_spans st) (ag_id a) (viewportStart (gr_viewport g) - margin) (At (vs_endMs (gr_viewport g) + margin)) [])))
         (ar_list (ss_agents st))))"

section \<open>Delegations\<close>

definition anchor_step :: "int \<Rightarrow> span option \<times> span option \<Rightarrow> span \<Rightarrow> span option \<times> span option" where
  \<comment> \<open>\<open>active\<close> and \<open>mostRecentCompleted\<close> after one span\<close>
  "anchor_step atMs acc s =
     (let (act, fin) = acc;
          later = (\<lambda>best. case best of None \<Rightarrow> True | Some b \<Rightarrow> sp_startMs s > sp_startMs b)
      in if sp_kind s \<noteq> INVOCATION \<or> sp_startMs s > atMs then (act, fin)
         else if (case sp_endMs s of None \<Rightarrow> True | Some e \<Rightarrow> e \<ge> atMs) then ((if later act then Some s else act), fin)
         else (act, (if later fin then Some s else fin)))"

definition anchor_span :: "gantt_renderer \<Rightarrow> session_store \<Rightarrow> string \<Rightarrow> int \<Rightarrow> span option" where
  "anchor_span g st agentId atMs =
     (let pad = max (vs_windowMs (gr_viewport g) * (5 / 10)) 1;
          (act, fin) = foldl (anchor_step atMs) (None, None)
            (si_queryAgent (ss_spans st) agentId (of_int atMs - pad) (At (of_int atMs + pad)) [])
      in (case act of Some s \<Rightarrow> Some s | None \<Rightarrow> fin))"

definition pickAnchorSpan :: "gantt_renderer \<Rightarrow> session_store \<Rightarrow> string \<Rightarrow> int \<Rightarrow> (rat \<times> span option) option" where
  "pickAnchorSpan g st agentId atMs =
     (case row_place g st agentId of
        None \<Rightarrow> None
      | Some (y, h, n) \<Rightarrow>
          let chosen = anchor_span g st agentId atMs
          in Some (laneCenterY y h n (case chosen of None \<Rightarrow> 0 | Some s \<Rightarrow> sp_lane s), chosen))"

definition tail_ms :: "session_store \<Rightarrow> span option \<Rightarrow> int \<Rightarrow> int" where
  \<comment> \<open>\<open>srcMs\<close>, the time the tail of a delegation is anchored at\<close>
  "tail_ms st srcSpan tgtMs =
     (case srcSpan of
        None \<Rightarrow> tgtMs
      | Some s \<Rightarrow>
          let srcMs = (case sp_endMs s of
                         None \<Rightarrow> if ss_nowMs st > sp_startMs s then ss_nowMs st else tgtMs
                       | Some e \<Rightarrow> if e > tgtMs then tgtMs else e)
          in if srcMs < sp_startMs s then sp_startMs s else srcMs)"

definition delegation_edge :: "gantt_renderer \<Rightarrow> session_store \<Rightarrow> delegation_record \<Rightarrow> delegation_edge_layout list" where
  "delegation_edge g st d =
     (let margin = vs_windowMs (gr_viewport g) * (5 / 10);
          t = rat_of_int (dl_observedAtMs d);
          px = (\<lambda>ms. msToPx (gr_viewport g) (gr_widthCss g) (of_int ms))
      in if t < viewportStart (gr_viewport g) - margin \<or> t > vs_endMs (gr_viewport g) + margin then []
         else case (pickAnchorSpan g st (dl_fromAgentId d) (dl_observedAtMs d), pickAnchorSpan g st (dl_toAgentId d) (dl_observedAtMs d)) of
                (Some (srcY, srcSpan), Some (tgtY, _)) \<Rightarrow>
                  let srcX = px (tail_ms st srcSpan (dl_observedAtMs d)); tgtX = px (dl_observedAtMs d)
                  in if off_side g srcX tgtX then []
                     else [\<lparr>de_seq = dl_seq d, de_record = d, de_srcX = srcX, de_tgtX = tgtX, de_srcY = srcY, de_tgtY = tgtY, de_curveOffset = 24\<rparr>]
              | _ \<Rightarrow> [])"

definition drawDelegations :: "gantt_renderer \<Rightarrow> session_store \<Rightarrow> delegation_edge_layout list" where
  "drawDelegations g st = concat (map (delegation_edge g st) (rg_rows (ss_delegations st)))"

section \<open>Task chips\<close>

fun strip_chips :: "rat \<Rightarrow> rat \<Rightarrow> rat \<Rightarrow> task list \<Rightarrow> (task \<times> px_rect \<times> bool) list" where
  \<comment> \<open>the rail of pills from \<open>px\<close> on, until one does not fit; the flag is \<open>compact\<close>\<close>
  "strip_chips w py px [] = []"
| "strip_chips w py px (t # ts) =
     (if px + 36 > w then []
      else (t, \<lparr>rc_x = px, rc_y = py, rc_w = 36, rc_h = 7\<rparr>, True) # strip_chips w py (px + (36 + 3)) ts)"

definition ghost_chip :: "gantt_renderer \<Rightarrow> rat \<Rightarrow> rat \<Rightarrow> task \<Rightarrow> (task \<times> px_rect \<times> bool) list" where
  "ghost_chip g ghostY ghostH t =
     (let w = gr_widthCss g;
          startMs = tk_predictedStartMs t;
          durMs = max 200 (if tk_predictedDurationMs t = 0 then 1000 else tk_predictedDurationMs t);
          x1 = msToPx (gr_viewport g) w (of_int startMs);
          x2 = msToPx (gr_viewport g) w (of_int (startMs + durMs));
          width = max MIN_BLOCK_WIDTH_PX (x2 - x1)
      in if x1 + width < GUTTER_WIDTH_PX \<or> x1 > w then []
         else let clippedX = max (GUTTER_WIDTH_PX + 10) x1
              in [(t, \<lparr>rc_x = clippedX, rc_y = ghostY, rc_w = max MIN_BLOCK_WIDTH_PX (x1 + width - clippedX), rc_h = ghostH\<rparr>, False)])"

definition row_chips :: "gantt_renderer \<Rightarrow> session_store \<Rightarrow> agent \<times> int \<times> int \<Rightarrow> (task \<times> px_rect \<times> bool) list" where
  "row_chips g st row =
     (case row of (a, y, rowH) \<Rightarrow>
        if ag_id a \<in> set (gr_hiddenAgentIds g) then []
        else let tasks = tr_tasksForAgent (ss_tasks st) (ag_id a);
                 ghostH = max 8 (laneHeightFor rowH (getLaneCount st (ag_id a)) - 4);
                 ghostY = y + rowH - ghostH - 3
             in (if gr_taskPlanMode g = PreStrip \<or> gr_taskPlanMode g = Hybrid
                 then strip_chips (gr_widthCss g) (of_int (y + 2)) (GUTTER_WIDTH_PX + 10) tasks else []) @
                (if gr_taskPlanMode g = Ghost \<or> gr_taskPlanMode g = Hybrid
                 then concat (map (ghost_chip g (of_int ghostY) (of_int ghostH)) tasks) else []))"

definition drawn_chips :: "gantt_renderer \<Rightarrow> session_store \<Rightarrow> (task \<times> px_rect \<times> bool) list" where
  "drawn_chips g st =
     (if \<not> gr_taskPlanVisible g then []
      else if tr_size (ss_tasks st) = 0 then []
      else concat (map (row_chips g st) (gantt_rows g st)))"

definition drawTasksAndEdges :: "gantt_renderer \<Rightarrow> session_store \<Rightarrow> (string, px_rect) jsmap" where
  \<comment> \<open>\<open>taskRectsById\<close>: a pill replaces an earlier rectangle, a ghost only fills a gap\<close>
  "drawTasksAndEdges g st =
     foldl (\<lambda>m (t, r, compact). if \<not> compact \<and> map_has m (tk_id t) then m else AList.update (tk_id t) r m) [] (drawn_chips g st)"

definition dependency_ends :: "gantt_renderer \<Rightarrow> session_store \<Rightarrow> (rat \<times> rat \<times> rat \<times> rat) list" where
  \<comment> \<open>the ends of the curves of \<open>drawTaskDepEdges\<close>\<close>
  "dependency_ends g st =
     (let rects = gr_taskRectsById g
      in if \<not> gr_taskPlanVisible g \<or> rects = [] then []
         else concat (map (\<lambda>p. concat (map (\<lambda>e.
                case (map_of rects (te_fromTaskId e), map_of rects (te_toTaskId e)) of
                  (Some a, Some b) \<Rightarrow> [(rc_x a + rc_w a, rc_y a + rc_h a / 2, rc_x b, rc_y b + rc_h b / 2)]
                | _ \<Rightarrow> []) (tp_edges p))) (tr_listPlans (ss_tasks st))))"

section \<open>The blocks pass\<close>

definition drawn_rects :: "blocks_pass \<Rightarrow> px_rect multiset" where
  "drawn_rects p = mset (concat (map (\<lambda>e. bu_rects (snd e)) (bp_buckets p)))"

lemma concat_update:
  assumes "distinct (map fst m)"
  shows "mset (concat (map (\<lambda>e. f (snd e)) (AList.update k v m))) + mset (case map_of m k of None \<Rightarrow> [] | Some b \<Rightarrow> f b) =
    mset (concat (map (\<lambda>e. f (snd e)) m)) + mset (f v)"
  using assms by (induction m) (auto simp: map_of_eq_None_iff split: option.splits)

lemma add_block_rects:
  assumes "distinct (map fst m)"
  shows "mset (concat (map (\<lambda>e. bu_rects (snd e)) (add_block m style gf s r))) = add_mset r (mset (concat (map (\<lambda>e. bu_rects (snd e)) m)))"
    and "distinct (map fst (add_block m style gf s r))"
proof -
  define b where "b = (case map_of m (bucketKey style) of
      Some b \<Rightarrow> b
    | None \<Rightarrow> \<lparr>bu_fill = rs_fill style, bu_opacity = rs_opacity style, bu_hatched = rs_hatched style,
               bu_dashed = rs_dashed style, bu_rects = [], bu_labels = []\<rparr>)"
  define v where "v = b\<lparr>bu_rects := bu_rects b @ [r], bu_labels := bu_labels b @ (if rc_w r > 12 then [(s, r, gf)] else [])\<rparr>"
  have add: "add_block m style gf s r = AList.update (bucketKey style) v m" by (simp add: add_block_def Let_def b_def v_def)
  have old: "(case map_of m (bucketKey style) of None \<Rightarrow> [] | Some b \<Rightarrow> bu_rects b) = bu_rects b" by (simp add: b_def split: option.split)
  have "mset (bu_rects v) = add_mset r (mset (bu_rects b))" by (simp add: v_def)
  then show "mset (concat (map (\<lambda>e. bu_rects (snd e)) (add_block m style gf s r))) = add_mset r (mset (concat (map (\<lambda>e. bu_rects (snd e)) m)))"
    using concat_update [OF assms, of bu_rects "bucketKey style" v] unfolding add old
    by (metis add_left_cancel union_commute union_mset_add_mset_right)
  show "distinct (map fst (add_block m style gf s r))" unfolding add using assms by (rule distinct_update)
qed

definition wide_spans :: "gantt_renderer \<Rightarrow> session_store \<Rightarrow> span list \<Rightarrow> span list" where
  "wide_spans g st ss = filter (\<lambda>s. \<not> is_narrow g st s) ss"

definition pass_ok :: "blocks_pass \<Rightarrow> bool" where
  "pass_ok p \<longleftrightarrow> distinct (map fst (bp_buckets p)) \<and> size (drawn_rects p) = bp_visibleCount p"

lemma paint_span_rects:
  assumes "pass_ok p"
  shows "pass_ok (paint_span prop g st y h n p s)"
    and "drawn_rects (paint_span prop g st y h n p s) = drawn_rects p + image_mset (bar_rect g st y h n) (mset (wide_spans g st [s]))"
proof -
  have "pass_ok (paint_span prop g st y h n p s) \<and>
      drawn_rects (paint_span prop g st y h n p s) = drawn_rects p + image_mset (bar_rect g st y h n) (mset (wide_spans g st [s]))"
  proof (cases "is_narrow g st s")
    case True
    with assms show ?thesis by (simp add: paint_span_def Let_def pass_ok_def drawn_rects_def wide_spans_def)
  next
    case False
    obtain style gf over where b: "block_style prop s = (style, gf, over)" by (cases "block_style prop s")
    have "bp_buckets (paint_span prop g st y h n p s) = add_block (bp_buckets p) style gf s (bar_rect g st y h n s)"
        "bp_visibleCount (paint_span prop g st y h n p s) = bp_visibleCount p + 1"
      using False by (simp_all add: paint_span_def Let_def b)
    with assms add_block_rects [of "bp_buckets p" style gf s "bar_rect g st y h n s"] False show ?thesis
      by (simp add: pass_ok_def drawn_rects_def wide_spans_def)
  qed
  then show "pass_ok (paint_span prop g st y h n p s)"
    and "drawn_rects (paint_span prop g st y h n p s) = drawn_rects p + image_mset (bar_rect g st y h n) (mset (wide_spans g st [s]))"
    by blast+
qed

lemma paint_spans_rects:
  "pass_ok p \<Longrightarrow> pass_ok (foldl (paint_span prop g st y h n) p ss) \<and>
     drawn_rects (foldl (paint_span prop g st y h n) p ss) = drawn_rects p + image_mset (bar_rect g st y h n) (mset (wide_spans g st ss))"
proof (induction ss rule: rev_induct)
  case (snoc s ss)
  with paint_span_rects [of "foldl (paint_span prop g st y h n) p ss" "prop" g st y h n s] show ?case
    by (simp add: wide_spans_def)
qed (simp add: wide_spans_def)

definition row_bars :: "gantt_renderer \<Rightarrow> session_store \<Rightarrow> agent \<times> int \<times> int \<Rightarrow> px_rect list" where
  \<comment> \<open>the bars of a row that are wide enough for a block\<close>
  "row_bars g st row =
     (case row of (a, y, h) \<Rightarrow>
        if isAgentHidden g (ag_id a) then []
        else map (bar_rect g st y h (getLaneCount st (ag_id a))) (wide_spans g st (visible_spans g st (ag_id a))))"

lemma paint_row_rects:
  assumes "pass_ok p"
  shows "pass_ok (paint_row prop g st p row) \<and> drawn_rects (paint_row prop g st p row) = drawn_rects p + mset (row_bars g st row)"
proof -
  obtain a y h where row: "row = (a, y, h)" by (cases row)
  have fields: "pass_ok (q\<lparr>bp_stripes := x\<rparr>) = pass_ok q" "drawn_rects (q\<lparr>bp_stripes := x\<rparr>) = drawn_rects q"
      "pass_ok (q\<lparr>bp_density := d\<rparr>) = pass_ok q" "drawn_rects (q\<lparr>bp_density := d\<rparr>) = drawn_rects q" for q x d
    by (simp_all add: pass_ok_def drawn_rects_def)
  from paint_spans_rects [of "p\<lparr>bp_density := []\<rparr>"] assms show ?thesis
    by (simp add: row paint_row_def row_bars_def isAgentHidden_def Let_def fields)
qed

text \<open>The blocks pass draws, once each and at its rectangle, the bar of every span that the viewport query returns for a row that is
  not hidden and that is at least four pixels wide or awaits a human, and nothing else as a block; the count it reports is
  the number of blocks.\<close>

theorem blocks_show_wide_bars:
  "let p = drawBlocks prop g st
   in drawn_rects p = mset (concat (map (row_bars g st) (gantt_rows g st))) \<and> bp_visibleCount p = size (drawn_rects p)"
proof -
  have "pass_ok p \<Longrightarrow> pass_ok (foldl (paint_row prop g st) p rows) \<and>
      drawn_rects (foldl (paint_row prop g st) p rows) = drawn_rects p + mset (concat (map (row_bars g st) rows))" for p rows
  proof (induction rows rule: rev_induct)
    case (snoc row rows)
    with paint_row_rects [of "foldl (paint_row prop g st) p rows" "prop" g st row] show ?case by simp
  qed simp
  from this [of "\<lparr>bp_density = [], bp_buckets = [], bp_tickOverlays = [], bp_brainBadges = [], bp_goldfiveFills = [], bp_stripes = [], bp_visibleCount = 0\<rparr>"
      "gantt_rows g st"]
  show ?thesis by (simp add: Let_def drawBlocks_def pass_ok_def drawn_rects_def)
qed

text \<open>Of the narrow bars of a lane only the last run of touching ones is painted: a bar that starts more than a pixel after the
  stripe of its lane replaces it.\<close>

theorem earlier_stripe_lost:
  "let r = (\<lambda>x. \<lparr>rc_x = x, rc_y = 26, rc_w = 2, rc_h = 16\<rparr>); m = add_stripe (add_stripe [] 0 (r 300)) 0 (r 400)
   in map snd m = [\<lparr>dy_x1 = 400, dy_x2 = 402, dy_count = 1, dy_y = 26, dy_h = 16\<rparr>]"
  by (simp add: add_stripe_def Let_def)

section \<open>Links and delegations meet the bars\<close>

lemma row_place_row:
  assumes "agents_ok (ss_agents st)" and "row_place g st i = Some (y, h, n)"
  shows "find (\<lambda>(a, _, _). ag_id a = i) (gantt_rows g st) = Some r \<Longrightarrow> snd r = (y, h) \<and> n = getLaneCount st i"
    and "\<exists>a. (a, y, h) \<in> set (gantt_rows g st) \<and> ag_id a = i \<and> n = getLaneCount st i"
proof -
  have fold: "map_of (foldl (\<lambda>m (a, y, h). AList.update (ag_id a) (y, h, getLaneCount st (ag_id a)) m) [] rows) i = Some (y, h, n) \<Longrightarrow>
      \<exists>a. (a, y, h) \<in> set rows \<and> ag_id a = i \<and> n = getLaneCount st i" for rows :: "(agent \<times> int \<times> int) list"
    by (induction rows rule: rev_induct) (auto simp: update_conv' split: if_splits)
  then show ex: "\<exists>a. (a, y, h) \<in> set (gantt_rows g st) \<and> ag_id a = i \<and> n = getLaneCount st i"
    using assms(2) by (simp add: row_place_def)
  then obtain a where a: "(a, y, h) \<in> set (gantt_rows g st)" "ag_id a = i" "n = getLaneCount st i" by blast
  have "distinct (map ag_id (ar_list (ss_agents st)))" using ar_list_ids [OF assms(1)] assms(1) by (simp add: agents_ok_def)
  from rows_distinct [OF this a(1) [unfolded gantt_rows_def]] a
  show "find (\<lambda>(a, _, _). ag_id a = i) (gantt_rows g st) = Some r \<Longrightarrow> snd r = (y, h) \<and> n = getLaneCount st i"
    by (auto simp: gantt_rows_def)
qed

lemma center_of_bar:
  "laneCenterY y h n (sp_lane s) = rc_y (bar_rect g st y h n s) + rc_h (bar_rect g st y h n s) / 2"
  by (simp add: laneCenterY_def bar_rect_def case_prod_unfold Let_def)

lemma rect_in_row:
  assumes spans: "span_ok (ss_spans st)" and agents: "agents_ok (ss_agents st)"
    and s: "si_get (ss_spans st) (sp_id s) = Some s" and row: "row_place g st (sp_agentId s) = Some (y, h, n)"
  shows "rectForSpan g st (sp_id s) = Some (bar_rect g st y h n s)"
proof -
  obtain a where a: "(a, y, h) \<in> set (gantt_rows g st)" "ag_id a = sp_agentId s" "n = getLaneCount st (sp_agentId s)"
    using row_place_row(2) [OF agents row] by blast
  have "distinct (map ag_id (ar_list (ss_agents st)))" using ar_list_ids [OF agents] agents by (simp add: agents_ok_def)
  from rows_distinct [OF this a(1) [unfolded gantt_rows_def]] a s show ?thesis
    by (simp add: rectForSpan_def gantt_rows_def case_prod_unfold)
qed

lemma row_place_known: "row_place g st i = None \<longleftrightarrow> i \<notin> set (map ag_id (ar_list (ss_agents st)))"
proof -
  have "map_of (foldl (\<lambda>m (a, y, h). AList.update (ag_id a) (y, h, getLaneCount st (ag_id a)) m) [] rows) i = None \<longleftrightarrow>
      i \<notin> ag_id ` fst ` set rows" for rows :: "(agent \<times> int \<times> int) list"
    by (induction rows rule: rev_induct) (auto simp: update_conv' split: if_splits)
  moreover have "fst ` set (gantt_rows g st) = set (ar_list (ss_agents st))"
    using arg_cong [where f = set, OF rows_from_agents [of "rowHeight g st" TOP_MARGIN_PX "ar_list (ss_agents st)"]]
    by (simp add: gantt_rows_def)
  ultimately show ?thesis by (simp add: row_place_def)
qed

definition link_tail :: "gantt_renderer \<Rightarrow> span \<Rightarrow> span option \<Rightarrow> rat" where
  \<comment> \<open>where a link leaves its source: at its end, while it runs at the start of the target, if that is known\<close>
  "link_tail g s target =
     msToPx (gr_viewport g) (gr_widthCss g)
       (of_int (case (sp_endMs s, target) of (Some e, _) \<Rightarrow> e | (None, Some t) \<Rightarrow> sp_startMs t | (None, None) \<Rightarrow> sp_startMs s))"

definition link_head :: "gantt_renderer \<Rightarrow> span \<Rightarrow> span option \<Rightarrow> rat" where
  "link_head g s target =
     (case target of None \<Rightarrow> link_tail g s target | Some t \<Rightarrow> msToPx (gr_viewport g) (gr_widthCss g) (startR t))"

lemma link_edge_eq:
  assumes "row_place g st (sp_agentId s) = Some (srcY, srcH, srcN)" and "ln_relation link = INVOKED"
    and "si_get (ss_spans st) (ln_targetSpanId link) = target"
    and "row_place g st (case target of None \<Rightarrow> ln_targetAgentId link | Some t \<Rightarrow> sp_agentId t) = Some (tgtY, tgtH, tgtN)"
  shows "link_edge palette g st s link =
     (if off_side g (link_tail g s target) (link_head g s target) then []
      else [\<lparr>el_sourceSpanId = sp_id s, el_targetSpanId = (case target of None \<Rightarrow> ln_targetSpanId link | Some t \<Rightarrow> sp_id t),
             el_x1 = link_tail g s target, el_y1 = laneCenterY srcY srcH srcN (sp_lane s), el_x2 = link_head g s target,
             el_y2 = (case target of None \<Rightarrow> of_int tgtY + of_int tgtH / 2 | Some t \<Rightarrow> laneCenterY tgtY tgtH tgtN (sp_lane t)),
             el_color = colorForAgent palette (sp_agentId s)\<rparr>])"
  using assms by (cases target; cases "sp_endMs s") (simp_all add: link_edge_def Let_def link_tail_def link_head_def)

lemma link_edge_none:
  "ln_relation link \<noteq> INVOKED \<Longrightarrow> link_edge palette g st s link = []"
  "row_place g st (sp_agentId s) = None \<Longrightarrow> link_edge palette g st s link = []"
  "row_place g st (case si_get (ss_spans st) (ln_targetSpanId link) of None \<Rightarrow> ln_targetAgentId link | Some t \<Rightarrow> sp_agentId t) = None \<Longrightarrow>
     link_edge palette g st s link = []"
  by (auto simp: link_edge_def Let_def split: option.split)

definition links_near :: "gantt_renderer \<Rightarrow> session_store \<Rightarrow> (span \<times> span_link) list" where
  \<comment> \<open>the links of the spans within half a window of the viewport\<close>
  "links_near g st =
     (let margin = vs_windowMs (gr_viewport g) * (5 / 10)
      in concat (map (\<lambda>a. concat (map (\<lambda>s. map (Pair s) (sp_links s))
           (si_queryAgent (ss_spans st) (ag_id a) (viewportStart (gr_viewport g) - margin) (At (vs_endMs (gr_viewport g) + margin)) [])))
         (ar_list (ss_agents st))))"

lemma drawLinks_near: "drawLinks palette g st = concat (map (\<lambda>(s, link). link_edge palette g st s link) (links_near g st))"
proof -
  have flat: "concat (map f (concat xss)) = concat (map (\<lambda>xs. concat (map f xs)) xss)" for f :: "span \<times> span_link \<Rightarrow> edge_layout list" and xss
    by (induction xss) simp_all
  show ?thesis by (simp add: drawLinks_def links_near_def Let_def flat comp_def)
qed

definition link_drawn :: "gantt_renderer \<Rightarrow> session_store \<Rightarrow> span \<times> span_link \<Rightarrow> bool" where
  "link_drawn g st = (\<lambda>(s, link).
     let target = si_get (ss_spans st) (ln_targetSpanId link)
     in ln_relation link = INVOKED \<and>
        (case target of None \<Rightarrow> ln_targetAgentId link | Some t \<Rightarrow> sp_agentId t) \<in> set (map ag_id (ar_list (ss_agents st))) \<and>
        \<not> off_side g (link_tail g s target) (link_head g s target))"

definition link_meets :: "gantt_renderer \<Rightarrow> session_store \<Rightarrow> edge_layout \<Rightarrow> span \<times> span_link \<Rightarrow> bool" where
  \<comment> \<open>the edge runs from the bar of the span to the bar of the target, or level with the middle of the target's row\<close>
  "link_meets g st e = (\<lambda>(s, link).
     let target = si_get (ss_spans st) (ln_targetSpanId link)
     in el_sourceSpanId e = sp_id s \<and> el_targetSpanId e = ln_targetSpanId link \<and>
        el_x1 e = link_tail g s target \<and> el_x2 e = link_head g s target \<and>
        (case rectForSpan g st (sp_id s) of None \<Rightarrow> False | Some r \<Rightarrow> el_y1 e = rc_y r + rc_h r / 2) \<and>
        (case rectForSpan g st (ln_targetSpanId link) of None \<Rightarrow> target = None | Some r \<Rightarrow> el_y2 e = rc_y r + rc_h r / 2))"

lemma link_edge_meets:
  assumes spans: "span_ok (ss_spans st)" and agents: "agents_ok (ss_agents st)" and l: "l \<in> set (links_near g st)"
  shows "list_all2 (link_meets g st) (case l of (s, link) \<Rightarrow> link_edge palette g st s link) (if link_drawn g st l then [l] else [])"
proof -
  obtain s link a where sl: "l = (s, link)" "a \<in> set (ar_list (ss_agents st))"
    "s \<in> set (si_queryAgent (ss_spans st) (ag_id a) (viewportStart (gr_viewport g) - vs_windowMs (gr_viewport g) * (5 / 10))
          (At (vs_endMs (gr_viewport g) + vs_windowMs (gr_viewport g) * (5 / 10))) [])"
    using l by (auto simp: links_near_def Let_def)
  then have s: "s \<in> set (si_all (ss_spans st))" "sp_agentId s = ag_id a" using query_agent_ok [OF spans] by (fastforce simp: Let_def)+
  then have get: "si_get (ss_spans st) (sp_id s) = Some s" by (simp add: si_all_iff [OF spans] si_get_def)
  obtain srcY srcH srcN where src: "row_place g st (sp_agentId s) = Some (srcY, srcH, srcN)"
    using row_place_known [of g st "sp_agentId s"] sl(2) s(2) by (cases "row_place g st (sp_agentId s)") auto
  define target where "target = si_get (ss_spans st) (ln_targetSpanId link)"
  define i where "i = (case target of None \<Rightarrow> ln_targetAgentId link | Some t \<Rightarrow> sp_agentId t)"
  have id: "sp_id t = ln_targetSpanId link" if "target = Some t" for t
    using that span_okD(3) [OF spans] by (simp add: si_get_def target_def)
  show ?thesis
  proof (cases "ln_relation link = INVOKED \<and> row_place g st i \<noteq> None")
    case False
    then have "link_edge palette g st s link = []" "\<not> link_drawn g st (s, link)"
      using link_edge_none row_place_known [of g st i] by (auto simp: link_drawn_def Let_def i_def target_def)
    then show ?thesis by (simp add: sl(1))
  next
    case True
    then obtain tgtY tgtH tgtN where tgt: "row_place g st i = Some (tgtY, tgtH, tgtN)" by auto
    note edge = link_edge_eq [OF src conjunct1 [OF True] target_def [symmetric] tgt [unfolded i_def]]
    have drawn: "link_drawn g st (s, link) \<longleftrightarrow> \<not> off_side g (link_tail g s target) (link_head g s target)"
    proof -
      have "i \<in> set (map ag_id (ar_list (ss_agents st)))" using True row_place_known [of g st i] by (metis (no_types))
      with True show ?thesis by (simp add: link_drawn_def Let_def target_def [symmetric] i_def [symmetric])
    qed
    note bar = rect_in_row [OF spans agents get src]
    have "case rectForSpan g st (ln_targetSpanId link) of None \<Rightarrow> target = None
        | Some r \<Rightarrow> (case target of None \<Rightarrow> of_int tgtY + of_int tgtH / 2 | Some t \<Rightarrow> laneCenterY tgtY tgtH tgtN (sp_lane t)) = rc_y r + rc_h r / 2"
    proof (cases target)
      case None
      then show ?thesis by (simp add: rectForSpan_def target_def)
    next
      case (Some t)
      have "si_get (ss_spans st) (sp_id t) = Some t" using Some id [OF Some] by (simp add: target_def)
      moreover have "row_place g st (sp_agentId t) = Some (tgtY, tgtH, tgtN)" using tgt Some by (simp add: i_def)
      ultimately have "rectForSpan g st (sp_id t) = Some (bar_rect g st tgtY tgtH tgtN t)" by (rule rect_in_row [OF spans agents])
      then show ?thesis using Some id [OF Some] by (simp add: center_of_bar)
    qed
    then show ?thesis
      using bar id by (auto simp: sl(1) drawn edge link_meets_def Let_def target_def [symmetric] center_of_bar split: option.split)
  qed
qed

lemma list_all2_concat_filter:
  "(\<And>x. x \<in> set xs \<Longrightarrow> list_all2 P (f x) (if Q x then [x] else [])) \<Longrightarrow> list_all2 P (concat (map f xs)) (filter Q xs)"
proof (induction xs)
  case (Cons x xs)
  then have "list_all2 P (f x) (if Q x then [x] else [])" "list_all2 P (concat (map f xs)) (filter Q xs)" by simp_all
  then show ?case using list_all2_appendI by (cases "Q x") fastforce+
qed simp


definition covers :: "int \<Rightarrow> span \<Rightarrow> bool" where
  "covers t s = (case sp_endMs s of None \<Rightarrow> True | Some e \<Rightarrow> t \<le> e)"

definition started :: "int \<Rightarrow> span \<Rightarrow> bool" where
  "started t s \<longleftrightarrow> sp_kind s = INVOCATION \<and> sp_startMs s \<le> t"

lemma anchor_fold:
  assumes "foldl (anchor_step t) (None, None) ss = (act, fin)"
  shows "(act = None \<longleftrightarrow> filter (\<lambda>s. started t s \<and> covers t s) ss = []) \<and>
    (\<forall>s. act = Some s \<longrightarrow> s \<in> set ss \<and> started t s \<and> covers t s) \<and> (\<forall>s. fin = Some s \<longrightarrow> s \<in> set ss \<and> started t s)"
  using assms
proof (induction ss arbitrary: act fin rule: rev_induct)
  case (snoc s ss)
  obtain act' fin' where prv: "foldl (anchor_step t) (None, None) ss = (act', fin')" by fastforce
  have IH: "(act' = None \<longleftrightarrow> filter (\<lambda>s. started t s \<and> covers t s) ss = []) \<and>
    (\<forall>s. act' = Some s \<longrightarrow> s \<in> set ss \<and> started t s \<and> covers t s) \<and> (\<forall>s. fin' = Some s \<longrightarrow> s \<in> set ss \<and> started t s)"
    by (rule snoc.IH [OF prv])
  have step: "(act, fin) = anchor_step t (act', fin') s" using snoc.prems by (simp add: prv)
  define newer where "newer = (\<lambda>best :: span option. case best of None \<Rightarrow> True | Some b \<Rightarrow> sp_startMs s > sp_startMs b)"
  consider "\<not> started t s" | "started t s" "covers t s" | "started t s" "\<not> covers t s" by blast
  then show ?case
  proof cases
    case 1
    then have "act = act'" "fin = fin'" using step by (auto simp: anchor_step_def Let_def started_def not_le)
    with IH 1 show ?thesis by auto
  next
    case 2
    then have "act = (if newer act' then Some s else act')" "fin = fin'"
      using step by (simp_all add: anchor_step_def Let_def started_def covers_def newer_def)
    with IH 2 show ?thesis by (cases act') (auto simp: newer_def)
  next
    case 3
    then have "act = act'" "fin = (if newer fin' then Some s else fin')"
      using step by (simp_all add: anchor_step_def Let_def started_def covers_def newer_def)
    with IH 3 show ?thesis by (cases "newer fin'") auto
  qed
qed simp

lemma anchor_span_spec:
  assumes "anchor_span g st i t = Some s"
  shows "sp_kind s = INVOCATION \<and> sp_startMs s \<le> t"
proof -
  define ss where "ss = si_queryAgent (ss_spans st) i (of_int t - max (vs_windowMs (gr_viewport g) * (5 / 10)) 1)
    (At (of_int t + max (vs_windowMs (gr_viewport g) * (5 / 10)) 1)) []"
  obtain act fin where f: "foldl (anchor_step t) (None, None) ss = (act, fin)" by fastforce
  with assms have "(case act of Some s \<Rightarrow> Some s | None \<Rightarrow> fin) = Some s" unfolding anchor_span_def Let_def ss_def [symmetric] by simp
  with anchor_fold [OF f] show ?thesis by (cases act) (auto simp: started_def)
qed

text \<open>A delegation is drawn with its head at the time it was observed and its tail on an invocation of the delegating agent that had
  started by then; the tail of an invocation that has ended is never behind its start nor ahead of the head, and the tail of
  a running one is at the current time.\<close>

theorem delegation_tails:
  "list_all (\<lambda>e.
      let d = de_record e; t = dl_observedAtMs d; px = (\<lambda>ms. msToPx (gr_viewport g) (gr_widthCss g) (of_int ms))
      in d \<in> set (rg_rows (ss_delegations st)) \<and> de_seq e = dl_seq d \<and> de_curveOffset e = 24 \<and> de_tgtX e = px t \<and>
         (case anchor_span g st (dl_fromAgentId d) t of
            None \<Rightarrow> de_srcX e = px t
          | Some s \<Rightarrow> sp_kind s = INVOCATION \<and> sp_startMs s \<le> t \<and>
              (case sp_endMs s of
                 None \<Rightarrow> de_srcX e = px (if sp_startMs s < ss_nowMs st then ss_nowMs st else t)
               | Some fin \<Rightarrow> de_srcX e = px (max (sp_startMs s) (min fin t)))))
    (drawDelegations g st)"
proof -
  have tail: "tail_ms st (Some s) t = (case sp_endMs s of
        None \<Rightarrow> if sp_startMs s < ss_nowMs st then ss_nowMs st else t
      | Some fin \<Rightarrow> max (sp_startMs s) (min fin t))" if "sp_startMs s \<le> t" for s t
    using that by (auto simp: tail_ms_def Let_def min_def max_def split: option.split)
  have "e \<in> set (delegation_edge g st d) \<Longrightarrow> de_record e = d \<and> de_seq e = dl_seq d \<and> de_curveOffset e = 24 \<and>
      de_tgtX e = msToPx (gr_viewport g) (gr_widthCss g) (of_int (dl_observedAtMs d)) \<and>
      de_srcX e = msToPx (gr_viewport g) (gr_widthCss g) (of_int (tail_ms st (anchor_span g st (dl_fromAgentId d) (dl_observedAtMs d)) (dl_observedAtMs d)))"
    for e d
    by (auto simp: delegation_edge_def pickAnchorSpan_def Let_def split: option.splits if_splits)
  note edge = this
  show ?thesis
    unfolding list_all_iff
  proof
    fix e assume "e \<in> set (drawDelegations g st)"
    then obtain d where d: "d \<in> set (rg_rows (ss_delegations st))" "e \<in> set (delegation_edge g st d)" by (auto simp: drawDelegations_def)
    define a where "a = anchor_span g st (dl_fromAgentId d) (dl_observedAtMs d)"
    have src: "de_srcX e = msToPx (gr_viewport g) (gr_widthCss g) (of_int (tail_ms st a (dl_observedAtMs d)))" using edge [OF d(2)] by (simp add: a_def)
    have "case a of
        None \<Rightarrow> de_srcX e = msToPx (gr_viewport g) (gr_widthCss g) (of_int (dl_observedAtMs d))
      | Some s \<Rightarrow> sp_kind s = INVOCATION \<and> sp_startMs s \<le> dl_observedAtMs d \<and>
          (case sp_endMs s of
             None \<Rightarrow> de_srcX e = msToPx (gr_viewport g) (gr_widthCss g) (of_int (if sp_startMs s < ss_nowMs st then ss_nowMs st else dl_observedAtMs d))
           | Some fin \<Rightarrow> de_srcX e = msToPx (gr_viewport g) (gr_widthCss g) (of_int (max (sp_startMs s) (min fin (dl_observedAtMs d)))))"
    proof (cases a)
      case None
      then show ?thesis using src by (simp add: tail_ms_def)
    next
      case (Some s)
      note spec = anchor_span_spec [OF Some [unfolded a_def]]
      then show ?thesis using src tail [OF conjunct2 [OF spec]] by (simp add: Some split: option.split)
    qed
    then show "let d = de_record e; t = dl_observedAtMs d; px = (\<lambda>ms. msToPx (gr_viewport g) (gr_widthCss g) (of_int ms))
      in d \<in> set (rg_rows (ss_delegations st)) \<and> de_seq e = dl_seq d \<and> de_curveOffset e = 24 \<and> de_tgtX e = px t \<and>
         (case anchor_span g st (dl_fromAgentId d) t of
            None \<Rightarrow> de_srcX e = px t
          | Some s \<Rightarrow> sp_kind s = INVOCATION \<and> sp_startMs s \<le> t \<and>
              (case sp_endMs s of
                 None \<Rightarrow> de_srcX e = px (if sp_startMs s < ss_nowMs st then ss_nowMs st else t)
               | Some fin \<Rightarrow> de_srcX e = px (max (sp_startMs s) (min fin t))))"
      using d(1) edge [OF d(2)] by (simp add: Let_def a_def)
  qed
qed

end
