(* ===== verification/GanttOverlay.thy ===== *)
theory GanttOverlay
  imports GanttPaint
begin

text \<open>
  The bands and the time axis of the Gantt canvas: the context-window overlay (\<open>frontend/src/gantt/contextOverlay.ts\<close> and the passes
  of \<open>gantt/renderer.ts\<close> that use it), the bands of the interventions, and the ticks of the axis.
\<close>

section \<open>Context-window overlay\<close>

datatype context_bucket = CB_low | CB_warn | CB_high | CB_critical

record context_heat_color =
  ch_fill :: string
  ch_stroke :: string
  ch_bucket :: context_bucket

definition CTX_LOW :: context_heat_color where
  "CTX_LOW = \<lparr>ch_fill = ''#2e7d32'', ch_stroke = ''#66bb6a'', ch_bucket = CB_low\<rparr>"

definition CTX_WARN :: context_heat_color where
  "CTX_WARN = \<lparr>ch_fill = ''#f9a825'', ch_stroke = ''#ffd54f'', ch_bucket = CB_warn\<rparr>"

definition CTX_HIGH :: context_heat_color where
  "CTX_HIGH = \<lparr>ch_fill = ''#ef6c00'', ch_stroke = ''#ffb74d'', ch_bucket = CB_high\<rparr>"

definition CTX_CRITICAL :: context_heat_color where
  "CTX_CRITICAL = \<lparr>ch_fill = ''#c62828'', ch_stroke = ''#ff6b6b'', ch_bucket = CB_critical\<rparr>"

definition contextColorForRatio :: "rat \<Rightarrow> context_heat_color" where
  "contextColorForRatio ratio =
     (if ratio < 5 / 10 then CTX_LOW else if ratio < 75 / 100 then CTX_WARN else if ratio < 9 / 10 then CTX_HIGH else CTX_CRITICAL)"

definition contextRatio :: "int \<Rightarrow> int \<Rightarrow> rat" where
  "contextRatio tokens limit =
     (if \<not> limit > 0 then 0 else if tokens < 0 then 0 else min 1 (of_int tokens / of_int limit))"

definition toFixed1 :: "rat \<Rightarrow> string" where
  \<comment> \<open>\<open>toFixed(1)\<close> of a number that is not negative\<close>
  "toFixed1 r = (let n = \<lfloor>r * 10 + 1 / 2\<rfloor> in js_int (n div 10) @ ''.'' @ js_int (n mod 10))"

definition formatTokens :: "int \<Rightarrow> string" where
  "formatTokens n =
     (if n \<le> 0 then ''0''
      else if n \<ge> 1000000 then toFixed1 (of_int n / 1000000) @ ''M''
      else if n \<ge> 10000 then js_int \<lfloor>of_int n / 1000 + (1 / 2 :: rat)\<rfloor> @ ''k''
      else if n \<ge> 1000 then toFixed1 (of_int n / 1000) @ ''k''
      else js_int n)"

record context_band_geom =
  bg_top :: "(rat \<times> rat) list"
  bg_baselineY :: int
  bg_maxRatio :: rat
  bg_lastRatio :: rat

definition sample_ratio :: "context_window_sample \<Rightarrow> rat" where
  "sample_ratio s = contextRatio (cw_tokens s) (cw_limitTokens s)"

fun band_walk ::
    "(int \<Rightarrow> rat) \<Rightarrow> rat \<Rightarrow> rat \<Rightarrow> rat \<Rightarrow> (rat \<Rightarrow> rat) \<Rightarrow> context_window_sample list \<Rightarrow> (rat \<times> rat) list \<times> rat \<times> rat
     \<Rightarrow> (rat \<times> rat) list \<times> rat \<times> rat" where
  \<comment> \<open>the loop over the samples after the carried one: points, \<open>maxRatio\<close> and \<open>lastRatio\<close>\<close>
  "band_walk px left right endMs toY [] acc = acc"
| "band_walk px left right endMs toY (s # ss) (pts, maxRatio, lastRatio) =
     (let rawX = px (cw_tMs s); r = sample_ratio s; maxRatio' = (if r > maxRatio then r else maxRatio) in
      if of_int (cw_tMs s) > endMs then (pts, maxRatio, lastRatio)
      else if rawX \<le> left then band_walk px left right endMs toY ss ((fst (hd pts), toY r) # tl pts, maxRatio', r)
      else let x = min right rawX; pts' = pts @ [(x, snd (last pts)), (x, toY r)]
           in if x \<ge> right then (pts', maxRatio', r) else band_walk px left right endMs toY ss (pts', maxRatio', r))"

definition computeContextBandGeom ::
    "context_window_sample list \<Rightarrow> rat \<Rightarrow> rat \<Rightarrow> (int \<Rightarrow> rat) \<Rightarrow> rat \<Rightarrow> rat \<Rightarrow> int \<Rightarrow> int \<Rightarrow> int \<Rightarrow> context_band_geom option" where
  "computeContextBandGeom samples startMs endMs px leftClipPx rightClipPx rowTopY rowH bandHeight =
     (if samples = [] then None
      else if rightClipPx \<le> leftClipPx then None
      else let baselineY = rowTopY + rowH - 2;
               band = max 2 (min bandHeight (rowH - 4));
               topMaxY = baselineY - band;
               startIdx = length (takeWhile (\<lambda>s. of_int (cw_tMs s) \<le> startMs) samples) - 1;
               toY = (\<lambda>ratio. of_int baselineY - of_int (baselineY - topMaxY) * ratio);
               seedRatio = sample_ratio (samples ! startIdx);
               (pts, maxRatio, lastRatio) = band_walk px leftClipPx rightClipPx endMs toY (drop (Suc startIdx) samples)
                 ([(leftClipPx, toY seedRatio)], seedRatio, seedRatio);
               tail = last pts
           in Some \<lparr>bg_top = (if fst tail < rightClipPx then pts @ [(rightClipPx, snd tail)] else pts), bg_baselineY = baselineY,
                    bg_maxRatio = maxRatio, bg_lastRatio = lastRatio\<rparr>)"

definition row_band :: "gantt_renderer \<Rightarrow> session_store \<Rightarrow> agent \<times> int \<times> int \<Rightarrow> context_band_geom option" where
  "row_band g st row =
     (case row of (a, y, rowH) \<Rightarrow>
        if ag_id a \<in> set (gr_hiddenAgentIds g) then None
        else computeContextBandGeom (cs_forAgent (ss_contextSeries st) (ag_id a)) (viewportStart (gr_viewport g)) (vs_endMs (gr_viewport g))
               (\<lambda>ms. msToPx (gr_viewport g) (gr_widthCss g) (of_int ms)) (GUTTER_WIDTH_PX + 10) (gr_widthCss g) y rowH
               (max 10 (rowH * 55 div 100)))"

definition drawContextWindowBands :: "gantt_renderer \<Rightarrow> session_store \<Rightarrow> (string, context_band) jsmap" where
  \<comment> \<open>\<open>contextBandByAgent\<close>\<close>
  "drawContextWindowBands g st =
     (if \<not> gr_contextOverlayVisible g then []
      else if \<not> cs_hasAny (ss_contextSeries st) then []
      else foldl (\<lambda>m (a, y, rowH).
             case row_band g st (a, y, rowH) of
               None \<Rightarrow> m
             | Some geom \<Rightarrow> AList.update (ag_id a)
                 \<lparr>cb_samples = cs_forAgent (ss_contextSeries st) (ag_id a),
                  cb_bandTopYAtRatio1 = bg_baselineY geom - max 10 (rowH * 55 div 100), cb_baselineY = bg_baselineY geom\<rparr> m)
             [] (gantt_rows g st))"

function sample_search :: "(int \<Rightarrow> bool) \<Rightarrow> int \<Rightarrow> int \<Rightarrow> int \<Rightarrow> int" where
  \<comment> \<open>the binary search of \<open>contextSampleAt\<close>\<close>
  "sample_search p lo hi idx =
     (if lo \<le> hi
      then let mid = (lo + hi) div 2 in if p mid then sample_search p (mid + 1) hi mid else sample_search p lo (mid - 1) idx
      else idx)"
  by pat_completeness auto
termination
  by (relation "measure (\<lambda>(p, lo, hi, idx). nat (hi - lo + 1))") auto

declare sample_search.simps [simp del]

definition sample_at :: "context_window_sample list \<Rightarrow> rat \<Rightarrow> context_window_sample" where
  "sample_at samples tMs =
     samples ! nat (sample_search (\<lambda>i. of_int (cw_tMs (samples ! nat i)) \<le> tMs) 0 (int (length samples) - 1) 0)"

definition contextSampleAt :: "gantt_renderer \<Rightarrow> session_store \<Rightarrow> rat \<Rightarrow> rat \<Rightarrow> (string \<times> context_window_sample \<times> rat) option" where
  "contextSampleAt g st px py =
     (if \<not> gr_contextOverlayVisible g then None
      else if px < GUTTER_WIDTH_PX \<or> py < of_int TOP_MARGIN_PX then None
      else case find (\<lambda>(a, y, h). in_row py y h) (gantt_rows g st) of
             None \<Rightarrow> None
           | Some (a, y, h) \<Rightarrow>
               (case map_of (gr_contextBandByAgent g) (ag_id a) of
                  None \<Rightarrow> None
                | Some cached \<Rightarrow>
                    if cb_samples cached = [] then None
                    else let s = sample_at (cb_samples cached) (pxToMs (gr_viewport g) (gr_widthCss g) px)
                         in Some (ag_id a, s, contextRatio (cw_tokens s) (cw_limitTokens s))))"

section \<open>Intervention bands\<close>

record vis_band =
  vb_atMs :: int
  vb_x :: rat
  vb_source :: intervention_source
  vb_severity :: string

record band_cluster =
  cl_x :: rat
  cl_source :: intervention_source
  cl_severity :: string
  cl_count :: nat

definition pickSource :: "intervention_source \<Rightarrow> intervention_source \<Rightarrow> intervention_source" where
  "pickSource a b =
     (if a = IS_cancel \<or> b = IS_cancel then IS_cancel
      else if a = IS_user \<or> b = IS_user then IS_user
      else if a = IS_drift \<or> b = IS_drift then IS_drift
      else IS_goldfive)"

definition pickSeverity :: "string \<Rightarrow> string \<Rightarrow> string" where
  "pickSeverity a b =
     (if a = ''critical'' \<or> b = ''critical'' then ''critical''
      else if a = ''warning'' \<or> b = ''warning'' then ''warning''
      else if a = ''info'' \<or> b = ''info'' then ''info''
      else or_str a b)"

definition visible_bands :: "gantt_renderer \<Rightarrow> vis_band list" where
  "visible_bands g =
     (let px = (\<lambda>ms. msToPx (gr_viewport g) (gr_widthCss g) (of_int ms))
      in sort_key vb_x
           (map (\<lambda>row. \<lparr>vb_atMs = iv_atMs row, vb_x = px (iv_atMs row), vb_source = iv_source row, vb_severity = iv_severity row\<rparr>)
             (filter (\<lambda>row. \<not> (of_int (iv_atMs row) < viewportStart (gr_viewport g) \<or> of_int (iv_atMs row) > vs_endMs (gr_viewport g)) \<and>
                            \<not> (px (iv_atMs row) < GUTTER_WIDTH_PX \<or> px (iv_atMs row) > gr_widthCss g)) (gr_interventions g))))"

definition merge_band :: "band_cluster list \<Rightarrow> vis_band \<Rightarrow> band_cluster list" where
  \<comment> \<open>the body of the cluster pass\<close>
  "merge_band cs v =
     (if cs \<noteq> [] \<and> vb_x v - cl_x (last cs) \<le> 6
      then let l = last cs; n = cl_count l + 1
           in butlast cs @ [\<lparr>cl_x = (cl_x l * (of_nat n - 1) + vb_x v) / of_nat n, cl_source = pickSource (cl_source l) (vb_source v),
                             cl_severity = pickSeverity (cl_severity l) (vb_severity v), cl_count = n\<rparr>]
      else cs @ [\<lparr>cl_x = vb_x v, cl_source = vb_source v, cl_severity = vb_severity v, cl_count = 1\<rparr>])"

definition drawInterventionBands :: "gantt_renderer \<Rightarrow> band_cluster list" where
  "drawInterventionBands g =
     (if \<not> gr_interventionBandsVisible g \<or> gr_interventions g = [] \<or> gr_widthCss g \<le> GUTTER_WIDTH_PX then []
      else foldl merge_band [] (visible_bands g))"

definition baseWidthPx :: "string \<Rightarrow> rat" where
  "baseWidthPx sev = (if sev = ''critical'' then 4 else if sev = ''warning'' then 3 else 2)"

fun log2_up :: "nat \<Rightarrow> nat" where
  \<comment> \<open>\<open>Math.ceil(Math.log2(n))\<close> for \<open>n \<ge> 1\<close>\<close>
  "log2_up n = (if n \<le> 1 then 0 else Suc (log2_up ((n + 1) div 2)))"

declare log2_up.simps [simp del]

definition clusterBoost :: "nat \<Rightarrow> nat" where
  "clusterBoost n = (if n \<le> 1 then 0 else min 4 (log2_up (n + 1)))"

definition band_width :: "band_cluster \<Rightarrow> rat" where
  "band_width c = baseWidthPx (cl_severity c) + of_nat (clusterBoost (cl_count c))"

section \<open>The time axis\<close>

definition tick_targets :: "int list" where
  "tick_targets = [1000, 5000, 15000, 60000, 5 * 60000, 15 * 60000]"

definition pickTickMs :: "rat \<Rightarrow> int" where
  "pickTickMs windowMs = (case find (\<lambda>t. windowMs / of_int t < 12) tick_targets of Some t \<Rightarrow> t | None \<Rightarrow> 15 * 60000)"

function ticks_from :: "int \<Rightarrow> int \<Rightarrow> rat \<Rightarrow> int list" where
  \<comment> \<open>the loop over the ticks; the tick is positive\<close>
  "ticks_from tick t ve = (if 0 < tick \<and> of_int t \<le> ve then t # ticks_from tick (t + tick) ve else [])"
  by pat_completeness auto
termination
  by (relation "measure (\<lambda>(tick, t, ve). nat (\<lfloor>ve\<rfloor> + 1 - t))") (auto simp: le_floor_iff [symmetric])

declare ticks_from.simps [simp del]

definition axis_ticks :: "viewport_state \<Rightarrow> int list" where
  "axis_ticks v =
     (let tickMs = pickTickMs (vs_windowMs v); t0Tick = \<lceil>viewportStart v / of_int tickMs\<rceil> * tickMs
      in ticks_from tickMs t0Tick (vs_endMs v))"

definition pad_two :: "string \<Rightarrow> string" where
  "pad_two s = replicate (2 - length s) (CHR ''0'') @ s"

definition formatTickLabel :: "int \<Rightarrow> int \<Rightarrow> string" where
  "formatTickLabel ms tickMs =
     (let totalSec = ms div 1000; h = totalSec div 3600; m = (totalSec mod 3600) div 60; s = totalSec mod 60
      in if tickMs \<ge> 60000
         then (if h > 0 then js_int h @ '':'' @ pad_two (js_int m) else js_int m @ ''m'')
         else (if h > 0 then js_int h @ '':'' @ pad_two (js_int m) @ '':'' @ pad_two (js_int s)
               else js_int m @ '':'' @ pad_two (js_int s)))"

section \<open>The context band follows the samples and stays in its row\<close>

lemma sample_ratio_bounds: "0 \<le> sample_ratio s" "sample_ratio s \<le> 1"
  by (simp_all add: sample_ratio_def contextRatio_def)

definition trace_ok :: "rat \<Rightarrow> rat \<Rightarrow> rat \<Rightarrow> rat \<Rightarrow> (rat \<times> rat) list \<times> rat \<times> rat \<Rightarrow> bool" where
  "trace_ok left right lo hi acc \<longleftrightarrow>
     (case acc of (pts, mx, lst) \<Rightarrow>
        pts \<noteq> [] \<and> fst (hd pts) = left \<and> sorted (map fst pts) \<and>
        list_all (\<lambda>(x, y). x \<le> right \<and> lo \<le> y \<and> y \<le> hi) pts \<and> 0 \<le> lst \<and> lst \<le> mx \<and> mx \<le> 1)"

lemma trace_last:
  assumes "trace_ok left right lo hi (pts, mx, lst)"
  shows "fst (last pts) \<le> right" and "lo \<le> snd (last pts)" and "snd (last pts) \<le> hi"
proof -
  have "list_all (\<lambda>(x, y). x \<le> right \<and> lo \<le> y \<and> y \<le> hi) pts" "pts \<noteq> []" using assms by (simp_all add: trace_ok_def)
  then have "case last pts of (x, y) \<Rightarrow> x \<le> right \<and> lo \<le> y \<and> y \<le> hi"
    by (simp add: list_all_iff)
  then show "fst (last pts) \<le> right" "lo \<le> snd (last pts)" "snd (last pts) \<le> hi" by (simp_all add: case_prod_unfold)
qed

lemma band_walk_trace:
  assumes toY: "\<And>r. 0 \<le> r \<Longrightarrow> r \<le> 1 \<Longrightarrow> lo \<le> toY r \<and> toY r \<le> hi"
    and mono: "\<And>a b. a \<le> b \<Longrightarrow> px a \<le> px b" and clip: "left \<le> right"
  shows "trace_ok left right lo hi (pts, mx, lst) \<Longrightarrow> sorted (map cw_tMs ss) \<Longrightarrow>
    (\<forall>s\<in>set ss. fst (last pts) \<le> max left (min right (px (cw_tMs s)))) \<Longrightarrow>
    trace_ok left right lo hi (band_walk px left right endMs toY ss (pts, mx, lst))"
proof (induction ss arbitrary: pts mx lst)
  case (Cons s ss)
  define r where "r = sample_ratio s"
  define mx' where "mx' = (if r > mx then r else mx)"
  have r: "0 \<le> r" "r \<le> 1" by (simp_all add: r_def sample_ratio_bounds)
  have y: "lo \<le> toY r" "toY r \<le> hi" using toY [OF r] by simp_all
  have ne: "pts \<noteq> []" using Cons.prems(1) by (simp add: trace_ok_def)
  have mx: "r \<le> mx'" "mx' \<le> 1" using r Cons.prems(1) by (auto simp: mx'_def trace_ok_def)
  note lst = trace_last(2,3) [OF Cons.prems(1)]
  show ?case
  proof (cases "of_int (cw_tMs s) > endMs")
    case True
    with Cons.prems(1) show ?thesis by simp
  next
    case seen: False
    show ?thesis
    proof (cases "px (cw_tMs s) \<le> left")
      case True
      obtain q qs where pts: "pts = q # qs" using ne by (cases pts) auto
      have next_ok: "trace_ok left right lo hi ((fst q, toY r) # qs, mx', r)"
        using Cons.prems(1) y r mx by (auto simp: trace_ok_def pts)
      have "fst (last ((fst q, toY r) # qs)) = fst (last pts)" by (simp add: pts)
      with Cons.prems(2,3) have "trace_ok left right lo hi (band_walk px left right endMs toY ss ((fst q, toY r) # qs, mx', r))"
        by (intro Cons.IH [OF next_ok]) auto
      then show ?thesis using seen True by (simp add: Let_def r_def [symmetric] mx'_def [symmetric] pts)
    next
      case False
      define x where "x = min right (px (cw_tMs s))"
      define pts' where "pts' = pts @ [(x, snd (last pts)), (x, toY r)]"
      have x: "left \<le> x" "x \<le> right" using False clip by (auto simp: x_def)
      have last: "fst (last pts) \<le> x" using Cons.prems(3) False clip by (auto simp: x_def max_def split: if_splits)
      have "\<forall>p\<in>set pts. fst p \<le> x"
      proof
        fix p assume "p \<in> set pts"
        then have "fst p \<in> set (map fst pts)" by simp
        moreover have "sorted (map fst pts)" using Cons.prems(1) by (simp add: trace_ok_def)
        ultimately have "fst p \<le> last (map fst pts)" by (metis in_set_conv_nth last_conv_nth length_pos_if_in_set less_Suc_eq_le Suc_pred' diff_less less_one sorted_nth_mono length_greater_0_conv)
        then show "fst p \<le> x" using last ne by (simp add: last_map)
      qed
      then have next_ok: "trace_ok left right lo hi (pts', mx', r)"
        using Cons.prems(1) x y r mx lst ne by (auto simp: trace_ok_def pts'_def sorted_append)
      have "\<forall>t\<in>set ss. fst (last pts') \<le> max left (min right (px (cw_tMs t)))"
        using Cons.prems(2) mono by (auto simp: pts'_def x_def le_max_iff_disj intro: min.coboundedI2)
      with Cons.prems(2) have "trace_ok left right lo hi (band_walk px left right endMs toY ss (pts', mx', r))"
        by (intro Cons.IH [OF next_ok]) simp_all
      with next_ok show ?thesis using seen False
        by (simp add: Let_def r_def [symmetric] mx'_def [symmetric] x_def [symmetric] pts'_def [symmetric])
    qed
  qed
qed simp

lemma band_geom_ok:
  assumes geom: "computeContextBandGeom samples vs ve px left right y h bh = Some geom"
    and sorted: "sorted (map cw_tMs samples)" and mono: "\<And>a b. a \<le> b \<Longrightarrow> px a \<le> px b" and h: "18 \<le> h"
  shows "fst (hd (bg_top geom)) = left \<and> fst (last (bg_top geom)) = right \<and> sorted (map fst (bg_top geom)) \<and>
    list_all (\<lambda>(_, z). of_int (y + 2) \<le> z \<and> z \<le> of_int (y + h - 2)) (bg_top geom) \<and>
    0 \<le> bg_lastRatio geom \<and> bg_lastRatio geom \<le> bg_maxRatio geom \<and> bg_maxRatio geom \<le> 1"
proof -
  define band where "band = max 2 (min bh (h - 4))"
  define toY where "toY = (\<lambda>ratio. of_int (y + h - 2) - of_int band * ratio :: rat)"
  define i where "i = length (takeWhile (\<lambda>s. of_int (cw_tMs s) \<le> vs) samples) - 1"
  define r where "r = sample_ratio (samples ! i)"
  obtain pts mx lst where w: "band_walk px left right ve toY (drop (Suc i) samples) ([(left, toY r)], r, r) = (pts, mx, lst)"
    by (metis prod_cases3)
  have clip: "left < right" using geom by (simp add: computeContextBandGeom_def split: if_splits)
  have g: "geom = \<lparr>bg_top = (if fst (last pts) < right then pts @ [(right, snd (last pts))] else pts), bg_baselineY = y + h - 2,
      bg_maxRatio = mx, bg_lastRatio = lst\<rparr>"
    using geom w clip unfolding computeContextBandGeom_def Let_def
    by (auto simp: band_def [symmetric] toY_def i_def r_def split: if_splits)
  have b: "0 \<le> band" "band \<le> h - 4" using h by (auto simp: band_def)
  have toY: "of_int (y + 2) \<le> toY q \<and> toY q \<le> of_int (y + h - 2)" if "0 \<le> q" "q \<le> 1" for q
  proof -
    have "0 \<le> of_int band * q" "of_int band * q \<le> of_int band * 1" using b(1) that by (intro mult_nonneg_nonneg mult_left_mono; simp)+
    moreover have "rat_of_int band \<le> of_int (h - 4)" using b(2) by (simp only: of_int_le_iff)
    ultimately show ?thesis by (simp add: toY_def)
  qed
  have "trace_ok left right (of_int (y + 2)) (of_int (y + h - 2)) (pts, mx, lst)"
    unfolding w [symmetric]
  proof (rule band_walk_trace)
    show "trace_ok left right (of_int (y + 2)) (of_int (y + h - 2)) ([(left, toY r)], r, r)"
      using clip toY [of r] by (simp add: trace_ok_def r_def sample_ratio_bounds)
    show "sorted (map cw_tMs (drop (Suc i) samples))" using sorted by (simp flip: drop_map add: sorted_wrt_drop)
  qed (use toY mono clip in auto)
  note trace = this trace_last [OF this]
  have "fst (last (bg_top geom)) = right" using trace(2) by (simp add: g)
  moreover have "sorted (map fst (bg_top geom))" "fst (hd (bg_top geom)) = left"
    using trace(1) by (auto simp: g trace_ok_def sorted_append list_all_iff)
  moreover have "list_all (\<lambda>(_, z). of_int (y + 2) \<le> z \<and> z \<le> of_int (y + h - 2)) (bg_top geom)"
    using trace by (auto simp: g trace_ok_def list_all_iff)
  ultimately show ?thesis using trace(1) by (simp add: g trace_ok_def)
qed

text \<open>Whatever samples have arrived, in whatever order, and wherever the viewport is, the band of a row starts at the left edge of the
  data area and ends at the right one, never runs backwards, stays two pixels inside its row, and is coloured by a ratio
  between the current one and 1.\<close>

theorem context_bands_in_row:
  "let g' = g\<lparr>gr_viewport := foldl viewport_step defaultViewport vops\<rparr>; st' = st\<lparr>ss_contextSeries := foldl series_step emptySeries sops\<rparr>
   in list_all (\<lambda>(a, y, h).
        case row_band g' st' (a, y, h) of
          None \<Rightarrow> isAgentHidden g' (ag_id a) \<or> cs_forAgent (ss_contextSeries st') (ag_id a) = [] \<or> gr_widthCss g' \<le> GUTTER_WIDTH_PX + 10
        | Some geom \<Rightarrow>
            fst (hd (bg_top geom)) = GUTTER_WIDTH_PX + 10 \<and> fst (last (bg_top geom)) = gr_widthCss g' \<and> sorted (map fst (bg_top geom)) \<and>
            list_all (\<lambda>(_, z). of_int (y + 2) \<le> z \<and> z \<le> of_int (y + h - 2)) (bg_top geom) \<and>
            0 \<le> bg_lastRatio geom \<and> bg_lastRatio geom \<le> bg_maxRatio geom \<and> bg_maxRatio geom \<le> 1) (gantt_rows g' st')"
proof -
  define g' where "g' = g\<lparr>gr_viewport := foldl viewport_step defaultViewport vops\<rparr>"
  define st' where "st' = st\<lparr>ss_contextSeries := foldl series_step emptySeries sops\<rparr>"
  have ok: "viewport_ok (gr_viewport g')" by (simp add: g'_def viewport_ok_run)
  have sorted: "sorted (map cw_tMs (cs_forAgent (ss_contextSeries st') i))" for i
    using series_sorted [of sops i] by (simp add: st'_def Let_def)
  have "case row_band g' st' (a, y, h) of
      None \<Rightarrow> isAgentHidden g' (ag_id a) \<or> cs_forAgent (ss_contextSeries st') (ag_id a) = [] \<or> gr_widthCss g' \<le> GUTTER_WIDTH_PX + 10
    | Some geom \<Rightarrow>
        fst (hd (bg_top geom)) = GUTTER_WIDTH_PX + 10 \<and> fst (last (bg_top geom)) = gr_widthCss g' \<and> sorted (map fst (bg_top geom)) \<and>
        list_all (\<lambda>(_, z). of_int (y + 2) \<le> z \<and> z \<le> of_int (y + h - 2)) (bg_top geom) \<and>
        0 \<le> bg_lastRatio geom \<and> bg_lastRatio geom \<le> bg_maxRatio geom \<and> bg_maxRatio geom \<le> 1"
    if row: "(a, y, h) \<in> set (gantt_rows g' st')" for a y h
  proof (cases "row_band g' st' (a, y, h)")
    case None
    then show ?thesis
      by (auto simp: row_band_def computeContextBandGeom_def isAgentHidden_def Let_def split: if_splits prod.splits)
  next
    case (Some geom)
    then have c: "computeContextBandGeom (cs_forAgent (ss_contextSeries st') (ag_id a)) (viewportStart (gr_viewport g')) (vs_endMs (gr_viewport g'))
        (\<lambda>ms. msToPx (gr_viewport g') (gr_widthCss g') (of_int ms)) (GUTTER_WIDTH_PX + 10) (gr_widthCss g') y h (max 10 (h * 55 div 100)) = Some geom"
      by (simp add: row_band_def split: if_splits)
    then have wide: "GUTTER_WIDTH_PX < gr_widthCss g'" by (auto simp: computeContextBandGeom_def split: if_splits)
    have mono: "msToPx (gr_viewport g') (gr_widthCss g') (of_int u) \<le> msToPx (gr_viewport g') (gr_widthCss g') (of_int v)" if "u \<le> v" for u v
      using msToPx_inj [OF ok wide, of "of_int v" "of_int u"] that by (simp add: not_less [symmetric])
    have h: "18 \<le> h" using rows_from_height row rowHeight_ge [of g' st'] by (fastforce simp: gantt_rows_def)
    from band_geom_ok [OF c sorted mono h] show ?thesis by (simp add: Some)
  qed
  then show ?thesis unfolding Let_def g'_def [symmetric] st'_def [symmetric] list_all_iff by blast
qed

section \<open>The pointer reads the sample in force\<close>

lemma sample_search_spec:
  "(\<forall>j. 0 \<le> j \<longrightarrow> j < n \<longrightarrow> p j = (j < c)) \<Longrightarrow> 0 \<le> lo \<Longrightarrow> hi < n \<Longrightarrow> lo \<le> c \<Longrightarrow> c \<le> hi + 1 \<Longrightarrow> idx = max 0 (lo - 1) \<Longrightarrow>
   sample_search p lo hi idx = max 0 (c - 1)"
proof (induction p lo hi idx rule: sample_search.induct)
  case (1 p lo hi idx)
  show ?case
  proof (cases "lo \<le> hi")
    case False
    with "1.prems" show ?thesis by (subst sample_search.simps) auto
  next
    case True
    define mid where "mid = (lo + hi) div 2"
    have mid: "lo \<le> mid" "mid \<le> hi" "0 \<le> mid" "mid < n" using True "1.prems" by (auto simp: mid_def)
    show ?thesis
    proof (cases "p mid")
      case pm: True
      then have "mid < c" using mid "1.prems"(1) by blast
      then have "sample_search p (mid + 1) hi mid = max 0 (c - 1)"
        using "1.prems" mid by (intro "1.IH"(1) [OF True mid_def pm]) auto
      then show ?thesis using True pm by (subst sample_search.simps) (simp add: mid_def Let_def)
    next
      case pm: False
      then have "c \<le> mid" using mid "1.prems"(1) not_less by blast
      then have "sample_search p lo (mid - 1) idx = max 0 (c - 1)"
        using "1.prems" mid by (intro "1.IH"(2) [OF True mid_def pm]) auto
      then show ?thesis using True pm by (subst sample_search.simps) (simp add: mid_def Let_def)
    qed
  qed
qed

definition sample_in_force :: "context_window_sample list \<Rightarrow> rat \<Rightarrow> context_window_sample" where
  \<comment> \<open>the last sample taken by then, or the first one\<close>
  "sample_in_force samples t =
     (let past = filter (\<lambda>s. of_int (cw_tMs s) \<le> t) samples in if past = [] then hd samples else last past)"

lemma sample_at_in_force:
  assumes ne: "samples \<noteq> []" and sorted: "sorted (map cw_tMs samples)"
  shows "sample_at samples t = sample_in_force samples t"
proof -
  define P where "P = (\<lambda>s :: context_window_sample. rat_of_int (cw_tMs s) \<le> t)"
  define k where "k = length (takeWhile P samples)"
  have down: "P (samples ! i)" if "i \<le> j" "j < length samples" "P (samples ! j)" for i j
  proof -
    have "cw_tMs (samples ! i) \<le> cw_tMs (samples ! j)" using sorted_nth_mono [OF sorted, of i j] that by simp
    then have "rat_of_int (cw_tMs (samples ! i)) \<le> of_int (cw_tMs (samples ! j))" by (simp only: of_int_le_iff)
    with that(3) show ?thesis by (simp add: P_def)
  qed
  have k: "P (samples ! j) \<longleftrightarrow> j < k" if "j < length samples" for j
  proof
    show "j < k \<Longrightarrow> P (samples ! j)" unfolding k_def by (metis nth_mem set_takeWhileD takeWhile_nth)
    show "P (samples ! j) \<Longrightarrow> j < k"
    proof (rule ccontr)
      assume "P (samples ! j)" "\<not> j < k"
      then have "P (samples ! k)" "k < length samples" using down [of k j] that by auto
      then show False using nth_length_takeWhile [of P samples] by (simp add: k_def)
    qed
  qed
  have kl: "k \<le> length samples" by (simp add: k_def length_takeWhile_le)
  have all: "\<forall>j. 0 \<le> j \<longrightarrow> j < int (length samples) \<longrightarrow> P (samples ! nat j) = (j < int k)"
  proof (intro allI impI)
    fix j :: int assume j: "0 \<le> j" "j < int (length samples)"
    then have "P (samples ! nat j) \<longleftrightarrow> nat j < k" by (intro k) simp
    with j show "P (samples ! nat j) = (j < int k)" by (simp add: nat_less_iff)
  qed
  have "sample_search (\<lambda>i. P (samples ! nat i)) 0 (int (length samples) - 1) 0 = max 0 (int k - 1)"
    by (rule sample_search_spec [OF all]) (use kl in auto)
  then have at: "sample_at samples t = samples ! (k - 1)" by (simp add: sample_at_def P_def) (simp add: nat_diff_distrib max_def)
  have "filter P samples = take k samples"
  proof -
    have "filter P (take k samples) = take k samples" using k kl by (auto simp: filter_id_conv in_set_conv_nth)
    moreover have "filter P (drop k samples) = []" using k by (auto simp: filter_empty_conv in_set_conv_nth)
    ultimately show ?thesis by (metis append_Nil2 append_take_drop_id filter_append)
  qed
  then show ?thesis
    using ne kl unfolding at sample_in_force_def Let_def P_def [symmetric]
    by (auto simp: hd_conv_nth last_conv_nth min_def)
qed

text \<open>The tooltip of the context overlay shows the sample that was in force at the pointer's time in the row under the pointer, found by
  binary search among the samples of the last draw, however the samples had arrived.\<close>

theorem context_tooltip_in_force:
  "let st' = st\<lparr>ss_contextSeries := foldl series_step emptySeries sops\<rparr>;
       g' = g\<lparr>gr_contextBandByAgent := drawContextWindowBands g st'\<rparr>; t = pxToMs (gr_viewport g) (gr_widthCss g) px
   in case contextSampleAt g' st'' px py of
        None \<Rightarrow> True
      | Some (i, s, ratio) \<Rightarrow>
          agentAtY g' st'' py = Some i \<and> cs_forAgent (ss_contextSeries st') i \<noteq> [] \<and>
          s = sample_in_force (cs_forAgent (ss_contextSeries st') i) t \<and> ratio = sample_ratio s"
proof -
  define st' where "st' = st\<lparr>ss_contextSeries := foldl series_step emptySeries sops\<rparr>"
  define g' where "g' = g\<lparr>gr_contextBandByAgent := drawContextWindowBands g st'\<rparr>"
  have fold: "map_of (foldl (\<lambda>m (a, y, rowH). case row_band g st' (a, y, rowH) of
             None \<Rightarrow> m
           | Some geom \<Rightarrow> AList.update (ag_id a)
               \<lparr>cb_samples = cs_forAgent (ss_contextSeries st') (ag_id a),
                cb_bandTopYAtRatio1 = bg_baselineY geom - max 10 (rowH * 55 div 100), cb_baselineY = bg_baselineY geom\<rparr> m) [] rows) i = Some c
      \<Longrightarrow> cb_samples c = cs_forAgent (ss_contextSeries st') i" for rows i c
    by (induction rows arbitrary: c rule: rev_induct) (auto simp: update_conv' split: option.splits if_splits)
  have cached: "cb_samples c = cs_forAgent (ss_contextSeries st') i" if "map_of (gr_contextBandByAgent g') i = Some c" for i c
    using that fold by (auto simp: g'_def drawContextWindowBands_def split: if_splits)
  show ?thesis
  proof (cases "contextSampleAt g' st'' px py")
    case (Some r)
    then obtain a y h c where f: "find (\<lambda>(a, y, h). in_row py y h) (gantt_rows g' st'') = Some (a, y, h)"
        "map_of (gr_contextBandByAgent g') (ag_id a) = Some c" "cb_samples c \<noteq> []"
        "r = (let s = sample_at (cb_samples c) (pxToMs (gr_viewport g') (gr_widthCss g') px) in (ag_id a, s, contextRatio (cw_tokens s) (cw_limitTokens s)))"
      by (auto simp: contextSampleAt_def Let_def split: if_splits option.splits)
    have "sorted (map cw_tMs (cb_samples c))"
      using series_sorted [of sops "ag_id a"] by (simp add: cached [OF f(2)] st'_def Let_def)
    note at = sample_at_in_force [OF f(3) this]
    have "agentAtY g' st'' py = Some (ag_id a)" using f(1) by (simp add: agentAtY_def)
    moreover have "pxToMs (gr_viewport g') (gr_widthCss g') px = pxToMs (gr_viewport g) (gr_widthCss g) px" by (simp add: g'_def)
    ultimately show ?thesis
      using Some f(3,4) by (simp add: at [unfolded cached [OF f(2)]] cached [OF f(2)] sample_ratio_def Let_def flip: st'_def g'_def)
  qed (simp add: Let_def flip: st'_def g'_def)
qed

section \<open>Intervention bands\<close>

definition clusters_ok :: "rat \<Rightarrow> band_cluster list \<Rightarrow> bool" where
  \<comment> \<open>more than six pixels apart, and no centre beyond the last band merged\<close>
  "clusters_ok x cs \<longleftrightarrow>
     sorted_wrt (\<lambda>c d. cl_x c + 6 < cl_x d) cs \<and> list_all (\<lambda>c. 0 < cl_count c \<and> cl_x c \<le> x) cs"

lemma clusters_ok_merge:
  assumes ok: "clusters_ok x cs" and x: "x \<le> vb_x v"
  shows "clusters_ok (vb_x v) (merge_band cs v)" and "sum_list (map cl_count (merge_band cs v)) = Suc (sum_list (map cl_count cs))"
proof -
  have "clusters_ok (vb_x v) (merge_band cs v) \<and> sum_list (map cl_count (merge_band cs v)) = Suc (sum_list (map cl_count cs))"
  proof (cases "cs \<noteq> [] \<and> vb_x v - cl_x (last cs) \<le> 6")
    case True
    then obtain ds l where cs: "cs = ds @ [l]" by (metis append_butlast_last_id)
    define n where "n = cl_count l + 1"
    define m where "m = (cl_x l * (of_nat n - 1) + vb_x v) / of_nat n"
    have n: "0 < rat_of_nat n" by (simp add: n_def)
    have l: "cl_x l \<le> vb_x v" using ok x by (simp add: cs clusters_ok_def)
    have "cl_x l * of_nat n \<le> cl_x l * (of_nat n - 1) + vb_x v" using l by (simp add: algebra_simps)
    then have lm: "cl_x l \<le> m" using n by (simp add: m_def le_divide_eq)
    have "cl_x l * (of_nat n - 1) \<le> vb_x v * (of_nat n - 1)" using l by (intro mult_right_mono) (simp_all add: n_def)
    then have "cl_x l * (of_nat n - 1) + vb_x v \<le> vb_x v * of_nat n" by (simp add: algebra_simps)
    then have mv: "m \<le> vb_x v" using n by (simp add: m_def divide_le_eq)
    have "merge_band cs v = ds @ [\<lparr>cl_x = m, cl_source = pickSource (cl_source l) (vb_source v),
        cl_severity = pickSeverity (cl_severity l) (vb_severity v), cl_count = n\<rparr>]"
      using True by (simp add: merge_band_def cs Let_def m_def n_def)
    then show ?thesis
      using ok x lm mv by (fastforce simp: clusters_ok_def cs sorted_wrt_append list_all_iff n_def)
  next
    case False
    then have far: "vb_x v - cl_x (last cs) > 6" if "cs \<noteq> []" using that by simp
    have "cl_x c + 6 < vb_x v" if "c \<in> set cs" for c
    proof -
      have "cs \<noteq> []" using that by auto
      then obtain ds l where cs: "cs = ds @ [l]" by (metis append_butlast_last_id)
      then have "c = l \<or> cl_x c + 6 < cl_x l" using ok that by (auto simp: clusters_ok_def sorted_wrt_append)
      moreover have "cl_x l + 6 < vb_x v" using far \<open>cs \<noteq> []\<close> by (simp add: cs)
      ultimately show ?thesis by auto
    qed
    moreover have "merge_band cs v = cs @ [\<lparr>cl_x = vb_x v, cl_source = vb_source v, cl_severity = vb_severity v, cl_count = 1\<rparr>]"
      using False by (simp only: merge_band_def if_False)
    ultimately show ?thesis using ok x by (fastforce simp: clusters_ok_def sorted_wrt_append list_all_iff)
  qed
  then show "clusters_ok (vb_x v) (merge_band cs v)" and "sum_list (map cl_count (merge_band cs v)) = Suc (sum_list (map cl_count cs))"
    by blast+
qed

text \<open>The intervention bands on the canvas are more than six pixels apart, inside the data area, and stand for exactly the
  interventions in the visible window, each counted once.\<close>

theorem intervention_bands_partition:
  "let cs = drawInterventionBands g
   in sorted_wrt (\<lambda>c d. cl_x c + 6 < cl_x d) cs \<and> list_all (\<lambda>c. 0 < cl_count c \<and> cl_x c \<le> gr_widthCss g) cs \<and>
      sum_list (map cl_count cs) =
        (if gr_interventionBandsVisible g \<and> GUTTER_WIDTH_PX < gr_widthCss g then length (visible_bands g) else 0)"
proof -
  have run: "sorted (map vb_x vs) \<Longrightarrow> list_all (\<lambda>v. x \<le> vb_x v \<and> vb_x v \<le> w) vs \<Longrightarrow> x \<le> w \<Longrightarrow> clusters_ok x cs \<Longrightarrow>
      clusters_ok w (foldl merge_band cs vs) \<and> sum_list (map cl_count (foldl merge_band cs vs)) = sum_list (map cl_count cs) + length vs"
    for vs x w cs
  proof (induction vs arbitrary: x cs)
    case Nil
    then show ?case by (auto simp: clusters_ok_def list_all_iff)
  next
    case (Cons v vs)
    note merge = clusters_ok_merge [OF Cons.prems(4), of v]
    have "clusters_ok w (foldl merge_band (merge_band cs v) vs) \<and>
        sum_list (map cl_count (foldl merge_band (merge_band cs v) vs)) = sum_list (map cl_count (merge_band cs v)) + length vs"
      using Cons.prems merge(1) by (intro Cons.IH [of "vb_x v"]) (auto simp: list_all_iff)
    with merge(2) Cons.prems(2) show ?case by simp
  qed
  have vis: "sorted (map vb_x (visible_bands g))" "list_all (\<lambda>v. GUTTER_WIDTH_PX \<le> vb_x v \<and> vb_x v \<le> gr_widthCss g) (visible_bands g)"
    by (auto simp: visible_bands_def Let_def list_all_iff)
  show ?thesis
  proof (cases "\<not> gr_interventionBandsVisible g \<or> gr_interventions g = [] \<or> gr_widthCss g \<le> GUTTER_WIDTH_PX")
    case True
    then show ?thesis by (auto simp: drawInterventionBands_def Let_def visible_bands_def)
  next
    case False
    have "clusters_ok GUTTER_WIDTH_PX []" by (simp add: clusters_ok_def)
    from run [OF vis(1) vis(2) _ this] False show ?thesis
      by (simp add: drawInterventionBands_def Let_def clusters_ok_def list_all_iff)
  qed
qed

text \<open>Two refinements side by side are drawn in goldfive's colour: the merge knows four of the six sources.\<close>

theorem merged_refines_lose_colour:
  "let band = \<lparr>vb_atMs = 0, vb_x = 300, vb_source = IS_refine, vb_severity = ''info''\<rparr>
   in map cl_source (foldl merge_band [] [band]) = [IS_refine] \<and> map cl_source (foldl merge_band [] [band, band]) = [IS_goldfive]"
  by (simp add: merge_band_def pickSource_def)

end
