(* ===== verification/GanttRenderer.thy ===== *)
theory GanttRenderer
  imports GanttOverlay Shortcuts
begin

text \<open>
  The handlers and the frame loop of \<open>GanttRenderer\<close>, \<open>frontend/src/gantt/renderer.ts\<close>, as state passing over the renderer and the
  session store it was given. The wall clock, the frame clock (\<open>performance.now()\<close>) and the exponential of the wheel are
  arguments; the callbacks are recorded in \<open>gr_calls\<close>. What a layer was painted from is kept beside the renderer, so that
  the theorems can say when a layer on the screen is out of date.
\<close>

section \<open>Layers and the viewport\<close>

definition mark_all :: "gantt_renderer \<Rightarrow> gantt_renderer" where
  "mark_all g = g\<lparr>gr_bgDirty := True, gr_blocksDirty := True, gr_overlayDirty := True\<rparr>"

definition mark_blocks :: "gantt_renderer \<Rightarrow> gantt_renderer" where
  "mark_blocks g = g\<lparr>gr_blocksDirty := True\<rparr>"

definition mark_overlay :: "gantt_renderer \<Rightarrow> gantt_renderer" where
  "mark_overlay g = g\<lparr>gr_overlayDirty := True\<rparr>"

definition callback :: "renderer_call \<Rightarrow> gantt_renderer \<Rightarrow> gantt_renderer" where
  "callback c g = g\<lparr>gr_calls := gr_calls g @ [c]\<rparr>"

definition setViewport :: "viewport_state \<Rightarrow> gantt_renderer \<Rightarrow> gantt_renderer" where
  "setViewport v g = callback (On_viewport v) (mark_all (g\<lparr>gr_viewport := v\<rparr>))"

definition scheduleFrame :: "gantt_renderer \<Rightarrow> gantt_renderer" where
  "scheduleFrame g = (if gr_stopped g \<or> gr_rafPending g then g else g\<lparr>gr_rafPending := True\<rparr>)"

definition attach :: "gantt_renderer \<Rightarrow> gantt_renderer" where
  "attach g = scheduleFrame (g\<lparr>gr_attached := True, gr_stopped := False\<rparr>)"

definition detach :: "gantt_renderer \<Rightarrow> gantt_renderer" where
  "detach g = g\<lparr>gr_stopped := True, gr_rafPending := False, gr_attached := False\<rparr>"

definition resize :: "rat \<Rightarrow> rat \<Rightarrow> gantt_renderer \<Rightarrow> gantt_renderer" where
  "resize widthCss heightCss g = mark_all (g\<lparr>gr_widthCss := widthCss, gr_heightCss := heightCss\<rparr>)"

definition onThemeChange :: "gantt_renderer \<Rightarrow> gantt_renderer" where
  "onThemeChange g = mark_all g"

section \<open>Pointer and wheel\<close>

definition handleWheel :: "bool \<Rightarrow> rat \<Rightarrow> rat \<Rightarrow> rat \<Rightarrow> rat \<Rightarrow> gantt_renderer \<Rightarrow> gantt_renderer" where
  \<comment> \<open>\<open>zoomKey\<close> is \<open>ctrlKey || metaKey\<close>, \<open>factor\<close> is \<open>Math.exp(-deltaY * 0.001)\<close>\<close>
  "handleWheel zoomKey deltaX deltaY offsetX factor g =
     (if zoomKey \<or> \<bar>deltaY\<bar> > \<bar>deltaX\<bar>
      then let focusMs = pxToMs (gr_viewport g) (gr_widthCss g) offsetX
           in setViewport (zoomAround (gr_viewport g) focusMs factor) g
      else let frac = deltaX / (gr_widthCss g - GUTTER_WIDTH_PX)
           in setViewport (pan (gr_viewport g) frac) g)"

definition handleClick :: "session_store \<Rightarrow> rat \<Rightarrow> rat \<Rightarrow> rat \<Rightarrow> gantt_renderer \<Rightarrow> gantt_renderer" where
  \<comment> \<open>\<open>perf\<close> is \<open>performance.now()\<close>\<close>
  "handleClick st perf x y g =
     (if x < GUTTER_WIDTH_PX \<and> of_int TOP_MARGIN_PX \<le> y
      then (case agentAtY g st y of
              None \<Rightarrow> g
            | Some i \<Rightarrow> if i = '''' then g else callback (On_gutter_agent i) g)
      else let hit = hitTest g st x y
           in if truthy hit then callback (On_select hit x y) (mark_overlay (g\<lparr>gr_selectedSpanId := hit\<rparr>))
              else case hitTestDelegation g x y of
                     Some d \<Rightarrow>
                       callback (On_delegation_click d)
                         (mark_overlay (g\<lparr>gr_pulsingDelegationSeq := Some (dl_seq d), gr_pulseUntilMs := perf + 500\<rparr>))
                   | None \<Rightarrow> callback (On_select None x y) (mark_overlay (g\<lparr>gr_selectedSpanId := None\<rparr>)))"

definition hover_span :: "string option \<Rightarrow> rat \<Rightarrow> rat \<Rightarrow> gantt_renderer \<Rightarrow> gantt_renderer" where
  "hover_span hit x y g =
     (if hit \<noteq> gr_hoveredSpanId g
      then callback (On_hover (if truthy hit then map_option (\<lambda>i. (i, x, y)) hit else None)) (mark_overlay (g\<lparr>gr_hoveredSpanId := hit\<rparr>))
      else g)"

definition hover_delegation :: "delegation_record option \<Rightarrow> rat \<Rightarrow> rat \<Rightarrow> gantt_renderer \<Rightarrow> gantt_renderer" where
  "hover_delegation delegHit x y g =
     (let nextSeq = map_option dl_seq delegHit
      in if nextSeq \<noteq> gr_hoveredDelegationSeq g
         then callback (On_delegation_hover (map_option (\<lambda>d. (d, x, y)) delegHit)) (mark_overlay (g\<lparr>gr_hoveredDelegationSeq := nextSeq\<rparr>))
         else case delegHit of None \<Rightarrow> g | Some d \<Rightarrow> callback (On_delegation_hover (Some (d, x, y))) g)"

definition handlePointerMove :: "session_store \<Rightarrow> rat \<Rightarrow> rat \<Rightarrow> gantt_renderer \<Rightarrow> gantt_renderer" where
  "handlePointerMove st x y g =
     (let hit = hitTest g st x y;
          g1 = hover_span hit x y g;
          edgeIdx = (if truthy hit then None else edgeHitTest g1 x y);
          g2 = (if edgeIdx \<noteq> gr_hoveredEdgeIdx g1 then mark_overlay (g1\<lparr>gr_hoveredEdgeIdx := edgeIdx\<rparr>) else g1);
          delegHit = (if truthy hit \<or> edgeIdx \<noteq> None then None else hitTestDelegation g2 x y)
      in hover_delegation delegHit x y g2)"

definition handlePointerLeave :: "gantt_renderer \<Rightarrow> gantt_renderer" where
  "handlePointerLeave g =
     (let g1 = (if truthy (gr_hoveredSpanId g) then callback (On_hover None) (mark_overlay (g\<lparr>gr_hoveredSpanId := None\<rparr>)) else g);
          g2 = (if gr_hoveredEdgeIdx g1 \<noteq> None then mark_overlay (g1\<lparr>gr_hoveredEdgeIdx := None\<rparr>) else g1)
      in if gr_hoveredDelegationSeq g2 \<noteq> None
         then callback (On_delegation_hover None) (mark_overlay (g2\<lparr>gr_hoveredDelegationSeq := None\<rparr>)) else g2)"

section \<open>Commands of the chrome\<close>

definition gr_panBy :: "rat \<Rightarrow> gantt_renderer \<Rightarrow> gantt_renderer" where
  "gr_panBy fraction g = setViewport (pan (gr_viewport g) fraction) g"

definition gr_zoomBy :: "rat \<Rightarrow> gantt_renderer \<Rightarrow> gantt_renderer" where
  "gr_zoomBy factor g = setViewport (zoomMiddle (gr_viewport g) factor) g"

definition gr_returnToLive :: "session_store \<Rightarrow> gantt_renderer \<Rightarrow> gantt_renderer" where
  "gr_returnToLive st g = setViewport (returnToLive (gr_viewport g) (of_int (ss_nowMs st))) g"

definition gr_setLiveFollow :: "session_store \<Rightarrow> bool \<Rightarrow> gantt_renderer \<Rightarrow> gantt_renderer" where
  "gr_setLiveFollow st enabled g =
     (if enabled then gr_returnToLive st g
      else if vs_liveFollow (gr_viewport g) then setViewport ((gr_viewport g)\<lparr>vs_liveFollow := False\<rparr>) g else g)"

definition gr_fitAll :: "session_store \<Rightarrow> gantt_renderer \<Rightarrow> gantt_renderer" where
  "gr_fitAll st g = setViewport (fitAll (gr_viewport g) (of_int (si_maxEndMs (ss_spans st))) (of_int (ss_nowMs st))) g"

definition gr_jumpToLastActivity :: "session_store \<Rightarrow> gantt_renderer \<Rightarrow> gantt_renderer" where
  "gr_jumpToLastActivity st g =
     (let maxEnd = si_maxEndMs (ss_spans st)
      in if maxEnd \<le> 0 then g else setViewport (jumpToLastActivity (gr_viewport g) (of_int maxEnd)) g)"

definition focusAgent :: "string option \<Rightarrow> gantt_renderer \<Rightarrow> gantt_renderer" where
  "focusAgent i g = g\<lparr>gr_focusedAgentId := i, gr_bgDirty := True, gr_blocksDirty := True\<rparr>"

definition gr_setTaskPlanMode :: "task_plan_mode \<Rightarrow> gantt_renderer \<Rightarrow> gantt_renderer" where
  "gr_setTaskPlanMode m g = (if gr_taskPlanMode g = m then g else mark_blocks (g\<lparr>gr_taskPlanMode := m\<rparr>))"

definition gr_setTaskPlanVisible :: "bool \<Rightarrow> gantt_renderer \<Rightarrow> gantt_renderer" where
  "gr_setTaskPlanVisible v g = (if gr_taskPlanVisible g = v then g else mark_blocks (g\<lparr>gr_taskPlanVisible := v\<rparr>))"

definition setContextOverlayVisible :: "bool \<Rightarrow> gantt_renderer \<Rightarrow> gantt_renderer" where
  "setContextOverlayVisible v g =
     (if gr_contextOverlayVisible g = v then g
      else let g1 = mark_blocks (g\<lparr>gr_contextOverlayVisible := v\<rparr>) in if \<not> v then g1\<lparr>gr_contextBandByAgent := []\<rparr> else g1)"

definition setInterventions :: "bool \<Rightarrow> intervention_row list \<Rightarrow> gantt_renderer \<Rightarrow> gantt_renderer" where
  \<comment> \<open>\<open>same\<close> is whether the array is the very object given before\<close>
  "setInterventions same rows g = (if same then g else mark_overlay (g\<lparr>gr_interventions := rows\<rparr>))"

definition setInterventionBandsVisible :: "bool \<Rightarrow> gantt_renderer \<Rightarrow> gantt_renderer" where
  "setInterventionBandsVisible v g =
     (if gr_interventionBandsVisible g = v then g else mark_overlay (g\<lparr>gr_interventionBandsVisible := v\<rparr>))"

definition setSelectedTaskSpanId :: "string option \<Rightarrow> gantt_renderer \<Rightarrow> gantt_renderer" where
  "setSelectedTaskSpanId i g = (if gr_selectedTaskSpanId g = i then g else mark_overlay (g\<lparr>gr_selectedTaskSpanId := i\<rparr>))"

definition setHiddenAgents :: "string list \<Rightarrow> gantt_renderer \<Rightarrow> gantt_renderer" where
  "setHiddenAgents ids g =
     (let next = remdups ids
      in if length next = length (gr_hiddenAgentIds g) \<and> list_all (\<lambda>i. i \<in> set (gr_hiddenAgentIds g)) next then g
         else mark_all (g\<lparr>gr_hiddenAgentIds := next\<rparr>))"

definition onSpanDirty :: "dirty_rect \<Rightarrow> gantt_renderer \<Rightarrow> gantt_renderer" where
  "onSpanDirty d g =
     (if dr_agent d = None \<or>
         ((case dr_t1 d of Fin t \<Rightarrow> viewportStart (gr_viewport g) \<le> of_int t | PInf \<Rightarrow> True) \<and> of_int (dr_t0 d) \<le> vs_endMs (gr_viewport g))
      then mark_blocks g else g)"

section \<open>The frame loop\<close>

definition freezeAt :: "int option \<Rightarrow> gantt_renderer \<Rightarrow> session_store \<Rightarrow> gantt_renderer \<times> session_store" where
  "freezeAt ts g st =
     (g\<lparr>gr_frozenNowMs := ts, gr_blocksDirty := True, gr_overlayDirty := True\<rparr>,
      case ts of None \<Rightarrow> st | Some t \<Rightarrow> st\<lparr>ss_nowMs := t\<rparr>)"

definition blocks_caches :: "string list \<Rightarrow> session_store \<Rightarrow> gantt_renderer \<Rightarrow> gantt_renderer" where
  \<comment> \<open>what \<open>drawBlocks\<close> leaves in the renderer\<close>
  "blocks_caches palette st g =
     (let g1 = g\<lparr>gr_contextBandByAgent := drawContextWindowBands g st\<rparr>;
          g2 = g1\<lparr>gr_taskRectsById := drawTasksAndEdges g1 st\<rparr>;
          g3 = g2\<lparr>gr_edges := drawLinks palette g2 st\<rparr>
      in g3\<lparr>gr_delegationEdges := drawDelegations g3 st\<rparr>)"

definition drawOverlay :: "rat \<Rightarrow> gantt_renderer \<Rightarrow> gantt_renderer" where
  \<comment> \<open>what the overlay pass writes: the pulse asks for another frame or is dropped\<close>
  "drawOverlay perf g =
     (let pulseActive = (gr_pulsingDelegationSeq g \<noteq> None \<and> perf < gr_pulseUntilMs g)
      in if pulseActive \<or> gr_hoveredDelegationSeq g \<noteq> None
         then if pulseActive then mark_overlay g
              else if gr_pulsingDelegationSeq g \<noteq> None then g\<lparr>gr_pulsingDelegationSeq := None\<rparr> else g
         else g)"

definition animated_rects :: "gantt_renderer \<Rightarrow> session_store \<Rightarrow> (span \<times> px_rect) list" where
  \<comment> \<open>\<open>drawAnimatedSpans\<close>: the rectangles that breathe or pulse, before the two pixels that the latter add\<close>
  "animated_rects g st =
     concat (map (\<lambda>(a, y, rowH).
        map (\<lambda>s. (s, bar_rect g st y rowH (getLaneCount st (ag_id a)) s))
          (filter (\<lambda>s. sp_status s = SP_RUNNING \<or> sp_status s = SP_AWAITING_HUMAN) (visible_spans g st (ag_id a)))) (gantt_rows g st))"

definition frame ::
  "string list \<Rightarrow> int \<Rightarrow> rat \<Rightarrow> gantt_renderer \<Rightarrow> session_store \<Rightarrow> gantt_renderer \<times> session_store \<times> bool \<times> bool \<times> bool" where
  \<comment> \<open>\<open>dateNow\<close> is \<open>Date.now()\<close>; the flags tell which layers were painted\<close>
  "frame palette dateNow perf g st =
     (let st1 = (if gr_frozenNowMs g \<noteq> None then st
                 else if 0 < ss_wallClockStartMs st then st\<lparr>ss_nowMs := dateNow - ss_wallClockStartMs st\<rparr> else st);
          g1 = g\<lparr>gr_viewport := advanceLive (gr_viewport g) (of_int (ss_nowMs st1))\<rparr>;
          g2 = (if ss_nowMs st1 \<noteq> ss_nowMs st then g1\<lparr>gr_blocksDirty := True, gr_overlayDirty := True\<rparr> else g1);
          bg = gr_bgDirty g2 \<and> gr_attached g2;
          blocks = gr_blocksDirty g2 \<and> gr_attached g2;
          g3 = (if blocks then blocks_caches palette st1 g2 else g2);
          overlay = gr_overlayDirty g3 \<and> gr_attached g3;
          g4 = (if overlay then drawOverlay perf g3 else g3)
      in (g4\<lparr>gr_bgDirty := False, gr_blocksDirty := False, gr_overlayDirty := False\<rparr>, st1, bg, blocks, overlay))"

definition record_sample :: "rat \<Rightarrow> gantt_renderer \<Rightarrow> gantt_renderer" where
  "record_sample dur g =
     g\<lparr>gr_samples := (gr_samples g)[gr_sampleIdx g := dur], gr_sampleIdx := (gr_sampleIdx g + 1) mod length (gr_samples g),
       gr_sampleCount := (if gr_sampleCount g < length (gr_samples g) then gr_sampleCount g + 1 else gr_sampleCount g)\<rparr>"

definition p95FrameMs :: "gantt_renderer \<Rightarrow> rat" where
  "p95FrameMs g =
     (let n = gr_sampleCount g
      in if n = 0 then 0
         else let arr = sort (take n (gr_samples g)); k = n * 95 div 100 in arr ! k)"

definition resetMetrics :: "gantt_renderer \<Rightarrow> gantt_renderer" where
  "resetMetrics g = g\<lparr>gr_sampleCount := 0, gr_sampleIdx := 0\<rparr>"

section \<open>What is on the screen\<close>

type_synonym layer_view =
  "viewport_state \<times> rat \<times> rat \<times> string set \<times> string option \<times> task_plan_mode \<times> bool \<times> bool \<times> int \<times>
     agent_registry \<times> task_registry \<times> context_series \<times> delegation_record registry"

definition blocks_view :: "gantt_renderer \<Rightarrow> session_store \<Rightarrow> layer_view" where
  \<comment> \<open>everything but the spans that a paint of the blocks layer reads\<close>
  "blocks_view g st =
     (gr_viewport g, gr_widthCss g, gr_heightCss g, set (gr_hiddenAgentIds g), gr_focusedAgentId g, gr_taskPlanMode g,
      gr_taskPlanVisible g, gr_contextOverlayVisible g, ss_nowMs st,
      ss_agents st, ss_tasks st, ss_contextSeries st, ss_delegations st)"

record gantt_canvas =
  gc_renderer :: gantt_renderer
  gc_store :: session_store
  gc_blocks :: "layer_view option" \<comment> \<open>what the blocks layer on the screen was painted from, if it was\<close>
  gc_axis :: "viewport_state option" \<comment> \<open>the viewport that the time axis of the background was painted for\<close>

datatype canvas_op =
  C_mount rat rat | C_unmount | C_resize rat rat | C_theme | C_wheel bool rat rat rat rat | C_click rat rat rat | C_move rat rat
  | C_leave | C_pan rat | C_zoom rat | C_live | C_follow bool | C_fit | C_jump | C_minimap viewport_op | C_focus "string option"
  | C_plan_mode task_plan_mode | C_plan_visible bool | C_overlay bool | C_interventions bool "intervention_row list"
  | C_bands bool | C_task_span "string option" | C_hidden "string list" | C_freeze "int option" | C_frame int rat rat
  | C_spans span_index dirty_rect | C_agents agent_registry | C_tasks task_registry | C_series context_series
  | C_delegations "delegation_record registry" | C_reset

definition on_renderer :: "(gantt_renderer \<Rightarrow> gantt_renderer) \<Rightarrow> gantt_canvas \<Rightarrow> gantt_canvas" where
  "on_renderer f c = c\<lparr>gc_renderer := f (gc_renderer c)\<rparr>"

definition on_data :: "(session_store \<Rightarrow> session_store) \<Rightarrow> (gantt_renderer \<Rightarrow> gantt_renderer) \<Rightarrow> gantt_canvas \<Rightarrow> gantt_canvas" where
  \<comment> \<open>a change of the data, and the subscription of an attached renderer\<close>
  "on_data s f c =
     c\<lparr>gc_renderer := (if gr_attached (gc_renderer c) then f (gc_renderer c) else gc_renderer c), gc_store := s (gc_store c)\<rparr>"

definition run_frame :: "string list \<Rightarrow> int \<Rightarrow> rat \<Rightarrow> rat \<Rightarrow> gantt_canvas \<Rightarrow> gantt_canvas" where
  \<comment> \<open>the callback of \<open>requestAnimationFrame\<close>, when one is pending\<close>
  "run_frame palette dateNow perf dur c =
     (if \<not> gr_rafPending (gc_renderer c) then c
      else let (g, st, bg, blocks, overlay) = frame palette dateNow perf ((gc_renderer c)\<lparr>gr_rafPending := False\<rparr>) (gc_store c)
           in c\<lparr>gc_renderer := scheduleFrame (record_sample dur g), gc_store := st,
                gc_blocks := (if blocks then Some (blocks_view g st) else gc_blocks c),
                gc_axis := (if bg then Some (gr_viewport g) else gc_axis c)\<rparr>)"

fun canvas_step :: "string list \<Rightarrow> gantt_canvas \<Rightarrow> canvas_op \<Rightarrow> gantt_canvas" where
  "canvas_step pal c (C_mount w h) = (on_renderer (\<lambda>g. resize w h (attach g)) c)\<lparr>gc_blocks := None, gc_axis := None\<rparr>"
| "canvas_step pal c C_unmount = on_renderer detach c"
| "canvas_step pal c (C_resize w h) = on_renderer (resize w h) c"
| "canvas_step pal c C_theme = on_renderer onThemeChange c"
| "canvas_step pal c (C_wheel k dx dy ox f) = on_renderer (handleWheel k dx dy ox f) c"
| "canvas_step pal c (C_click perf x y) = on_renderer (handleClick (gc_store c) perf x y) c"
| "canvas_step pal c (C_move x y) = on_renderer (handlePointerMove (gc_store c) x y) c"
| "canvas_step pal c C_leave = on_renderer handlePointerLeave c"
| "canvas_step pal c (C_pan f) = on_renderer (gr_panBy f) c"
| "canvas_step pal c (C_zoom f) = on_renderer (gr_zoomBy f) c"
| "canvas_step pal c C_live = on_renderer (gr_returnToLive (gc_store c)) c"
| "canvas_step pal c (C_follow b) = on_renderer (gr_setLiveFollow (gc_store c) b) c"
| "canvas_step pal c C_fit = on_renderer (gr_fitAll (gc_store c)) c"
| "canvas_step pal c C_jump = on_renderer (gr_jumpToLastActivity (gc_store c)) c"
| "canvas_step pal c (C_minimap op) =
     (if from_minimap op then on_renderer (\<lambda>g. setViewport (viewport_step (gr_viewport g) op) g) c else c)"
| "canvas_step pal c (C_focus i) = on_renderer (focusAgent i) c"
| "canvas_step pal c (C_plan_mode m) = on_renderer (gr_setTaskPlanMode m) c"
| "canvas_step pal c (C_plan_visible b) = on_renderer (gr_setTaskPlanVisible b) c"
| "canvas_step pal c (C_overlay b) = on_renderer (setContextOverlayVisible b) c"
| "canvas_step pal c (C_interventions same rows) = on_renderer (setInterventions same rows) c"
| "canvas_step pal c (C_bands b) = on_renderer (setInterventionBandsVisible b) c"
| "canvas_step pal c (C_task_span i) = on_renderer (setSelectedTaskSpanId i) c"
| "canvas_step pal c (C_hidden ids) = on_renderer (setHiddenAgents ids) c"
| "canvas_step pal c (C_freeze ts) =
     (let (g, st) = freezeAt ts (gc_renderer c) (gc_store c) in c\<lparr>gc_renderer := g, gc_store := st\<rparr>)"
| "canvas_step pal c (C_frame dateNow perf dur) = run_frame pal dateNow perf dur c"
| "canvas_step pal c (C_spans ix d) = on_data (\<lambda>st. st\<lparr>ss_spans := ix\<rparr>) (onSpanDirty d) c"
| "canvas_step pal c (C_agents r) = on_data (\<lambda>st. st\<lparr>ss_agents := r\<rparr>) (\<lambda>g. g\<lparr>gr_bgDirty := True, gr_blocksDirty := True\<rparr>) c"
| "canvas_step pal c (C_tasks r) = on_data (\<lambda>st. st\<lparr>ss_tasks := r\<rparr>) mark_blocks c"
| "canvas_step pal c (C_series r) = on_data (\<lambda>st. st\<lparr>ss_contextSeries := r\<rparr>) mark_blocks c"
| "canvas_step pal c (C_delegations r) = on_data (\<lambda>st. st\<lparr>ss_delegations := r\<rparr>) mark_blocks c"
| "canvas_step pal c C_reset = on_renderer resetMetrics c"

definition initial_canvas :: "session_store \<Rightarrow> gantt_canvas" where
  "initial_canvas st = \<lparr>gc_renderer = initial_renderer, gc_store = st, gc_blocks = None, gc_axis = None\<rparr>"

definition run_canvas :: "string list \<Rightarrow> session_store \<Rightarrow> canvas_op list \<Rightarrow> gantt_canvas" where
  "run_canvas pal st ops = foldl (canvas_step pal) (initial_canvas st) ops"

section \<open>The blocks layer is never out of date\<close>

definition settled_live :: "gantt_renderer \<Rightarrow> session_store \<Rightarrow> bool" where
  "settled_live g st \<longleftrightarrow> advanceLive (gr_viewport g) (of_int (ss_nowMs st)) = gr_viewport g"

definition fresh :: "gantt_canvas \<Rightarrow> bool" where
  "fresh c \<longleftrightarrow> gc_blocks c = Some (blocks_view (gc_renderer c) (gc_store c)) \<and> settled_live (gc_renderer c) (gc_store c)"

definition canvas_ok :: "gantt_canvas \<Rightarrow> bool" where
  "canvas_ok c \<longleftrightarrow>
     (gr_attached (gc_renderer c) \<longleftrightarrow> \<not> gr_stopped (gc_renderer c)) \<and>
     (gr_rafPending (gc_renderer c) \<longleftrightarrow> gr_attached (gc_renderer c)) \<and>
     viewport_ok (gr_viewport (gc_renderer c)) \<and>
     length (gr_samples (gc_renderer c)) = 600 \<and> gr_sampleIdx (gc_renderer c) < 600 \<and> gr_sampleCount (gc_renderer c) \<le> 600 \<and>
     (gr_attached (gc_renderer c) \<longrightarrow> gr_blocksDirty (gc_renderer c) \<or> fresh c)"

definition same_view :: "gantt_renderer \<Rightarrow> gantt_renderer \<Rightarrow> bool" where
  \<comment> \<open>the loop and the metrics are untouched, and so is what the blocks layer shows unless it is marked\<close>
  "same_view g g' \<longleftrightarrow>
     gr_attached g' = gr_attached g \<and> gr_stopped g' = gr_stopped g \<and> gr_rafPending g' = gr_rafPending g \<and>
     gr_samples g' = gr_samples g \<and> gr_sampleIdx g' = gr_sampleIdx g \<and> gr_sampleCount g' = gr_sampleCount g \<and>
     (gr_blocksDirty g \<longrightarrow> gr_blocksDirty g') \<and>
     (gr_blocksDirty g' \<or> (gr_viewport g' = gr_viewport g \<and> (\<forall>st. blocks_view g' st = blocks_view g st))) \<and>
     (viewport_ok (gr_viewport g) \<longrightarrow> viewport_ok (gr_viewport g'))"

lemma same_view_refl [simp]: "same_view g g"
  by (simp add: same_view_def)

lemma same_view_trans: "same_view g g1 \<Longrightarrow> same_view g1 g2 \<Longrightarrow> same_view g g2"
  by (auto simp: same_view_def)

lemma canvas_ok_same:
  assumes "canvas_ok c" and "same_view (gc_renderer c) g"
    and "gr_blocksDirty g \<or> (\<forall>g. blocks_view g st = blocks_view g (gc_store c))"
  shows "canvas_ok (c\<lparr>gc_renderer := g, gc_store := st\<rparr>)"
proof -
  have "settled_live g st = settled_live g (gc_store c)" if "blocks_view g st = blocks_view g (gc_store c)"
    using that by (simp add: settled_live_def blocks_view_def)
  with assms show ?thesis by (auto simp: canvas_ok_def same_view_def fresh_def settled_live_def)
qed

lemma mark_blocks_dirty [simp]: "gr_blocksDirty (mark_blocks g)"
  by (simp add: mark_blocks_def)

lemma canvas_ok_on: "canvas_ok c \<Longrightarrow> same_view (gc_renderer c) (f (gc_renderer c)) \<Longrightarrow> canvas_ok (on_renderer f c)"
  using canvas_ok_same [of c "f (gc_renderer c)" "gc_store c"] by (simp add: on_renderer_def)

lemma canvas_ok_data:
  assumes "canvas_ok c" and "\<And>g. same_view g (f g)"
    and "(\<forall>g. gr_blocksDirty (f g)) \<or> (\<forall>g. blocks_view g (s (gc_store c)) = blocks_view g (gc_store c))"
  shows "canvas_ok (on_data s f c)"
proof (cases "gr_attached (gc_renderer c)")
  case True
  have "canvas_ok (c\<lparr>gc_renderer := f (gc_renderer c), gc_store := s (gc_store c)\<rparr>)"
    by (rule canvas_ok_same) (use assms in blast)+
  with True show ?thesis by (simp add: on_data_def)
next
  case False
  with assms(1) show ?thesis by (simp add: on_data_def canvas_ok_def)
qed

named_theorems view_simps

lemma same_view_callback [view_simps]: "same_view g (callback k g') = same_view g g'"
  by (simp add: same_view_def callback_def blocks_view_def)

lemma same_view_overlay [view_simps]: "same_view g (mark_overlay g') = same_view g g'"
  by (simp add: same_view_def mark_overlay_def blocks_view_def)

lemma same_view_hover [view_simps]:
  "same_view g (g'\<lparr>gr_selectedSpanId := i\<rparr>) = same_view g g'" "same_view g (g'\<lparr>gr_hoveredSpanId := i\<rparr>) = same_view g g'"
  "same_view g (g'\<lparr>gr_hoveredEdgeIdx := e\<rparr>) = same_view g g'" "same_view g (g'\<lparr>gr_hoveredDelegationSeq := q\<rparr>) = same_view g g'"
  "same_view g (g'\<lparr>gr_pulsingDelegationSeq := q, gr_pulseUntilMs := t\<rparr>) = same_view g g'"
  "same_view g (g'\<lparr>gr_selectedTaskSpanId := i\<rparr>) = same_view g g'" "same_view g (g'\<lparr>gr_interventions := rows\<rparr>) = same_view g g'"
  "same_view g (g'\<lparr>gr_interventionBandsVisible := b\<rparr>) = same_view g g'"
  by (simp_all add: same_view_def blocks_view_def)

lemma same_view_viewport:
  "(viewport_ok (gr_viewport g) \<Longrightarrow> viewport_ok v) \<Longrightarrow> same_view g (setViewport v g)"
  by (simp add: setViewport_def same_view_callback) (simp add: same_view_def mark_all_def)

lemma viewport_ok_writers:
  assumes "viewport_ok v"
  shows "viewport_ok (pan v f)" "viewport_ok (zoomAround v t f)" "viewport_ok (zoomMiddle v f)" "viewport_ok (returnToLive v t)"
    "viewport_ok (fitAll v e t)" "viewport_ok (jumpToLastActivity v e)" "viewport_ok (v\<lparr>vs_liveFollow := False\<rparr>)"
    "viewport_ok (advanceLive v t)"
  using viewport_ok_step [OF assms, of "VPan f"] viewport_ok_step [OF assms, of "VZoom t f"] viewport_ok_step [OF assms, of "VZoomMiddle f"]
    viewport_ok_step [OF assms, of "VReturn t"] viewport_ok_step [OF assms, of "VFitAll e t"] viewport_ok_step [OF assms, of "VJump e"]
    viewport_ok_step [OF assms, of "VAdvance t"] assms
  by (simp_all add: viewport_ok_def)

lemma same_view_pointer [view_simps]:
  "same_view g (handleClick st perf x y g)" "same_view g (handlePointerMove st x y g)" "same_view g (handlePointerLeave g)"
  unfolding handleClick_def handlePointerMove_def handlePointerLeave_def hover_span_def hover_delegation_def Let_def
  by (auto simp: view_simps split: option.split)

lemma same_view_commands [view_simps]:
  "same_view g (handleWheel k dx dy ox f g)" "same_view g (gr_panBy f g)" "same_view g (gr_zoomBy f g)"
  "same_view g (gr_returnToLive st g)" "same_view g (gr_setLiveFollow st b g)" "same_view g (gr_fitAll st g)"
  "same_view g (gr_jumpToLastActivity st g)" "same_view g (setViewport (viewport_step (gr_viewport g) op) g)"
  by (auto simp: handleWheel_def gr_panBy_def gr_zoomBy_def gr_returnToLive_def gr_setLiveFollow_def gr_fitAll_def gr_jumpToLastActivity_def
      Let_def intro!: same_view_viewport viewport_ok_writers viewport_ok_step)

lemma same_view_settings [view_simps]:
  "same_view g (focusAgent i g)" "same_view g (gr_setTaskPlanMode m g)" "same_view g (gr_setTaskPlanVisible b g)"
  "same_view g (setContextOverlayVisible b g)" "same_view g (resize w h g)" "same_view g (onThemeChange g)"
  "same_view g (setHiddenAgents ids g)" "same_view g (onSpanDirty d g)" "same_view g (mark_blocks g)"
  "same_view g (g\<lparr>gr_bgDirty := True, gr_blocksDirty := True\<rparr>)"
  by (auto simp: same_view_def focusAgent_def gr_setTaskPlanMode_def gr_setTaskPlanVisible_def setContextOverlayVisible_def resize_def
      onThemeChange_def setHiddenAgents_def onSpanDirty_def mark_blocks_def mark_all_def Let_def)

lemma same_view_overlay_settings [view_simps]:
  "same_view g (setInterventions b rows g)" "same_view g (setInterventionBandsVisible v g)" "same_view g (setSelectedTaskSpanId i g)"
  by (simp_all add: setInterventions_def setInterventionBandsVisible_def setSelectedTaskSpanId_def view_simps)

lemma advanceLive_settled: "advanceLive (advanceLive v t) t = advanceLive v t"
  by (simp add: advanceLive_def Let_def clampEnd_def)

lemma blocks_caches_frame [simp]:
  "gr_viewport (blocks_caches pal st g) = gr_viewport g"
  "gr_widthCss (blocks_caches pal st g) = gr_widthCss g"
  "gr_heightCss (blocks_caches pal st g) = gr_heightCss g"
  "gr_hiddenAgentIds (blocks_caches pal st g) = gr_hiddenAgentIds g"
  "gr_focusedAgentId (blocks_caches pal st g) = gr_focusedAgentId g"
  "gr_taskPlanMode (blocks_caches pal st g) = gr_taskPlanMode g"
  "gr_taskPlanVisible (blocks_caches pal st g) = gr_taskPlanVisible g"
  "gr_contextOverlayVisible (blocks_caches pal st g) = gr_contextOverlayVisible g"
  "gr_attached (blocks_caches pal st g) = gr_attached g"
  "gr_stopped (blocks_caches pal st g) = gr_stopped g"
  "gr_rafPending (blocks_caches pal st g) = gr_rafPending g"
  "gr_samples (blocks_caches pal st g) = gr_samples g"
  "gr_sampleIdx (blocks_caches pal st g) = gr_sampleIdx g"
  "gr_sampleCount (blocks_caches pal st g) = gr_sampleCount g"
  "gr_bgDirty (blocks_caches pal st g) = gr_bgDirty g"
  "gr_blocksDirty (blocks_caches pal st g) = gr_blocksDirty g"
  "gr_overlayDirty (blocks_caches pal st g) = gr_overlayDirty g"
  "gr_frozenNowMs (blocks_caches pal st g) = gr_frozenNowMs g"
  by (simp_all add: blocks_caches_def Let_def)

lemma drawOverlay_frame [simp]:
  "gr_viewport (drawOverlay perf g) = gr_viewport g"
  "gr_widthCss (drawOverlay perf g) = gr_widthCss g"
  "gr_heightCss (drawOverlay perf g) = gr_heightCss g"
  "gr_hiddenAgentIds (drawOverlay perf g) = gr_hiddenAgentIds g"
  "gr_focusedAgentId (drawOverlay perf g) = gr_focusedAgentId g"
  "gr_taskPlanMode (drawOverlay perf g) = gr_taskPlanMode g"
  "gr_taskPlanVisible (drawOverlay perf g) = gr_taskPlanVisible g"
  "gr_contextOverlayVisible (drawOverlay perf g) = gr_contextOverlayVisible g"
  "gr_attached (drawOverlay perf g) = gr_attached g"
  "gr_stopped (drawOverlay perf g) = gr_stopped g"
  "gr_rafPending (drawOverlay perf g) = gr_rafPending g"
  "gr_samples (drawOverlay perf g) = gr_samples g"
  "gr_sampleIdx (drawOverlay perf g) = gr_sampleIdx g"
  "gr_sampleCount (drawOverlay perf g) = gr_sampleCount g"
  "gr_bgDirty (drawOverlay perf g) = gr_bgDirty g"
  "gr_blocksDirty (drawOverlay perf g) = gr_blocksDirty g"
  "gr_frozenNowMs (drawOverlay perf g) = gr_frozenNowMs g"
  by (simp_all add: drawOverlay_def mark_overlay_def Let_def)

lemma frame_view:
  assumes "frame pal dateNow perf g st = (g', st', bg, blocks, overlay)"
  shows "blocks_view g' st' = blocks_view (g\<lparr>gr_viewport := advanceLive (gr_viewport g) (of_int (ss_nowMs st'))\<rparr>) st'"
    and "gr_viewport g' = advanceLive (gr_viewport g) (of_int (ss_nowMs st'))"
    and "blocks \<longleftrightarrow> gr_attached g \<and> (gr_blocksDirty g \<or> ss_nowMs st' \<noteq> ss_nowMs st)"
    and "\<not> gr_bgDirty g'" "\<not> gr_blocksDirty g'" "\<not> gr_overlayDirty g'"
    and "gr_attached g' = gr_attached g" "gr_stopped g' = gr_stopped g" "gr_rafPending g' = gr_rafPending g"
    and "gr_samples g' = gr_samples g" "gr_sampleIdx g' = gr_sampleIdx g" "gr_sampleCount g' = gr_sampleCount g"
    and "bg \<longleftrightarrow> gr_attached g \<and> gr_bgDirty g"
    and "gr_frozenNowMs g' = gr_frozenNowMs g"
    and "st' = (if gr_frozenNowMs g \<noteq> None then st
      else if 0 < ss_wallClockStartMs st then st\<lparr>ss_nowMs := dateNow - ss_wallClockStartMs st\<rparr> else st)"
    and "overlay \<longleftrightarrow> gr_attached g \<and> (gr_overlayDirty g \<or> ss_nowMs st' \<noteq> ss_nowMs st)"
proof -
  define st1 where "st1 = (if gr_frozenNowMs g \<noteq> None then st
    else if 0 < ss_wallClockStartMs st then st\<lparr>ss_nowMs := dateNow - ss_wallClockStartMs st\<rparr> else st)"
  define g1 where "g1 = g\<lparr>gr_viewport := advanceLive (gr_viewport g) (of_int (ss_nowMs st1))\<rparr>"
  define g2 where "g2 = (if ss_nowMs st1 \<noteq> ss_nowMs st then g1\<lparr>gr_blocksDirty := True, gr_overlayDirty := True\<rparr> else g1)"
  define g3 where "g3 = (if gr_blocksDirty g2 \<and> gr_attached g2 then blocks_caches pal st1 g2 else g2)"
  define g4 where "g4 = (if gr_overlayDirty g3 \<and> gr_attached g3 then drawOverlay perf g3 else g3)"
  have res: "g' = g4\<lparr>gr_bgDirty := False, gr_blocksDirty := False, gr_overlayDirty := False\<rparr>" "st' = st1"
      "bg = (gr_bgDirty g2 \<and> gr_attached g2)" "blocks = (gr_blocksDirty g2 \<and> gr_attached g2)"
      "overlay = (gr_overlayDirty g3 \<and> gr_attached g3)"
    using assms unfolding frame_def Let_def st1_def [symmetric] g1_def [symmetric] g2_def [symmetric] g3_def [symmetric] g4_def [symmetric]
    by auto
  have g2: "gr_viewport g2 = advanceLive (gr_viewport g) (of_int (ss_nowMs st1))" "gr_widthCss g2 = gr_widthCss g"
      "gr_heightCss g2 = gr_heightCss g" "gr_hiddenAgentIds g2 = gr_hiddenAgentIds g" "gr_focusedAgentId g2 = gr_focusedAgentId g"
      "gr_taskPlanMode g2 = gr_taskPlanMode g" "gr_taskPlanVisible g2 = gr_taskPlanVisible g"
      "gr_contextOverlayVisible g2 = gr_contextOverlayVisible g" "gr_attached g2 = gr_attached g" "gr_stopped g2 = gr_stopped g"
      "gr_rafPending g2 = gr_rafPending g" "gr_samples g2 = gr_samples g" "gr_sampleIdx g2 = gr_sampleIdx g"
      "gr_sampleCount g2 = gr_sampleCount g" "gr_bgDirty g2 = gr_bgDirty g"
      "gr_blocksDirty g2 = (gr_blocksDirty g \<or> ss_nowMs st1 \<noteq> ss_nowMs st)"
      "gr_overlayDirty g2 = (gr_overlayDirty g \<or> ss_nowMs st1 \<noteq> ss_nowMs st)" "gr_frozenNowMs g2 = gr_frozenNowMs g"
    by (simp_all add: g2_def g1_def)
  have g4: "gr_viewport g4 = gr_viewport g2" "gr_widthCss g4 = gr_widthCss g2"
      "gr_heightCss g4 = gr_heightCss g2" "gr_hiddenAgentIds g4 = gr_hiddenAgentIds g2" "gr_focusedAgentId g4 = gr_focusedAgentId g2"
      "gr_taskPlanMode g4 = gr_taskPlanMode g2" "gr_taskPlanVisible g4 = gr_taskPlanVisible g2"
      "gr_contextOverlayVisible g4 = gr_contextOverlayVisible g2" "gr_attached g4 = gr_attached g2" "gr_stopped g4 = gr_stopped g2"
      "gr_rafPending g4 = gr_rafPending g2" "gr_samples g4 = gr_samples g2" "gr_sampleIdx g4 = gr_sampleIdx g2"
      "gr_sampleCount g4 = gr_sampleCount g2" "gr_frozenNowMs g4 = gr_frozenNowMs g2"
    by (simp_all add: g4_def g3_def)
  have g3: "gr_overlayDirty g3 = gr_overlayDirty g2" "gr_attached g3 = gr_attached g2" by (simp_all add: g3_def)
  show "blocks_view g' st' = blocks_view (g\<lparr>gr_viewport := advanceLive (gr_viewport g) (of_int (ss_nowMs st'))\<rparr>) st'"
    by (simp add: res g4 g2 blocks_view_def)
  show "gr_viewport g' = advanceLive (gr_viewport g) (of_int (ss_nowMs st'))" by (simp add: res g4 g2)
  show "blocks \<longleftrightarrow> gr_attached g \<and> (gr_blocksDirty g \<or> ss_nowMs st' \<noteq> ss_nowMs st)" "bg \<longleftrightarrow> gr_attached g \<and> gr_bgDirty g"
    by (auto simp: res g2)
  show "\<not> gr_bgDirty g'" "\<not> gr_blocksDirty g'" "\<not> gr_overlayDirty g'"
    and "gr_attached g' = gr_attached g" "gr_stopped g' = gr_stopped g" "gr_rafPending g' = gr_rafPending g"
    and "gr_samples g' = gr_samples g" "gr_sampleIdx g' = gr_sampleIdx g" "gr_sampleCount g' = gr_sampleCount g"
    by (simp_all add: res g4 g2)
  show "gr_frozenNowMs g' = gr_frozenNowMs g" by (simp add: res g4 g2)
  show "st' = (if gr_frozenNowMs g \<noteq> None then st
      else if 0 < ss_wallClockStartMs st then st\<lparr>ss_nowMs := dateNow - ss_wallClockStartMs st\<rparr> else st)"
    unfolding res st1_def by (rule refl)
  show "overlay \<longleftrightarrow> gr_attached g \<and> (gr_overlayDirty g \<or> ss_nowMs st' \<noteq> ss_nowMs st)" by (auto simp: res g3 g2)
qed

lemma canvas_ok_frame:
  assumes ok: "canvas_ok c"
  shows "canvas_ok (run_frame pal dateNow perf dur c)"
proof (cases "gr_rafPending (gc_renderer c)")
  case True
  define g0 where "g0 = (gc_renderer c)\<lparr>gr_rafPending := False\<rparr>"
  obtain g st bg blocks overlay where f: "frame pal dateNow perf g0 (gc_store c) = (g, st, bg, blocks, overlay)"
    by (cases "frame pal dateNow perf g0 (gc_store c)") auto
  note view = frame_view [OF f]
  have att: "gr_attached g0" "\<not> gr_stopped g0" using ok True by (auto simp: canvas_ok_def g0_def)
  define g' where "g' = scheduleFrame (record_sample dur g)"
  have g': "gr_attached g'" "\<not> gr_stopped g'" "gr_rafPending g'" "\<not> gr_blocksDirty g'" "gr_viewport g' = gr_viewport g"
      "blocks_view g' st = blocks_view g st"
    using view att by (simp_all add: g'_def scheduleFrame_def record_sample_def blocks_view_def)
  have samples: "length (gr_samples g') = 600" "gr_sampleIdx g' < 600" "gr_sampleCount g' \<le> 600"
    using ok view by (simp_all add: g'_def scheduleFrame_def record_sample_def canvas_ok_def g0_def)
  have vp: "viewport_ok (gr_viewport g')"
    using ok view(2) by (simp add: g' canvas_ok_def g0_def viewport_ok_writers)
  have shown: "(if blocks then Some (blocks_view g st) else gc_blocks c) = Some (blocks_view g' st)"
  proof (cases blocks)
    case False
    with view(3) att have clean: "\<not> gr_blocksDirty (gc_renderer c)" "ss_nowMs st = ss_nowMs (gc_store c)" by (simp_all add: g0_def)
    with ok True have "gc_blocks c = Some (blocks_view (gc_renderer c) (gc_store c))" "settled_live (gc_renderer c) (gc_store c)"
      by (auto simp: canvas_ok_def fresh_def)
    with False clean(2) show ?thesis
      unfolding g'(6) view(1) by (simp add: blocks_view_def g0_def settled_live_def view(15) split: if_splits)
  qed (simp add: g')
  have "settled_live g' st" by (simp add: settled_live_def g' view(2) advanceLive_settled)
  with g' samples vp shown show ?thesis
    using True by (simp add: run_frame_def g0_def [symmetric] f g'_def [symmetric] canvas_ok_def fresh_def)
qed (use ok in \<open>simp add: run_frame_def\<close>)

lemma canvas_ok_step: "canvas_ok c \<Longrightarrow> canvas_ok (canvas_step pal c op)"
proof (cases op)
  case (C_mount w h)
  then show "canvas_ok c \<Longrightarrow> ?thesis"
    by (simp add: canvas_ok_def on_renderer_def resize_def mark_all_def attach_def scheduleFrame_def)
next
  case C_unmount
  then show "canvas_ok c \<Longrightarrow> ?thesis" by (simp add: canvas_ok_def on_renderer_def detach_def)
next
  case (C_freeze ts)
  then show "canvas_ok c \<Longrightarrow> ?thesis" by (simp add: canvas_ok_def freezeAt_def)
next
  case (C_frame a b d)
  then show "canvas_ok c \<Longrightarrow> ?thesis" by (simp add: canvas_ok_frame)
next
  case C_reset
  then show "canvas_ok c \<Longrightarrow> ?thesis"
    by (auto simp: canvas_ok_def on_renderer_def resetMetrics_def fresh_def blocks_view_def settled_live_def)
qed (auto intro!: canvas_ok_on canvas_ok_data simp: view_simps blocks_view_def)

lemma canvas_ok_run: "canvas_ok (run_canvas pal st ops)"
  unfolding run_canvas_def
proof (induction ops rule: rev_induct)
  case Nil
  show ?case by (simp add: initial_canvas_def canvas_ok_def initial_renderer_def defaultViewport_ok)
qed (simp add: canvas_ok_step)


section \<open>What the loop forgets\<close>

lemma live_frame:
  assumes "gr_attached (gc_renderer c)" "\<not> gr_stopped (gc_renderer c)" "gr_rafPending (gc_renderer c)"
    "gr_frozenNowMs (gc_renderer c) = None" "0 < ss_wallClockStartMs (gc_store c)"
    "c' = run_frame pal dateNow perf dur c"
  shows "gr_attached (gc_renderer c')" "\<not> gr_stopped (gc_renderer c')" "gr_rafPending (gc_renderer c')"
    "gr_frozenNowMs (gc_renderer c') = None" "ss_wallClockStartMs (gc_store c') = ss_wallClockStartMs (gc_store c)"
    "gr_viewport (gc_renderer c') = advanceLive (gr_viewport (gc_renderer c)) (of_int (dateNow - ss_wallClockStartMs (gc_store c)))"
    "gc_axis c' = (if gr_bgDirty (gc_renderer c) then Some (gr_viewport (gc_renderer c')) else gc_axis c)"
    "\<not> gr_bgDirty (gc_renderer c')"
proof -
  obtain g st bg blocks overlay where
    f: "frame pal dateNow perf ((gc_renderer c)\<lparr>gr_rafPending := False\<rparr>) (gc_store c) = (g, st, bg, blocks, overlay)"
    by (cases "frame pal dateNow perf ((gc_renderer c)\<lparr>gr_rafPending := False\<rparr>) (gc_store c)") auto
  show "gr_attached (gc_renderer c')" "\<not> gr_stopped (gc_renderer c')" "gr_rafPending (gc_renderer c')"
    "gr_frozenNowMs (gc_renderer c') = None" "ss_wallClockStartMs (gc_store c') = ss_wallClockStartMs (gc_store c)"
    "gr_viewport (gc_renderer c') = advanceLive (gr_viewport (gc_renderer c)) (of_int (dateNow - ss_wallClockStartMs (gc_store c)))"
    "gc_axis c' = (if gr_bgDirty (gc_renderer c) then Some (gr_viewport (gc_renderer c')) else gc_axis c)"
    "\<not> gr_bgDirty (gc_renderer c')"
    using frame_view [OF f] assms by (simp_all add: run_frame_def f scheduleFrame_def record_sample_def)
qed

text \<open>While the chart follows the present, every frame moves the viewport, but none marks the background: the time axis stays
  painted for the viewport of an earlier frame, here one that ended five minutes before.\<close>

theorem axis_falls_behind:
  "let c = run_canvas palette (emptyStore\<lparr>ss_wallClockStartMs := 1000\<rparr>) [C_mount 1000 600, C_frame 301000 0 0, C_frame 601000 0 0]
   in map_option vs_endMs (gc_axis c) = Some 360000 \<and> vs_endMs (gr_viewport (gc_renderer c)) = 660000 \<and>
      \<not> gr_bgDirty (gc_renderer c) \<and> vs_liveFollow (gr_viewport (gc_renderer c))"
proof -
  define c0 where "c0 = run_canvas palette (emptyStore\<lparr>ss_wallClockStartMs := 1000\<rparr>) [C_mount 1000 600]"
  define c1 where "c1 = run_frame palette 301000 0 0 c0"
  define c2 where "c2 = run_frame palette 601000 0 0 c1"
  have c0: "gr_attached (gc_renderer c0)" "\<not> gr_stopped (gc_renderer c0)" "gr_rafPending (gc_renderer c0)"
    "gr_frozenNowMs (gc_renderer c0) = None" "ss_wallClockStartMs (gc_store c0) = 1000" "gr_viewport (gc_renderer c0) = defaultViewport"
    "gr_bgDirty (gc_renderer c0)"
    by (simp_all add: c0_def run_canvas_def initial_canvas_def initial_renderer_def on_renderer_def resize_def mark_all_def attach_def
        scheduleFrame_def)
  have w0: "0 < ss_wallClockStartMs (gc_store c0)" by (simp add: c0)
  note c1 = live_frame [OF c0(1-4) w0 c1_def, unfolded c0]
  have w1: "0 < ss_wallClockStartMs (gc_store c1)" by (simp add: c1)
  note c2 = live_frame [OF c1(1-4) w1 c2_def, unfolded c1]
  have "run_canvas palette (emptyStore\<lparr>ss_wallClockStartMs := 1000\<rparr>) [C_mount 1000 600, C_frame 301000 0 0, C_frame 601000 0 0] = c2"
    by (simp add: c2_def c1_def c0_def run_canvas_def)
  then show ?thesis
    using c2 c1 c0(7) by (simp add: Let_def advanceLive_def clampEnd_def defaultViewport_def)
qed

text \<open>The overlay pass asks for another frame while a clicked delegation pulses, but the frame then clears the flag it set: when
  the chart is frozen, the next frame does not paint the overlay, and the stroke neither fades nor goes away.\<close>

theorem pulse_forgotten:
  assumes "frame palette dateNow perf (g\<lparr>gr_frozenNowMs := Some t\<rparr>) st = (g', st', b1, b2, b3)"
    and "frame palette dateNow' perf' g' st' = (g'', st'', b1', b2', b3')"
  shows "\<not> b3'"
  using frame_view [OF assms(1)] frame_view [OF assms(2)] by simp

end
