(* ===== verification/Spec2Isabelle.thy ===== *)
theory Spec2Isabelle
  imports WatchInvariant Popovers Thinking Interventions Shortcuts Trajectory GanttRenderer
begin

text \<open>
  A verification development of the harmonograf frontend (\<open>frontend/src\<close>, TypeScript).

  \<^bold>\<open>The program.\<close> harmonograf shows the live timeline of a multi-agent session. The server streams updates of one session
  (\<open>rpc/hooks.ts\<close>); each update is converted from its protobuf message (\<open>rpc/convert.ts\<close>) or, for the events of the
  goldfive orchestrator, routed (\<open>rpc/goldfiveEvent.ts\<close>) into the stores of a \<open>SessionStore\<close> (\<open>gantt/index.ts\<close>): the
  agent rows, the span index (\<open>gantt/spatialIndex.ts\<close>), the task plans, seven logs of events, the context series
  and the plan history (\<open>state/planHistoryStore.ts\<close>). Small client-side stores hold approvals, annotations and
  popovers (\<open>state/\<close>), the state of the console (\<open>state/uiStore.ts\<close>) and the interventions fetched from the server. The
  views read the stores through queries and derived values: the Gantt canvas (\<open>gantt/renderer.ts\<close>) paints bars, links
  and bands and answers the pointer; the sequence diagram, the trajectory view, the detail panes and the zicato console
  compute their figures from the same stores.

  \<^bold>\<open>Theories and sources.\<close>
  \<^item> \<open>Prelude\<close>: how TypeScript is read in HOL (maps and sets in insertion order, strings, the stable sort, the binary
    search and splice loops) with the facts the components share.
  \<^item> \<open>GanttTypes\<close>: the data model, \<open>gantt/types.ts\<close>.
  \<^item> \<open>Agents\<close>: \<open>AgentRegistry\<close>; an object is kept once, in \<open>ar_byId\<close>, the row array holds ids.
  \<^item> \<open>Tasks\<close>: \<open>TaskRegistry\<close> and \<open>computePlanDiff\<close>; plan objects live in the explicit store \<open>tr_heap\<close>, because recorded
    revisions share the task objects that later status updates write.
  \<^item> \<open>Registries\<close>: the drift, cancel, transition, refine attempt, refine failure, user message and delegation registries;
    the locales \<open>timed_log\<close>, \<open>event_log\<close> and \<open>dedup_log\<close> state their contract and are interpreted on all seven.
  \<^item> \<open>ContextSeries\<close>: \<open>ContextSeriesRegistry\<close>.
  \<^item> \<open>SpanIndex\<close>: \<open>gantt/spatialIndex.ts\<close>, with the bucketed viewport query and its bounded backward walk.
  \<^item> \<open>PlanHistory\<close>: \<open>state/planHistoryStore.ts\<close> and its derived views.
  \<^item> \<open>Thinking\<close>: \<open>lib/thinking.ts\<close>.
  \<^item> \<open>Session\<close>: \<open>SessionStore\<close>, which composes the registries; the current task, the orchestration timeline, the rebase of
    relative times, the merge of the two orchestrator rows.
  \<^item> \<open>Layout\<close>: \<open>gantt/layout.ts\<close>, the packing of a row's spans into lanes.
  \<^item> \<open>Stores\<close>: \<open>state/approvalsStore.ts\<close> and \<open>state/annotationStore.ts\<close>, two interpretations of the locale \<open>keyed_rows\<close>.
  \<^item> \<open>Popovers\<close>: \<open>state/popoverStore.ts\<close>.
  \<^item> \<open>Wire\<close>: \<open>rpc/convert.ts\<close>.
  \<^item> \<open>GoldfiveEvent\<close>: \<open>rpc/goldfiveEvent.ts\<close>, one definition per handler and per synthesized span.
  \<^item> \<open>StoreInvariant\<close>: the invariant \<open>store_ok\<close> of a whole session store, kept by every operation and handler, and the
    properties of the goldfive events.
  \<^item> \<open>PlanLoader\<close>: \<open>state/planHistoryLoader.ts\<close>.
  \<^item> \<open>Watch\<close>: \<open>rpc/hooks.ts\<close>, the dispatch loop of the stream with one definition per arm, subscriptions, control events and
    posted annotations.
  \<^item> \<open>WatchInvariant\<close>: the reachable states of a watched session as an inductive relation, their invariant, and the
    properties that span the components.
  \<^item> \<open>Stages\<close>: \<open>gantt/stages.ts\<close>, the layering of a plan; \<open>computeStages\<close> is \<open>None\<close> where the code would throw.
  \<^item> \<open>Interventions\<close>: \<open>lib/interventions.ts\<close> and \<open>state/interventionsStore.ts\<close>, with the fetches in flight as part of the state.
  \<^item> \<open>Viewports\<close>: \<open>gantt/viewport.ts\<close>, the commands of the renderer that write the viewport, the minimap
    (\<open>components/Gantt/Minimap.tsx\<close>), \<open>views/graphViewport.ts\<close> and \<open>zicato/ganttViewport.ts\<close>.
  \<^item> \<open>UiStore\<close>: \<open>state/uiStore.ts\<close> with \<open>localStorage\<close>; \<open>Shortcuts\<close>: \<open>lib/shortcuts.ts\<close> over it.
  \<^item> \<open>Details\<close>: \<open>lib/interventionDetail.ts\<close> and \<open>lib/goldfiveSpan.ts\<close>.
  \<^item> \<open>Sequence\<close>: \<open>computeSequence\<close> of \<open>views/GraphView.tsx\<close>.
  \<^item> \<open>Trajectory\<close>: \<open>views/TrajectoryView.tsx\<close>, its view model, plan graph, differences and handlers.
  \<^item> \<open>ZicatoPlan\<close> and \<open>Zicato\<close>: \<open>components/zicato/adapter.ts\<close>, the plan figure and the other figures, and \<open>theme/agentColors.ts\<close>.
  \<^item> \<open>GanttRows\<close>, \<open>GanttCurves\<close>, \<open>GanttPaint\<close>, \<open>GanttOverlay\<close> and \<open>GanttRenderer\<close>: \<open>gantt/renderer.ts\<close> with
    \<open>gantt/colors.ts\<close> and \<open>gantt/contextOverlay.ts\<close>: rows, lanes and hit tests; curves and their hit tests; what the blocks
    pass draws; the context and intervention bands and the time axis; the handlers and the frame loop. The fields of
    \<open>GanttRenderer\<close> are the record \<open>gantt_renderer\<close>, the callbacks it makes the list \<open>gr_calls\<close>.

  \<^bold>\<open>What the lemmas show.\<close> For each registry: an invariant of every reachable state, the behaviour of each operation, and
  what replays do. For the span index: queries are sound, duplicate-free and complete within 65536 ms before the left
  edge. For the lanes: no overlap, and as many lanes as the maximal concurrency. For the plan history: the first delivery
  of a revision wins, the cumulative plan and the supersedes map are complete. For approvals and annotations: refinement
  of a partial map. For the watch: every reachable state is well formed, an ended session becomes inactive, live rows
  are packed without overlap, an optimistic annotation is replaced. For the plan layouts: stages are longest chains,
  cyclic plans end too and lose no task, the critical path has one task per stage. For the sequence diagram: calls point
  right, and exactly which cycles keep its loop running. For the settings and shortcuts: settings survive a reload, the
  reachable bindings, the order in which the keys visit the spans. For the interventions: the fetches refine the
  protocol of one call at a time and no request is lost. For the trajectory and the zicato figures: every drift, task,
  call and span has its place. For the Gantt: the viewport stays in its limits, the pointer hits what is drawn, links
  meet bars, lanes tile their rows, the bands stay in their rows and count every intervention, and the painted layer is
  never out of date without a repaint due. Some theorems record where the code departs from its comments or its intent.

  \<^bold>\<open>Conventions and bounds.\<close> Timestamps are \<open>int\<close>; JavaScript numbers are exact for integers below \<open>2^53\<close>, and the wire
  values are integral milliseconds. Viewports, pixels and frame times are \<open>rat\<close>: floating-point rounding, infinities and
  NaN are left out, a division by zero is treated as the code's result where it is reached (a zoom by 0), distances are
  compared by their squares. No fuel is used. Loops are structural recursions and folds; the binary searches terminate by
  \<open>hi - lo\<close>, the tick loop by the distance to the end, and the worklists of the plan layouts by the work left. Two loops of the
  source have no bound of their own, the levels of the sequence diagram (\<open>seq_levels\<close>) and the walk back along the critical
  path (\<open>crit_walk\<close>): they are \<open>partial_function (option)\<close>, \<open>None\<close> is a call that does not return, and when they return
  is a theorem. Elsewhere \<open>None\<close> of \<open>computeStages\<close>, \<open>buildViewModel\<close> and the zicato rows is a call that throws. Clock readings,
  the JSON parser, the collation of \<open>localeCompare\<close>, the colour palette, the custom properties of the style sheet, the
  exponential of the wheel and the replies of the client are parameters. \<open>localStorage\<close> accepts or refuses writes for a
  whole run: a quota that is reached half way through is not modelled. A notification is a counter or a list of what was
  sent; who listens is not modelled, except for the renderer. Strings are ASCII: case conversion and number parsing are
  those of ASCII, and arrows and ellipses in labels are one-character stand-ins.

  \<^bold>\<open>Not modelled.\<close> The calls on the 2D context, the gutter, the labels and the strokes of the overlay in \<open>gantt/renderer.ts\<close>; the
  JSX of the React components and the hooks that only render; the generated protobuf code, the Connect transport and
  client, and the mock and stress data; the session list polling, the payload download, the hash routes, the collapsed
  layout, and \<open>state/planHistory.ts\<close>, which nothing imports. They draw, call libraries, or are generated.
\<close>

end
